(* ===== verification/Prelude.thy ===== *)
theory Prelude
  imports Main "HOL-Library.Word"
begin

text \<open>
  Shared ground of the development: the machine types of the C sources (an LP64
  target, as the build under \<^verbatim>\<open>src/openssl-3.4.0\<close> is configured for
  \<^verbatim>\<open>linux-x86_64\<close>), the collections of rewrite rules the component
  theories use, and the generic facts on words, intervals and lists that several
  components need.
\<close>

section \<open>Machine types\<close>

type_synonym u8 = "8 word"
type_synonym u16 = "16 word"
type_synonym u32 = "32 word"
type_synonym u64 = "64 word"

text \<open>\<open>size_t\<close> and \<open>uint64_t\<close> are both 64 bits wide on the target.\<close>

abbreviation UINT64_MAX :: u64 where
  "UINT64_MAX \<equiv> - 1"

abbreviation SIZE_MAX :: nat where
  "SIZE_MAX \<equiv> 18446744073709551615"

section \<open>Collections\<close>

named_theorems safe_math_defs \<open>definitions of the checked arithmetic helpers\<close>
named_theorems word_unat \<open>rules that move a word computation to \<open>nat\<close>\<close>

section \<open>Words read as natural numbers\<close>

lemma unat_add_exact [word_unat]:
  fixes a b :: "'a::len word"
  assumes "unat a + unat b < 2 ^ LENGTH('a)"
  shows "unat (a + b) = unat a + unat b"
  using assms by (simp add: unat_word_ariths)

lemma unat_mult_exact [word_unat]:
  fixes a b :: "'a::len word"
  assumes "unat a * unat b < 2 ^ LENGTH('a)"
  shows "unat (a * b) = unat a * unat b"
  using assms by (simp add: unat_word_ariths)

lemma unat_sub_exact [word_unat]:
  fixes a b :: "'a::len word"
  assumes "b \<le> a"
  shows "unat (a - b) = unat a - unat b"
  using assms by (rule unat_sub)

lemma unat_bound [simp]: "unat (a :: 'a::len word) < 2 ^ LENGTH('a)"
  by (rule unsigned_less)

lemma unat_u64_bound: "unat (a :: u64) < 18446744073709551616"
  using unat_bound [of a] by simp

lemma unat_minus_one_word: "unat (- 1 :: 'a::len word) = 2 ^ LENGTH('a) - 1"
  by (simp add: unsigned_minus_1_eq_mask mask_eq_exp_minus_1)

lemma unat_of_nat_less: "n < 2 ^ LENGTH('a) \<Longrightarrow> unat (of_nat n :: 'a::len word) = n"
  by (simp add: unsigned_of_nat take_bit_nat_eq_self)

lemma unat_of_nat_u64: "n < 18446744073709551616 \<Longrightarrow> unat (of_nat n :: u64) = n"
  by (rule unat_of_nat_less) simp

text \<open>The successor of a word that is below another word does not wrap around.\<close>

lemma unat_Suc_less:
  fixes a b :: "'a::len word"
  assumes "a < b"
  shows "unat (a + 1) = Suc (unat a)"
proof -
  from assms have "Suc (unat a) \<le> unat b" by (simp add: word_less_nat_alt)
  with unat_bound [of b] have "unat a + unat (1 :: 'a word) < 2 ^ LENGTH('a)"
    by (simp add: order.strict_trans1)
  then show ?thesis by (simp add: unat_add_exact)
qed

lemma unat_pred_pos:
  fixes a b :: "'a::len word"
  assumes "b < a"
  shows "unat (a - 1) = unat a - 1"
proof -
  from assms have "0 < unat a" by (simp add: word_less_nat_alt)
  then have "1 \<le> a" by (simp add: word_le_nat_alt Suc_leI)
  then show ?thesis by (simp add: unat_sub)
qed

text \<open>Comparisons with a successor or a predecessor that does not wrap around.\<close>

lemma word_plus1_le_iff:
  "(a :: 'a::len word) < b \<Longrightarrow> a + 1 \<le> v \<longleftrightarrow> a < v"
  by (simp add: word_le_nat_alt word_less_nat_alt unat_Suc_less Suc_le_eq)

lemma word_le_minus1_iff:
  "(a :: 'a::len word) < b \<Longrightarrow> v \<le> b - 1 \<longleftrightarrow> v < b"
  by (simp add: word_le_nat_alt word_less_nat_alt unat_pred_pos) linarith

section \<open>Intervals of words\<close>

lemma word_interval_join:
  fixes a b c :: "'a::len word"
  assumes "a \<le> b" "b < c"
  shows "{a..b} \<union> {b + 1..c} = {a..c}"
  using assms unat_Suc_less [OF assms(2)]
  by (auto simp: word_le_nat_alt word_less_nat_alt)

section \<open>Sums over a store\<close>

text \<open>Updating one cell of a store changes a sum over the store by that cell alone.\<close>

lemma sum_store_upd:
  fixes f :: "'b \<Rightarrow> nat"
  assumes "finite S" "s \<in> S"
  shows "(\<Sum>x \<in> S. f ((h(s := v)) x)) + f (h s) = (\<Sum>x \<in> S. f (h x)) + f v"
proof -
  have "(\<Sum>x \<in> S - {s}. f ((h(s := v)) x)) = (\<Sum>x \<in> S - {s}. f (h x))"
    by (rule sum.cong) auto
  then show ?thesis using assms by (simp add: sum.remove [of S s])
qed

lemma sum_store_other:
  "s \<notin> S \<Longrightarrow> (\<Sum>x \<in> S. f ((h(s := v)) x)) = (\<Sum>x \<in> S. f (h x))"
  by (rule sum.cong) auto

section \<open>Bytes in network order\<close>

text \<open>The \<open>n\<close> low bytes of a value, most significant first, and the value of such bytes.\<close>

primrec be_bytes :: "nat \<Rightarrow> u64 \<Rightarrow> u8 list" where
  "be_bytes 0 v = []"
| "be_bytes (Suc n) v = be_bytes n (drop_bit 8 v) @ [ucast v]"

definition be_val :: "u8 list \<Rightarrow> u64" where
  "be_val bs = foldl (\<lambda>v b. or (push_bit 8 v) (ucast b)) 0 bs"

lemma length_be_bytes [simp]: "length (be_bytes n v) = n"
  by (induction n arbitrary: v) simp_all

lemma be_bytes_add: "be_bytes (m + n) v = be_bytes m (drop_bit (8 * n) v) @ be_bytes n v"
  by (induction n arbitrary: v) (simp_all add: add.commute)

lemma be_bytes_unfold:
  "be_bytes 1 v = [ucast v]"
  "be_bytes 2 v = [ucast (drop_bit 8 v), ucast v]"
  "be_bytes 3 v = [ucast (drop_bit 16 v), ucast (drop_bit 8 v), ucast v]"
  "be_bytes 4 v = [ucast (drop_bit 24 v), ucast (drop_bit 16 v), ucast (drop_bit 8 v), ucast v]"
  "be_bytes 8 v = [ucast (drop_bit 56 v), ucast (drop_bit 48 v), ucast (drop_bit 40 v), ucast (drop_bit 32 v),
     ucast (drop_bit 24 v), ucast (drop_bit 16 v), ucast (drop_bit 8 v), ucast v]"
proof -
  show 1: "be_bytes 1 v = [ucast v]" for v by simp
  show 2: "be_bytes 2 v = [ucast (drop_bit 8 v), ucast v]" for v
    using be_bytes_add [of 1 1 v] by (simp add: numeral_2_eq_2)
  show "be_bytes 3 v = [ucast (drop_bit 16 v), ucast (drop_bit 8 v), ucast v]"
    using be_bytes_add [of 2 1 v] by (simp add: 2)
  show 4: "be_bytes 4 v = [ucast (drop_bit 24 v), ucast (drop_bit 16 v), ucast (drop_bit 8 v), ucast v]" for v
    using be_bytes_add [of 2 2 v] by (simp add: 2)
  show "be_bytes 8 v = [ucast (drop_bit 56 v), ucast (drop_bit 48 v), ucast (drop_bit 40 v),
     ucast (drop_bit 32 v), ucast (drop_bit 24 v), ucast (drop_bit 16 v), ucast (drop_bit 8 v), ucast v]"
    using be_bytes_add [of 4 4 v] by (simp add: 4)
qed

lemma be_val_Nil [simp]: "be_val [] = 0"
  by (simp add: be_val_def)

lemma be_val_snoc [simp]: "be_val (bs @ [b]) = or (push_bit 8 (be_val bs)) (ucast b)"
  by (simp add: be_val_def)

lemma be_val_be_bytes: "be_val (be_bytes n v) = take_bit (8 * n) v"
proof (induction n arbitrary: v)
  case (Suc n)
  have "or (push_bit 8 (take_bit (8 * n) (drop_bit 8 v))) (ucast (ucast v :: u8)) = take_bit (8 + 8 * n) v"
    by (rule bit_eqI) (auto simp: bit_simps not_less)
  with Suc show ?case by simp
qed simp

lemma be_val_bit: "bit (be_val bs) n \<Longrightarrow> n < 8 * length bs"
proof (induction bs arbitrary: n rule: rev_induct)
  case (snoc b bs)
  show ?case
  proof (cases "n < 8")
    case False
    with snoc.prems have "bit (be_val bs) (n - 8)"
      by (auto simp: bit_simps dest: bit_imp_le_length)
    with snoc.IH [of "n - 8"] show ?thesis using False by simp
  qed simp
qed simp

lemma be_bytes_be_val: "length bs \<le> 8 \<Longrightarrow> be_bytes (length bs) (be_val bs) = bs"
proof (induction bs rule: rev_induct)
  case (snoc b bs)
  have "drop_bit 8 (or (push_bit 8 (be_val bs)) (ucast b)) = be_val bs"
  proof (rule bit_eqI)
    fix n
    have "bit (be_val bs) n \<Longrightarrow> n < 56" using be_val_bit [of bs n] snoc.prems by simp
    then show "bit (drop_bit 8 (or (push_bit 8 (be_val bs)) (ucast b))) n = bit (be_val bs) n"
      by (auto simp: bit_simps dest: bit_imp_le_length)
  qed
  moreover have "ucast (or (push_bit 8 (be_val bs)) (ucast b)) = b"
    by (rule bit_eqI) (auto simp: bit_simps)
  ultimately show ?case using snoc by simp
qed simp

lemma take_bit_unat_self: "unat v < 2 ^ n \<Longrightarrow> take_bit n v = v" for v :: "'a::len word"
  by (rule word_unat_eq_iff [THEN iffD2]) (simp add: unsigned_take_bit_eq take_bit_nat_eq_self)

lemma be_val_be_bytes_self: "unat v < 2 ^ (8 * n) \<Longrightarrow> be_val (be_bytes n v) = v"
  by (simp add: be_val_be_bytes take_bit_unat_self)

lemma be_val_be_bytes_8 [simp]: "be_val (be_bytes 8 v) = v"
  using unat_bound [of v] by (intro be_val_be_bytes_self) simp

section \<open>Memory\<close>

text \<open>\<^verbatim>\<open>memcpy\<close> of bytes to a position of a buffer.\<close>

definition overwrite :: "u8 list \<Rightarrow> nat \<Rightarrow> u8 list \<Rightarrow> u8 list" where
  "overwrite buf off bs = take off buf @ bs @ drop (off + length bs) buf"

lemma length_overwrite: "off + length bs \<le> length buf \<Longrightarrow> length (overwrite buf off bs) = length buf"
  by (simp add: overwrite_def)

end
