(* ===== verification/SafeMath.thy ===== *)
theory SafeMath
  imports Prelude
begin

text \<open>
  The overflow-checked arithmetic of \<^verbatim>\<open>include/internal/safe_math.h\<close>
  (unsigned family) and the saturating clock type built on it in
  \<^verbatim>\<open>include/internal/time.h\<close>. The macros are instantiated per C type, so the
  definitions are polymorphic in the word width. \<open>int *err\<close> is a flag that the helpers
  only ever set (\<^verbatim>\<open>*err |= 1\<close>): it is passed in and returned. The header
  has two variants of addition and multiplication, one on compiler builtins and one in
  plain C, selected by the preprocessor; both are modelled and shown equal.
\<close>

section \<open>Checked unsigned arithmetic\<close>

type_synonym 'a checked = "'a word \<times> bool"

definition builtin_add_overflow :: "'a::len word \<Rightarrow> 'a word \<Rightarrow> bool" where
  "builtin_add_overflow a b \<longleftrightarrow> 2 ^ LENGTH('a) \<le> unat a + unat b"

definition builtin_mul_overflow :: "'a::len word \<Rightarrow> 'a word \<Rightarrow> bool" where
  "builtin_mul_overflow a b \<longleftrightarrow> 2 ^ LENGTH('a) \<le> unat a * unat b"

definition safe_add :: "'a::len word \<Rightarrow> 'a word \<Rightarrow> bool \<Rightarrow> 'a checked" where
  [safe_math_defs]: "safe_add a b err =
     (if \<not> builtin_add_overflow a b then (a + b, err) else (a + b, True))"

definition safe_add_portable :: "'a::len word \<Rightarrow> 'a word \<Rightarrow> bool \<Rightarrow> 'a checked" where
  "safe_add_portable a b err =
     (let err = (if b > - 1 - a then True else err) in (a + b, err))"

definition safe_sub :: "'a::len word \<Rightarrow> 'a word \<Rightarrow> bool \<Rightarrow> 'a checked" where
  [safe_math_defs]: "safe_sub a b err =
     (let err = (if b > a then True else err) in (a - b, err))"

definition safe_mul :: "'a::len word \<Rightarrow> 'a word \<Rightarrow> bool \<Rightarrow> 'a checked" where
  [safe_math_defs]: "safe_mul a b err =
     (if \<not> builtin_mul_overflow a b then (a * b, err) else (a * b, True))"

definition safe_mul_portable :: "'a::len word \<Rightarrow> 'a word \<Rightarrow> bool \<Rightarrow> 'a checked" where
  "safe_mul_portable a b err =
     (let err = (if b \<noteq> 0 \<and> a > (- 1) div b then True else err) in (a * b, err))"

definition safe_div :: "'a::len word \<Rightarrow> 'a word \<Rightarrow> bool \<Rightarrow> 'a checked" where
  [safe_math_defs]: "safe_div a b err = (if b \<noteq> 0 then (a div b, err) else (- 1, True))"

definition safe_mod :: "'a::len word \<Rightarrow> 'a word \<Rightarrow> bool \<Rightarrow> 'a checked" where
  [safe_math_defs]: "safe_mod a b err = (if b \<noteq> 0 then (a mod b, err) else (0, True))"

definition safe_neg :: "'a::len word \<Rightarrow> bool \<Rightarrow> 'a checked" where
  "safe_neg a err = (if a = 0 then (a, err) else (1 + not a, True))"

definition safe_abs :: "'a::len word \<Rightarrow> bool \<Rightarrow> 'a checked" where
  "safe_abs a err = (a, err)"

definition safe_muldiv ::
  "'a::len word \<Rightarrow> 'a word \<Rightarrow> 'a word \<Rightarrow> bool \<Rightarrow> 'a checked" where
  "safe_muldiv a b c err =
     (if c = 0 then (if a = 0 \<or> b = 0 then 0 else - 1, True)
      else
        let (x, e2) = safe_mul a b False in
        if \<not> e2 then (x div c, err)
        else
          let (a, b) = (if b > a then (b, a) else (a, b));
              (x, err) = safe_mul (a mod c) b err;
              (y, err) = safe_mul (a div c) b err
          in safe_add y (x div c) err)"

definition safe_div_round_up ::
  "'a::len word \<Rightarrow> 'a word \<Rightarrow> bool \<Rightarrow> 'a checked" where
  "safe_div_round_up a b err =
     (if b > 0 \<and> a > 0 then
        (if a < - 1 - b then ((a + b - 1) div b, err)
         else (a div b + (if a mod b \<noteq> 0 then 1 else 0), err))
      else if b = 0 then (if a = 0 then 0 else - 1, True)
      else if a = 0 then (0, err)
      else
        let (x, err) = safe_mod a b err;
            (q, err) = safe_div a b err
        in safe_add q (if x \<noteq> 0 then 1 else 0) err)"

section \<open>The clock type\<close>

text \<open>\<open>OSSL_TIME\<close> wraps one \<open>uint64_t\<close> field, the ticks since the epoch.\<close>

type_synonym ossl_time = u64

definition OSSL_TIME_SECOND :: u64 where "OSSL_TIME_SECOND = 1000000000"
definition OSSL_TIME_MS :: u64 where "OSSL_TIME_MS = OSSL_TIME_SECOND div 1000"
definition OSSL_TIME_US :: u64 where "OSSL_TIME_US = OSSL_TIME_MS div 1000"

definition ossl_ticks2time :: "u64 \<Rightarrow> ossl_time" where "ossl_ticks2time ticks = ticks"
definition ossl_time2ticks :: "ossl_time \<Rightarrow> u64" where "ossl_time2ticks t = t"
definition ossl_time_zero :: ossl_time where "ossl_time_zero = ossl_ticks2time 0"
definition ossl_time_infinite :: ossl_time where
  "ossl_time_infinite = ossl_ticks2time (not 0)"

definition ossl_time_compare :: "ossl_time \<Rightarrow> ossl_time \<Rightarrow> int" where
  "ossl_time_compare a b = (if a > b then 1 else if a < b then - 1 else 0)"

definition ossl_time_is_zero :: "ossl_time \<Rightarrow> bool" where
  "ossl_time_is_zero t \<longleftrightarrow> ossl_time_compare t ossl_time_zero = 0"

definition ossl_time_is_infinite :: "ossl_time \<Rightarrow> bool" where
  "ossl_time_is_infinite t \<longleftrightarrow> ossl_time_compare t ossl_time_infinite = 0"

definition ossl_time_add :: "ossl_time \<Rightarrow> ossl_time \<Rightarrow> ossl_time" where
  "ossl_time_add a b =
     (let (r, err) = safe_add a b False in if err then ossl_time_infinite else r)"

definition ossl_time_subtract :: "ossl_time \<Rightarrow> ossl_time \<Rightarrow> ossl_time" where
  "ossl_time_subtract a b =
     (let (r, err) = safe_sub a b False in if err then ossl_time_zero else r)"

definition ossl_time_abs_difference :: "ossl_time \<Rightarrow> ossl_time \<Rightarrow> ossl_time" where
  "ossl_time_abs_difference a b =
     (if a > b then ossl_time_subtract a b else ossl_time_subtract b a)"

definition ossl_time_multiply :: "ossl_time \<Rightarrow> u64 \<Rightarrow> ossl_time" where
  "ossl_time_multiply a b =
     (let (r, err) = safe_mul a b False in if err then ossl_time_infinite else r)"

definition ossl_time_divide :: "ossl_time \<Rightarrow> u64 \<Rightarrow> ossl_time" where
  "ossl_time_divide a b =
     (let (r, err) = safe_div a b False in if err then ossl_time_zero else r)"

definition ossl_time_muldiv :: "ossl_time \<Rightarrow> u64 \<Rightarrow> u64 \<Rightarrow> ossl_time" where
  "ossl_time_muldiv a b c =
     (let (r, err) = safe_muldiv a b c False in if err then ossl_time_zero else r)"

definition ossl_time_max :: "ossl_time \<Rightarrow> ossl_time \<Rightarrow> ossl_time" where
  "ossl_time_max a b = (if a > b then a else b)"

definition ossl_time_min :: "ossl_time \<Rightarrow> ossl_time \<Rightarrow> ossl_time" where
  "ossl_time_min a b = (if a < b then a else b)"

text \<open>
  \<open>struct timeval\<close>: seconds and microseconds are signed 64-bit values on the target.
\<close>

record timeval =
  tv_sec :: "64 word"
  tv_usec :: "64 word"

definition ossl_time_to_timeval :: "ossl_time \<Rightarrow> timeval" where
  "ossl_time_to_timeval t =
     (let (t', err) = safe_add t (OSSL_TIME_US - 1) False;
          t = (if err then ossl_time_infinite else t')
      in \<lparr>tv_sec = t div OSSL_TIME_SECOND,
          tv_usec = (t mod OSSL_TIME_SECOND) div OSSL_TIME_US\<rparr>)"

definition ossl_time_from_timeval :: "timeval \<Rightarrow> ossl_time" where
  "ossl_time_from_timeval tv =
     (if sint (tv_sec tv) < 0 then ossl_time_zero
      else tv_sec tv * OSSL_TIME_SECOND + tv_usec tv * OSSL_TIME_US)"

definition ossl_time_to_time_t :: "ossl_time \<Rightarrow> u64" where
  "ossl_time_to_time_t t = t div OSSL_TIME_SECOND"

definition ossl_time_from_time_t :: "u64 \<Rightarrow> ossl_time" where
  "ossl_time_from_time_t t = t * OSSL_TIME_SECOND"

section \<open>Lemmas: checked arithmetic\<close>

lemma safe_add_ok:
  "safe_add a b err = (r, False) \<longleftrightarrow>
     \<not> err \<and> r = a + b \<and> unat a + unat b < 2 ^ LENGTH('a)"
  for a b :: "'a::len word"
  by (auto simp: safe_add_def builtin_add_overflow_def not_le)

lemma safe_mul_ok:
  "safe_mul a b err = (r, False) \<longleftrightarrow>
     \<not> err \<and> r = a * b \<and> unat a * unat b < 2 ^ LENGTH('a)"
  for a b :: "'a::len word"
  by (auto simp: safe_mul_def builtin_mul_overflow_def not_le)

lemma safe_sub_ok:
  "safe_sub a b err = (r, False) \<longleftrightarrow> \<not> err \<and> r = a - b \<and> b \<le> a"
  by (auto simp: safe_sub_def Let_def)

lemma add_overflow_code [code]: "builtin_add_overflow a b \<longleftrightarrow> b > - 1 - a"
  for a b :: "'a::len word"
proof -
  have "unat (- 1 - a) = 2 ^ LENGTH('a) - 1 - unat a"
    by (subst unat_sub_exact) (simp_all add: unat_minus_one_word)
  moreover have "unat a < 2 ^ LENGTH('a)" by simp
  ultimately show ?thesis
    unfolding builtin_add_overflow_def word_less_nat_alt by linarith
qed

lemma safe_add_portable_eq: "safe_add_portable a b err = safe_add a b err"
  for a b :: "'a::len word"
proof -
  have "b > - 1 - a \<longleftrightarrow> builtin_add_overflow a b" by (simp add: add_overflow_code)
  then show ?thesis by (simp add: safe_add_portable_def safe_add_def Let_def)
qed

lemma safe_mul_portable_eq: "safe_mul_portable a b err = safe_mul a b err"
  for a b :: "'a::len word"
proof -
  have "b \<noteq> 0 \<and> a > (- 1) div b \<longleftrightarrow> builtin_mul_overflow a b"
  proof (cases "b = 0")
    case True
    then show ?thesis by (simp add: builtin_mul_overflow_def)
  next
    case False
    then have pos: "0 < unat b" by (simp add: unat_gt_0)
    have "a > (- 1) div b \<longleftrightarrow> (2 ^ LENGTH('a) - 1) div unat b < unat a"
      by (simp add: word_less_nat_alt unat_div unat_minus_one_word)
    also have "\<dots> \<longleftrightarrow> 2 ^ LENGTH('a) - 1 < unat a * unat b"
      using pos by (simp add: div_less_iff_less_mult)
    also have "\<dots> \<longleftrightarrow> 2 ^ LENGTH('a) \<le> unat a * unat b"
    proof -
      have "(0::nat) < 2 ^ LENGTH('a)" by simp
      then show ?thesis by linarith
    qed
    finally show ?thesis using False by (simp add: builtin_mul_overflow_def)
  qed
  then show ?thesis by (simp add: safe_mul_portable_def safe_mul_def Let_def)
qed

lemma muldiv_split: "a div c * b + a mod c * b div c = a * b div c" for a b c :: nat
proof (cases "c = 0")
  case False
  have "a * b = (a div c * c + a mod c) * b" by simp
  also have "\<dots> = a mod c * b + a div c * b * c" 
    by (simp only: add_mult_distrib) (simp only: ac_simps)
  finally show ?thesis using False by simp
qed simp

lemma safe_muldiv_cases:
  fixes a b c :: "'a::len word"
  assumes "c \<noteq> 0"
  defines "m \<equiv> max a b" and "n \<equiv> min a b"
  shows "safe_muldiv a b c False =
    (if unat a * unat b < 2 ^ LENGTH('a) then (a * b div c, False)
     else (m div c * n + m mod c * n div c,
           \<not> (unat (m mod c) * unat n < 2 ^ LENGTH('a)
            \<and> unat (m div c) * unat n < 2 ^ LENGTH('a)
            \<and> unat (m div c * n) + unat (m mod c * n div c) < 2 ^ LENGTH('a))))"
  using assms(1)
  by (auto simp: safe_muldiv_def safe_mul_def safe_add_def builtin_mul_overflow_def
      builtin_add_overflow_def m_def n_def max_def min_def Let_def not_le)

lemma unat_max_min_mult: "unat (max a b) * unat (min a b) = unat a * unat b"
  for a b :: "'a::len word"
  by (simp add: max_def min_def)

lemma safe_muldiv_exact:
  fixes a b c r :: "'a::len word"
  assumes ok: "safe_muldiv a b c False = (r, False)"
  shows "c \<noteq> 0" and "unat r = unat a * unat b div unat c"
proof -
  show c: "c \<noteq> 0" using ok by (auto simp: safe_muldiv_def)
  let ?m = "max a b" and ?n = "min a b"
  show "unat r = unat a * unat b div unat c"
  proof (cases "unat a * unat b < 2 ^ LENGTH('a)")
    case True
    with ok c show ?thesis
      by (auto simp: safe_muldiv_cases unat_div unat_mult_exact)
  next
    case False
    with ok c have r: "r = ?m div c * ?n + ?m mod c * ?n div c"
      and 1: "unat (?m mod c) * unat ?n < 2 ^ LENGTH('a)"
      and 2: "unat (?m div c) * unat ?n < 2 ^ LENGTH('a)"
      and 3: "unat (?m div c * ?n) + unat (?m mod c * ?n div c) < 2 ^ LENGTH('a)"
      by (auto simp: safe_muldiv_cases split: if_splits)
    have "unat r = unat ?m div unat c * unat ?n + unat ?m mod unat c * unat ?n div unat c"
      using 1 2 3 unfolding r by (simp add: unat_add_exact unat_mult_exact unat_div unat_mod)
    then show ?thesis by (simp add: muldiv_split unat_max_min_mult)
  qed
qed

lemma safe_muldiv_complete:
  fixes a b c :: "'a::len word"
  assumes c: "c \<noteq> 0"
    and fits: "unat a * unat b div unat c < 2 ^ LENGTH('a)"
    and small: "unat (min a b) * unat c \<le> 2 ^ LENGTH('a)"
  shows "\<exists>r. safe_muldiv a b c False = (r, False)"
proof -
  let ?m = "max a b" and ?n = "min a b"
  have sum: "unat ?m div unat c * unat ?n + unat ?m mod unat c * unat ?n div unat c
      < 2 ^ LENGTH('a)"
    using fits by (simp add: muldiv_split unat_max_min_mult)
  have cpos: "0 < unat c" using c by (simp add: unat_gt_0)
  have "unat ?m mod unat c * unat ?n < 2 ^ LENGTH('a)"
  proof (cases "unat ?n = 0")
    case False
    then have "unat ?m mod unat c * unat ?n < unat c * unat ?n" using cpos by simp
    also have "\<dots> \<le> 2 ^ LENGTH('a)" using small by (simp add: mult.commute)
    finally show ?thesis .
  qed (metis mult_0_right zero_less_numeral zero_less_power)
  moreover from sum have "unat ?m div unat c * unat ?n < 2 ^ LENGTH('a)" by linarith
  ultimately show ?thesis
    using c sum by (auto simp: safe_muldiv_cases unat_div unat_mod unat_mult_exact)
qed

lemma ceil_div: "0 < b \<Longrightarrow> (a + b - 1) div b = a div b + (if a mod b \<noteq> 0 then 1 else 0)"
  for a b :: nat
proof -
  assume b: "0 < b"
  have "a + b - 1 = (a mod b + b - 1) + a div b * b"
    using b div_mult_mod_eq [of a b] by linarith
  then have "(a + b - 1) div b = a div b + (a mod b + b - 1) div b"
    using b by (metis add.commute div_mult_self1 less_not_refl)
  also have "(a mod b + b - 1) div b = (if a mod b \<noteq> 0 then 1 else 0)"
  proof (cases "a mod b = 0")
    case False
    then have "a mod b + b - 1 = (a mod b - 1) + 1 * b" by simp
    moreover have "(a mod b - 1) div b = 0" using b by (simp add: less_imp_diff_less)
    ultimately show ?thesis using False b by (simp only: div_mult_self1) simp
  qed (use b in simp)
  finally show ?thesis .
qed

lemma safe_div_round_up_exact:
  fixes a b :: "'a::len word"
  assumes b: "b \<noteq> 0"
  shows "\<exists>r. safe_div_round_up a b err = (r, err)
     \<and> unat r = (unat a + unat b - 1) div unat b"
proof -
  have bpos: "0 < unat b" and bgt: "b > 0" using b by (simp_all add: unat_gt_0 word_gt_0)
  note ceil = ceil_div [OF bpos, of "unat a"]
  consider "a = 0" | "a > 0" "a < - 1 - b" | "a > 0" "\<not> a < - 1 - b"
    using word_gt_0 by blast
  then show ?thesis
  proof cases
    case 1
    with b bpos show ?thesis by (simp add: safe_div_round_up_def)
  next
    case 2
    have "unat (- 1 - b) = 2 ^ LENGTH('a) - 1 - unat b"
      by (subst unat_sub_exact) (simp_all add: unat_minus_one_word)
    with 2(2) have lt: "unat a + unat b < 2 ^ LENGTH('a)"
      unfolding word_less_nat_alt by linarith
    then have "1 \<le> a + b" using bpos by (simp add: word_le_nat_alt unat_add_exact)
    with lt have "unat ((a + b - 1) div b) = (unat a + unat b - 1) div unat b"
      by (simp add: unat_div unat_sub_exact unat_add_exact)
    with 2 bgt show ?thesis by (simp add: safe_div_round_up_def)
  next
    case 3
    have "unat (a div b + (if a mod b \<noteq> 0 then 1 else 0))
        = unat a div unat b + (if unat a mod unat b \<noteq> 0 then 1 else 0)"
    proof (cases "a mod b = 0")
      case True
      then show ?thesis by (simp add: unat_div flip: unat_mod)
    next
      case False
      then have "unat a mod unat b \<noteq> 0" by (metis unat_eq_zero unat_mod)
      then have apos: "0 < unat a" and "unat b \<noteq> 1" by (auto intro: Nat.gr0I)
      with bpos have "2 \<le> unat b" by linarith
      with apos have "unat a div unat b < unat a" by simp
      then have "unat a div unat b + 1 < 2 ^ LENGTH('a)" using unat_bound [of a] by linarith
      then have "unat (a div b + 1) = unat a div unat b + 1"
        by (subst unat_add_exact) (simp_all add: unat_div)
      with False \<open>unat a mod unat b \<noteq> 0\<close> show ?thesis by simp
    qed
    with 3 bgt ceil show ?thesis by (simp add: safe_div_round_up_def)
  qed
qed

section \<open>Lemmas: the clock\<close>

lemmas time_defs = ossl_time_zero_def ossl_time_infinite_def ossl_ticks2time_def
  ossl_time2ticks_def

lemma unat_time_infinite: "unat ossl_time_infinite = 2 ^ 64 - 1"
  by (simp add: time_defs unat_minus_one_word)

lemma ossl_time_add_saturates:
  "unat (ossl_time_add a b) = min (2 ^ 64 - 1) (unat a + unat b)"
  by (auto simp: ossl_time_add_def safe_add_def builtin_add_overflow_def Let_def
      unat_add_exact unat_time_infinite)

lemma ossl_time_subtract_saturates: "unat (ossl_time_subtract a b) = unat a - unat b"
  by (auto simp: ossl_time_subtract_def safe_sub_def Let_def time_defs unat_sub_exact
      word_less_nat_alt word_le_nat_alt)

lemma ossl_time_multiply_saturates:
  "unat (ossl_time_multiply a b) = min (2 ^ 64 - 1) (unat a * unat b)"
  by (auto simp: ossl_time_multiply_def safe_mul_def builtin_mul_overflow_def Let_def
      unat_mult_exact unat_time_infinite)

lemma ossl_time_divide_eq: "unat (ossl_time_divide a b) = unat a div unat b"
  by (auto simp: ossl_time_divide_def safe_div_def Let_def time_defs unat_div)

lemma ossl_time_abs_difference_sym:
  "ossl_time_abs_difference a b = ossl_time_abs_difference b a"
  by (auto simp: ossl_time_abs_difference_def)

lemma ossl_time_is_zero_iff [simp]: "ossl_time_is_zero t \<longleftrightarrow> t = 0"
  by (auto simp: ossl_time_is_zero_def ossl_time_compare_def time_defs word_gt_0)

lemma ossl_time_compare_less [simp]: "ossl_time_compare a b < 0 \<longleftrightarrow> a < b"
  by (auto simp: ossl_time_compare_def)

lemma ossl_time_max_min [simp]:
  "ossl_time_max a b = max a b" "ossl_time_min a b = min a b"
  by (auto simp: ossl_time_max_def ossl_time_min_def max_def min_def)

text \<open>
  A time converted to a \<open>timeval\<close> and back is the time rounded up to whole microseconds:
  it is never earlier, and never later by a microsecond or more.
\<close>

lemma div_mod_decompose:
  "t div s * s + (t mod s) div u * u = t - t mod u" if "u dvd s" for t s u :: nat
proof -
  from that obtain k where s: "s = u * k" by blast
  have "t mod s mod u = t mod u" using that by (rule mod_mod_cancel)
  then have "(t mod s) div u * u = t mod s - t mod u"
    by (simp add: minus_mod_eq_div_mult [symmetric])
  moreover have "t mod u \<le> t mod s"
    by (metis \<open>t mod s mod u = t mod u\<close> mod_less_eq_dividend)
  moreover have "t div s * s = t - t mod s" by (simp add: minus_mod_eq_div_mult)
  moreover have "t mod s \<le> t" by simp
  ultimately show ?thesis by linarith
qed

lemma time_units: "OSSL_TIME_SECOND = 1000000000" "OSSL_TIME_US = 1000"
  by (simp_all add: OSSL_TIME_SECOND_def OSSL_TIME_MS_def OSSL_TIME_US_def)

lemma ossl_time_timeval_roundtrip:
  assumes "unat t + 999 < 2 ^ 64"
  shows "unat (ossl_time_from_timeval (ossl_time_to_timeval t))
      = (unat t + 999) div 1000 * 1000"
proof -
  let ?t = "t + 999"
  have t: "unat ?t = unat t + 999" using assms by (simp add: unat_add_exact)
  have to: "ossl_time_to_timeval t =
      \<lparr>tv_sec = ?t div 1000000000, tv_usec = (?t mod 1000000000) div 1000\<rparr>"
    using assms
    by (simp add: ossl_time_to_timeval_def safe_add_def builtin_add_overflow_def time_units Let_def)
  have sec: "unat (?t div 1000000000) = unat ?t div 1000000000" by (simp add: unat_div)
  have "unat ?t < 2 ^ 64" using unat_bound [of ?t] by simp
  then have secb: "unat (?t div 1000000000) < 2 ^ 63" by (simp add: sec)
  then have "uint (?t div 1000000000) < 2 ^ 63"
    using of_nat_less_iff [of "unat (?t div 1000000000)" "2 ^ 63", where 'a = int] by simp
  then have "sint (?t div 1000000000) = uint (?t div 1000000000)"
    unfolding sint_uint by (intro signed_take_bit_int_eq_self) (auto intro: order_trans [of _ 0])
  then have nonneg: "\<not> sint (?t div 1000000000) < 0" by simp
  have "unat (?t div 1000000000 * 1000000000) = unat ?t div 1000000000 * 1000000000"
  proof (subst unat_mult_exact)
    have "unat ?t div 1000000000 * 1000000000 < 2 ^ 64"
      using div_times_less_eq_dividend \<open>unat ?t < 2 ^ 64\<close> by (rule le_less_trans)
    then show "unat (?t div 1000000000) * unat (1000000000 :: u64) < 2 ^ LENGTH(64)"
      by (simp only: sec) simp
  qed (simp add: sec)
  moreover have "unat ((?t mod 1000000000) div 1000 * 1000)
      = unat ?t mod 1000000000 div 1000 * 1000"
  proof (subst unat_mult_exact)
    have "unat ?t mod 1000000000 div 1000 * 1000 < 1000000000"
      by (rule le_less_trans [OF div_times_less_eq_dividend]) simp
    then show "unat (?t mod 1000000000 div 1000) * unat (1000 :: u64) < 2 ^ LENGTH(64)"
      by (simp add: unat_div unat_mod)
  qed (simp add: unat_div unat_mod)
  moreover have "unat ?t div 1000000000 * 1000000000 + unat ?t mod 1000000000 div 1000 * 1000
      = unat ?t - unat ?t mod 1000"
    by (rule div_mod_decompose) simp
  ultimately have sum: "unat (?t div 1000000000 * 1000000000)
      + unat ((?t mod 1000000000) div 1000 * 1000) = unat ?t - unat ?t mod 1000" by simp
  then have "unat (?t div 1000000000 * 1000000000 + (?t mod 1000000000) div 1000 * 1000)
      = unat ?t - unat ?t mod 1000"
    using \<open>unat ?t < 2 ^ 64\<close> by (subst unat_add_exact) simp_all
  then have "unat (ossl_time_from_timeval (ossl_time_to_timeval t))
      = unat ?t - unat ?t mod 1000"
    using nonneg to by (simp add: ossl_time_from_timeval_def time_units)
  then show ?thesis by (simp add: t minus_mod_eq_div_mult)
qed

section \<open>Properties\<close>

text \<open>C28: The multiply-and-divide helper at every width: a result it does not flag is the exact
  quotient of the unbounded product, and a quotient that fits is found without a flag
  whenever the smaller factor times the divisor fits as well.\<close>

theorem safe_muldiv_correct:
  fixes a b c :: "'a::len word"
  shows "(safe_muldiv a b c False = (r, False) \<longrightarrow> c \<noteq> 0 \<and> unat r = unat a * unat b div unat c)
    \<and> (c \<noteq> 0 \<and> unat a * unat b div unat c < 2 ^ LENGTH('a) \<and> unat (min a b) * unat c \<le> 2 ^ LENGTH('a)
         \<longrightarrow> (\<exists>r. safe_muldiv a b c False = (r, False)))"
  using safe_muldiv_exact safe_muldiv_complete by blast

theorem safe_muldiv_correct_witness:
  "safe_muldiv (200 :: u8) 6 12 False = (100, False) \<and> unat (100 :: u8) = 200 * 6 div 12
   \<and> (\<exists>r. safe_muldiv (200 :: u8) 4 60 False = (r, False))"
proof -
  have "safe_muldiv (200 :: u8) 6 12 False = (100, False)"
    by (simp add: safe_muldiv_def safe_mul_def safe_add_def builtin_mul_overflow_def
        builtin_add_overflow_def)
  then show ?thesis
    using safe_muldiv_correct [of "200 :: u8" 6 12 100] safe_muldiv_correct [of "200 :: u8" 4 60]
    by simp
qed

text \<open>C29: The two preprocessor variants of checked addition and multiplication, on compiler
  builtins and in plain C, compute the same result and the same flag on every input of
  every width.\<close>

theorem safe_math_variants_agree:
  fixes a b :: "'a::len word"
  shows "safe_add_portable a b err = safe_add a b err \<and> safe_mul_portable a b err = safe_mul a b err"
  using safe_add_portable_eq safe_mul_portable_eq by blast

text \<open>C30: Time arithmetic saturates: sums and products stop at the infinite time, differences
  at zero, and quotients and absolute differences are exact.\<close>

theorem ossl_time_saturates:
  "unat (ossl_time_add a b) = min (unat ossl_time_infinite) (unat a + unat b)
   \<and> unat (ossl_time_multiply a b) = min (unat ossl_time_infinite) (unat a * unat b)
   \<and> unat (ossl_time_subtract a b) = unat a - unat b
   \<and> unat (ossl_time_divide a b) = unat a div unat b
   \<and> unat (ossl_time_abs_difference a b) = (unat a - unat b) + (unat b - unat a)"
proof -
  have "unat (ossl_time_abs_difference a b) = (unat a - unat b) + (unat b - unat a)"
    by (simp add: ossl_time_abs_difference_def ossl_time_subtract_saturates word_less_nat_alt)
  then show ?thesis
    by (simp add: ossl_time_add_saturates ossl_time_multiply_saturates ossl_time_subtract_saturates
        ossl_time_divide_eq unat_time_infinite)
qed

text \<open>C28: A time converted to a \<^verbatim>\<open>struct timeval\<close> and back is the time rounded up to whole
  microseconds, for every time less than a microsecond short of the infinite one.\<close>

theorem ossl_timeval_roundtrip:
  "unat t + 999 < 2 ^ 64 \<Longrightarrow>
   unat (ossl_time_from_timeval (ossl_time_to_timeval t)) = (unat t + 999) div 1000 * 1000"
  by (rule ossl_time_timeval_roundtrip)

theorem ossl_timeval_roundtrip_witness:
  "unat (1500000001 :: ossl_time) + 999 < 2 ^ 64
   \<and> unat (ossl_time_from_timeval (ossl_time_to_timeval 1500000001)) = 1500001000"
  using ossl_timeval_roundtrip [of 1500000001] by simp

text \<open>Unlike the other operations, the multiply-and-divide of times does not saturate: on
  overflow its result is zero, where the multiplication alone gives the infinite time.\<close>

theorem ossl_time_muldiv_overflow_is_zero:
  "ossl_time_muldiv (2 ^ 63) 4 1 = ossl_time_zero \<and> ossl_time_multiply (2 ^ 63) 4 = ossl_time_infinite"
  by (simp add: ossl_time_muldiv_def ossl_time_multiply_def safe_muldiv_def safe_mul_def safe_add_def
      builtin_mul_overflow_def builtin_add_overflow_def Let_def)

end
