(* ===== verification/QuicTypes.thy ===== *)
theory QuicTypes
  imports SafeMath
begin

text \<open>
  The types the QUIC components share: \<^verbatim>\<open>include/internal/quic_types.h\<close> and the first
  part of \<^verbatim>\<open>include/internal/quic_wire.h\<close> (frame types, the logical representations
  of frames), the transport error codes of \<^verbatim>\<open>include/openssl/quic.h\<close>, and the two
  functions of \<^verbatim>\<open>ssl/quic/quic_wire.c\<close> that name frame types and errors. A C array
  of fixed size is a list, a bit field a truth value, and a pointer to bytes the memory from
  there on (\<open>None\<close> for \<open>NULL\<close>), as for the packet reader.
\<close>

named_theorems frame_types \<open>values of the frame types\<close>
named_theorems quic_errors \<open>values of the transport error codes\<close>

section \<open>Encryption levels, packet numbers, connection identifiers\<close>

definition QUIC_ENC_LEVEL_INITIAL :: u32 where [frame_types]: "QUIC_ENC_LEVEL_INITIAL = 0"
definition QUIC_ENC_LEVEL_HANDSHAKE :: u32 where [frame_types]: "QUIC_ENC_LEVEL_HANDSHAKE = 1"
definition QUIC_ENC_LEVEL_0RTT :: u32 where [frame_types]: "QUIC_ENC_LEVEL_0RTT = 2"
definition QUIC_ENC_LEVEL_1RTT :: u32 where [frame_types]: "QUIC_ENC_LEVEL_1RTT = 3"
definition QUIC_ENC_LEVEL_NUM :: u32 where [frame_types]: "QUIC_ENC_LEVEL_NUM = 4"
definition QUIC_PN_SPACE_INITIAL :: u32 where [frame_types]: "QUIC_PN_SPACE_INITIAL = 0"
definition QUIC_PN_SPACE_HANDSHAKE :: u32 where [frame_types]: "QUIC_PN_SPACE_HANDSHAKE = 1"
definition QUIC_PN_SPACE_APP :: u32 where [frame_types]: "QUIC_PN_SPACE_APP = 2"
definition QUIC_PN_SPACE_NUM :: u32 where [frame_types]: "QUIC_PN_SPACE_NUM = 3"

definition ossl_quic_enc_level_to_pn_space :: "u32 \<Rightarrow> u32" where
  "ossl_quic_enc_level_to_pn_space enc_level =
     (if enc_level = QUIC_ENC_LEVEL_INITIAL then QUIC_PN_SPACE_INITIAL
      else if enc_level = QUIC_ENC_LEVEL_HANDSHAKE then QUIC_PN_SPACE_HANDSHAKE
      else if enc_level = QUIC_ENC_LEVEL_0RTT \<or> enc_level = QUIC_ENC_LEVEL_1RTT then QUIC_PN_SPACE_APP
      else QUIC_PN_SPACE_APP)"

type_synonym QUIC_PN = u64

definition QUIC_PN_INVALID :: QUIC_PN where "QUIC_PN_INVALID = UINT64_MAX"

definition ossl_quic_pn_max :: "QUIC_PN \<Rightarrow> QUIC_PN \<Rightarrow> QUIC_PN" where
  "ossl_quic_pn_max a b = (if a > b then a else b)"

definition ossl_quic_pn_min :: "QUIC_PN \<Rightarrow> QUIC_PN \<Rightarrow> QUIC_PN" where
  "ossl_quic_pn_min a b = (if a < b then a else b)"

definition ossl_quic_pn_valid :: "QUIC_PN \<Rightarrow> bool" where
  "ossl_quic_pn_valid pn \<longleftrightarrow> pn < push_bit 62 1"

definition QUIC_MAX_CONN_ID_LEN :: nat where "QUIC_MAX_CONN_ID_LEN = 20"

record QUIC_CONN_ID =
  id_len :: u8
  cid_id :: "u8 list"

definition ossl_quic_conn_id_eq :: "QUIC_CONN_ID \<Rightarrow> QUIC_CONN_ID \<Rightarrow> bool" where
  "ossl_quic_conn_id_eq a b =
     (if id_len a \<noteq> id_len b \<or> unat (id_len a) > QUIC_MAX_CONN_ID_LEN then False
      else take (unat (id_len a)) (cid_id a) = take (unat (id_len a)) (cid_id b))"

definition QUIC_STATELESS_RESET_TOKEN_LEN :: nat where "QUIC_STATELESS_RESET_TOKEN_LEN = 16"

definition QUIC_MIN_ENCODED_PREFERRED_ADDR_LEN :: nat where "QUIC_MIN_ENCODED_PREFERRED_ADDR_LEN = 41"
definition QUIC_MAX_ENCODED_PREFERRED_ADDR_LEN :: nat where "QUIC_MAX_ENCODED_PREFERRED_ADDR_LEN = 61"

section \<open>Frame types\<close>

definition OSSL_QUIC_FRAME_TYPE_PADDING :: u64 where [frame_types]: "OSSL_QUIC_FRAME_TYPE_PADDING = 0x00"
definition OSSL_QUIC_FRAME_TYPE_PING :: u64 where [frame_types]: "OSSL_QUIC_FRAME_TYPE_PING = 0x01"
definition OSSL_QUIC_FRAME_TYPE_ACK_WITHOUT_ECN :: u64 where [frame_types]: "OSSL_QUIC_FRAME_TYPE_ACK_WITHOUT_ECN = 0x02"
definition OSSL_QUIC_FRAME_TYPE_ACK_WITH_ECN :: u64 where [frame_types]: "OSSL_QUIC_FRAME_TYPE_ACK_WITH_ECN = 0x03"
definition OSSL_QUIC_FRAME_TYPE_RESET_STREAM :: u64 where [frame_types]: "OSSL_QUIC_FRAME_TYPE_RESET_STREAM = 0x04"
definition OSSL_QUIC_FRAME_TYPE_STOP_SENDING :: u64 where [frame_types]: "OSSL_QUIC_FRAME_TYPE_STOP_SENDING = 0x05"
definition OSSL_QUIC_FRAME_TYPE_CRYPTO :: u64 where [frame_types]: "OSSL_QUIC_FRAME_TYPE_CRYPTO = 0x06"
definition OSSL_QUIC_FRAME_TYPE_NEW_TOKEN :: u64 where [frame_types]: "OSSL_QUIC_FRAME_TYPE_NEW_TOKEN = 0x07"
definition OSSL_QUIC_FRAME_TYPE_MAX_DATA :: u64 where [frame_types]: "OSSL_QUIC_FRAME_TYPE_MAX_DATA = 0x10"
definition OSSL_QUIC_FRAME_TYPE_MAX_STREAM_DATA :: u64 where [frame_types]: "OSSL_QUIC_FRAME_TYPE_MAX_STREAM_DATA = 0x11"
definition OSSL_QUIC_FRAME_TYPE_MAX_STREAMS_BIDI :: u64 where [frame_types]: "OSSL_QUIC_FRAME_TYPE_MAX_STREAMS_BIDI = 0x12"
definition OSSL_QUIC_FRAME_TYPE_MAX_STREAMS_UNI :: u64 where [frame_types]: "OSSL_QUIC_FRAME_TYPE_MAX_STREAMS_UNI = 0x13"
definition OSSL_QUIC_FRAME_TYPE_DATA_BLOCKED :: u64 where [frame_types]: "OSSL_QUIC_FRAME_TYPE_DATA_BLOCKED = 0x14"
definition OSSL_QUIC_FRAME_TYPE_STREAM_DATA_BLOCKED :: u64 where [frame_types]: "OSSL_QUIC_FRAME_TYPE_STREAM_DATA_BLOCKED = 0x15"
definition OSSL_QUIC_FRAME_TYPE_STREAMS_BLOCKED_BIDI :: u64 where [frame_types]: "OSSL_QUIC_FRAME_TYPE_STREAMS_BLOCKED_BIDI = 0x16"
definition OSSL_QUIC_FRAME_TYPE_STREAMS_BLOCKED_UNI :: u64 where [frame_types]: "OSSL_QUIC_FRAME_TYPE_STREAMS_BLOCKED_UNI = 0x17"
definition OSSL_QUIC_FRAME_TYPE_NEW_CONN_ID :: u64 where [frame_types]: "OSSL_QUIC_FRAME_TYPE_NEW_CONN_ID = 0x18"
definition OSSL_QUIC_FRAME_TYPE_RETIRE_CONN_ID :: u64 where [frame_types]: "OSSL_QUIC_FRAME_TYPE_RETIRE_CONN_ID = 0x19"
definition OSSL_QUIC_FRAME_TYPE_PATH_CHALLENGE :: u64 where [frame_types]: "OSSL_QUIC_FRAME_TYPE_PATH_CHALLENGE = 0x1A"
definition OSSL_QUIC_FRAME_TYPE_PATH_RESPONSE :: u64 where [frame_types]: "OSSL_QUIC_FRAME_TYPE_PATH_RESPONSE = 0x1B"
definition OSSL_QUIC_FRAME_TYPE_CONN_CLOSE_TRANSPORT :: u64 where [frame_types]: "OSSL_QUIC_FRAME_TYPE_CONN_CLOSE_TRANSPORT = 0x1C"
definition OSSL_QUIC_FRAME_TYPE_CONN_CLOSE_APP :: u64 where [frame_types]: "OSSL_QUIC_FRAME_TYPE_CONN_CLOSE_APP = 0x1D"
definition OSSL_QUIC_FRAME_TYPE_HANDSHAKE_DONE :: u64 where [frame_types]: "OSSL_QUIC_FRAME_TYPE_HANDSHAKE_DONE = 0x1E"
definition OSSL_QUIC_FRAME_TYPE_STREAM :: u64 where [frame_types]: "OSSL_QUIC_FRAME_TYPE_STREAM = 0x08"
definition OSSL_QUIC_FRAME_FLAG_STREAM_FIN :: u64 where [frame_types]: "OSSL_QUIC_FRAME_FLAG_STREAM_FIN = 0x01"
definition OSSL_QUIC_FRAME_FLAG_STREAM_LEN :: u64 where [frame_types]: "OSSL_QUIC_FRAME_FLAG_STREAM_LEN = 0x02"
definition OSSL_QUIC_FRAME_FLAG_STREAM_OFF :: u64 where [frame_types]: "OSSL_QUIC_FRAME_FLAG_STREAM_OFF = 0x04"
definition OSSL_QUIC_FRAME_FLAG_STREAM_MASK :: u64 where [frame_types]: "OSSL_QUIC_FRAME_FLAG_STREAM_MASK = 0x07"

definition OSSL_QUIC_FRAME_TYPE_STREAM_FIN :: u64 where [frame_types]:
  "OSSL_QUIC_FRAME_TYPE_STREAM_FIN = or OSSL_QUIC_FRAME_TYPE_STREAM OSSL_QUIC_FRAME_FLAG_STREAM_FIN"
definition OSSL_QUIC_FRAME_TYPE_STREAM_LEN :: u64 where [frame_types]:
  "OSSL_QUIC_FRAME_TYPE_STREAM_LEN = or OSSL_QUIC_FRAME_TYPE_STREAM OSSL_QUIC_FRAME_FLAG_STREAM_LEN"
definition OSSL_QUIC_FRAME_TYPE_STREAM_LEN_FIN :: u64 where [frame_types]:
  "OSSL_QUIC_FRAME_TYPE_STREAM_LEN_FIN = or (or OSSL_QUIC_FRAME_TYPE_STREAM OSSL_QUIC_FRAME_FLAG_STREAM_LEN) OSSL_QUIC_FRAME_FLAG_STREAM_FIN"
definition OSSL_QUIC_FRAME_TYPE_STREAM_OFF :: u64 where [frame_types]:
  "OSSL_QUIC_FRAME_TYPE_STREAM_OFF = or OSSL_QUIC_FRAME_TYPE_STREAM OSSL_QUIC_FRAME_FLAG_STREAM_OFF"
definition OSSL_QUIC_FRAME_TYPE_STREAM_OFF_FIN :: u64 where [frame_types]:
  "OSSL_QUIC_FRAME_TYPE_STREAM_OFF_FIN = or (or OSSL_QUIC_FRAME_TYPE_STREAM OSSL_QUIC_FRAME_FLAG_STREAM_OFF) OSSL_QUIC_FRAME_FLAG_STREAM_FIN"
definition OSSL_QUIC_FRAME_TYPE_STREAM_OFF_LEN :: u64 where [frame_types]:
  "OSSL_QUIC_FRAME_TYPE_STREAM_OFF_LEN = or (or OSSL_QUIC_FRAME_TYPE_STREAM OSSL_QUIC_FRAME_FLAG_STREAM_OFF) OSSL_QUIC_FRAME_FLAG_STREAM_LEN"
definition OSSL_QUIC_FRAME_TYPE_STREAM_OFF_LEN_FIN :: u64 where [frame_types]:
  "OSSL_QUIC_FRAME_TYPE_STREAM_OFF_LEN_FIN = or (or (or OSSL_QUIC_FRAME_TYPE_STREAM OSSL_QUIC_FRAME_FLAG_STREAM_OFF) OSSL_QUIC_FRAME_FLAG_STREAM_LEN) OSSL_QUIC_FRAME_FLAG_STREAM_FIN"

definition OSSL_QUIC_FRAME_TYPE_IS_STREAM :: "u64 \<Rightarrow> bool" where
  "OSSL_QUIC_FRAME_TYPE_IS_STREAM x \<longleftrightarrow> and x (not OSSL_QUIC_FRAME_FLAG_STREAM_MASK) = OSSL_QUIC_FRAME_TYPE_STREAM"

definition OSSL_QUIC_FRAME_TYPE_IS_ACK :: "u64 \<Rightarrow> bool" where
  "OSSL_QUIC_FRAME_TYPE_IS_ACK x \<longleftrightarrow> and x (not 1) = OSSL_QUIC_FRAME_TYPE_ACK_WITHOUT_ECN"

definition OSSL_QUIC_FRAME_TYPE_IS_MAX_STREAMS :: "u64 \<Rightarrow> bool" where
  "OSSL_QUIC_FRAME_TYPE_IS_MAX_STREAMS x \<longleftrightarrow> and x (not 1) = OSSL_QUIC_FRAME_TYPE_MAX_STREAMS_BIDI"

definition OSSL_QUIC_FRAME_TYPE_IS_STREAMS_BLOCKED :: "u64 \<Rightarrow> bool" where
  "OSSL_QUIC_FRAME_TYPE_IS_STREAMS_BLOCKED x \<longleftrightarrow> and x (not 1) = OSSL_QUIC_FRAME_TYPE_STREAMS_BLOCKED_BIDI"

definition OSSL_QUIC_FRAME_TYPE_IS_CONN_CLOSE :: "u64 \<Rightarrow> bool" where
  "OSSL_QUIC_FRAME_TYPE_IS_CONN_CLOSE x \<longleftrightarrow> and x (not 1) = OSSL_QUIC_FRAME_TYPE_CONN_CLOSE_TRANSPORT"

definition ossl_quic_frame_type_is_ack_eliciting :: "u64 \<Rightarrow> bool" where
  "ossl_quic_frame_type_is_ack_eliciting frame_type =
     (if frame_type = OSSL_QUIC_FRAME_TYPE_PADDING
        \<or> frame_type = OSSL_QUIC_FRAME_TYPE_ACK_WITHOUT_ECN
        \<or> frame_type = OSSL_QUIC_FRAME_TYPE_ACK_WITH_ECN
        \<or> frame_type = OSSL_QUIC_FRAME_TYPE_CONN_CLOSE_TRANSPORT
        \<or> frame_type = OSSL_QUIC_FRAME_TYPE_CONN_CLOSE_APP then False
      else True)"

definition QUIC_TPARAM_PREFERRED_ADDR :: u64 where "QUIC_TPARAM_PREFERRED_ADDR = 0x0D"

definition ossl_quic_frame_type_to_string :: "u64 \<Rightarrow> string option" where
  "ossl_quic_frame_type_to_string frame_type =
     (if frame_type = OSSL_QUIC_FRAME_TYPE_PADDING then Some ''PADDING''
      else if frame_type = OSSL_QUIC_FRAME_TYPE_PING then Some ''PING''
      else if frame_type = OSSL_QUIC_FRAME_TYPE_ACK_WITHOUT_ECN then Some ''ACK_WITHOUT_ECN''
      else if frame_type = OSSL_QUIC_FRAME_TYPE_ACK_WITH_ECN then Some ''ACK_WITH_ECN''
      else if frame_type = OSSL_QUIC_FRAME_TYPE_RESET_STREAM then Some ''RESET_STREAM''
      else if frame_type = OSSL_QUIC_FRAME_TYPE_STOP_SENDING then Some ''STOP_SENDING''
      else if frame_type = OSSL_QUIC_FRAME_TYPE_CRYPTO then Some ''CRYPTO''
      else if frame_type = OSSL_QUIC_FRAME_TYPE_NEW_TOKEN then Some ''NEW_TOKEN''
      else if frame_type = OSSL_QUIC_FRAME_TYPE_MAX_DATA then Some ''MAX_DATA''
      else if frame_type = OSSL_QUIC_FRAME_TYPE_MAX_STREAM_DATA then Some ''MAX_STREAM_DATA''
      else if frame_type = OSSL_QUIC_FRAME_TYPE_MAX_STREAMS_BIDI then Some ''MAX_STREAMS_BIDI''
      else if frame_type = OSSL_QUIC_FRAME_TYPE_MAX_STREAMS_UNI then Some ''MAX_STREAMS_UNI''
      else if frame_type = OSSL_QUIC_FRAME_TYPE_DATA_BLOCKED then Some ''DATA_BLOCKED''
      else if frame_type = OSSL_QUIC_FRAME_TYPE_STREAM_DATA_BLOCKED then Some ''STREAM_DATA_BLOCKED''
      else if frame_type = OSSL_QUIC_FRAME_TYPE_STREAMS_BLOCKED_BIDI then Some ''STREAMS_BLOCKED_BIDI''
      else if frame_type = OSSL_QUIC_FRAME_TYPE_STREAMS_BLOCKED_UNI then Some ''STREAMS_BLOCKED_UNI''
      else if frame_type = OSSL_QUIC_FRAME_TYPE_NEW_CONN_ID then Some ''NEW_CONN_ID''
      else if frame_type = OSSL_QUIC_FRAME_TYPE_RETIRE_CONN_ID then Some ''RETIRE_CONN_ID''
      else if frame_type = OSSL_QUIC_FRAME_TYPE_PATH_CHALLENGE then Some ''PATH_CHALLENGE''
      else if frame_type = OSSL_QUIC_FRAME_TYPE_PATH_RESPONSE then Some ''PATH_RESPONSE''
      else if frame_type = OSSL_QUIC_FRAME_TYPE_CONN_CLOSE_TRANSPORT then Some ''CONN_CLOSE_TRANSPORT''
      else if frame_type = OSSL_QUIC_FRAME_TYPE_CONN_CLOSE_APP then Some ''CONN_CLOSE_APP''
      else if frame_type = OSSL_QUIC_FRAME_TYPE_HANDSHAKE_DONE then Some ''HANDSHAKE_DONE''
      else if frame_type = OSSL_QUIC_FRAME_TYPE_STREAM then Some ''STREAM''
      else if frame_type = OSSL_QUIC_FRAME_TYPE_STREAM_FIN then Some ''STREAM_FIN''
      else if frame_type = OSSL_QUIC_FRAME_TYPE_STREAM_LEN then Some ''STREAM_LEN''
      else if frame_type = OSSL_QUIC_FRAME_TYPE_STREAM_LEN_FIN then Some ''STREAM_LEN_FIN''
      else if frame_type = OSSL_QUIC_FRAME_TYPE_STREAM_OFF then Some ''STREAM_OFF''
      else if frame_type = OSSL_QUIC_FRAME_TYPE_STREAM_OFF_FIN then Some ''STREAM_OFF_FIN''
      else if frame_type = OSSL_QUIC_FRAME_TYPE_STREAM_OFF_LEN then Some ''STREAM_OFF_LEN''
      else if frame_type = OSSL_QUIC_FRAME_TYPE_STREAM_OFF_LEN_FIN then Some ''STREAM_OFF_LEN_FIN''
      else None)"

section \<open>Transport errors\<close>

text \<open>A constant takes the width of the field it is stored in.\<close>

definition OSSL_QUIC_ERR_NO_ERROR :: "'a::len word" where [quic_errors]: "OSSL_QUIC_ERR_NO_ERROR = 0x00"
definition OSSL_QUIC_ERR_INTERNAL_ERROR :: "'a::len word" where [quic_errors]: "OSSL_QUIC_ERR_INTERNAL_ERROR = 0x01"
definition OSSL_QUIC_ERR_CONNECTION_REFUSED :: "'a::len word" where [quic_errors]: "OSSL_QUIC_ERR_CONNECTION_REFUSED = 0x02"
definition OSSL_QUIC_ERR_FLOW_CONTROL_ERROR :: "'a::len word" where [quic_errors]: "OSSL_QUIC_ERR_FLOW_CONTROL_ERROR = 0x03"
definition OSSL_QUIC_ERR_STREAM_LIMIT_ERROR :: "'a::len word" where [quic_errors]: "OSSL_QUIC_ERR_STREAM_LIMIT_ERROR = 0x04"
definition OSSL_QUIC_ERR_STREAM_STATE_ERROR :: "'a::len word" where [quic_errors]: "OSSL_QUIC_ERR_STREAM_STATE_ERROR = 0x05"
definition OSSL_QUIC_ERR_FINAL_SIZE_ERROR :: "'a::len word" where [quic_errors]: "OSSL_QUIC_ERR_FINAL_SIZE_ERROR = 0x06"
definition OSSL_QUIC_ERR_FRAME_ENCODING_ERROR :: "'a::len word" where [quic_errors]: "OSSL_QUIC_ERR_FRAME_ENCODING_ERROR = 0x07"
definition OSSL_QUIC_ERR_TRANSPORT_PARAMETER_ERROR :: "'a::len word" where [quic_errors]: "OSSL_QUIC_ERR_TRANSPORT_PARAMETER_ERROR = 0x08"
definition OSSL_QUIC_ERR_CONNECTION_ID_LIMIT_ERROR :: "'a::len word" where [quic_errors]: "OSSL_QUIC_ERR_CONNECTION_ID_LIMIT_ERROR = 0x09"
definition OSSL_QUIC_ERR_PROTOCOL_VIOLATION :: "'a::len word" where [quic_errors]: "OSSL_QUIC_ERR_PROTOCOL_VIOLATION = 0x0A"
definition OSSL_QUIC_ERR_INVALID_TOKEN :: "'a::len word" where [quic_errors]: "OSSL_QUIC_ERR_INVALID_TOKEN = 0x0B"
definition OSSL_QUIC_ERR_APPLICATION_ERROR :: "'a::len word" where [quic_errors]: "OSSL_QUIC_ERR_APPLICATION_ERROR = 0x0C"
definition OSSL_QUIC_ERR_CRYPTO_BUFFER_EXCEEDED :: "'a::len word" where [quic_errors]: "OSSL_QUIC_ERR_CRYPTO_BUFFER_EXCEEDED = 0x0D"
definition OSSL_QUIC_ERR_KEY_UPDATE_ERROR :: "'a::len word" where [quic_errors]: "OSSL_QUIC_ERR_KEY_UPDATE_ERROR = 0x0E"
definition OSSL_QUIC_ERR_AEAD_LIMIT_REACHED :: "'a::len word" where [quic_errors]: "OSSL_QUIC_ERR_AEAD_LIMIT_REACHED = 0x0F"
definition OSSL_QUIC_ERR_NO_VIABLE_PATH :: "'a::len word" where [quic_errors]: "OSSL_QUIC_ERR_NO_VIABLE_PATH = 0x10"

definition ossl_quic_err_to_string :: "u64 \<Rightarrow> string option" where
  "ossl_quic_err_to_string error_code =
     (if error_code = OSSL_QUIC_ERR_NO_ERROR then Some ''NO_ERROR''
      else if error_code = OSSL_QUIC_ERR_INTERNAL_ERROR then Some ''INTERNAL_ERROR''
      else if error_code = OSSL_QUIC_ERR_CONNECTION_REFUSED then Some ''CONNECTION_REFUSED''
      else if error_code = OSSL_QUIC_ERR_FLOW_CONTROL_ERROR then Some ''FLOW_CONTROL_ERROR''
      else if error_code = OSSL_QUIC_ERR_STREAM_LIMIT_ERROR then Some ''STREAM_LIMIT_ERROR''
      else if error_code = OSSL_QUIC_ERR_STREAM_STATE_ERROR then Some ''STREAM_STATE_ERROR''
      else if error_code = OSSL_QUIC_ERR_FINAL_SIZE_ERROR then Some ''FINAL_SIZE_ERROR''
      else if error_code = OSSL_QUIC_ERR_FRAME_ENCODING_ERROR then Some ''FRAME_ENCODING_ERROR''
      else if error_code = OSSL_QUIC_ERR_TRANSPORT_PARAMETER_ERROR then Some ''TRANSPORT_PARAMETER_ERROR''
      else if error_code = OSSL_QUIC_ERR_CONNECTION_ID_LIMIT_ERROR then Some ''CONNECTION_ID_LIMIT_ERROR''
      else if error_code = OSSL_QUIC_ERR_PROTOCOL_VIOLATION then Some ''PROTOCOL_VIOLATION''
      else if error_code = OSSL_QUIC_ERR_INVALID_TOKEN then Some ''INVALID_TOKEN''
      else if error_code = OSSL_QUIC_ERR_APPLICATION_ERROR then Some ''APPLICATION_ERROR''
      else if error_code = OSSL_QUIC_ERR_CRYPTO_BUFFER_EXCEEDED then Some ''CRYPTO_BUFFER_EXCEEDED''
      else if error_code = OSSL_QUIC_ERR_KEY_UPDATE_ERROR then Some ''KEY_UPDATE_ERROR''
      else if error_code = OSSL_QUIC_ERR_AEAD_LIMIT_REACHED then Some ''AEAD_LIMIT_REACHED''
      else if error_code = OSSL_QUIC_ERR_NO_VIABLE_PATH then Some ''NO_VIABLE_PATH''
      else None)"

section \<open>Frames\<close>

record OSSL_QUIC_ACK_RANGE =
  ar_start :: QUIC_PN
  ar_end :: QUIC_PN

text \<open>\<open>ack_ranges\<close> is the whole array, of which \<open>num_ack_ranges\<close> entries are in use (or, as an
  argument of the decoder, available).\<close>

record OSSL_QUIC_FRAME_ACK =
  ack_ranges :: "OSSL_QUIC_ACK_RANGE list"
  num_ack_ranges :: nat
  delay_time :: ossl_time
  ect0 :: u64
  ect1 :: u64
  ecnce :: u64
  ecn_present :: bool

definition ossl_quic_frame_ack_contains_pn :: "OSSL_QUIC_FRAME_ACK \<Rightarrow> QUIC_PN \<Rightarrow> bool" where
  "ossl_quic_frame_ack_contains_pn ack pn \<longleftrightarrow>
     (\<exists>i \<in> set [0..<num_ack_ranges ack]. pn \<ge> ar_start (ack_ranges ack ! i) \<and> pn \<le> ar_end (ack_ranges ack ! i))"

record OSSL_QUIC_FRAME_STREAM =
  st_stream_id :: u64
  st_offset :: u64
  st_len :: u64
  st_data :: "u8 list option"
  has_explicit_len :: bool
  st_is_fin :: bool

record OSSL_QUIC_FRAME_CRYPTO =
  cr_offset :: u64
  cr_len :: u64
  cr_data :: "u8 list option"

record OSSL_QUIC_FRAME_RESET_STREAM =
  rs_stream_id :: u64
  rs_app_error_code :: u64
  rs_final_size :: u64

record OSSL_QUIC_FRAME_STOP_SENDING =
  ss_stream_id :: u64
  ss_app_error_code :: u64

record OSSL_QUIC_FRAME_NEW_CONN_ID =
  nc_seq_num :: u64
  nc_retire_prior_to :: u64
  nc_conn_id :: QUIC_CONN_ID
  nc_stateless_reset :: "u8 list"

record OSSL_QUIC_FRAME_CONN_CLOSE =
  cc_is_app :: bool
  cc_error_code :: u64
  cc_frame_type :: u64
  cc_reason :: "u8 list"
  cc_reason_len :: nat

record QUIC_PREFERRED_ADDR =
  pa_ipv4_port :: u16
  pa_ipv6_port :: u16
  pa_ipv4 :: "u8 list"
  pa_ipv6 :: "u8 list"
  pa_stateless_reset :: "u8 list"
  pa_cid :: QUIC_CONN_ID

section \<open>Lemmas\<close>

lemma ossl_quic_conn_id_eq_refl: "unat (id_len a) \<le> 20 \<Longrightarrow> ossl_quic_conn_id_eq a a"
  by (simp add: ossl_quic_conn_id_eq_def QUIC_MAX_CONN_ID_LEN_def)

lemma ossl_quic_conn_id_eq_sym: "ossl_quic_conn_id_eq a b \<Longrightarrow> ossl_quic_conn_id_eq b a"
  by (auto simp: ossl_quic_conn_id_eq_def split: if_splits)

lemma ossl_quic_conn_id_eq_trans:
  "ossl_quic_conn_id_eq a b \<Longrightarrow> ossl_quic_conn_id_eq b c \<Longrightarrow> ossl_quic_conn_id_eq a c"
  by (auto simp: ossl_quic_conn_id_eq_def split: if_splits)

lemma ossl_quic_pn_valid_iff: "ossl_quic_pn_valid pn \<longleftrightarrow> unat pn < 2 ^ 62"
  by (simp add: ossl_quic_pn_valid_def word_less_nat_alt push_bit_eq_mult)

end
