(* ===== verification/Vlint.thy ===== *)
theory Vlint
  imports Prelude
begin

text \<open>
  The variable-length integers of QUIC: \<^verbatim>\<open>include/internal/quic_vlint.h\<close> and
  \<^verbatim>\<open>crypto/quic_vlint.c\<close>. A function that writes to a caller's buffer returns the
  bytes it writes; one that reads from a buffer takes the bytes from the pointer on.
\<close>

section \<open>Model\<close>

definition OSSL_QUIC_VLINT_2B_MIN :: u64 where "OSSL_QUIC_VLINT_2B_MIN = 64"
definition OSSL_QUIC_VLINT_4B_MIN :: u64 where "OSSL_QUIC_VLINT_4B_MIN = 16384"
definition OSSL_QUIC_VLINT_8B_MIN :: u64 where "OSSL_QUIC_VLINT_8B_MIN = 1073741824"
definition OSSL_QUIC_VLINT_MAX :: u64 where "OSSL_QUIC_VLINT_MAX = push_bit 62 1 - 1"

definition ossl_quic_vlint_encode_len :: "u64 \<Rightarrow> nat" where
  "ossl_quic_vlint_encode_len v =
     (if v < OSSL_QUIC_VLINT_2B_MIN then 1
      else if v < OSSL_QUIC_VLINT_4B_MIN then 2
      else if v < OSSL_QUIC_VLINT_8B_MIN then 4
      else if v \<le> OSSL_QUIC_VLINT_MAX then 8
      else 0)"

definition ossl_quic_vlint_encode_n :: "u64 \<Rightarrow> nat \<Rightarrow> u8 list" where
  "ossl_quic_vlint_encode_n v n =
     (if n = 1 then [ucast v]
      else if n = 2 then
        [ucast (or 0x40 (and (drop_bit 8 v) 0x3F)), ucast v]
      else if n = 4 then
        [ucast (or 0x80 (and (drop_bit 24 v) 0x3F)), ucast (drop_bit 16 v), ucast (drop_bit 8 v), ucast v]
      else
        [ucast (or 0xC0 (and (drop_bit 56 v) 0x3F)), ucast (drop_bit 48 v), ucast (drop_bit 40 v),
         ucast (drop_bit 32 v), ucast (drop_bit 24 v), ucast (drop_bit 16 v), ucast (drop_bit 8 v), ucast v])"

definition ossl_quic_vlint_encode :: "u64 \<Rightarrow> u8 list" where
  "ossl_quic_vlint_encode v = ossl_quic_vlint_encode_n v (ossl_quic_vlint_encode_len v)"

definition ossl_quic_vlint_decode_len :: "u8 \<Rightarrow> nat" where
  "ossl_quic_vlint_decode_len first_byte = 2 ^ unat (drop_bit 6 (and first_byte 0xC0))"

definition ossl_quic_vlint_decode_unchecked :: "u8 list \<Rightarrow> u64" where
  "ossl_quic_vlint_decode_unchecked buf =
     (let first_byte = buf ! 0;
          sz = ossl_quic_vlint_decode_len first_byte;
          at = (\<lambda>i k. push_bit k (ucast (buf ! i)) :: u64)
      in if sz = 1 then ucast (and first_byte 0x3F)
         else if sz = 2 then or (push_bit 8 (ucast (and first_byte 0x3F))) (at 1 0)
         else if sz = 4 then
           or (or (or (push_bit 24 (ucast (and first_byte 0x3F))) (at 1 16)) (at 2 8)) (at 3 0)
         else
           or (or (or (or (or (or (or (push_bit 56 (ucast (and first_byte 0x3F))) (at 1 48)) (at 2 40))
             (at 3 32)) (at 4 24)) (at 5 16)) (at 6 8)) (at 7 0))"

definition ossl_quic_vlint_decode :: "u8 list \<Rightarrow> nat \<Rightarrow> (nat \<times> u64) option" where
  "ossl_quic_vlint_decode buf buf_len =
     (if buf_len < 1 then None
      else
        let dec_len = ossl_quic_vlint_decode_len (buf ! 0)
        in if buf_len < dec_len then None
           else Some (dec_len, ossl_quic_vlint_decode_unchecked buf))"

section \<open>Lemmas\<close>

lemma vlint_encode_len_cases:
  "ossl_quic_vlint_encode_len v =
     (if unat v < 2 ^ 6 then 1 else if unat v < 2 ^ 14 then 2 else if unat v < 2 ^ 30 then 4
      else if unat v < 2 ^ 62 then 8 else 0)"
proof -
  have "unat OSSL_QUIC_VLINT_MAX = 2 ^ 62 - 1" by (simp add: OSSL_QUIC_VLINT_MAX_def)
  then have "v \<le> OSSL_QUIC_VLINT_MAX \<longleftrightarrow> unat v < 2 ^ 62" by (auto simp: word_le_nat_alt)
  then show ?thesis
    by (simp add: ossl_quic_vlint_encode_len_def OSSL_QUIC_VLINT_2B_MIN_def OSSL_QUIC_VLINT_4B_MIN_def
        OSSL_QUIC_VLINT_8B_MIN_def word_less_nat_alt)
qed

lemma vlint_encode_len_le:
  "ossl_quic_vlint_encode_len v \<le> 8"
  "ossl_quic_vlint_encode_len v = 0 \<longleftrightarrow> 2 ^ 62 \<le> unat v"
  by (simp_all add: vlint_encode_len_cases)

text \<open>The first byte of an encoding: the two high bits say how long it is.\<close>

lemma u8_eqI: "(\<And>n. n < 8 \<Longrightarrow> bit a n = bit b n) \<Longrightarrow> a = b" for a b :: u8
  by (rule bit_eqI) simp

lemma less_8_cases: "n < 8 \<Longrightarrow> n = 0 \<or> n = 1 \<or> n = 2 \<or> n = 3 \<or> n = 4 \<or> n = 5 \<or> n = 6 \<or> n = (7::nat)"
  by linarith

lemma vlint_first_byte:
  "drop_bit 6 (and (ucast (or 0x40 (and w 0x3F)) :: u8) 0xC0) = 1"
  "drop_bit 6 (and (ucast (or 0x80 (and w 0x3F)) :: u8) 0xC0) = 2"
  "drop_bit 6 (and (ucast (or 0xC0 (and w 0x3F)) :: u8) 0xC0) = 3"
  "and (ucast (or 0x40 (and w 0x3F)) :: u8) 0x3F = ucast (take_bit 6 w)"
  "and (ucast (or 0x80 (and w 0x3F)) :: u8) 0x3F = ucast (take_bit 6 w)"
  "and (ucast (or 0xC0 (and w 0x3F)) :: u8) 0x3F = ucast (take_bit 6 w)"
  for w :: u64
  by (rule u8_eqI, drule less_8_cases, auto simp: bit_simps)+

lemma vlint_first_byte_small:
  assumes "unat w < 2 ^ 6"
  shows "drop_bit 6 (and (ucast w :: u8) 0xC0) = 0" "and (ucast w :: u8) 0x3F = ucast (take_bit 6 w)"
proof -
  have w: "take_bit 6 w = w" using assms by (rule take_bit_unat_self)
  have "\<not> bit (take_bit 6 w) 6" "\<not> bit (take_bit 6 w) 7" by (simp_all add: bit_simps)
  then have "\<not> bit w 6" "\<not> bit w 7" by (simp_all only: w not_False_eq_True)
  then show "drop_bit 6 (and (ucast w :: u8) 0xC0) = 0"
    by (intro u8_eqI, drule_tac less_8_cases, auto simp: bit_simps)
  show "and (ucast w :: u8) 0x3F = ucast (take_bit 6 w)"
    by (rule u8_eqI, drule less_8_cases, auto simp: bit_simps)
qed

text \<open>The eight ways to put bytes together all read a number in network order.\<close>

lemma vlint_join_step:
  fixes v :: u64
  assumes "j = k + 8"
  shows "or (push_bit j (take_bit m (drop_bit j v))) (push_bit k (ucast (ucast (drop_bit k v) :: u8)))
    = push_bit k (take_bit (8 + m) (drop_bit k v))"
proof (rule bit_eqI)
  fix n
  consider "n < k" | "k \<le> n" "n < k + 8" | "k + 8 \<le> n" by linarith
  then show "bit (or (push_bit j (take_bit m (drop_bit j v))) (push_bit k (ucast (ucast (drop_bit k v) :: u8)))) n
      = bit (push_bit k (take_bit (8 + m) (drop_bit k v))) n"
    by cases (auto simp: bit_simps assms)
qed

lemma ucast_take_bit_6: "ucast (ucast (take_bit 6 v) :: u8) = take_bit 6 v" for v :: u64
  by (rule bit_eqI) (auto simp: bit_simps)

lemmas vlint_join = vlint_join_step [where k = 0 and j = 8, simplified] vlint_join_step [of 16 8, simplified]
  vlint_join_step [of 24 16, simplified] vlint_join_step [of 32 24, simplified]
  vlint_join_step [of 40 32, simplified] vlint_join_step [of 48 40, simplified]
  vlint_join_step [of 56 48, simplified]

lemma vlint_decode_encode_n:
  assumes n: "n \<in> {1, 2, 4, 8}" and v: "unat v < 2 ^ (8 * n - 2)"
  shows "length (ossl_quic_vlint_encode_n v n) = n"
    and "ossl_quic_vlint_decode_len (ossl_quic_vlint_encode_n v n ! 0) = n"
    and "ossl_quic_vlint_decode_unchecked (ossl_quic_vlint_encode_n v n @ rest) = v"
proof -
  have t: "take_bit (8 * n - 2) v = v" using v by (rule take_bit_unat_self)
  from n consider "n = 1" | "n = 2" | "n = 4" | "n = 8" by auto
  then have "length (ossl_quic_vlint_encode_n v n) = n
    \<and> ossl_quic_vlint_decode_len (ossl_quic_vlint_encode_n v n ! 0) = n
    \<and> ossl_quic_vlint_decode_unchecked (ossl_quic_vlint_encode_n v n @ rest) = v"
  proof cases
    case 1
    with v t show ?thesis
      using vlint_first_byte_small [of v] ucast_take_bit_6 [of v]
      by (simp add: ossl_quic_vlint_encode_n_def ossl_quic_vlint_decode_len_def
          ossl_quic_vlint_decode_unchecked_def ucast_take_bit_6)
  qed (use t in \<open>simp_all add: ossl_quic_vlint_encode_n_def ossl_quic_vlint_decode_len_def Let_def
      ossl_quic_vlint_decode_unchecked_def vlint_first_byte [simplified] ucast_take_bit_6 vlint_join\<close>)
  then show "length (ossl_quic_vlint_encode_n v n) = n"
    "ossl_quic_vlint_decode_len (ossl_quic_vlint_encode_n v n ! 0) = n"
    "ossl_quic_vlint_decode_unchecked (ossl_quic_vlint_encode_n v n @ rest) = v" by blast+
qed

lemma vlint_decode_len_bits:
  "ossl_quic_vlint_decode_len b =
     (if bit b 7 then if bit b 6 then 8 else 4 else if bit b 6 then 2 else 1)"
proof -
  have "drop_bit 6 (and b 0xC0) = (if bit b 7 then if bit b 6 then 3 else 2 else if bit b 6 then 1 else 0)"
    by (rule u8_eqI, drule less_8_cases, auto simp: bit_simps)
  then show ?thesis by (simp add: ossl_quic_vlint_decode_len_def)
qed

lemma vlint_decode_len_set: "ossl_quic_vlint_decode_len b \<in> {1, 2, 4, 8}"
  by (simp add: vlint_decode_len_bits)

text \<open>Decoding reads a number in network order, without the two bits of the length.\<close>

lemma vlint_decode_be_val:
  "ossl_quic_vlint_decode_unchecked bs
     = be_val (and (bs ! 0) 0x3F # map (nth bs) [1..<ossl_quic_vlint_decode_len (bs ! 0)])"
proof -
  have [simp]: "[Suc 0..<2] = [1]" "[Suc 0..<4] = [1, 2, 3]" "[Suc 0..<8] = [1, 2, 3, 4, 5, 6, 7]"
    by (simp_all add: upt_rec)
  show ?thesis
    unfolding ossl_quic_vlint_decode_unchecked_def Let_def be_val_def
    by (cases "bit (bs ! 0) 7"; cases "bit (bs ! 0) 6") (simp_all add: vlint_decode_len_bits push_bit_or)
qed

lemma be_val_Cons_bit:
  "bit (be_val (x # xs)) k \<Longrightarrow> k < 8 * length xs \<or> bit x (k - 8 * length xs)"
proof (induction xs arbitrary: k rule: rev_induct)
  case Nil
  then show ?case by (simp add: be_val_def bit_simps)
next
  case (snoc b xs)
  have "be_val (x # xs @ [b]) = or (push_bit 8 (be_val (x # xs))) (ucast b)"
    using be_val_snoc [of "x # xs" b] by simp
  then consider "8 \<le> k" "bit (be_val (x # xs)) (k - 8)" | "bit b k"
    using snoc.prems by (auto simp: bit_simps)
  then show ?case
  proof cases
    case 1
    then show ?thesis using snoc.IH [of "k - 8"] by (auto simp: algebra_simps)
  next
    case 2
    then show ?thesis using bit_imp_le_length [of b k] by simp
  qed
qed

lemma vlint_decode_bound:
  "unat (ossl_quic_vlint_decode_unchecked bs) < 2 ^ (8 * ossl_quic_vlint_decode_len (bs ! 0) - 2)"
proof -
  let ?n = "ossl_quic_vlint_decode_len (bs ! 0)" and ?v = "ossl_quic_vlint_decode_unchecked bs"
  have "0 < ?n" by (simp add: vlint_decode_len_bits)
  have "k < 8 * ?n - 2" if "bit ?v k" for k
  proof -
    have "\<not> bit (and (bs ! 0) 63) j" if "6 \<le> j" for j
    proof (cases "j < 8")
      case True
      with that have "j = 6 \<or> j = 7" by linarith
      then show ?thesis by (auto simp: bit_simps)
    qed (auto dest: bit_imp_le_length)
    then have "k < 8 * (?n - 1) \<or> k - 8 * (?n - 1) < 6"
      using be_val_Cons_bit [OF that [unfolded vlint_decode_be_val]] by (auto simp: not_less)
    with \<open>0 < ?n\<close> show ?thesis by linarith
  qed
  then have "take_bit (8 * ?n - 2) ?v = ?v" by (intro bit_eqI) (auto simp: bit_simps)
  then have "unat ?v = take_bit (8 * ?n - 2) (unat ?v)" by (metis unsigned_take_bit_eq)
  then show ?thesis by (metis take_bit_nat_less_exp)
qed

text \<open>Decoding loses nothing: the bytes can be recovered from the value and the length.\<close>

definition vlint_prefix :: "nat \<Rightarrow> u8" where
  "vlint_prefix n = (if n = 1 then 0 else if n = 2 then 0x40 else if n = 4 then 0x80 else 0xC0)"

lemma vlint_encode_n_be_bytes:
  assumes "n \<in> {1, 2, 4, 8}" "unat v < 2 ^ (8 * n - 2)"
  shows "ossl_quic_vlint_encode_n v n = or (hd (be_bytes n v)) (vlint_prefix n) # tl (be_bytes n v)"
proof -
  have t: "take_bit (8 * n - 2) v = v" using assms(2) by (rule take_bit_unat_self)
  have "bit v k \<Longrightarrow> k < 8 * n - 2" for k using t by (metis bit_take_bit_iff)
  then have "\<not> bit v (8 * n - 2)" "\<not> bit v (8 * n - 1)" by force+
  moreover have "ucast (or c (and w 0x3F)) = or (ucast w) (ucast c :: u8)"
    if "\<not> bit w 6" "\<not> bit w 7" for c w :: u64
    by (rule u8_eqI, drule less_8_cases) (use that in \<open>auto simp: bit_simps\<close>)
  ultimately show ?thesis
    using assms(1) by (auto simp: ossl_quic_vlint_encode_n_def vlint_prefix_def be_bytes_unfold bit_simps)
qed

lemma vlint_encode_decode_n:
  assumes "ossl_quic_vlint_decode_len (bs ! 0) \<le> length bs"
  shows "ossl_quic_vlint_encode_n (ossl_quic_vlint_decode_unchecked bs) (ossl_quic_vlint_decode_len (bs ! 0))
    = take (ossl_quic_vlint_decode_len (bs ! 0)) bs"
proof -
  let ?n = "ossl_quic_vlint_decode_len (bs ! 0)" and ?v = "ossl_quic_vlint_decode_unchecked bs"
  let ?x = "and (bs ! 0) 0x3F" and ?xs = "map (nth bs) [1..<?n]"
  have n: "?n \<in> {1, 2, 4, 8}" by (rule vlint_decode_len_set)
  then have "length (?x # ?xs) = ?n" "?n \<le> 8" by auto
  then have be: "be_bytes ?n ?v = ?x # ?xs"
    using be_bytes_be_val [of "?x # ?xs"] by (simp only: vlint_decode_be_val)
  have "or ?x (vlint_prefix ?n) = bs ! 0"
    by (rule u8_eqI, drule less_8_cases) (auto simp: vlint_prefix_def vlint_decode_len_bits bit_simps)
  moreover have "take ?n bs = map (nth bs) [0..<?n]" using assms by (auto intro: nth_equalityI)
  moreover have "[0..<?n] = 0 # [1..<?n]" using n by (subst upt_rec) auto
  ultimately show ?thesis
    using vlint_encode_n_be_bytes [OF n vlint_decode_bound] by (simp add: be)
qed

text \<open>The encoder proper, which picks the shortest form.\<close>

lemma vlint_encode_fits:
  assumes "unat v < 2 ^ 62"
  shows "ossl_quic_vlint_encode_len v \<in> {1, 2, 4, 8}"
    and "unat v < 2 ^ (8 * ossl_quic_vlint_encode_len v - 2)"
  using assms by (simp_all add: vlint_encode_len_cases)

lemma vlint_encode:
  assumes "unat v < 2 ^ 62"
  shows "length (ossl_quic_vlint_encode v) = ossl_quic_vlint_encode_len v"
    and "ossl_quic_vlint_encode v \<noteq> []"
    and "ossl_quic_vlint_decode_len (ossl_quic_vlint_encode v ! 0) = ossl_quic_vlint_encode_len v"
    and "ossl_quic_vlint_decode_unchecked (ossl_quic_vlint_encode v @ rest) = v"
  using vlint_decode_encode_n [OF vlint_encode_fits [OF assms]] vlint_encode_fits(1) [OF assms]
  unfolding ossl_quic_vlint_encode_def by fastforce+

lemma vlint_encode_len_minimal:
  assumes "n \<in> {1, 2, 4, 8}" "unat v < 2 ^ (8 * n - 2)"
  shows "ossl_quic_vlint_encode_len v \<le> n"
  using assms by (auto simp: vlint_encode_len_cases)

section \<open>Properties\<close>

text \<open>C34: Every integer below \<open>2 ^ 62\<close>, encoded in any admissible length and followed by
  anything, is decoded to itself, and the decoder reports the length that was used; the
  encoder uses the shortest admissible length.\<close>

theorem vlint_roundtrip:
  assumes "n \<in> {1, 2, 4, 8}" "unat v < 2 ^ (8 * n - 2)" "n \<le> buf_len"
  shows "ossl_quic_vlint_decode (ossl_quic_vlint_encode_n v n @ rest) buf_len = Some (n, v)
    \<and> ossl_quic_vlint_encode_len v \<le> n
    \<and> ossl_quic_vlint_encode v = ossl_quic_vlint_encode_n v (ossl_quic_vlint_encode_len v)"
proof -
  note d = vlint_decode_encode_n [OF assms(1,2)]
  have "ossl_quic_vlint_encode_n v n \<noteq> []" using d(1) assms(1) by auto
  then show ?thesis
    using d assms vlint_encode_len_minimal [OF assms(1,2)]
    by (auto simp: ossl_quic_vlint_decode_def nth_append ossl_quic_vlint_encode_def)
qed

theorem vlint_roundtrip_witness:
  "ossl_quic_vlint_decode (ossl_quic_vlint_encode_n 37 2 @ [1, 2]) 4 = Some (2, 37)"
  using vlint_roundtrip [of 2 37 4 "[1, 2]"] by simp

text \<open>C19: The decoder never reads beyond the length it is given, accepts every buffer that
  holds a whole integer, yields only integers below \<open>2 ^ 62\<close>, and loses nothing: from the
  integer and the length the bytes read can be written again.\<close>

theorem vlint_decode_inverse:
  assumes "ossl_quic_vlint_decode bs (length bs) = Some (n, v)"
  shows "0 < n \<and> n \<le> length bs \<and> unat v < 2 ^ 62 \<and> ossl_quic_vlint_encode_n v n = take n bs"
proof -
  from assms have n: "n = ossl_quic_vlint_decode_len (bs ! 0)" and v: "v = ossl_quic_vlint_decode_unchecked bs"
    and le: "n \<le> length bs"
    by (auto simp: ossl_quic_vlint_decode_def Let_def split: if_splits)
  have set: "n \<in> {1, 2, 4, 8}" unfolding n by (rule vlint_decode_len_set)
  have "unat v < 2 ^ (8 * n - 2)" unfolding n v by (rule vlint_decode_bound)
  also have "\<dots> \<le> (2 :: nat) ^ 62" using set by (intro power_increasing) auto
  finally show ?thesis using set le vlint_encode_decode_n [of bs] by (auto simp: n v)
qed

theorem vlint_decode_inverse_witness:
  "ossl_quic_vlint_decode [0x7b, 0xbd, 7] 3 = Some (2, 15293)
   \<and> ossl_quic_vlint_encode_n 15293 2 = [0x7b, 0xbd]"
proof -
  have "ossl_quic_vlint_decode [0x7b, 0xbd, 7] (length [0x7b, 0xbd, 7 :: u8]) = Some (2, 15293)"
    by (simp add: ossl_quic_vlint_decode_def ossl_quic_vlint_decode_len_def ossl_quic_vlint_decode_unchecked_def)
  from vlint_decode_inverse [OF this] this show ?thesis by (simp add: numeral_3_eq_3)
qed

end
