(* ===== verification/Packet.thy ===== *)
theory Packet
  imports Vlint "HOL-Library.Monad_Syntax"
begin

text \<open>
  The packet reader of \<^verbatim>\<open>include/internal/packet.h\<close> and its QUIC extension
  \<^verbatim>\<open>include/internal/packet_quic.h\<close>. A read pointer is the memory from the pointer
  to the end of the object it points into, so that a sub-packet shares the buffer of its
  packet; \<open>remaining\<close> says how much of it belongs to the packet. A getter returns \<open>None\<close>
  where the C function returns 0 (it leaves its packet alone then), and the value and the
  advanced packet where it returns 1. Sizes that count bytes of an object in memory are
  natural numbers: the guards keep them below \<open>SIZE_MAX / 2\<close>.
\<close>

section \<open>Model\<close>

record PACKET =
  p_curr :: "u8 list"
  p_remaining :: nat

definition packet_forward :: "PACKET \<Rightarrow> nat \<Rightarrow> PACKET" where
  "packet_forward pkt len =
     pkt\<lparr>p_curr := drop len (p_curr pkt), p_remaining := p_remaining pkt - len\<rparr>"

definition PACKET_remaining :: "PACKET \<Rightarrow> nat" where
  "PACKET_remaining pkt = p_remaining pkt"

definition PACKET_end :: "PACKET \<Rightarrow> u8 list" where
  "PACKET_end pkt = drop (p_remaining pkt) (p_curr pkt)"

definition PACKET_data :: "PACKET \<Rightarrow> u8 list" where
  "PACKET_data pkt = p_curr pkt"

definition PACKET_buf_init :: "u8 list \<Rightarrow> nat \<Rightarrow> PACKET option" where
  "PACKET_buf_init buf len =
     (if len > SIZE_MAX div 2 then None else Some \<lparr>p_curr = buf, p_remaining = len\<rparr>)"

definition PACKET_null_init :: PACKET where
  "PACKET_null_init = \<lparr>p_curr = [], p_remaining = 0\<rparr>"

definition PACKET_equal :: "PACKET \<Rightarrow> u8 list \<Rightarrow> nat \<Rightarrow> bool" where
  "PACKET_equal pkt ptr num =
     (if PACKET_remaining pkt \<noteq> num then False else take num (p_curr pkt) = take num ptr)"

definition PACKET_peek_sub_packet :: "PACKET \<Rightarrow> nat \<Rightarrow> PACKET option" where
  "PACKET_peek_sub_packet pkt len =
     (if PACKET_remaining pkt < len then None else PACKET_buf_init (p_curr pkt) len)"

definition PACKET_get_sub_packet :: "PACKET \<Rightarrow> nat \<Rightarrow> (PACKET \<times> PACKET) option" where
  "PACKET_get_sub_packet pkt len =
     do { subpkt \<leftarrow> PACKET_peek_sub_packet pkt len; Some (subpkt, packet_forward pkt len) }"

definition PACKET_peek_net_2 :: "PACKET \<Rightarrow> u32 option" where
  "PACKET_peek_net_2 pkt =
     (if PACKET_remaining pkt < 2 then None
      else Some (or (push_bit 8 (ucast (p_curr pkt ! 0))) (ucast (p_curr pkt ! 1))))"

definition PACKET_get_net_2 :: "PACKET \<Rightarrow> (u32 \<times> PACKET) option" where
  "PACKET_get_net_2 pkt = do { data \<leftarrow> PACKET_peek_net_2 pkt; Some (data, packet_forward pkt 2) }"

definition PACKET_get_net_2_len :: "PACKET \<Rightarrow> (nat \<times> PACKET) option" where
  "PACKET_get_net_2_len pkt = do { (i, pkt) \<leftarrow> PACKET_get_net_2 pkt; Some (unat i, pkt) }"

definition PACKET_peek_net_3 :: "PACKET \<Rightarrow> u64 option" where
  "PACKET_peek_net_3 pkt =
     (if PACKET_remaining pkt < 3 then None
      else Some (or (or (push_bit 16 (ucast (p_curr pkt ! 0))) (push_bit 8 (ucast (p_curr pkt ! 1))))
        (ucast (p_curr pkt ! 2))))"

definition PACKET_get_net_3 :: "PACKET \<Rightarrow> (u64 \<times> PACKET) option" where
  "PACKET_get_net_3 pkt = do { data \<leftarrow> PACKET_peek_net_3 pkt; Some (data, packet_forward pkt 3) }"

definition PACKET_get_net_3_len :: "PACKET \<Rightarrow> (nat \<times> PACKET) option" where
  "PACKET_get_net_3_len pkt = do { (i, pkt) \<leftarrow> PACKET_get_net_3 pkt; Some (unat i, pkt) }"

definition PACKET_peek_net_4 :: "PACKET \<Rightarrow> u64 option" where
  "PACKET_peek_net_4 pkt =
     (if PACKET_remaining pkt < 4 then None
      else Some (or (or (or (push_bit 24 (ucast (p_curr pkt ! 0))) (push_bit 16 (ucast (p_curr pkt ! 1))))
        (push_bit 8 (ucast (p_curr pkt ! 2)))) (ucast (p_curr pkt ! 3))))"

definition PACKET_peek_net_8 :: "PACKET \<Rightarrow> u64 option" where
  "PACKET_peek_net_8 pkt =
     (if PACKET_remaining pkt < 8 then None
      else Some (or (or (or (or (or (or (or (push_bit 56 (ucast (p_curr pkt ! 0)))
        (push_bit 48 (ucast (p_curr pkt ! 1)))) (push_bit 40 (ucast (p_curr pkt ! 2))))
        (push_bit 32 (ucast (p_curr pkt ! 3)))) (push_bit 24 (ucast (p_curr pkt ! 4))))
        (push_bit 16 (ucast (p_curr pkt ! 5)))) (push_bit 8 (ucast (p_curr pkt ! 6))))
        (ucast (p_curr pkt ! 7))))"

definition PACKET_get_net_4 :: "PACKET \<Rightarrow> (u64 \<times> PACKET) option" where
  "PACKET_get_net_4 pkt = do { data \<leftarrow> PACKET_peek_net_4 pkt; Some (data, packet_forward pkt 4) }"

definition PACKET_get_net_4_len :: "PACKET \<Rightarrow> (nat \<times> PACKET) option" where
  "PACKET_get_net_4_len pkt = do { (i, pkt) \<leftarrow> PACKET_get_net_4 pkt; Some (unat i, pkt) }"

definition PACKET_get_net_8 :: "PACKET \<Rightarrow> (u64 \<times> PACKET) option" where
  "PACKET_get_net_8 pkt = do { data \<leftarrow> PACKET_peek_net_8 pkt; Some (data, packet_forward pkt 8) }"

definition PACKET_peek_1 :: "PACKET \<Rightarrow> u32 option" where
  "PACKET_peek_1 pkt = (if PACKET_remaining pkt = 0 then None else Some (ucast (p_curr pkt ! 0)))"

definition PACKET_get_1 :: "PACKET \<Rightarrow> (u32 \<times> PACKET) option" where
  "PACKET_get_1 pkt = do { data \<leftarrow> PACKET_peek_1 pkt; Some (data, packet_forward pkt 1) }"

definition PACKET_get_1_len :: "PACKET \<Rightarrow> (nat \<times> PACKET) option" where
  "PACKET_get_1_len pkt = do { (i, pkt) \<leftarrow> PACKET_get_1 pkt; Some (unat i, pkt) }"

definition PACKET_peek_4 :: "PACKET \<Rightarrow> u64 option" where
  "PACKET_peek_4 pkt =
     (if PACKET_remaining pkt < 4 then None
      else Some (or (or (or (ucast (p_curr pkt ! 0)) (push_bit 8 (ucast (p_curr pkt ! 1))))
        (push_bit 16 (ucast (p_curr pkt ! 2)))) (push_bit 24 (ucast (p_curr pkt ! 3)))))"

definition PACKET_get_4 :: "PACKET \<Rightarrow> (u64 \<times> PACKET) option" where
  "PACKET_get_4 pkt = do { data \<leftarrow> PACKET_peek_4 pkt; Some (data, packet_forward pkt 4) }"

definition PACKET_peek_bytes :: "PACKET \<Rightarrow> nat \<Rightarrow> u8 list option" where
  "PACKET_peek_bytes pkt len = (if PACKET_remaining pkt < len then None else Some (p_curr pkt))"

definition PACKET_get_bytes :: "PACKET \<Rightarrow> nat \<Rightarrow> (u8 list \<times> PACKET) option" where
  "PACKET_get_bytes pkt len =
     do { data \<leftarrow> PACKET_peek_bytes pkt len; Some (data, packet_forward pkt len) }"

definition PACKET_peek_copy_bytes :: "PACKET \<Rightarrow> nat \<Rightarrow> u8 list option" where
  "PACKET_peek_copy_bytes pkt len =
     (if PACKET_remaining pkt < len then None else Some (take len (p_curr pkt)))"

definition PACKET_copy_bytes :: "PACKET \<Rightarrow> nat \<Rightarrow> (u8 list \<times> PACKET) option" where
  "PACKET_copy_bytes pkt len =
     do { data \<leftarrow> PACKET_peek_copy_bytes pkt len; Some (data, packet_forward pkt len) }"

text \<open>The number of bytes copied, with the bytes.\<close>

definition PACKET_copy_all :: "PACKET \<Rightarrow> nat \<Rightarrow> bool \<times> u8 list \<times> nat" where
  "PACKET_copy_all pkt dest_len =
     (if PACKET_remaining pkt > dest_len then (False, [], 0)
      else (True, take (p_remaining pkt) (p_curr pkt), p_remaining pkt))"

text \<open>\<open>alloc\<close> says whether the allocation succeeds; the results are the return value, the
  new buffer (\<open>None\<close> for \<open>NULL\<close>) and its length.\<close>

definition PACKET_memdup :: "bool \<Rightarrow> PACKET \<Rightarrow> bool \<times> u8 list option \<times> nat" where
  "PACKET_memdup alloc pkt =
     (let length = PACKET_remaining pkt in
      if length = 0 then (True, None, 0)
      else if \<not> alloc then (False, None, 0)
      else (True, Some (take length (p_curr pkt)), length))"

definition PACKET_strndup :: "bool \<Rightarrow> PACKET \<Rightarrow> u8 list option" where
  "PACKET_strndup alloc pkt =
     (if alloc then Some (takeWhile (\<lambda>b. b \<noteq> 0) (take (PACKET_remaining pkt) (p_curr pkt)) @ [0]) else None)"

definition PACKET_contains_zero_byte :: "PACKET \<Rightarrow> bool" where
  "PACKET_contains_zero_byte pkt \<longleftrightarrow> 0 \<in> set (take (p_remaining pkt) (p_curr pkt))"

definition PACKET_forward :: "PACKET \<Rightarrow> nat \<Rightarrow> PACKET option" where
  "PACKET_forward pkt len = (if PACKET_remaining pkt < len then None else Some (packet_forward pkt len))"

text \<open>Length-prefixed vectors: the sub-packet and the advanced packet.\<close>

definition PACKET_get_length_prefixed_1 :: "PACKET \<Rightarrow> (PACKET \<times> PACKET) option" where
  "PACKET_get_length_prefixed_1 pkt =
     do { (length, tmp) \<leftarrow> PACKET_get_1 pkt;
          (data, tmp) \<leftarrow> PACKET_get_bytes tmp (unat length);
          Some (\<lparr>p_curr = data, p_remaining = unat length\<rparr>, tmp) }"

definition PACKET_as_length_prefixed_1 :: "PACKET \<Rightarrow> (PACKET \<times> PACKET) option" where
  "PACKET_as_length_prefixed_1 pkt =
     do { (length, tmp) \<leftarrow> PACKET_get_1 pkt;
          (data, tmp) \<leftarrow> PACKET_get_bytes tmp (unat length);
          if PACKET_remaining tmp \<noteq> 0 then None
          else Some (\<lparr>p_curr = data, p_remaining = unat length\<rparr>, tmp) }"

definition PACKET_get_length_prefixed_2 :: "PACKET \<Rightarrow> (PACKET \<times> PACKET) option" where
  "PACKET_get_length_prefixed_2 pkt =
     do { (length, tmp) \<leftarrow> PACKET_get_net_2 pkt;
          (data, tmp) \<leftarrow> PACKET_get_bytes tmp (unat length);
          Some (\<lparr>p_curr = data, p_remaining = unat length\<rparr>, tmp) }"

definition PACKET_as_length_prefixed_2 :: "PACKET \<Rightarrow> (PACKET \<times> PACKET) option" where
  "PACKET_as_length_prefixed_2 pkt =
     do { (length, tmp) \<leftarrow> PACKET_get_net_2 pkt;
          (data, tmp) \<leftarrow> PACKET_get_bytes tmp (unat length);
          if PACKET_remaining tmp \<noteq> 0 then None
          else Some (\<lparr>p_curr = data, p_remaining = unat length\<rparr>, tmp) }"

definition PACKET_get_length_prefixed_3 :: "PACKET \<Rightarrow> (PACKET \<times> PACKET) option" where
  "PACKET_get_length_prefixed_3 pkt =
     do { (length, tmp) \<leftarrow> PACKET_get_net_3 pkt;
          (data, tmp) \<leftarrow> PACKET_get_bytes tmp (unat length);
          Some (\<lparr>p_curr = data, p_remaining = unat length\<rparr>, tmp) }"

definition PACKET_get_quic_vlint :: "PACKET \<Rightarrow> (u64 \<times> PACKET) option" where
  "PACKET_get_quic_vlint pkt =
     (if PACKET_remaining pkt < 1 then None
      else
        let enclen = ossl_quic_vlint_decode_len (p_curr pkt ! 0)
        in if PACKET_remaining pkt < enclen then None
           else Some (ossl_quic_vlint_decode_unchecked (p_curr pkt), packet_forward pkt enclen))"

definition PACKET_peek_quic_vlint_ex :: "PACKET \<Rightarrow> (u64 \<times> bool) option" where
  "PACKET_peek_quic_vlint_ex pkt =
     (if PACKET_remaining pkt < 1 then None
      else
        let enclen = ossl_quic_vlint_decode_len (p_curr pkt ! 0)
        in if PACKET_remaining pkt < enclen then None
           else
             let data = ossl_quic_vlint_decode_unchecked (p_curr pkt)
             in Some (data, enclen = ossl_quic_vlint_encode_len data))"

definition PACKET_peek_quic_vlint :: "PACKET \<Rightarrow> u64 option" where
  "PACKET_peek_quic_vlint pkt = map_option fst (PACKET_peek_quic_vlint_ex pkt)"

definition PACKET_skip_quic_vlint :: "PACKET \<Rightarrow> PACKET option" where
  "PACKET_skip_quic_vlint pkt =
     (if PACKET_remaining pkt < 1 then None
      else
        let enclen = ossl_quic_vlint_decode_len (p_curr pkt ! 0)
        in if PACKET_remaining pkt < enclen then None else Some (packet_forward pkt enclen))"

definition PACKET_get_quic_length_prefixed :: "PACKET \<Rightarrow> (PACKET \<times> PACKET) option" where
  "PACKET_get_quic_length_prefixed pkt =
     do { (length, tmp) \<leftarrow> PACKET_get_quic_vlint pkt;
          if unat length > SIZE_MAX then None
          else do {
            (data, tmp) \<leftarrow> PACKET_get_bytes tmp (unat length);
            Some (\<lparr>p_curr = data, p_remaining = unat length\<rparr>, tmp) } }"

section \<open>Well-formed packets and their data\<close>

definition packet_wf :: "PACKET \<Rightarrow> bool" where
  "packet_wf p \<longleftrightarrow> p_remaining p \<le> length (p_curr p)"

definition pdata :: "PACKET \<Rightarrow> u8 list" where
  "pdata p = take (p_remaining p) (p_curr p)"

lemma packet_forward_simps [simp]:
  "p_remaining (packet_forward p n) = p_remaining p - n"
  "p_curr (packet_forward p n) = drop n (p_curr p)"
  "packet_wf p \<Longrightarrow> packet_wf (packet_forward p n)"
  "pdata (packet_forward p n) = drop n (pdata p)"
  "packet_forward (packet_forward p m) n = packet_forward p (m + n)"
  "packet_forward p 0 = p"
  by (auto simp: packet_forward_def packet_wf_def pdata_def drop_take add.commute)

lemma length_pdata: "packet_wf p \<Longrightarrow> length (pdata p) = p_remaining p"
  by (simp add: packet_wf_def pdata_def)

lemma pdata_nth: "i < p_remaining p \<Longrightarrow> pdata p ! i = p_curr p ! i"
  by (simp add: pdata_def)

lemma pdata_take: "n \<le> p_remaining p \<Longrightarrow> take n (p_curr p) = take n (pdata p)"
  by (simp add: pdata_def min_def)

lemma pdata_buf_init [simp]:
  "pdata \<lparr>p_curr = bs, p_remaining = n\<rparr> = take n bs"
  "packet_wf \<lparr>p_curr = bs, p_remaining = n\<rparr> \<longleftrightarrow> n \<le> length bs"
  by (simp_all add: pdata_def packet_wf_def)

text \<open>A getter in terms of the data of its packet: how many bytes it takes, and what it
  makes of them.\<close>

lemma PACKET_get_1_eq:
  "packet_wf p \<Longrightarrow> PACKET_get_1 p =
     (case pdata p of [] \<Rightarrow> None | b # _ \<Rightarrow> Some (ucast b, packet_forward p 1))"
  using length_pdata [of p] pdata_nth [of 0 p]
  by (auto simp: PACKET_get_1_def PACKET_peek_1_def PACKET_remaining_def split: list.splits)

lemma PACKET_peek_1_eq:
  "packet_wf p \<Longrightarrow> PACKET_peek_1 p = (case pdata p of [] \<Rightarrow> None | b # _ \<Rightarrow> Some (ucast b))"
  using length_pdata [of p] pdata_nth [of 0 p]
  by (auto simp: PACKET_peek_1_def PACKET_remaining_def split: list.splits)

lemma be_val_numeral:
  "be_val [a, b] = or (push_bit 8 (ucast a)) (ucast b)"
  "be_val [a, b, c] = or (or (push_bit 16 (ucast a)) (push_bit 8 (ucast b))) (ucast c)"
  "be_val [a, b, c, d] = or (or (or (push_bit 24 (ucast a)) (push_bit 16 (ucast b))) (push_bit 8 (ucast c))) (ucast d)"
  by (simp_all add: be_val_def push_bit_or)

lemma take_pdata_nth:
  assumes "packet_wf p" "n \<le> p_remaining p"
  shows "take n (pdata p) = map (nth (p_curr p)) [0..<n]"
  using assms length_pdata [OF assms(1)] pdata_nth [of _ p] by (auto intro!: nth_equalityI)

lemma upt_unfold: "[0..<2] = [0, 1]" "[0..<3] = [0, 1, 2]" "[0..<4] = [0, 1, 2, 3]"
  "[0..<8] = [0, 1, 2, 3, 4, 5, 6, 7 :: nat]"
  by (simp_all add: upt_rec)

lemma PACKET_get_net_eq:
  assumes "packet_wf p"
  shows "PACKET_get_net_2 p = (if length (pdata p) < 2 then None
       else Some (ucast (be_val (take 2 (pdata p))), packet_forward p 2))"
    and "PACKET_get_net_3 p = (if length (pdata p) < 3 then None
       else Some (be_val (take 3 (pdata p)), packet_forward p 3))"
    and "PACKET_get_net_4 p = (if length (pdata p) < 4 then None
       else Some (be_val (take 4 (pdata p)), packet_forward p 4))"
    and "PACKET_get_net_8 p = (if length (pdata p) < 8 then None
       else Some (be_val (take 8 (pdata p)), packet_forward p 8))"
proof -
  have e2: "or (push_bit 8 (ucast a)) (ucast b) = (ucast (be_val [a, b]) :: u32)" for a b :: u8
    unfolding be_val_numeral by (rule bit_eqI) (auto simp: bit_simps)
  have e8: "be_val [a, b, c, d, e, f, g, h] = or (or (or (or (or (or (or (push_bit 56 (ucast a))
      (push_bit 48 (ucast b))) (push_bit 40 (ucast c))) (push_bit 32 (ucast d))) (push_bit 24 (ucast e)))
      (push_bit 16 (ucast f))) (push_bit 8 (ucast g))) (ucast h)" for a b c d e f g h
    by (simp add: be_val_def push_bit_or)
  note defs = PACKET_get_net_2_def PACKET_peek_net_2_def PACKET_get_net_3_def PACKET_peek_net_3_def
    PACKET_get_net_4_def PACKET_peek_net_4_def PACKET_get_net_8_def PACKET_peek_net_8_def
    PACKET_remaining_def length_pdata [OF assms]
  show "PACKET_get_net_2 p = (if length (pdata p) < 2 then None
       else Some (ucast (be_val (take 2 (pdata p))), packet_forward p 2))"
    using take_pdata_nth [OF assms, of 2] by (simp add: defs upt_unfold e2)
  show "PACKET_get_net_3 p = (if length (pdata p) < 3 then None
       else Some (be_val (take 3 (pdata p)), packet_forward p 3))"
    using take_pdata_nth [OF assms, of 3] by (simp add: defs upt_unfold be_val_numeral)
  show "PACKET_get_net_4 p = (if length (pdata p) < 4 then None
       else Some (be_val (take 4 (pdata p)), packet_forward p 4))"
    using take_pdata_nth [OF assms, of 4] by (simp add: defs upt_unfold be_val_numeral)
  show "PACKET_get_net_8 p = (if length (pdata p) < 8 then None
       else Some (be_val (take 8 (pdata p)), packet_forward p 8))"
    using take_pdata_nth [OF assms, of 8] by (simp add: defs upt_unfold e8)
qed

lemma PACKET_copy_bytes_eq:
  "packet_wf p \<Longrightarrow> PACKET_copy_bytes p n = (if length (pdata p) < n then None
     else Some (take n (pdata p), packet_forward p n))"
  by (simp add: PACKET_copy_bytes_def PACKET_peek_copy_bytes_def PACKET_remaining_def length_pdata pdata_take)

lemma PACKET_forward_eq:
  "packet_wf p \<Longrightarrow> PACKET_forward p n = (if length (pdata p) < n then None else Some (packet_forward p n))"
  by (simp add: PACKET_forward_def PACKET_remaining_def length_pdata)

lemma PACKET_get_bytes_eq:
  "packet_wf p \<Longrightarrow> PACKET_get_bytes p n = (if length (pdata p) < n then None
     else Some (p_curr p, packet_forward p n))"
  by (simp add: PACKET_get_bytes_def PACKET_peek_bytes_def PACKET_remaining_def length_pdata)

text \<open>The bytes a variable-length integer occupies depend on its first byte alone, and its
  value on those bytes.\<close>

lemma vlint_decode_cong:
  assumes "take (ossl_quic_vlint_decode_len (bs ! 0)) bs = take (ossl_quic_vlint_decode_len (bs ! 0)) cs"
    "bs \<noteq> []" "cs \<noteq> []"
    "ossl_quic_vlint_decode_len (bs ! 0) \<le> length bs" "ossl_quic_vlint_decode_len (bs ! 0) \<le> length cs"
  shows "ossl_quic_vlint_decode_unchecked bs = ossl_quic_vlint_decode_unchecked cs"
proof -
  let ?n = "ossl_quic_vlint_decode_len (bs ! 0)"
  have nth: "bs ! i = cs ! i" if "i < ?n" for i using assms(1) that by (metis nth_take)
  have "0 < ?n" using vlint_decode_len_set [of "bs ! 0"] by auto
  then have "bs ! 0 = cs ! 0" by (rule nth)
  moreover have "map (nth bs) [1..<?n] = map (nth cs) [1..<?n]" by (rule map_cong) (auto intro: nth)
  ultimately show ?thesis by (simp only: vlint_decode_be_val)
qed

lemma PACKET_get_quic_vlint_eq:
  assumes wf: "packet_wf p"
  shows "PACKET_get_quic_vlint p =
    (let n = ossl_quic_vlint_decode_len (pdata p ! 0) in
     if pdata p = [] \<or> length (pdata p) < n then None
     else Some (ossl_quic_vlint_decode_unchecked (pdata p), packet_forward p n))"
proof (cases "pdata p = []")
  case True
  with wf show ?thesis
    using length_pdata [OF wf] by (simp add: PACKET_get_quic_vlint_def PACKET_remaining_def)
next
  case False
  let ?n = "ossl_quic_vlint_decode_len (p_curr p ! 0)"
  have pos: "0 < p_remaining p" using False length_pdata [OF wf] by (metis length_greater_0_conv)
  then have hd: "pdata p ! 0 = p_curr p ! 0" by (rule pdata_nth)
  have "ossl_quic_vlint_decode_unchecked (pdata p) = ossl_quic_vlint_decode_unchecked (p_curr p)"
    if "?n \<le> p_remaining p"
    using that wf False pos
    by (intro vlint_decode_cong) (auto simp: hd length_pdata packet_wf_def pdata_def min_def)
  with pos hd False show ?thesis
    by (simp add: PACKET_get_quic_vlint_def PACKET_remaining_def Let_def length_pdata [OF wf])
qed

section \<open>Readers that stay inside their packet\<close>

text \<open>
  A reader is sound when it only ever moves its packet forward, by bytes the packet has,
  and when its outcome depends on the data of the packet alone: whatever lies in memory
  behind the packet, it fails or succeeds, with the same value and the same bytes left.
\<close>

type_synonym 'a reader = "PACKET \<Rightarrow> ('a \<times> PACKET) option"

definition reader_ok :: "'a reader \<Rightarrow> bool" where
  "reader_ok g \<longleftrightarrow>
     (\<forall>p v p'. packet_wf p \<longrightarrow> g p = Some (v, p') \<longrightarrow> (\<exists>n \<le> p_remaining p. p' = packet_forward p n))
   \<and> (\<forall>p q. packet_wf p \<longrightarrow> packet_wf q \<longrightarrow> pdata p = pdata q \<longrightarrow>
        map_option (map_prod id pdata) (g p) = map_option (map_prod id pdata) (g q))"

named_theorems reader_intros \<open>rules that show readers sound\<close>

lemma reader_okI:
  assumes "\<And>p. packet_wf p \<Longrightarrow> g p =
      (if ok (pdata p) then Some (val (pdata p), packet_forward p (num (pdata p))) else None)"
    and "\<And>bs. ok bs \<Longrightarrow> num bs \<le> length bs"
  shows "reader_ok g"
  using assms unfolding reader_ok_def by (fastforce simp: length_pdata split: if_splits)

lemma reader_ok_step:
  assumes "reader_ok g" "packet_wf p" "g p = Some (v, p')"
  obtains n where "n \<le> p_remaining p" "p' = packet_forward p n" "packet_wf p'"
  using assms unfolding reader_ok_def by (metis packet_forward_simps(3))

lemma reader_ok_return [reader_intros]: "reader_ok (\<lambda>p. Some (v, p))"
  unfolding reader_ok_def by (auto intro!: exI [of _ "0 :: nat"])

lemma reader_ok_fail [reader_intros]: "reader_ok (\<lambda>p. None)"
  unfolding reader_ok_def by simp

lemma reader_ok_if [reader_intros]:
  "reader_ok f \<Longrightarrow> reader_ok g \<Longrightarrow> reader_ok (\<lambda>p. if c then f p else g p)"
  by (cases c) simp_all

lemma reader_ok_Let [reader_intros]: "(\<And>x. reader_ok (f x)) \<Longrightarrow> reader_ok (\<lambda>p. let x = e in f x p)"
  by simp

lemma reader_ok_bind [reader_intros]:
  assumes g: "reader_ok g" and k: "\<And>v. reader_ok (k v)"
  shows "reader_ok (\<lambda>p. g p \<bind> (\<lambda>(v, q). k v q))"
  unfolding reader_ok_def
proof (intro conjI allI impI)
  fix p v p'
  assume wf: "packet_wf p" and "g p \<bind> (\<lambda>(v, q). k v q) = Some (v, p')"
  then obtain u q where "g p = Some (u, q)" "k u q = Some (v, p')" by (auto simp: bind_eq_Some_conv)
  with reader_ok_step [OF g wf] k [of u] obtain m n
    where "m \<le> p_remaining p" "q = packet_forward p m" "n \<le> p_remaining q" "p' = packet_forward q n"
    by (metis reader_ok_step)
  then show "\<exists>n \<le> p_remaining p. p' = packet_forward p n"
    by (intro exI [of _ "m + n"]) simp
next
  fix p q
  assume wf: "packet_wf p" "packet_wf q" and eq: "pdata p = pdata q"
  then have same: "map_option (map_prod id pdata) (g p) = map_option (map_prod id pdata) (g q)"
    using g unfolding reader_ok_def by blast
  show "map_option (map_prod id pdata) (g p \<bind> (\<lambda>(v, q). k v q))
      = map_option (map_prod id pdata) (g q \<bind> (\<lambda>(v, q). k v q))"
  proof (cases "g p")
    case None
    with same show ?thesis by simp
  next
    case (Some a)
    then obtain u p1 q1 where gs: "g p = Some (u, p1)" "g q = Some (u, q1)" "pdata p1 = pdata q1"
      using same by (cases a; cases "g q") auto
    then have "packet_wf p1" "packet_wf q1" using reader_ok_step [OF g] wf by metis+
    with gs(3) k [of u] have "map_option (map_prod id pdata) (k u p1) = map_option (map_prod id pdata) (k u q1)"
      unfolding reader_ok_def by blast
    with gs show ?thesis by simp
  qed
qed

text \<open>A test whose outcome the reader does not keep.\<close>

lemma reader_ok_bind_packet [reader_intros]:
  assumes "reader_ok (\<lambda>p. map_option (Pair ()) (g p))" "reader_ok k"
  shows "reader_ok (\<lambda>p. g p \<bind> k)"
proof -
  have "(\<lambda>p. g p \<bind> k) = (\<lambda>p. map_option (Pair ()) (g p) \<bind> (\<lambda>(v, q). (\<lambda>_. k) v q))"
    by (intro ext) (simp add: Option.bind_map_option o_def)
  then show ?thesis using reader_ok_bind [OF assms(1), of "\<lambda>_. k"] assms(2) by simp
qed

lemma reader_ok_get_1 [reader_intros]: "reader_ok PACKET_get_1"
  by (rule reader_okI [where ok = "\<lambda>bs. bs \<noteq> []" and val = "\<lambda>bs. ucast (hd bs)" and num = "\<lambda>_. 1"])
    (auto simp: PACKET_get_1_eq Suc_le_eq split: list.splits)

lemma reader_ok_get_net [reader_intros]:
  "reader_ok PACKET_get_net_2" "reader_ok PACKET_get_net_3" "reader_ok PACKET_get_net_4" "reader_ok PACKET_get_net_8"
  by (rule reader_okI [where ok = "\<lambda>bs. 2 \<le> length bs" and val = "\<lambda>bs. ucast (be_val (take 2 bs))" and num = "\<lambda>_. 2"]
      reader_okI [where ok = "\<lambda>bs. 3 \<le> length bs" and val = "\<lambda>bs. be_val (take 3 bs)" and num = "\<lambda>_. 3"]
      reader_okI [where ok = "\<lambda>bs. 4 \<le> length bs" and val = "\<lambda>bs. be_val (take 4 bs)" and num = "\<lambda>_. 4"]
      reader_okI [where ok = "\<lambda>bs. 8 \<le> length bs" and val = "\<lambda>bs. be_val (take 8 bs)" and num = "\<lambda>_. 8"];
    simp add: PACKET_get_net_eq not_less)+

lemma reader_ok_copy_bytes [reader_intros]: "reader_ok (\<lambda>p. PACKET_copy_bytes p n)"
  by (rule reader_okI [where ok = "\<lambda>bs. n \<le> length bs" and val = "take n" and num = "\<lambda>_. n"])
    (auto simp: PACKET_copy_bytes_eq)

lemma reader_ok_forward [reader_intros]: "reader_ok (\<lambda>p. map_option (Pair ()) (PACKET_forward p n))"
  by (rule reader_okI [where ok = "\<lambda>bs. n \<le> length bs" and val = "\<lambda>_. ()" and num = "\<lambda>_. n"])
    (auto simp: PACKET_forward_eq)

lemma reader_ok_vlint [reader_intros]: "reader_ok PACKET_get_quic_vlint"
  by (rule reader_okI [where ok = "\<lambda>bs. bs \<noteq> [] \<and> ossl_quic_vlint_decode_len (bs ! 0) \<le> length bs"
        and val = ossl_quic_vlint_decode_unchecked and num = "\<lambda>bs. ossl_quic_vlint_decode_len (bs ! 0)"])
    (auto simp: PACKET_get_quic_vlint_eq Let_def)

lemma PACKET_skip_quic_vlint_eq: "PACKET_skip_quic_vlint p = map_option snd (PACKET_get_quic_vlint p)"
  by (simp add: PACKET_skip_quic_vlint_def PACKET_get_quic_vlint_def Let_def)

lemma reader_ok_skip_vlint [reader_intros]: "reader_ok (\<lambda>p. map_option (Pair ()) (PACKET_skip_quic_vlint p))"
  by (rule reader_okI [where ok = "\<lambda>bs. bs \<noteq> [] \<and> ossl_quic_vlint_decode_len (bs ! 0) \<le> length bs"
        and val = "\<lambda>_. ()" and num = "\<lambda>bs. ossl_quic_vlint_decode_len (bs ! 0)"])
    (auto simp: PACKET_skip_quic_vlint_eq PACKET_get_quic_vlint_eq Let_def)

section \<open>Codecs\<close>

text \<open>
  What a reader owes a writer: whatever follows the bytes that encode a value, the reader
  takes exactly those bytes and returns that value. Encodings of this kind need no
  separators: a packet that holds any sequence of them is read back value by value.
\<close>

fun read_all :: "nat \<Rightarrow> 'a reader \<Rightarrow> PACKET \<Rightarrow> 'a list option" where
  "read_all 0 rd p = None"
| "read_all (Suc fuel) rd p =
     (if PACKET_remaining p = 0 then Some []
      else do { (x, p) \<leftarrow> rd p; xs \<leftarrow> read_all fuel rd p; Some (x # xs) })"

locale packet_codec =
  fixes ok :: "'a \<Rightarrow> bool"
    and enc :: "'a \<Rightarrow> u8 list"
    and rd :: "'a reader"
  assumes rd_enc: "packet_wf p \<Longrightarrow> ok x \<Longrightarrow> pdata p = enc x @ rest \<Longrightarrow>
      rd p = Some (x, packet_forward p (length (enc x)))"
    and enc_nonempty: "ok x \<Longrightarrow> enc x \<noteq> []"
begin

lemma prefix_free:
  assumes "ok x" "ok y" "enc x @ r = enc y @ s"
  shows "x = y \<and> r = s"
proof -
  let ?p = "\<lparr>p_curr = enc x @ r, p_remaining = length (enc x @ r)\<rparr>"
  have "packet_wf ?p" "pdata ?p = enc x @ r" "pdata ?p = enc y @ s" using assms(3) by simp_all
  then have "x = y" using rd_enc [of ?p x r] rd_enc [of ?p y s] assms(1,2) by simp
  with assms(3) show ?thesis by simp
qed

lemma read_all_enc:
  assumes "packet_wf p" "\<forall>x \<in> set xs. ok x" "pdata p = concat (map enc xs)" "p_remaining p < fuel"
  shows "read_all fuel rd p = Some xs"
  using assms
proof (induction xs arbitrary: p fuel)
  case Nil
  then show ?case by (cases fuel) (auto simp: PACKET_remaining_def dest: length_pdata)
next
  case (Cons x xs)
  then obtain f where f: "fuel = Suc f" by (cases fuel) auto
  have eq: "pdata p = enc x @ concat (map enc xs)" and pos: "0 < length (enc x)"
    using Cons.prems enc_nonempty [of x] by auto
  then have "0 < p_remaining p" by (simp flip: length_pdata [OF Cons.prems(1)])
  moreover from this have "p_remaining p - length (enc x) < f" using Cons.prems(4) f pos by linarith
  ultimately show ?case
    using rd_enc [of p x "concat (map enc xs)"] Cons.prems eq
      Cons.IH [of "packet_forward p (length (enc x))" f] f
    by (simp add: PACKET_remaining_def)
qed

end

lemma PACKET_get_quic_vlint_enc:
  assumes "packet_wf p" "unat v < 2 ^ 62" "pdata p = ossl_quic_vlint_encode v @ rest"
  shows "PACKET_get_quic_vlint p = Some (v, packet_forward p (length (ossl_quic_vlint_encode v)))"
proof -
  note e = vlint_encode [OF assms(2)]
  have "(ossl_quic_vlint_encode v @ rest) ! 0 = ossl_quic_vlint_encode v ! 0"
    using e(2) by (simp add: nth_append)
  then show ?thesis using assms(1,3) e by (simp add: PACKET_get_quic_vlint_eq)
qed

interpretation vlint: packet_codec "\<lambda>v. unat v < 2 ^ 62" ossl_quic_vlint_encode PACKET_get_quic_vlint
  by unfold_locales (auto simp: PACKET_get_quic_vlint_enc vlint_encode)

text \<open>Vectors headed by their length.\<close>

lemma get_bytes_cut:
  assumes wf: "packet_wf p" and "m \<le> length (pdata p)"
  shows "PACKET_get_bytes (packet_forward p m) n = (if length (pdata p) < m + n then None
      else Some (drop m (p_curr p), packet_forward p (m + n)))"
    and "m + n \<le> length (pdata p) \<Longrightarrow> take n (drop m (p_curr p)) = take n (drop m (pdata p))"
    and "m + n \<le> length (pdata p) \<Longrightarrow> n \<le> length (drop m (p_curr p))"
proof -
  show "PACKET_get_bytes (packet_forward p m) n = (if length (pdata p) < m + n then None
      else Some (drop m (p_curr p), packet_forward p (m + n)))"
    using assms by (auto simp: PACKET_get_bytes_eq)
  assume "m + n \<le> length (pdata p)"
  then have le: "m + n \<le> p_remaining p" using length_pdata [OF wf] by simp
  then show "take n (drop m (p_curr p)) = take n (drop m (pdata p))"
    by (simp add: pdata_def drop_take min_def)
  from le show "n \<le> length (drop m (p_curr p))" using wf by (simp add: packet_wf_def)
qed

lemma length_prefixed_bytes:
  assumes wf: "packet_wf p" and m: "m \<le> 7" "m \<le> length (pdata p)"
    and n: "n = unat (be_val (take m (pdata p)))"
    and get: "PACKET_get_bytes (packet_forward p m) n = Some (data, q)"
  shows "pdata p = be_bytes m (of_nat n) @ pdata \<lparr>p_curr = data, p_remaining = n\<rparr> @ pdata q"
    and "packet_wf \<lparr>p_curr = data, p_remaining = n\<rparr>" "packet_wf q"
    and "length (pdata \<lparr>p_curr = data, p_remaining = n\<rparr>) = n"
proof -
  from get have le: "m + n \<le> length (pdata p)" and data: "data = drop m (p_curr p)" and q: "q = packet_forward p (m + n)"
    by (auto simp: get_bytes_cut [OF wf m(2)] split: if_splits)
  have "be_bytes m (of_nat n) = take m (pdata p)"
    using be_bytes_be_val [of "take m (pdata p)"] m by (simp add: n)
  then show "pdata p = be_bytes m (of_nat n) @ pdata \<lparr>p_curr = data, p_remaining = n\<rparr> @ pdata q"
    using le by (simp add: data q get_bytes_cut(2) [OF wf m(2)])
      (metis append_take_drop_id drop_drop add.commute)
  show "packet_wf \<lparr>p_curr = data, p_remaining = n\<rparr>" "packet_wf q"
    "length (pdata \<lparr>p_curr = data, p_remaining = n\<rparr>) = n"
    using wf le get_bytes_cut(3) [OF wf m(2) le] by (simp_all add: data q)
qed

lemma unat_be_val_bound: "unat (be_val bs) < 2 ^ (8 * length bs)"
proof -
  have "take_bit (8 * length bs) (be_val bs) = be_val bs"
    using be_val_bit [of bs] by (intro bit_eqI) (auto simp: bit_simps)
  then have "unat (be_val bs) = take_bit (8 * length bs) (unat (be_val bs))" by (metis unsigned_take_bit_eq)
  then show ?thesis by (metis take_bit_nat_less_exp)
qed

lemma unat_ucast_be_val: "length bs \<le> 4 \<Longrightarrow> unat (ucast (be_val bs) :: u32) = unat (be_val bs)"
proof -
  assume "length bs \<le> 4"
  then have "(2 :: nat) ^ (8 * length bs) \<le> 2 ^ 32" by (intro power_increasing) simp_all
  with unat_be_val_bound [of bs] have "unat (be_val bs) < 2 ^ 32" by linarith
  then show ?thesis by (simp add: unsigned_ucast_eq take_bit_nat_eq_self)
qed

lemma be_val_1: "be_val [b] = ucast b"
  by (simp add: be_val_def)

lemma unat_ucast_u8 [simp]: "unat (ucast (b :: u8) :: u32) = unat b" "unat (ucast b :: u64) = unat b"
  using unat_bound [of b] by (simp_all add: unsigned_ucast_eq take_bit_nat_eq_self)

section \<open>Properties\<close>

text \<open>C36: The getters for vectors headed by a one, two or three byte length cut a
  packet without losing a byte: the packet is the length field, then the sub-packet, then the advanced packet, all within the original
  packet, and the sub-packet is as long as the length field says.\<close>

theorem length_prefixed_exact:
  assumes wf: "packet_wf p"
    and get: "(m = 1 \<and> PACKET_get_length_prefixed_1 p = Some (sub, q))
      \<or> (m = 2 \<and> PACKET_get_length_prefixed_2 p = Some (sub, q))
      \<or> (m = 3 \<and> PACKET_get_length_prefixed_3 p = Some (sub, q))"
  shows "pdata p = be_bytes m (of_nat (PACKET_remaining sub)) @ pdata sub @ pdata q
    \<and> packet_wf sub \<and> packet_wf q \<and> length (pdata sub) = PACKET_remaining sub"
proof -
  obtain n data where len: "m \<le> length (pdata p)" and n: "n = unat (be_val (take m (pdata p)))"
    and bytes: "PACKET_get_bytes (packet_forward p m) n = Some (data, q)"
    and sub: "sub = \<lparr>p_curr = data, p_remaining = n\<rparr>"
    using get
  proof (elim disjE conjE)
    assume m: "m = 1" and "PACKET_get_length_prefixed_1 p = Some (sub, q)"
    then show thesis
      using that by (cases "pdata p")
        (auto simp: PACKET_get_length_prefixed_1_def PACKET_get_1_eq [OF wf] be_val_1 bind_eq_Some_conv)
  next
    assume m: "m = 2" and "PACKET_get_length_prefixed_2 p = Some (sub, q)"
    then show thesis
      using that unat_ucast_be_val [of "take 2 (pdata p)"]
      by (auto simp: PACKET_get_length_prefixed_2_def PACKET_get_net_eq [OF wf] bind_eq_Some_conv split: if_splits)
  next
    assume m: "m = 3" and "PACKET_get_length_prefixed_3 p = Some (sub, q)"
    then show thesis
      using that
      by (auto simp: PACKET_get_length_prefixed_3_def PACKET_get_net_eq [OF wf] bind_eq_Some_conv split: if_splits)
  qed
  have "m \<le> 7" using get by auto
  from length_prefixed_bytes [OF wf this len n bytes] show ?thesis
    by (simp add: sub PACKET_remaining_def)
qed

theorem length_prefixed_exact_witness:
  "\<exists>sub q. PACKET_get_length_prefixed_2 \<lparr>p_curr = [0, 2, 7, 8, 9], p_remaining = 5\<rparr> = Some (sub, q)
    \<and> pdata sub = [7, 8] \<and> pdata q = [9]"
proof -
  let ?p = "\<lparr>p_curr = [0, 2, 7, 8, 9], p_remaining = 5\<rparr>"
  obtain sub q where g: "PACKET_get_length_prefixed_2 ?p = Some (sub, q)" and r: "PACKET_remaining sub = 2"
    by (simp add: PACKET_get_length_prefixed_2_def PACKET_get_net_2_def PACKET_peek_net_2_def
        PACKET_get_bytes_def PACKET_peek_bytes_def PACKET_remaining_def)
  with length_prefixed_exact [of ?p 2 sub q]
  have "[7, 8] @ [9] = pdata sub @ pdata q" "length (pdata sub) = 2" by (auto simp: be_bytes_unfold)
  with append_eq_append_conv [of "[7, 8]" "pdata sub" "[9]" "pdata q"] g show ?thesis by auto
qed

text \<open>C37: The seven getters of the reader that return values (one byte, integers of two, three, four and eight bytes,
  copied bytes and variable-length integers) stay inside their packet: each only moves the packet forward
  by bytes the packet has, and neither the value it returns nor whether it fails depends on
  the memory behind the packet.\<close>

theorem packet_readers_sound:
  "reader_ok PACKET_get_1 \<and> reader_ok PACKET_get_net_2 \<and> reader_ok PACKET_get_net_3
   \<and> reader_ok PACKET_get_net_4 \<and> reader_ok PACKET_get_net_8 \<and> reader_ok (\<lambda>p. PACKET_copy_bytes p n)
   \<and> reader_ok PACKET_get_quic_vlint"
  by (intro conjI reader_intros)

end
