(* ===== verification/WPacket.thy ===== *)
theory WPacket
  imports Packet "HOL-Library.Stream"
begin

text \<open>
  The packet writer of \<^verbatim>\<open>crypto/packet.c\<close> (declared in
  \<^verbatim>\<open>include/internal/packet.h\<close>) on top of \<^verbatim>\<open>BUF_MEM_grow\<close> of
  \<^verbatim>\<open>crypto/buffer/buffer.c\<close>. A writer operation returns whether it succeeded and the
  writer afterwards, also when it failed. The stack of sub-packets, linked through
  \<open>parent\<close> in C, is a list with the innermost sub-packet first. Pointers into the output are
  offsets, \<open>None\<close> being \<open>NULL\<close>. The outcomes of the allocator are a stream in the writer
  that each allocation advances. \<open>w_fault\<close> records that the code has written through a null
  pointer. Sizes are natural numbers: the invariant \<open>w_inv\<close> shows that no subtraction of
  sizes underflows.
\<close>

section \<open>Model: growable buffers\<close>

record BUF_MEM =
  b_data :: "u8 list"
  b_max :: nat

definition LIMIT_BEFORE_EXPANSION :: nat where "LIMIT_BEFORE_EXPANSION = 0x5ffffffc"

definition BUF_MEM_grow :: "bool \<Rightarrow> BUF_MEM \<Rightarrow> nat \<Rightarrow> nat \<times> BUF_MEM" where
  "BUF_MEM_grow alloc str len =
     (let grown = b_data str @ replicate (len - length (b_data str)) 0 in
      if length (b_data str) \<ge> len then (len, str\<lparr>b_data := take len (b_data str)\<rparr>)
      else if b_max str \<ge> len then (len, str\<lparr>b_data := grown\<rparr>)
      else if len > LIMIT_BEFORE_EXPANSION then (0, str)
      else if \<not> alloc then (0, str)
      else (len, \<lparr>b_data = grown, b_max = (len + 3) div 3 * 4\<rparr>))"

section \<open>Model: the writer\<close>

record WPACKET_SUB =
  packet_len :: nat
  lenbytes :: nat
  pwritten :: nat
  sub_flags :: u32

record WPACKET =
  w_buf :: "BUF_MEM option"
  w_staticbuf :: "u8 list option"
  w_curr :: nat
  w_written :: nat
  w_maxsize :: nat
  w_subs :: "WPACKET_SUB list"
  w_endfirst :: bool
  w_alloc :: "bool stream"
  w_fault :: bool

definition DEFAULT_BUF_SIZE :: nat where "DEFAULT_BUF_SIZE = 256"
definition WPACKET_FLAGS_NON_ZERO_LENGTH :: u32 where "WPACKET_FLAGS_NON_ZERO_LENGTH = 1"
definition WPACKET_FLAGS_ABANDON_ON_ZERO_LENGTH :: u32 where "WPACKET_FLAGS_ABANDON_ON_ZERO_LENGTH = 2"
definition WPACKET_FLAGS_QUIC_VLINT :: u32 where "WPACKET_FLAGS_QUIC_VLINT = 4"

text \<open>The buffer in use; a growable buffer has no memory before it first grows.\<close>

definition GETBUF :: "WPACKET \<Rightarrow> u8 list option" where
  "GETBUF p =
     (case w_staticbuf p of
        Some b \<Rightarrow> Some b
      | None \<Rightarrow> (case w_buf p of
          None \<Rightarrow> None
        | Some b \<Rightarrow> if b_max b = 0 then None else Some (b_data b)))"

definition w_setbuf :: "WPACKET \<Rightarrow> u8 list \<Rightarrow> WPACKET" where
  "w_setbuf p bs =
     (case w_staticbuf p of
        Some _ \<Rightarrow> p\<lparr>w_staticbuf := Some bs\<rparr>
      | None \<Rightarrow> p\<lparr>w_buf := map_option (\<lambda>b. b\<lparr>b_data := bs\<rparr>) (w_buf p)\<rparr>)"

text \<open>Writing bytes at a position of the buffer.\<close>

definition w_store :: "WPACKET \<Rightarrow> nat option \<Rightarrow> u8 list \<Rightarrow> WPACKET" where
  "w_store p dest bs =
     (case (dest, GETBUF p) of
        (Some off, Some buf) \<Rightarrow> w_setbuf p (overwrite buf off bs)
      | _ \<Rightarrow> p)"

definition WPACKET_get_curr :: "WPACKET \<Rightarrow> nat option" where
  "WPACKET_get_curr pkt =
     (case GETBUF pkt of
        None \<Rightarrow> None
      | Some _ \<Rightarrow> Some (if w_endfirst pkt then w_maxsize pkt - w_curr pkt else w_curr pkt))"

definition WPACKET_reserve_bytes :: "WPACKET \<Rightarrow> nat \<Rightarrow> bool \<times> nat option \<times> WPACKET" where
  "WPACKET_reserve_bytes pkt len =
     (if \<not> (w_subs pkt \<noteq> [] \<and> len \<noteq> 0) then (False, None, pkt)
      else if w_maxsize pkt - w_written pkt < len then (False, None, pkt)
      else
        let (ok, pkt) =
          (case w_buf pkt of
             None \<Rightarrow> (True, pkt)
           | Some b \<Rightarrow>
               if length (b_data b) - w_written pkt < len then
                 let reflen = (if len > length (b_data b) then len else length (b_data b));
                     newlen = (if reflen > SIZE_MAX div 2 then SIZE_MAX
                               else if reflen * 2 < DEFAULT_BUF_SIZE then DEFAULT_BUF_SIZE
                               else reflen * 2);
                     (r, b) = BUF_MEM_grow (shd (w_alloc pkt)) b newlen
                 in (r \<noteq> 0, pkt\<lparr>w_buf := Some b, w_alloc := stl (w_alloc pkt)\<rparr>)
               else (True, pkt))
        in if \<not> ok then (False, None, pkt)
           else
             let allocbytes = WPACKET_get_curr pkt
             in (True, if w_endfirst pkt then map_option (\<lambda>a. a - len) allocbytes else allocbytes, pkt))"

definition WPACKET_allocate_bytes :: "WPACKET \<Rightarrow> nat \<Rightarrow> bool \<times> nat option \<times> WPACKET" where
  "WPACKET_allocate_bytes pkt len =
     (let (ok, allocbytes, pkt) = WPACKET_reserve_bytes pkt len
      in if \<not> ok then (False, None, pkt)
         else (True, allocbytes, pkt\<lparr>w_written := w_written pkt + len, w_curr := w_curr pkt + len\<rparr>))"

definition WPACKET_sub_reserve_bytes :: "WPACKET \<Rightarrow> nat \<Rightarrow> nat \<Rightarrow> bool \<times> nat option \<times> WPACKET" where
  "WPACKET_sub_reserve_bytes pkt len lenb =
     (if w_endfirst pkt \<and> lenb > 0 then (False, None, pkt)
      else
        let (ok, allocbytes, pkt) = WPACKET_reserve_bytes pkt (lenb + len)
        in if \<not> ok then (False, None, pkt) else (True, map_option (\<lambda>a. a + lenb) allocbytes, pkt))"

definition maxmaxsize :: "nat \<Rightarrow> nat" where
  "maxmaxsize lenb = (if lenb \<ge> 8 \<or> lenb = 0 then SIZE_MAX else 2 ^ (lenb * 8) - 1 + lenb)"

definition new_sub :: WPACKET_SUB where
  "new_sub = \<lparr>packet_len = 0, lenbytes = 0, pwritten = 0, sub_flags = 0\<rparr>"

definition wpacket_intern_init_len :: "WPACKET \<Rightarrow> nat \<Rightarrow> bool \<times> WPACKET" where
  "wpacket_intern_init_len pkt lenb =
     (let pkt = pkt\<lparr>w_curr := 0, w_written := 0\<rparr>;
          alloc = shd (w_alloc pkt);
          pkt = pkt\<lparr>w_alloc := stl (w_alloc pkt)\<rparr>
      in if \<not> alloc then (False, pkt\<lparr>w_subs := []\<rparr>)
         else if lenb = 0 then (True, pkt\<lparr>w_subs := [new_sub]\<rparr>)
         else
           let pkt = pkt\<lparr>w_subs := [new_sub\<lparr>pwritten := lenb, lenbytes := lenb\<rparr>]\<rparr>;
               (ok, lenchars, pkt) = WPACKET_allocate_bytes pkt lenb
           in if \<not> ok then (False, pkt\<lparr>w_subs := []\<rparr>) else (True, pkt))"

text \<open>A writer before initialisation: only the allocator matters.\<close>

definition w_blank :: "bool stream \<Rightarrow> WPACKET" where
  "w_blank alloc = \<lparr>w_buf = None, w_staticbuf = None, w_curr = 0, w_written = 0, w_maxsize = 0,
     w_subs = [], w_endfirst = False, w_alloc = alloc, w_fault = False\<rparr>"

definition WPACKET_init_static_len :: "bool stream \<Rightarrow> u8 list \<Rightarrow> nat \<Rightarrow> bool \<times> WPACKET" where
  "WPACKET_init_static_len alloc buf lenb =
     (let len = length buf; max = maxmaxsize lenb in
      if \<not> len > 0 then (False, w_blank alloc)
      else wpacket_intern_init_len
        ((w_blank alloc)\<lparr>w_staticbuf := Some buf, w_maxsize := (if max < len then max else len)\<rparr>) lenb)"

definition WPACKET_init_der :: "bool stream \<Rightarrow> u8 list \<Rightarrow> bool \<times> WPACKET" where
  "WPACKET_init_der alloc buf =
     (if \<not> length buf > 0 then (False, w_blank alloc)
      else wpacket_intern_init_len
        ((w_blank alloc)\<lparr>w_staticbuf := Some buf, w_maxsize := length buf, w_endfirst := True\<rparr>) 0)"

definition WPACKET_init_len :: "bool stream \<Rightarrow> BUF_MEM \<Rightarrow> nat \<Rightarrow> bool \<times> WPACKET" where
  "WPACKET_init_len alloc buf lenb =
     wpacket_intern_init_len ((w_blank alloc)\<lparr>w_buf := Some buf, w_maxsize := maxmaxsize lenb\<rparr>) lenb"

definition WPACKET_init :: "bool stream \<Rightarrow> BUF_MEM \<Rightarrow> bool \<times> WPACKET" where
  "WPACKET_init alloc buf = WPACKET_init_len alloc buf 0"


definition WPACKET_init_null_der :: "bool stream \<Rightarrow> bool \<times> WPACKET" where
  "WPACKET_init_null_der alloc =
     wpacket_intern_init_len ((w_blank alloc)\<lparr>w_maxsize := SIZE_MAX, w_endfirst := True\<rparr>) 0"

definition WPACKET_set_flags :: "WPACKET \<Rightarrow> u32 \<Rightarrow> bool \<times> WPACKET" where
  "WPACKET_set_flags pkt flags =
     (case w_subs pkt of
        [] \<Rightarrow> (False, pkt)
      | s # ss \<Rightarrow> (True, pkt\<lparr>w_subs := s\<lparr>sub_flags := flags\<rparr> # ss\<rparr>))"

text \<open>The loop of \<^verbatim>\<open>put_value\<close> writes the low byte at the end of the field and works
  backwards; its results are the buffer and what is left of the value.\<close>

primrec put_value_loop :: "u8 list \<Rightarrow> nat \<Rightarrow> u64 \<Rightarrow> nat \<Rightarrow> u8 list \<times> u64" where
  "put_value_loop buf data value 0 = (buf, value)"
| "put_value_loop buf data value (Suc len) =
     put_value_loop (buf[data + len := ucast (and value 0xff)]) data (drop_bit 8 value) len"

definition put_value :: "WPACKET \<Rightarrow> nat option \<Rightarrow> u64 \<Rightarrow> nat \<Rightarrow> bool \<times> WPACKET" where
  "put_value pkt data value len =
     (case (data, GETBUF pkt) of
        (Some d, Some buf) \<Rightarrow>
          let (buf, value) = put_value_loop buf d value len
          in (\<not> value > 0, w_setbuf pkt buf)
      | _ \<Rightarrow> (True, pkt))"

definition put_quic_value :: "WPACKET \<Rightarrow> nat option \<Rightarrow> nat \<Rightarrow> nat \<Rightarrow> bool \<times> WPACKET" where
  "put_quic_value pkt data value len =
     (case data of
        None \<Rightarrow> (True, pkt)
      | Some d \<Rightarrow>
          if ossl_quic_vlint_encode_len (of_nat value) > len then (False, pkt)
          else (True, w_store pkt (Some d) (ossl_quic_vlint_encode_n (of_nat value) len)))"

definition WPACKET_put_bytes :: "WPACKET \<Rightarrow> u64 \<Rightarrow> nat \<Rightarrow> bool \<times> WPACKET" where
  "WPACKET_put_bytes pkt val sz =
     (if \<not> sz \<le> 8 then (False, pkt)
      else
        let (ok, data, pkt) = WPACKET_allocate_bytes pkt sz
        in if \<not> ok then (False, pkt) else put_value pkt data val sz)"

fun num_len_bytes :: "nat \<Rightarrow> nat" where
  "num_len_bytes tmplen = (if tmplen div 256 > 0 then Suc (num_len_bytes (tmplen div 256)) else 1)"

declare num_len_bytes.simps [simp del]

definition wpacket_intern_close :: "WPACKET \<Rightarrow> nat \<Rightarrow> bool \<Rightarrow> bool \<times> WPACKET" where
  "wpacket_intern_close pkt i doclose =
     (let sub = w_subs pkt ! i;
          has_parent = (Suc i < length (w_subs pkt));
          packlen = w_written pkt - pwritten sub;
          abandon = (and (sub_flags sub) WPACKET_FLAGS_ABANDON_ON_ZERO_LENGTH \<noteq> 0)
      in if packlen = 0 \<and> and (sub_flags sub) WPACKET_FLAGS_NON_ZERO_LENGTH \<noteq> 0 then (False, pkt)
         else if packlen = 0 \<and> abandon \<and> \<not> doclose then (False, pkt)
         else
           let (pkt, sub) =
             (if packlen = 0 \<and> abandon then
                (if w_curr pkt - lenbytes sub = packet_len sub
                 then pkt\<lparr>w_written := w_written pkt - lenbytes sub, w_curr := w_curr pkt - lenbytes sub\<rparr>
                 else pkt,
                 sub\<lparr>packet_len := 0, lenbytes := 0\<rparr>)
              else (pkt, sub));
               (ok, pkt) =
             (if lenbytes sub > 0 then
                (if GETBUF pkt = None then (True, pkt)
                 else if and (sub_flags sub) WPACKET_FLAGS_QUIC_VLINT = 0
                 then put_value pkt (Some (packet_len sub)) (of_nat packlen) (lenbytes sub)
                 else put_quic_value pkt (Some (packet_len sub)) packlen (lenbytes sub))
              else if w_endfirst pkt \<and> has_parent \<and> (packlen \<noteq> 0 \<or> \<not> abandon) then
                let (ok, pkt) = WPACKET_put_bytes pkt (of_nat packlen) (num_len_bytes packlen)
                in if \<not> ok then (False, pkt)
                   else if packlen > 0x7f
                   then WPACKET_put_bytes pkt (or (of_nat (num_len_bytes packlen)) 0x80) 1
                   else (True, pkt)
              else (True, pkt))
           in if \<not> ok then (False, pkt)
              else (True, if doclose then pkt\<lparr>w_subs := drop (Suc i) (w_subs pkt)\<rparr>
                          else pkt\<lparr>w_subs := (w_subs pkt)[i := sub]\<rparr>))"

fun fill_lengths_loop :: "WPACKET \<Rightarrow> nat list \<Rightarrow> bool \<times> WPACKET" where
  "fill_lengths_loop pkt [] = (True, pkt)"
| "fill_lengths_loop pkt (i # is) =
     (let (ok, pkt) = wpacket_intern_close pkt i False
      in if \<not> ok then (False, pkt) else fill_lengths_loop pkt is)"

definition WPACKET_fill_lengths :: "WPACKET \<Rightarrow> bool \<times> WPACKET" where
  "WPACKET_fill_lengths pkt =
     (if w_subs pkt = [] then (False, pkt) else fill_lengths_loop pkt [0..<length (w_subs pkt)])"

definition WPACKET_close :: "WPACKET \<Rightarrow> bool \<times> WPACKET" where
  "WPACKET_close pkt =
     (if length (w_subs pkt) \<le> 1 then (False, pkt) else wpacket_intern_close pkt 0 True)"

definition WPACKET_finish :: "WPACKET \<Rightarrow> bool \<times> WPACKET" where
  "WPACKET_finish pkt =
     (if length (w_subs pkt) \<noteq> 1 then (False, pkt) else wpacket_intern_close pkt 0 True)"

definition WPACKET_start_sub_packet_len :: "WPACKET \<Rightarrow> nat \<Rightarrow> bool \<times> WPACKET" where
  "WPACKET_start_sub_packet_len pkt lenb =
     (if w_subs pkt = [] then (False, pkt)
      else if lenb > 0 \<and> w_endfirst pkt then (False, pkt)
      else
        let alloc = shd (w_alloc pkt);
            pkt = pkt\<lparr>w_alloc := stl (w_alloc pkt)\<rparr>
        in if \<not> alloc then (False, pkt)
           else
             let sub = new_sub\<lparr>pwritten := w_written pkt + lenb, lenbytes := lenb\<rparr>
             in if lenb = 0 then (True, pkt\<lparr>w_subs := sub # w_subs pkt\<rparr>)
                else
                  let pkt = pkt\<lparr>w_subs := sub\<lparr>packet_len := w_written pkt\<rparr> # w_subs pkt\<rparr>;
                      (ok, lenchars, pkt) = WPACKET_allocate_bytes pkt lenb
                  in (ok, pkt))"

definition WPACKET_start_sub_packet :: "WPACKET \<Rightarrow> bool \<times> WPACKET" where
  "WPACKET_start_sub_packet pkt = WPACKET_start_sub_packet_len pkt 0"

definition WPACKET_set_max_size :: "WPACKET \<Rightarrow> nat \<Rightarrow> bool \<times> WPACKET" where
  "WPACKET_set_max_size pkt maxsize =
     (if w_subs pkt = [] then (False, pkt)
      else
        let lenb = lenbytes (last (w_subs pkt));
            lenb = (if lenb = 0 then 8 else lenb)
        in if maxmaxsize lenb < maxsize \<or> maxsize < w_written pkt then (False, pkt)
           else (True, pkt\<lparr>w_maxsize := maxsize\<rparr>))"

definition WPACKET_memset :: "WPACKET \<Rightarrow> u8 \<Rightarrow> nat \<Rightarrow> bool \<times> WPACKET" where
  "WPACKET_memset pkt ch len =
     (if len = 0 then (True, pkt)
      else
        let (ok, dest, pkt) = WPACKET_allocate_bytes pkt len
        in if \<not> ok then (False, pkt) else (True, w_store pkt dest (replicate len ch)))"

definition WPACKET_memcpy :: "WPACKET \<Rightarrow> u8 list \<Rightarrow> nat \<Rightarrow> bool \<times> WPACKET" where
  "WPACKET_memcpy pkt src len =
     (if len = 0 then (True, pkt)
      else
        let (ok, dest, pkt) = WPACKET_allocate_bytes pkt len
        in if \<not> ok then (False, pkt) else (True, w_store pkt dest (take len src)))"

text \<open>Calls joined by \<^verbatim>\<open>||\<close> of their negations stop at the first that fails.\<close>

fun all_ok :: "('w \<Rightarrow> bool \<times> 'w) list \<Rightarrow> 'w \<Rightarrow> bool \<times> 'w" where
  "all_ok [] pkt = (True, pkt)"
| "all_ok (f # fs) pkt = (let (ok, pkt) = f pkt in if \<not> ok then (False, pkt) else all_ok fs pkt)"

definition w_alloc_bytes :: "nat \<Rightarrow> WPACKET \<Rightarrow> bool \<times> WPACKET" where
  "w_alloc_bytes len pkt = (let (ok, _, pkt) = WPACKET_allocate_bytes pkt len in (ok, pkt))"

definition WPACKET_sub_allocate_bytes :: "WPACKET \<Rightarrow> nat \<Rightarrow> nat \<Rightarrow> bool \<times> WPACKET" where
  "WPACKET_sub_allocate_bytes pkt len lenb =
     all_ok [\<lambda>p. WPACKET_start_sub_packet_len p lenb, w_alloc_bytes len, WPACKET_close] pkt"

definition WPACKET_sub_memcpy :: "WPACKET \<Rightarrow> u8 list \<Rightarrow> nat \<Rightarrow> nat \<Rightarrow> bool \<times> WPACKET" where
  "WPACKET_sub_memcpy pkt src len lenb =
     all_ok [\<lambda>p. WPACKET_start_sub_packet_len p lenb, \<lambda>p. WPACKET_memcpy p src len, WPACKET_close] pkt"

definition WPACKET_get_total_written :: "WPACKET \<Rightarrow> nat" where
  "WPACKET_get_total_written pkt = w_written pkt"

definition WPACKET_get_length :: "WPACKET \<Rightarrow> nat option" where
  "WPACKET_get_length pkt =
     (case w_subs pkt of [] \<Rightarrow> None | s # _ \<Rightarrow> Some (w_written pkt - pwritten s))"

definition WPACKET_is_null_buf :: "WPACKET \<Rightarrow> bool" where
  "WPACKET_is_null_buf pkt \<longleftrightarrow> w_buf pkt = None \<and> w_staticbuf pkt = None"

definition WPACKET_cleanup :: "WPACKET \<Rightarrow> WPACKET" where
  "WPACKET_cleanup pkt = pkt\<lparr>w_subs := []\<rparr>"

definition WPACKET_start_quic_sub_packet_bound :: "WPACKET \<Rightarrow> nat \<Rightarrow> bool \<times> WPACKET" where
  "WPACKET_start_quic_sub_packet_bound pkt max_len =
     (let enclen = ossl_quic_vlint_encode_len (of_nat max_len) in
      if enclen = 0 then (False, pkt)
      else
        let (ok, pkt) = WPACKET_start_sub_packet_len pkt enclen
        in if \<not> ok then (False, pkt)
           else
             let s = hd (w_subs pkt)
             in (True, pkt\<lparr>w_subs := s\<lparr>sub_flags := or (sub_flags s) WPACKET_FLAGS_QUIC_VLINT\<rparr> # tl (w_subs pkt)\<rparr>))"

definition WPACKET_start_quic_sub_packet :: "WPACKET \<Rightarrow> bool \<times> WPACKET" where
  "WPACKET_start_quic_sub_packet pkt =
     WPACKET_start_quic_sub_packet_bound pkt (unat OSSL_QUIC_VLINT_4B_MIN)"

definition WPACKET_quic_sub_allocate_bytes :: "WPACKET \<Rightarrow> nat \<Rightarrow> bool \<times> WPACKET" where
  "WPACKET_quic_sub_allocate_bytes pkt len =
     all_ok [\<lambda>p. WPACKET_start_quic_sub_packet_bound p len, w_alloc_bytes len, WPACKET_close] pkt"

definition WPACKET_quic_write_vlint :: "WPACKET \<Rightarrow> u64 \<Rightarrow> bool \<times> WPACKET" where
  "WPACKET_quic_write_vlint pkt v =
     (let enclen = ossl_quic_vlint_encode_len v in
      if enclen = 0 then (False, pkt)
      else
        let (ok, b, pkt) = WPACKET_allocate_bytes pkt enclen
        in if \<not> ok then (False, pkt)
           else if b = None then (True, pkt\<lparr>w_fault := True\<rparr>)
           else (True, w_store pkt b (ossl_quic_vlint_encode v)))"

section \<open>Lemmas: space\<close>

definition buf_wf :: "BUF_MEM \<Rightarrow> bool" where
  "buf_wf b \<longleftrightarrow> length (b_data b) \<le> b_max b \<and> b_max b < 2 ^ 31"

lemma BUF_MEM_grow_ok:
  assumes "BUF_MEM_grow alloc b n = (r, b')" "r \<noteq> 0" "buf_wf b" "length (b_data b) < n"
  shows "b_data b' = b_data b @ replicate (n - length (b_data b)) 0" "buf_wf b'" "length (b_data b') = n"
proof -
  have "n \<le> (n + 3) div 3 * 4" by linarith
  moreover have "(n + 3) div 3 * 4 < 2147483648" if "n \<le> 0x5ffffffc"
    using that div_le_mono [of "n + 3" "0x5ffffffc + 3" 3] by simp
  ultimately show "b_data b' = b_data b @ replicate (n - length (b_data b)) 0" "buf_wf b'" "length (b_data b') = n"
    using assms
    by (auto simp: BUF_MEM_grow_def buf_wf_def LIMIT_BEFORE_EXPANSION_def Let_def split: if_splits)
qed

lemma BUF_MEM_grow_success:
  "n \<le> LIMIT_BEFORE_EXPANSION \<Longrightarrow> 0 < n \<Longrightarrow> fst (BUF_MEM_grow True b n) \<noteq> 0"
  by (auto simp: BUF_MEM_grow_def Let_def)

text \<open>
  The invariant of a writer that fills a buffer from its start: the position is the number of
  bytes written, which fit both the buffer and the limit, and nothing was written through a
  null pointer. What has been written is the output.
\<close>

definition w_inv :: "WPACKET \<Rightarrow> bool" where
  "w_inv w \<longleftrightarrow> \<not> w_endfirst w \<and> \<not> w_fault w \<and> w_subs w \<noteq> [] \<and> w_curr w = w_written w
     \<and> w_written w \<le> w_maxsize w \<and> w_maxsize w \<le> SIZE_MAX
     \<and> (case w_staticbuf w of
          Some b \<Rightarrow> w_buf w = None \<and> w_maxsize w \<le> length b
        | None \<Rightarrow> (case w_buf w of None \<Rightarrow> False | Some b \<Rightarrow> buf_wf b \<and> w_written w \<le> length (b_data b)))"

definition w_mem :: "WPACKET \<Rightarrow> u8 list" where
  "w_mem w = (case GETBUF w of None \<Rightarrow> [] | Some b \<Rightarrow> b)"

definition w_out :: "WPACKET \<Rightarrow> u8 list" where
  "w_out w = take (w_written w) (w_mem w)"

text \<open>What an operation leaves alone.\<close>

definition w_frame :: "WPACKET \<Rightarrow> WPACKET \<Rightarrow> bool" where
  "w_frame w w' \<longleftrightarrow> w_subs w' = w_subs w \<and> w_maxsize w' = w_maxsize w
     \<and> (w_buf w' = None \<longleftrightarrow> w_buf w = None) \<and> sset (w_alloc w') \<subseteq> sset (w_alloc w)"

text \<open>Room for \<open>n\<close> more bytes, whatever calls write them.\<close>

definition w_space :: "WPACKET \<Rightarrow> nat \<Rightarrow> bool" where
  "w_space w n \<longleftrightarrow> w_written w + n \<le> w_maxsize w \<and> sset (w_alloc w) \<subseteq> {True}
     \<and> (w_buf w \<noteq> None \<longrightarrow> 2 * (w_written w + n) \<le> LIMIT_BEFORE_EXPANSION)"

lemma w_frame_refl [simp]: "w_frame w w" by (simp add: w_frame_def)

lemma w_frame_trans: "w_frame u v \<Longrightarrow> w_frame v w \<Longrightarrow> w_frame u w"
  by (auto simp: w_frame_def)

lemma w_mem_length: "w_inv w \<Longrightarrow> w_written w \<le> length (w_mem w)"
  by (auto simp: w_inv_def w_mem_def GETBUF_def buf_wf_def split: option.splits)

lemma length_w_out: "w_inv w \<Longrightarrow> length (w_out w) = w_written w"
  using w_mem_length [of w] by (simp add: w_out_def)

lemma sset_stl: "sset (stl xs) \<subseteq> sset xs"
  by (auto intro: stl_sset)

lemma reserve_newlen:
  assumes "length d - k < n" "0 < n" "k \<le> length (d :: u8 list)" "n \<le> SIZE_MAX div 2" "length d \<le> SIZE_MAX div 2"
  defines "reflen \<equiv> if n > length d then n else length d"
  defines "newlen \<equiv> if reflen > SIZE_MAX div 2 then SIZE_MAX
      else if reflen * 2 < DEFAULT_BUF_SIZE then DEFAULT_BUF_SIZE else reflen * 2"
  shows "k + n \<le> newlen" "length d < newlen" "newlen \<le> max 256 (2 * (k + n))"
  using assms(1-5) by (auto simp: reflen_def newlen_def DEFAULT_BUF_SIZE_def)

lemma WPACKET_reserve_bytes_ok:
  assumes inv: "w_inv w" and r: "WPACKET_reserve_bytes w n = (True, d, w')"
  shows "0 < n \<and> w_inv w' \<and> w_frame w w' \<and> d = Some (w_written w) \<and> w_written w' = w_written w
    \<and> w_written w + n \<le> w_maxsize w \<and> w_written w + n \<le> length (w_mem w') \<and> GETBUF w' = Some (w_mem w')
    \<and> w_out w' = w_out w"
proof -
  from r have n: "0 < n" and max: "n \<le> w_maxsize w - w_written w"
    by (auto simp: WPACKET_reserve_bytes_def split: if_splits)
  have "w_written w \<le> w_maxsize w" using inv by (simp add: w_inv_def)
  with max have fit: "w_written w + n \<le> w_maxsize w" by linarith
  show ?thesis
  proof (cases "w_staticbuf w")
    case (Some b)
    then have "w_buf w = None" "w_maxsize w \<le> length b" using inv by (auto simp: w_inv_def)
    with r n Some inv show ?thesis
      using fit by (auto simp: WPACKET_reserve_bytes_def WPACKET_get_curr_def GETBUF_def w_mem_def w_inv_def
          split: if_splits)
  next
    case None
    with inv obtain b where b: "w_buf w = Some b" "buf_wf b" "w_written w \<le> length (b_data b)"
      by (auto simp: w_inv_def split: option.splits)
    show ?thesis
    proof (cases "length (b_data b) - w_written w < n")
      case False
      then have "b_max b \<noteq> 0" using b n by (auto simp: buf_wf_def)
      with False r n None inv b show ?thesis
        using fit by (auto simp: WPACKET_reserve_bytes_def WPACKET_get_curr_def GETBUF_def w_mem_def w_inv_def
            split: if_splits)
    next
      case True
      let ?reflen = "if n > length (b_data b) then n else length (b_data b)"
      let ?newlen = "if ?reflen > SIZE_MAX div 2 then SIZE_MAX
          else if ?reflen * 2 < DEFAULT_BUF_SIZE then DEFAULT_BUF_SIZE else ?reflen * 2"
      obtain k b' where g: "BUF_MEM_grow (shd (w_alloc w)) b ?newlen = (k, b')" by fastforce
      from r n True max b(1) g have k: "k \<noteq> 0" and w': "w' = w\<lparr>w_buf := Some b', w_alloc := stl (w_alloc w)\<rparr>"
        and d: "d = WPACKET_get_curr w'"
        using inv by (auto simp: WPACKET_reserve_bytes_def Let_def w_inv_def split: if_splits)
      have len: "length (b_data b) \<le> SIZE_MAX div 2" using b(2) by (simp add: buf_wf_def)
      have "n \<le> SIZE_MAX div 2"
      proof (rule ccontr)
        assume "\<not> n \<le> SIZE_MAX div 2"
        then have "?newlen = SIZE_MAX" using len by simp
        with g k b(2) show False
          by (auto simp: BUF_MEM_grow_def buf_wf_def LIMIT_BEFORE_EXPANSION_def Let_def split: if_splits)
      qed
      note nl = reserve_newlen [OF True n b(3) this len]
      note ok = BUF_MEM_grow_ok [OF g k b(2) nl(2)]
      have "b_max b' \<noteq> 0" "b_max b = 0 \<longrightarrow> b_data b = []" using ok nl b(2) by (auto simp: buf_wf_def)
      with ok nl(1) fit n inv None b sset_stl [of "w_alloc w"] show ?thesis
        by (simp add: w' d WPACKET_get_curr_def GETBUF_def w_mem_def w_inv_def w_frame_def w_out_def)
    qed
  qed
qed

lemma WPACKET_reserve_bytes_success:
  assumes inv: "w_inv w" and n: "0 < n" and space: "w_space w n"
  shows "fst (WPACKET_reserve_bytes w n)"
proof (cases "w_buf w")
  case None
  then show ?thesis using assms by (auto simp: WPACKET_reserve_bytes_def w_inv_def w_space_def)
next
  case (Some b)
  with inv have b: "buf_wf b" "w_written w \<le> length (b_data b)"
    by (auto simp: w_inv_def split: option.splits)
  from space Some have lim: "2 * (w_written w + n) \<le> LIMIT_BEFORE_EXPANSION" and "shd (w_alloc w)"
    using shd_sset [of "w_alloc w"] by (auto simp: w_space_def)
  have "n \<le> SIZE_MAX div 2" "length (b_data b) \<le> SIZE_MAX div 2"
    using b lim by (simp_all add: buf_wf_def LIMIT_BEFORE_EXPANSION_def)
  note nl = reserve_newlen [OF _ n b(2) this]
  have "fst (BUF_MEM_grow True b newlen) \<noteq> 0"
    if "newlen \<le> max 256 (2 * (w_written w + n))" "length (b_data b) < newlen" for newlen
    using that lim by (intro BUF_MEM_grow_success) (auto simp: LIMIT_BEFORE_EXPANSION_def)
  with nl \<open>shd (w_alloc w)\<close> Some space inv n show ?thesis
    by (auto simp: WPACKET_reserve_bytes_def w_inv_def w_space_def Let_def split_beta)
qed

lemma WPACKET_allocate_bytes_ok:
  assumes inv: "w_inv w" and r: "WPACKET_allocate_bytes w n = (True, d, w')"
  shows "0 < n \<and> w_inv w' \<and> w_frame w w' \<and> d = Some (w_written w) \<and> w_written w' = w_written w + n
    \<and> GETBUF w' = Some (w_mem w') \<and> take (w_written w) (w_mem w') = w_out w"
proof -
  from r obtain w1 where w1: "WPACKET_reserve_bytes w n = (True, d, w1)"
    and w': "w' = w1\<lparr>w_written := w_written w1 + n, w_curr := w_curr w1 + n\<rparr>"
    by (auto simp: WPACKET_allocate_bytes_def split: prod.splits if_splits)
  note ok = WPACKET_reserve_bytes_ok [OF inv w1]
  have mem: "w_mem w' = w_mem w1" "GETBUF w' = GETBUF w1"
    by (simp_all add: w' w_mem_def GETBUF_def cong: option.case_cong)
  have "w_inv w'"
    using ok by (auto simp: w_inv_def w' w_frame_def w_mem_def GETBUF_def buf_wf_def split: option.splits if_splits)
  moreover have "take (w_written w) (w_mem w') = w_out w" using ok mem by (metis w_out_def)
  ultimately show ?thesis using ok mem by (simp add: w' w_frame_def)
qed

lemma WPACKET_allocate_bytes_success:
  "w_inv w \<Longrightarrow> 0 < n \<Longrightarrow> w_space w n \<Longrightarrow> fst (WPACKET_allocate_bytes w n)"
  using WPACKET_reserve_bytes_success [of w n] by (simp add: WPACKET_allocate_bytes_def split_beta)

lemma w_setbuf_simps [simp]:
  "w_subs (w_setbuf w bs) = w_subs w" "w_maxsize (w_setbuf w bs) = w_maxsize w"
  "w_written (w_setbuf w bs) = w_written w" "w_curr (w_setbuf w bs) = w_curr w"
  "w_endfirst (w_setbuf w bs) = w_endfirst w" "w_alloc (w_setbuf w bs) = w_alloc w"
  "w_fault (w_setbuf w bs) = w_fault w" "w_buf (w_setbuf w bs) = None \<longleftrightarrow> w_buf w = None"
  by (simp_all add: w_setbuf_def split: option.splits)

lemma w_setbuf_mem:
  "GETBUF w \<noteq> None \<Longrightarrow> GETBUF (w_setbuf w bs) = Some bs"
  "GETBUF w \<noteq> None \<Longrightarrow> w_mem (w_setbuf w bs) = bs"
  by (auto simp: w_setbuf_def GETBUF_def w_mem_def split: option.splits if_splits)

lemma w_setbuf_inv:
  "w_inv w \<Longrightarrow> length bs = length (w_mem w) \<Longrightarrow> GETBUF w \<noteq> None \<Longrightarrow> w_inv (w_setbuf w bs)"
  by (auto simp: w_inv_def w_setbuf_def w_mem_def GETBUF_def buf_wf_def split: option.splits if_splits)

text \<open>The store that follows an allocation puts its bytes behind what was written before.\<close>

lemma w_store_allocated:
  assumes inv: "w_inv w" and r: "WPACKET_allocate_bytes w (length bs) = (True, d, w')"
  shows "w_inv (w_store w' d bs)" "w_out (w_store w' d bs) = w_out w @ bs" "w_frame w (w_store w' d bs)"
proof -
  note ok = WPACKET_allocate_bytes_ok [OF inv r]
  then have d: "d = Some (w_written w)" and g: "GETBUF w' = Some (w_mem w')" and inv': "w_inv w'"
    and pre: "take (w_written w) (w_mem w') = w_out w" and wr: "w_written w' = w_written w + length bs" by blast+
  have le: "w_written w + length bs \<le> length (w_mem w')" using w_mem_length [OF inv'] wr by simp
  have st: "w_store w' d bs = w_setbuf w' (overwrite (w_mem w') (w_written w) bs)"
    using g by (simp add: w_store_def d)
  show "w_inv (w_store w' d bs)" using inv' g le by (simp add: st w_setbuf_inv length_overwrite)
  have "w_out (w_store w' d bs) = take (w_written w + length bs) (overwrite (w_mem w') (w_written w) bs)"
    using g by (simp add: st w_out_def w_setbuf_mem wr)
  also have "\<dots> = take (w_written w) (w_mem w') @ bs" using le by (simp add: overwrite_def)
  finally show "w_out (w_store w' d bs) = w_out w @ bs" by (simp only: pre)
  have "w_frame w w'" using ok by blast
  then show "w_frame w (w_store w' d bs)" unfolding st by (simp add: w_frame_def)
qed

section \<open>Operations that append\<close>

text \<open>
  The contract of an encoder: when it succeeds it has appended its bytes and touched nothing
  else, and it succeeds when there is room for them.
\<close>

definition appends :: "(WPACKET \<Rightarrow> bool \<times> WPACKET) \<Rightarrow> u8 list \<Rightarrow> bool" where
  "appends f bs \<longleftrightarrow> (\<forall>w. w_inv w \<longrightarrow>
     (\<forall>w'. f w = (True, w') \<longrightarrow> w_inv w' \<and> w_out w' = w_out w @ bs \<and> w_frame w w')
     \<and> (w_space w (length bs) \<longrightarrow> fst (f w)))"

named_theorems append_intros \<open>rules that show what an encoder appends\<close>

lemma appendsD:
  assumes "appends f bs" "w_inv w"
  shows "f w = (True, w') \<Longrightarrow> w_inv w'" "f w = (True, w') \<Longrightarrow> w_out w' = w_out w @ bs"
    "f w = (True, w') \<Longrightarrow> w_frame w w'" "w_space w (length bs) \<Longrightarrow> fst (f w)"
  using assms by (auto simp: appends_def)

lemma w_space_mono: "w_space w n \<Longrightarrow> m \<le> n \<Longrightarrow> w_space w m"
  by (auto simp: w_space_def)

lemma w_space_frame:
  assumes "w_frame w w'" "w_inv w" "w_inv w'" "w_out w' = w_out w @ bs" "w_space w (length bs + n)"
  shows "w_space w' n"
  using assms length_w_out [of w] length_w_out [of w'] by (auto simp: w_space_def w_frame_def)

lemma appends_all_ok_Nil [append_intros]: "appends (all_ok []) []"
  by (simp add: appends_def)

lemma appends_all_ok_Cons [append_intros]:
  assumes f: "appends f bs" and fs: "appends (all_ok fs) cs"
  shows "appends (all_ok (f # fs)) (bs @ cs)"
  unfolding appends_def
proof (intro allI impI conjI)
  fix w
  assume inv: "w_inv w"
  obtain ok w1 where w1: "f w = (ok, w1)" by fastforce
  {
    fix w'
    assume "all_ok (f # fs) w = (True, w')"
    then have ok and w': "all_ok fs w1 = (True, w')" using w1 by (auto split: if_splits)
    with w1 have w1: "f w = (True, w1)" by simp
    note a = appendsD(1-3) [OF f inv w1]
    note b = appendsD(1-3) [OF fs a(1) w']
    show "w_inv w'" "w_out w' = w_out w @ bs @ cs" "w_frame w w'"
      using a b by (auto intro: w_frame_trans)
  }
  assume space: "w_space w (length (bs @ cs))"
  then have "fst (f w)" using appendsD(4) [OF f inv] w_space_mono by simp
  with w1 have w1: "f w = (True, w1)" by simp
  note a = appendsD(1-3) [OF f inv w1]
  have "w_space w1 (length cs)" using w_space_frame [OF a(3) inv a(1,2)] space by simp
  then show "fst (all_ok (f # fs) w)" using appendsD(4) [OF fs a(1)] w1 by simp
qed

lemma appends_store:
  assumes "bs \<noteq> []"
  shows "appends (\<lambda>w. let (ok, d, w) = WPACKET_allocate_bytes w (length bs)
    in if \<not> ok then (False, w) else (True, w_store w d bs)) bs"
  unfolding appends_def
  using assms w_store_allocated [of _ bs]
  by (auto split: prod.splits if_splits dest: WPACKET_allocate_bytes_success [of _ "length bs"])

lemma appends_memcpy [append_intros]: "n \<le> length src \<Longrightarrow> appends (\<lambda>w. WPACKET_memcpy w src n) (take n src)"
proof (cases "n = 0")
  case True
  then show ?thesis by (simp add: appends_def WPACKET_memcpy_def)
next
  case False
  assume "n \<le> length src"
  then have "length (take n src) = n" "take n src \<noteq> []" using False by auto
  with appends_store [of "take n src"] False show ?thesis by (simp add: WPACKET_memcpy_def)
qed

lemma appends_memset [append_intros]: "appends (\<lambda>w. WPACKET_memset w ch n) (replicate n ch)"
proof (cases "n = 0")
  case True
  then show ?thesis by (simp add: appends_def WPACKET_memset_def)
next
  case False
  with appends_store [of "replicate n ch"] show ?thesis by (simp add: WPACKET_memset_def)
qed

lemma appends_vlint [append_intros]:
  assumes "unat v < 2 ^ 62"
  shows "appends (\<lambda>w. WPACKET_quic_write_vlint w v) (ossl_quic_vlint_encode v)"
proof -
  note e = vlint_encode [OF assms]
  have "0 < ossl_quic_vlint_encode_len v" using e(1,2) by (metis length_greater_0_conv)
  then have same: "w_inv w \<Longrightarrow> WPACKET_quic_write_vlint w v =
     (let (ok, d, w) = WPACKET_allocate_bytes w (length (ossl_quic_vlint_encode v))
      in if \<not> ok then (False, w) else (True, w_store w d (ossl_quic_vlint_encode v)))" for w
    using WPACKET_allocate_bytes_ok [of w "ossl_quic_vlint_encode_len v"]
    by (auto simp: WPACKET_quic_write_vlint_def e(1) split: prod.splits)
  show ?thesis
    using appends_store [OF e(2)] unfolding appends_def by (simp add: same)
qed

lemma vlint_too_large: "\<not> unat v < 2 ^ 62 \<Longrightarrow> WPACKET_quic_write_vlint w v = (False, w)"
  by (simp add: WPACKET_quic_write_vlint_def vlint_encode_len_cases)

lemma put_value_loop_be_bytes:
  "data + len \<le> length buf \<Longrightarrow> put_value_loop buf data v len = (overwrite buf data (be_bytes len v), drop_bit (8 * len) v)"
proof (induction len arbitrary: buf v)
  case 0
  then show ?case by (simp add: overwrite_def)
next
  case (Suc len)
  have u: "ucast (and v 0xff) = (ucast v :: u8)"
    by (rule u8_eqI, drule less_8_cases) (auto simp: bit_simps)
  have "overwrite (buf[data + len := ucast v]) data (be_bytes len (drop_bit 8 v))
      = overwrite buf data (be_bytes len (drop_bit 8 v) @ [ucast v])"
    using Suc.prems by (simp add: overwrite_def take_update_cancel drop_update_swap
        Cons_nth_drop_Suc [symmetric] upd_conv_take_nth_drop)
  with Suc show ?case by (simp add: u add.commute)
qed

lemma appends_put_bytes [append_intros]:
  assumes n: "0 < n" "n \<le> 8" and v: "unat v < 2 ^ (8 * n)"
  shows "appends (\<lambda>w. WPACKET_put_bytes w v n) (be_bytes n v)"
proof -
  have "drop_bit (8 * n) (take_bit (8 * n) v) = 0" by (simp add: drop_bit_take_bit)
  then have z: "drop_bit (8 * n) v = 0" by (simp only: take_bit_unat_self [OF v])
  have same: "WPACKET_put_bytes w v n =
     (let (ok, d, w) = WPACKET_allocate_bytes w (length (be_bytes n v))
      in if \<not> ok then (False, w) else (True, w_store w d (be_bytes n v)))" if "w_inv w" for w
  proof (cases "fst (WPACKET_allocate_bytes w n)")
    case True
    then obtain d w1 where w1: "WPACKET_allocate_bytes w n = (True, d, w1)" by (cases "WPACKET_allocate_bytes w n") auto
    note ok = WPACKET_allocate_bytes_ok [OF that w1]
    then have "w_written w + n \<le> length (w_mem w1)" using w_mem_length [of w1] by simp
    then have "put_value w1 d v n = (True, w_store w1 d (be_bytes n v))"
      using ok by (simp add: put_value_def w_store_def put_value_loop_be_bytes z)
    with w1 n show ?thesis by (simp add: WPACKET_put_bytes_def)
  qed (use n in \<open>auto simp: WPACKET_put_bytes_def split: prod.splits\<close>)
  have "be_bytes n v \<noteq> []" using n by (metis length_be_bytes length_greater_0_conv)
  from appends_store [OF this] show ?thesis unfolding appends_def by (simp add: same)
qed

section \<open>Sub-packets\<close>

lemma start_sub_packet_ok:
  assumes inv: "w_inv w" and lenb: "0 < lenb"
    and r: "WPACKET_start_sub_packet_len w lenb = (True, w')"
  shows "w_inv w'" "w_subs w' = \<lparr>packet_len = w_written w, lenbytes = lenb, pwritten = w_written w + lenb,
      sub_flags = 0\<rparr> # w_subs w"
    "\<exists>x. length x = lenb \<and> w_out w' = w_out w @ x"
    "w_frame w (w'\<lparr>w_subs := w_subs w\<rparr>)"
proof -
  let ?sub = "\<lparr>packet_len = w_written w, lenbytes = lenb, pwritten = w_written w + lenb, sub_flags = 0\<rparr>"
  let ?w = "w\<lparr>w_alloc := stl (w_alloc w), w_subs := ?sub # w_subs w\<rparr>"
  from r inv lenb obtain d where d: "WPACKET_allocate_bytes ?w lenb = (True, d, w')"
    by (auto simp: WPACKET_start_sub_packet_len_def w_inv_def new_sub_def Let_def split: if_splits prod.splits)
  have mem: "w_mem ?w = w_mem w" by (simp add: w_mem_def GETBUF_def cong: option.case_cong)
  have "w_inv ?w" using inv by (simp add: w_inv_def cong: option.case_cong)
  note ok = WPACKET_allocate_bytes_ok [OF this d]
  then show inv': "w_inv w'" and "w_subs w' = ?sub # w_subs w" by (simp_all add: w_frame_def)
  have "w_out w' = take (w_written w) (w_mem w') @ take lenb (drop (w_written w) (w_mem w'))"
    using ok by (simp add: w_out_def take_add)
  moreover have "take (w_written w) (w_mem w') = w_out w" using ok mem by (simp add: w_out_def)
  moreover have "length (take lenb (drop (w_written w) (w_mem w'))) = lenb"
    using w_mem_length [OF inv'] ok by simp
  ultimately show "\<exists>x. length x = lenb \<and> w_out w' = w_out w @ x" by metis
  show "w_frame w (w'\<lparr>w_subs := w_subs w\<rparr>)"
    using ok sset_stl [of "w_alloc w"] by (auto simp: w_frame_def)
qed

lemma start_sub_packet_success:
  assumes inv: "w_inv w" and lenb: "0 < lenb" and space: "w_space w lenb"
  shows "fst (WPACKET_start_sub_packet_len w lenb)"
proof -
  let ?sub = "\<lparr>packet_len = w_written w, lenbytes = lenb, pwritten = w_written w + lenb, sub_flags = 0\<rparr>"
  let ?w = "w\<lparr>w_alloc := stl (w_alloc w), w_subs := ?sub # w_subs w\<rparr>"
  have "w_inv ?w" using inv by (simp add: w_inv_def cong: option.case_cong)
  moreover have "w_space ?w lenb" using space sset_stl [of "w_alloc w"] by (auto simp: w_space_def)
  ultimately have "fst (WPACKET_allocate_bytes ?w lenb)" using lenb by (intro WPACKET_allocate_bytes_success)
  moreover have "shd (w_alloc w)" using space shd_sset [of "w_alloc w"] by (auto simp: w_space_def)
  ultimately show ?thesis
    using inv lenb by (simp add: WPACKET_start_sub_packet_len_def w_inv_def new_sub_def Let_def split_beta)
qed

text \<open>Closing a sub-packet replaces the bytes kept for the length and pops the stack.\<close>

lemma w_setbuf_overwrite_out:
  assumes inv: "w_inv w" and g: "GETBUF w \<noteq> None"
    and out: "w_out w = pre @ x @ bs" and len: "length x = length y"
  shows "w_inv (w_setbuf w (overwrite (w_mem w) (length pre) y))"
    "w_out (w_setbuf w (overwrite (w_mem w) (length pre) y)) = pre @ y @ bs"
proof -
  have le: "length pre + length y + length bs = w_written w"
    using out len length_w_out [OF inv] by simp
  then have le': "length pre + length y \<le> length (w_mem w)" using w_mem_length [OF inv] by simp
  show "w_inv (w_setbuf w (overwrite (w_mem w) (length pre) y))"
    using inv g le' by (intro w_setbuf_inv) (simp_all add: length_overwrite)
  obtain post where mem: "w_mem w = pre @ x @ bs @ post"
    using out by (metis append.assoc append_take_drop_id w_out_def)
  then have "overwrite (w_mem w) (length pre) y = pre @ y @ bs @ post"
    using len by (simp add: overwrite_def)
  then show "w_out (w_setbuf w (overwrite (w_mem w) (length pre) y)) = pre @ y @ bs"
    using g le by (simp add: w_out_def w_setbuf_mem flip: le)
qed

lemma w_inv_getbuf: "w_inv w \<Longrightarrow> 0 < w_written w \<Longrightarrow> GETBUF w = Some (w_mem w)"
  using w_mem_length [of w] by (auto simp: w_mem_def split: option.splits)

lemma w_inv_subs [simp]: "ss \<noteq> [] \<Longrightarrow> w_inv w \<Longrightarrow> w_inv (w\<lparr>w_subs := ss\<rparr>)"
  by (simp add: w_inv_def cong: option.case_cong)

lemma w_out_subs [simp]: "w_out (w\<lparr>w_subs := ss\<rparr>) = w_out w"
  by (simp add: w_out_def w_mem_def GETBUF_def cong: option.case_cong)

lemma close_sub_packet:
  assumes inv: "w_inv w" and subs: "w_subs w = sub # rest" "rest \<noteq> []"
    and sub: "packet_len sub = length pre" "pwritten sub = length pre + lenbytes sub"
      "and (sub_flags sub) WPACKET_FLAGS_NON_ZERO_LENGTH = 0"
      "and (sub_flags sub) WPACKET_FLAGS_ABANDON_ON_ZERO_LENGTH = 0"
    and lenb: "0 < lenbytes sub" and out: "w_out w = pre @ x @ bs" "length x = lenbytes sub"
    and put: "(ok, w') = (if and (sub_flags sub) WPACKET_FLAGS_QUIC_VLINT = 0
       then put_value w (Some (length pre)) (of_nat (length bs)) (lenbytes sub)
       else put_quic_value w (Some (length pre)) (length bs) (lenbytes sub))"
  shows "WPACKET_close w = (ok, if ok then w'\<lparr>w_subs := rest\<rparr> else w')"
proof -
  have wr: "w_written w = length pre + lenbytes sub + length bs" using out length_w_out [OF inv] by simp
  then have g: "GETBUF w = Some (w_mem w)" using w_inv_getbuf [OF inv] lenb by simp
  have "w_subs w' = w_subs w"
    using put by (auto simp: put_value_def put_quic_value_def w_store_def split: if_splits option.splits prod.splits)
  moreover from put [symmetric]
  have "and (sub_flags sub) WPACKET_FLAGS_QUIC_VLINT = 0 \<Longrightarrow>
      put_value w (Some (length pre)) (of_nat (length bs)) (lenbytes sub) = (ok, w')"
    "and (sub_flags sub) WPACKET_FLAGS_QUIC_VLINT \<noteq> 0 \<Longrightarrow>
      put_quic_value w (Some (length pre)) (length bs) (lenbytes sub) = (ok, w')" by simp_all
  ultimately show ?thesis
    using subs sub lenb g wr
    by (cases "and (sub_flags sub) WPACKET_FLAGS_QUIC_VLINT = 0"; cases rest)
      (simp_all add: WPACKET_close_def wpacket_intern_close_def Let_def)
qed

lemma put_value_fits:
  assumes "w_inv w" "w_out w = pre @ x @ bs" "length x = n" "0 < n" "n \<le> 8" "length bs < 2 ^ (8 * n)" "length bs \<le> SIZE_MAX"
  shows "put_value w (Some (length pre)) (of_nat (length bs)) n
    = (True, w_setbuf w (overwrite (w_mem w) (length pre) (be_bytes n (of_nat (length bs)))))"
proof -
  have wr: "length pre + n + length bs = w_written w" using assms length_w_out [OF assms(1)] by simp
  then have g: "GETBUF w = Some (w_mem w)" using w_inv_getbuf [OF assms(1)] assms(4) by simp
  have le: "length pre + n \<le> length (w_mem w)" using wr w_mem_length [OF assms(1)] by simp
  have u: "unat (of_nat (length bs) :: u64) = length bs" using assms(7) by (simp add: unat_of_nat)
  then have "drop_bit (8 * n) (take_bit (8 * n) (of_nat (length bs) :: u64)) = 0" by (simp add: drop_bit_take_bit)
  then have "drop_bit (8 * n) (of_nat (length bs) :: u64) = 0"
    using assms(6) u by (simp only: take_bit_unat_self)
  then show ?thesis using g le by (simp add: put_value_def put_value_loop_be_bytes)
qed

lemma put_value_overflow:
  assumes "w_inv w" "w_out w = pre @ x @ bs" "length x = n" "0 < n" "n \<le> 8" "2 ^ (8 * n) \<le> length bs" "length bs \<le> SIZE_MAX"
  shows "fst (put_value w (Some (length pre)) (of_nat (length bs)) n) = False"
proof -
  have wr: "length pre + n + length bs = w_written w" using assms length_w_out [OF assms(1)] by simp
  then have g: "GETBUF w = Some (w_mem w)" using w_inv_getbuf [OF assms(1)] assms(4) by simp
  have le: "length pre + n \<le> length (w_mem w)" using wr w_mem_length [OF assms(1)] by simp
  have u: "unat (of_nat (length bs) :: u64) = length bs" using assms(7) by (simp add: unat_of_nat)
  have "unat (drop_bit (8 * n) (of_nat (length bs) :: u64)) = length bs div 2 ^ (8 * n)"
    by (simp only: unat_drop_bit_eq u drop_bit_eq_div [where 'a = nat])
  also have "\<dots> > 0" using assms(6) by (simp add: div_greater_zero_iff)
  finally have "drop_bit (8 * n) (of_nat (length bs) :: u64) > 0" by (simp add: word_gt_0 unat_gt_0)
  then show ?thesis using g le by (simp add: put_value_def put_value_loop_be_bytes)
qed

text \<open>Whatever a writer appends, wrapped in a sub-packet it is preceded by its length.\<close>

lemma appends_wrapped:
  assumes f: "appends f bs" and n: "0 < n" and field: "length field = n"
    and start: "\<And>w w'. w_inv w \<Longrightarrow> start w = (True, w') \<Longrightarrow>
      w_inv w' \<and> w_subs w' = \<lparr>packet_len = w_written w, lenbytes = n, pwritten = w_written w + n, sub_flags = fl\<rparr> # w_subs w
      \<and> (\<exists>x. length x = n \<and> w_out w' = w_out w @ x) \<and> w_frame w (w'\<lparr>w_subs := w_subs w\<rparr>)"
    and start_success: "\<And>w. w_inv w \<Longrightarrow> w_space w n \<Longrightarrow> fst (start w)"
    and fl: "and fl WPACKET_FLAGS_NON_ZERO_LENGTH = 0" "and fl WPACKET_FLAGS_ABANDON_ON_ZERO_LENGTH = 0"
    and put: "\<And>w pre x. w_inv w \<Longrightarrow> w_out w = pre @ x @ bs \<Longrightarrow> length x = n \<Longrightarrow>
      (if and fl WPACKET_FLAGS_QUIC_VLINT = 0 then put_value w (Some (length pre)) (of_nat (length bs)) n
       else put_quic_value w (Some (length pre)) (length bs) n)
      = (True, w_setbuf w (overwrite (w_mem w) (length pre) field))"
  shows "appends (all_ok [start, f, WPACKET_close]) (field @ bs)"
  unfolding appends_def
proof (intro allI impI)
  fix w
  assume inv: "w_inv w"
  then have subs0: "w_subs w \<noteq> []" by (simp add: w_inv_def)
  obtain ok1 w1 where w1: "start w = (ok1, w1)" by fastforce
  obtain ok2 w2 where w2: "f w1 = (ok2, w2)" by fastforce
  let ?sub = "\<lparr>packet_len = w_written w, lenbytes = n, pwritten = w_written w + n, sub_flags = fl\<rparr>"
  have close: "\<exists>w3. WPACKET_close w2 = (True, w3) \<and> w_inv w3 \<and> w_out w3 = w_out w @ field @ bs \<and> w_frame w w3"
    if ok1 ok2
  proof -
    from w1 w2 that have w1: "start w = (True, w1)" and w2: "f w1 = (True, w2)" by simp_all
    from start [OF inv w1] obtain x where a: "w_inv w1" "w_subs w1 = ?sub # w_subs w" "length x = n"
      "w_out w1 = w_out w @ x" "w_frame w (w1\<lparr>w_subs := w_subs w\<rparr>)" by blast
    note b = appendsD(1-3) [OF f a(1) w2]
    have out: "w_out w2 = w_out w @ x @ bs" using b(2) a(4) by simp
    have subs: "w_subs w2 = ?sub # w_subs w" using a(2) b(3) by (simp add: w_frame_def)
    let ?w2 = "w_setbuf w2 (overwrite (w_mem w2) (length (w_out w)) field)"
    have "WPACKET_close w2 = (True, ?w2\<lparr>w_subs := w_subs w\<rparr>)"
      using close_sub_packet [OF b(1) subs subs0, of "w_out w" x bs True ?w2]
        put [OF b(1) out a(3)] n fl a(3) out length_w_out [OF inv] by (simp cong: if_cong)
    moreover have "GETBUF w2 \<noteq> None"
      using w_inv_getbuf [OF b(1)] out length_w_out [OF b(1)] a(3) n by simp
    note w_setbuf_overwrite_out [OF b(1) this out, of field]
    moreover have "w_frame w (?w2\<lparr>w_subs := w_subs w\<rparr>)" using a(5) b(3) by (auto simp: w_frame_def)
    ultimately show ?thesis using a(3) field subs0 by simp
  qed
  show "(\<forall>w'. all_ok [start, f, WPACKET_close] w = (True, w') \<longrightarrow>
        w_inv w' \<and> w_out w' = w_out w @ field @ bs \<and> w_frame w w')
     \<and> (w_space w (length (field @ bs)) \<longrightarrow> fst (all_ok [start, f, WPACKET_close] w))"
  proof (intro conjI allI impI)
    fix w'
    assume "all_ok [start, f, WPACKET_close] w = (True, w')"
    then have ok1 ok2 "WPACKET_close w2 = (True, w')" using w1 w2 by (auto split: if_splits prod.splits)
    with close show "w_inv w'" "w_out w' = w_out w @ field @ bs" "w_frame w w'" by auto
  next
    assume space: "w_space w (length (field @ bs))"
    then have "w_space w n" by (rule w_space_mono) (simp add: field)
    then have ok1: ok1 using start_success [OF inv] w1 by simp
    with w1 have "start w = (True, w1)" by simp
    from start [OF inv this] obtain x where a: "w_inv w1" "length x = n" "w_out w1 = w_out w @ x"
      "w_frame w (w1\<lparr>w_subs := w_subs w\<rparr>)" by blast
    have "w_space (w1\<lparr>w_subs := w_subs w\<rparr>) (length bs)"
      using w_space_frame [OF a(4) inv, of x "length bs"] a space subs0 field by simp
    then have "w_space w1 (length bs)" by (simp add: w_space_def)
    then have ok2 using appendsD(4) [OF f a(1)] w2 by simp
    with close ok1 w1 w2 show "fst (all_ok [start, f, WPACKET_close] w)" by auto
  qed
qed

lemma put_limit: "w_inv w \<Longrightarrow> w_out w = pre @ x @ bs \<Longrightarrow> length bs \<le> SIZE_MAX"
  using length_w_out [of w] by (simp add: w_inv_def)

lemma appends_sub_packet:
  assumes f: "appends f bs" and n: "0 < n" "n \<le> 8" and len: "length bs < 2 ^ (8 * n)"
  shows "appends (all_ok [\<lambda>w. WPACKET_start_sub_packet_len w n, f, WPACKET_close])
    (be_bytes n (of_nat (length bs)) @ bs)"
proof (rule appends_wrapped [where fl = 0 and n = n, OF f n(1)])
  show "w_inv w' \<and> w_subs w' = \<lparr>packet_len = w_written w, lenbytes = n, pwritten = w_written w + n, sub_flags = 0\<rparr> # w_subs w
      \<and> (\<exists>x. length x = n \<and> w_out w' = w_out w @ x) \<and> w_frame w (w'\<lparr>w_subs := w_subs w\<rparr>)"
    if "w_inv w" "WPACKET_start_sub_packet_len w n = (True, w')" for w w'
    using start_sub_packet_ok [OF that(1) n(1) that(2)] by blast
  show "fst (WPACKET_start_sub_packet_len w n)" if "w_inv w" "w_space w n" for w
    using that n(1) by (intro start_sub_packet_success)
  show "(if and 0 WPACKET_FLAGS_QUIC_VLINT = 0 then put_value w (Some (length pre)) (of_nat (length bs)) n
       else put_quic_value w (Some (length pre)) (length bs) n)
      = (True, w_setbuf w (overwrite (w_mem w) (length pre) (be_bytes n (of_nat (length bs)))))"
    if "w_inv w" "w_out w = pre @ x @ bs" "length x = n" for w pre x
    using put_value_fits [OF that n len put_limit [OF that(1,2)]] by simp
qed simp_all

lemma vlint_n_length:
  "n \<in> {1, 2, 4, 8} \<Longrightarrow> length (ossl_quic_vlint_encode_n v n) = n"
  by (auto simp: ossl_quic_vlint_encode_n_def)

lemma start_quic_sub_packet_bound_eq:
  assumes "max_len < 2 ^ 62"
  defines "n \<equiv> ossl_quic_vlint_encode_len (of_nat max_len)"
  shows "WPACKET_start_quic_sub_packet_bound w max_len =
    (let (ok, w) = WPACKET_start_sub_packet_len w n
     in if \<not> ok then (False, w)
        else (True, w\<lparr>w_subs := (hd (w_subs w))\<lparr>sub_flags := or (sub_flags (hd (w_subs w))) WPACKET_FLAGS_QUIC_VLINT\<rparr>
          # tl (w_subs w)\<rparr>))"
    and "n \<in> {1, 2, 4, 8}"
proof -
  have "unat (of_nat max_len :: u64) = max_len" using assms(1) by (simp add: unat_of_nat)
  then show n: "n \<in> {1, 2, 4, 8}" using assms(1) by (simp add: n_def vlint_encode_len_cases)
  then have "n \<noteq> 0" by auto
  then show "WPACKET_start_quic_sub_packet_bound w max_len =
    (let (ok, w) = WPACKET_start_sub_packet_len w n
     in if \<not> ok then (False, w)
        else (True, w\<lparr>w_subs := (hd (w_subs w))\<lparr>sub_flags := or (sub_flags (hd (w_subs w))) WPACKET_FLAGS_QUIC_VLINT\<rparr>
          # tl (w_subs w)\<rparr>))"
    by (simp add: WPACKET_start_quic_sub_packet_bound_def Let_def split_beta flip: n_def)
qed

lemma put_quic_value_fits:
  assumes inv: "w_inv w" and out: "w_out w = pre @ x @ bs" "length x = n" and n: "n \<in> {1, 2, 4, 8}"
    and len: "ossl_quic_vlint_encode_len (of_nat (length bs)) \<le> n"
  shows "put_quic_value w (Some (length pre)) (length bs) n
    = (True, w_setbuf w (overwrite (w_mem w) (length pre) (ossl_quic_vlint_encode_n (of_nat (length bs)) n)))"
proof -
  have "0 < n" using n by auto
  then have "GETBUF w = Some (w_mem w)" using w_inv_getbuf [OF inv] out length_w_out [OF inv] by simp
  then show ?thesis using len by (simp add: put_quic_value_def w_store_def not_less)
qed

lemma appends_quic_sub_packet:
  assumes f: "appends f bs" and len: "length bs \<le> max_len" "max_len < 2 ^ 62"
  defines "n \<equiv> ossl_quic_vlint_encode_len (of_nat max_len)"
  shows "appends (all_ok [\<lambda>w. WPACKET_start_quic_sub_packet_bound w max_len, f, WPACKET_close])
    (ossl_quic_vlint_encode_n (of_nat (length bs)) n @ bs)"
proof (rule appends_wrapped [where fl = WPACKET_FLAGS_QUIC_VLINT and n = n, OF f])
  note eq = start_quic_sub_packet_bound_eq [OF len(2), folded n_def]
  show n0: "0 < n" using eq(2) by auto
  show "length (ossl_quic_vlint_encode_n (of_nat (length bs)) n) = n" by (rule vlint_n_length [OF eq(2)])
  show "w_inv w' \<and> w_subs w' = \<lparr>packet_len = w_written w, lenbytes = n, pwritten = w_written w + n,
        sub_flags = WPACKET_FLAGS_QUIC_VLINT\<rparr> # w_subs w
      \<and> (\<exists>x. length x = n \<and> w_out w' = w_out w @ x) \<and> w_frame w (w'\<lparr>w_subs := w_subs w\<rparr>)"
    if inv: "w_inv w" and st: "WPACKET_start_quic_sub_packet_bound w max_len = (True, w')" for w w'
  proof -
    from st obtain w1 where w1: "WPACKET_start_sub_packet_len w n = (True, w1)"
      and w': "w' = w1\<lparr>w_subs := (hd (w_subs w1))\<lparr>sub_flags := or (sub_flags (hd (w_subs w1))) WPACKET_FLAGS_QUIC_VLINT\<rparr>
          # tl (w_subs w1)\<rparr>"
      by (auto simp: eq(1) split: prod.splits if_splits)
    from start_sub_packet_ok [OF inv n0 w1] show ?thesis by (simp add: w')
  qed
  show "fst (WPACKET_start_quic_sub_packet_bound w max_len)" if "w_inv w" "w_space w n" for w
    using start_sub_packet_success [OF that(1) n0 that(2)] by (simp add: eq(1) split_beta)
  show "and WPACKET_FLAGS_QUIC_VLINT WPACKET_FLAGS_NON_ZERO_LENGTH = 0"
    "and WPACKET_FLAGS_QUIC_VLINT WPACKET_FLAGS_ABANDON_ON_ZERO_LENGTH = 0"
    by (simp_all add: WPACKET_FLAGS_QUIC_VLINT_def WPACKET_FLAGS_NON_ZERO_LENGTH_def
        WPACKET_FLAGS_ABANDON_ON_ZERO_LENGTH_def)
  have "ossl_quic_vlint_encode_len (of_nat (length bs)) \<le> n"
    using len by (simp add: n_def vlint_encode_len_cases unat_of_nat)
  then show "(if and WPACKET_FLAGS_QUIC_VLINT WPACKET_FLAGS_QUIC_VLINT = 0
       then put_value w (Some (length pre)) (of_nat (length bs)) n
       else put_quic_value w (Some (length pre)) (length bs) n)
      = (True, w_setbuf w (overwrite (w_mem w) (length pre) (ossl_quic_vlint_encode_n (of_nat (length bs)) n)))"
    if "w_inv w" "w_out w = pre @ x @ bs" "length x = n" for w pre x
    using put_quic_value_fits [OF that eq(2)] by (simp add: WPACKET_FLAGS_QUIC_VLINT_def)
qed

section \<open>Writing from the end\<close>

text \<open>
  A writer for DER fills a fixed buffer from its end towards its start, so that a sub-packet's
  length, in DER's own variable-length form, can be put before contents already written.
\<close>

definition e_inv :: "WPACKET \<Rightarrow> bool" where
  "e_inv w \<longleftrightarrow> w_endfirst w \<and> \<not> w_fault w \<and> w_subs w \<noteq> [] \<and> w_curr w = w_written w \<and> w_buf w = None
     \<and> w_written w \<le> w_maxsize w \<and> w_maxsize w \<le> SIZE_MAX
     \<and> (case w_staticbuf w of None \<Rightarrow> False | Some b \<Rightarrow> w_maxsize w \<le> length b)"

definition e_out :: "WPACKET \<Rightarrow> u8 list" where
  "e_out w = take (w_written w) (drop (w_maxsize w - w_written w) (w_mem w))"

definition prepends :: "(WPACKET \<Rightarrow> bool \<times> WPACKET) \<Rightarrow> u8 list \<Rightarrow> bool" where
  "prepends f bs \<longleftrightarrow> (\<forall>w. e_inv w \<longrightarrow>
     (\<forall>w'. f w = (True, w') \<longrightarrow> e_inv w' \<and> e_out w' = bs @ e_out w \<and> w_frame w w')
     \<and> (w_space w (length bs) \<longrightarrow> fst (f w)))"

lemma e_inv_mem:
  assumes "e_inv w"
  shows "GETBUF w = Some (w_mem w)" "w_maxsize w \<le> length (w_mem w)" "length (e_out w) = w_written w"
  using assms by (auto simp: e_inv_def GETBUF_def w_mem_def e_out_def split: option.splits)

lemma e_allocate_bytes:
  assumes inv: "e_inv w"
  shows "WPACKET_allocate_bytes w n =
    (if 0 < n \<and> w_written w + n \<le> w_maxsize w
     then (True, Some (w_maxsize w - (w_written w + n)), w\<lparr>w_written := w_written w + n, w_curr := w_curr w + n\<rparr>)
     else (False, None, w))"
proof -
  have "w_maxsize w - w_written w < n \<longleftrightarrow> \<not> w_written w + n \<le> w_maxsize w" using inv by (auto simp: e_inv_def)
  then show ?thesis
    using inv e_inv_mem(1) [OF inv]
    by (auto simp: WPACKET_allocate_bytes_def WPACKET_reserve_bytes_def WPACKET_get_curr_def e_inv_def)
qed

lemma prepends_store:
  assumes "bs \<noteq> []"
  shows "prepends (\<lambda>w. let (ok, d, w) = WPACKET_allocate_bytes w (length bs)
    in if \<not> ok then (False, w) else (True, w_store w d bs)) bs"
  unfolding prepends_def
proof (intro allI impI)
  fix w
  assume inv: "e_inv w"
  note mem = e_inv_mem [OF inv]
  let ?n = "w_written w + length bs"
  let ?w = "w\<lparr>w_written := ?n, w_curr := w_curr w + length bs\<rparr>"
  let ?w' = "w_setbuf ?w (overwrite (w_mem w) (w_maxsize w - ?n) bs)"
  have g: "GETBUF ?w = Some (w_mem w)" using mem(1) by (simp add: GETBUF_def cong: option.case_cong)
  have ok: "e_inv ?w' \<and> e_out ?w' = bs @ e_out w \<and> w_frame w ?w'" if fit: "?n \<le> w_maxsize w"
  proof -
    let ?buf = "overwrite (w_mem w) (w_maxsize w - ?n) bs"
    have "length ?buf = length (w_mem w)" using fit mem(2) by (intro length_overwrite) linarith
    then have "e_inv ?w'"
      using inv fit mem by (auto simp: e_inv_def w_setbuf_def split: option.splits)
    moreover have "w_mem ?w' = ?buf" using g by (simp add: w_setbuf_mem)
    then have "e_out ?w' = take ?n (drop (w_maxsize w - ?n) ?buf)" by (simp add: e_out_def)
    then have "e_out ?w' = bs @ take (w_written w) (drop (w_maxsize w - ?n + length bs) (w_mem w))"
      using fit mem(2) by (simp add: overwrite_def)
    moreover have "w_maxsize w - ?n + length bs = w_maxsize w - w_written w" using fit by simp
    ultimately show ?thesis by (simp add: e_out_def w_frame_def)
  qed
  show "(\<forall>w'. (let (ok, d, w) = WPACKET_allocate_bytes w (length bs)
      in if \<not> ok then (False, w) else (True, w_store w d bs)) = (True, w') \<longrightarrow>
        e_inv w' \<and> e_out w' = bs @ e_out w \<and> w_frame w w')
    \<and> (w_space w (length bs) \<longrightarrow> fst (let (ok, d, w) = WPACKET_allocate_bytes w (length bs)
      in if \<not> ok then (False, w) else (True, w_store w d bs)))"
    using assms ok g by (auto simp: e_allocate_bytes [OF inv] w_store_def w_space_def)
qed

lemma prepends_put_bytes:
  assumes n: "0 < n" "n \<le> 8" and v: "unat v < 2 ^ (8 * n)"
  shows "prepends (\<lambda>w. WPACKET_put_bytes w v n) (be_bytes n v)"
proof -
  have "drop_bit (8 * n) (take_bit (8 * n) v) = 0" by (simp add: drop_bit_take_bit)
  then have z: "drop_bit (8 * n) v = 0" by (simp only: take_bit_unat_self [OF v])
  have same: "WPACKET_put_bytes w v n =
     (let (ok, d, w) = WPACKET_allocate_bytes w (length (be_bytes n v))
      in if \<not> ok then (False, w) else (True, w_store w d (be_bytes n v)))" if inv: "e_inv w" for w
  proof (cases "w_written w + n \<le> w_maxsize w")
    case True
    let ?w = "w\<lparr>w_written := w_written w + n, w_curr := w_curr w + n\<rparr>"
    have g: "GETBUF ?w = Some (w_mem w)"
      using e_inv_mem(1) [OF inv] by (simp add: GETBUF_def cong: option.case_cong)
    have "w_maxsize w - (w_written w + n) + n \<le> length (w_mem w)"
      using True e_inv_mem(2) [OF inv] by linarith
    then show ?thesis
      using n g True by (simp add: WPACKET_put_bytes_def e_allocate_bytes [OF inv] put_value_def w_store_def
          put_value_loop_be_bytes z)
  qed (use n in \<open>simp add: WPACKET_put_bytes_def e_allocate_bytes [OF inv]\<close>)
  have "be_bytes n v \<noteq> []" using n by (metis length_be_bytes length_greater_0_conv)
  from prepends_store [OF this] show ?thesis unfolding prepends_def by (simp add: same)
qed

definition der_length :: "nat \<Rightarrow> u8 list" where
  "der_length n = (if n \<le> 0x7f then [of_nat n]
     else or (of_nat (num_len_bytes n)) 0x80 # be_bytes (num_len_bytes n) (of_nat n))"

lemma num_len_bytes_pos: "0 < num_len_bytes n"
  by (simp add: num_len_bytes.simps [of n])

lemma num_len_bytes_enough: "n < 256 ^ num_len_bytes n"
proof (induction n rule: num_len_bytes.induct)
  case (1 n)
  show ?case
  proof (cases "n div 256 > 0")
    case True
    from 1 [OF True] have "n < 256 * 256 ^ num_len_bytes (n div 256)"
      by (simp add: div_less_iff_less_mult mult.commute)
    then show ?thesis using True by (simp add: num_len_bytes.simps [of n])
  next
    case False
    then show ?thesis by (simp add: num_len_bytes.simps [of n] div_eq_0_iff)
  qed
qed

lemma num_len_bytes_minimal: "n < 256 ^ k \<Longrightarrow> 0 < k \<Longrightarrow> num_len_bytes n \<le> k"
proof (induction n arbitrary: k rule: num_len_bytes.induct)
  case (1 n)
  show ?case
  proof (cases "n div 256 > 0")
    case True
    then obtain j where j: "k = Suc j" "0 < j"
      using "1.prems" by (cases k; cases "k = 1") (auto simp: div_greater_zero_iff)
    then have "n div 256 < 256 ^ j" using "1.prems" by (simp add: div_less_iff_less_mult mult.commute)
    with "1.IH" [OF True this j(2)] j True show ?thesis by (simp add: num_len_bytes.simps [of n])
  next
    case False
    then show ?thesis using "1.prems" by (simp add: num_len_bytes.simps [of n])
  qed
qed

lemma prepends_step:
  assumes "prepends f bs" "e_inv w"
  shows "f w = (True, w') \<Longrightarrow> e_inv w' \<and> e_out w' = bs @ e_out w \<and> w_frame w w'"
    "w_space w (length bs) \<Longrightarrow> fst (f w)"
  using assms by (auto simp: prepends_def)

text \<open>The length of a closed sub-packet, in the shortest form DER allows.\<close>

definition put_der_length :: "nat \<Rightarrow> WPACKET \<Rightarrow> bool \<times> WPACKET" where
  "put_der_length n w =
     (let (ok, w) = WPACKET_put_bytes w (of_nat n) (num_len_bytes n)
      in if \<not> ok then (False, w)
         else if n > 0x7f then WPACKET_put_bytes w (or (of_nat (num_len_bytes n)) 0x80) 1
         else (True, w))"

lemma e_space_step:
  assumes "e_inv w" "e_inv w'" "e_out w' = bs @ e_out w" "w_frame w w'" "w_space w (length bs + n)"
  shows "w_space w' n"
  using assms e_inv_mem(3) [of w] e_inv_mem(3) [of w'] by (auto simp: w_space_def w_frame_def e_inv_def)

lemma prepends_seq:
  assumes f: "prepends f bs" and g: "prepends g cs"
  shows "prepends (\<lambda>w. let (ok, w) = f w in if \<not> ok then (False, w) else g w) (cs @ bs)"
  unfolding prepends_def
proof (intro allI impI)
  fix w
  assume inv: "e_inv w"
  obtain ok w1 where w1: "f w = (ok, w1)" by fastforce
  note a = prepends_step [OF f inv]
  show "(\<forall>w'. (let (ok, w) = f w in if \<not> ok then (False, w) else g w) = (True, w') \<longrightarrow>
        e_inv w' \<and> e_out w' = (cs @ bs) @ e_out w \<and> w_frame w w')
    \<and> (w_space w (length (cs @ bs)) \<longrightarrow> fst (let (ok, w) = f w in if \<not> ok then (False, w) else g w))"
  proof (intro conjI allI impI)
    fix w'
    assume "(let (ok, w) = f w in if \<not> ok then (False, w) else g w) = (True, w')"
    then have "f w = (True, w1)" and w': "g w1 = (True, w')" using w1 by (auto split: if_splits)
    with a(1) [of w1] prepends_step(1) [OF g _ w']
    show "e_inv w'" "e_out w' = (cs @ bs) @ e_out w" "w_frame w w'" by (auto intro: w_frame_trans)
  next
    assume space: "w_space w (length (cs @ bs))"
    then have "fst (f w)" using a(2) w_space_mono [OF space] by simp
    with w1 have fw: "f w = (True, w1)" by simp
    with a(1) [of w1] have 1: "e_inv w1" "e_out w1 = bs @ e_out w" "w_frame w w1" by auto
    have "w_space w1 (length cs)" using e_space_step [OF inv 1] space by (simp add: add.commute)
    with prepends_step(2) [OF g 1(1)] fw
    show "fst (let (ok, w) = f w in if \<not> ok then (False, w) else g w)" by simp
  qed
qed

lemma put_der_length_prepends:
  assumes "n \<le> SIZE_MAX"
  shows "prepends (put_der_length n) (der_length n)"
proof -
  let ?k = "num_len_bytes n"
  have u: "unat (of_nat n :: u64) = n" using assms by (simp add: unat_of_nat)
  have k8: "?k \<le> 8" using assms by (intro num_len_bytes_minimal) simp_all
  have "n < 2 ^ (8 * ?k)" using num_len_bytes_enough [of n] by (simp add: power_mult)
  then have len: "prepends (\<lambda>w. WPACKET_put_bytes w (of_nat n) ?k) (be_bytes ?k (of_nat n))"
    using num_len_bytes_pos k8 u by (intro prepends_put_bytes) simp_all
  show ?thesis
  proof (cases "n \<le> 0x7f")
    case True
    then have "?k = 1" by (simp add: num_len_bytes.simps [of n])
    moreover have "ucast (of_nat n :: u64) = (of_nat n :: u8)"
      using True by (intro word_unat_eq_iff [THEN iffD2]) (simp add: unsigned_ucast_eq u unat_of_nat take_bit_eq_mod)
    moreover have "put_der_length n = (\<lambda>w. WPACKET_put_bytes w (of_nat n) ?k)"
      using True by (intro ext) (auto simp: put_der_length_def split: prod.splits)
    ultimately show ?thesis using len True by (simp add: der_length_def)
  next
    case False
    have "?k \<in> {1..8}" using k8 num_len_bytes_pos [of n] by simp
    then have "?k = 1 \<or> ?k = 2 \<or> ?k = 3 \<or> ?k = 4 \<or> ?k = 5 \<or> ?k = 6 \<or> ?k = 7 \<or> ?k = 8" by auto
    then have c: "unat (or (of_nat ?k) 0x80 :: u64) < 2 ^ (8 * 1)"
      "ucast (or (of_nat ?k) 0x80 :: u64) = (or (of_nat ?k) 0x80 :: u8)" by auto
    have "prepends (\<lambda>w. WPACKET_put_bytes w (or (of_nat ?k) 0x80) 1) [or (of_nat ?k) 0x80]"
      using prepends_put_bytes [OF _ _ c(1)] c(2) by simp
    from prepends_seq [OF len this] False show ?thesis
      by (simp add: der_length_def put_der_length_def [abs_def] split_beta cong: if_cong)
  qed
qed

lemma put_bytes_subs: "w_subs (snd (WPACKET_put_bytes w v n)) = w_subs w"
proof -
  have "w_subs (snd (snd (WPACKET_allocate_bytes w n))) = w_subs w"
    by (auto simp: WPACKET_allocate_bytes_def WPACKET_reserve_bytes_def Let_def split_beta split: option.splits)
  then show ?thesis
    by (auto simp: WPACKET_put_bytes_def put_value_def split_beta Let_def split: option.splits)
qed

lemma put_der_length_subs: "w_subs (snd (put_der_length n w)) = w_subs w"
  by (simp add: put_der_length_def split_beta put_bytes_subs)

lemma e_subs:
  "ss \<noteq> [] \<Longrightarrow> e_inv w \<Longrightarrow> e_inv (w\<lparr>w_subs := ss\<rparr>)" "e_out (w\<lparr>w_subs := ss\<rparr>) = e_out w"
  by (simp_all add: e_inv_def e_out_def w_mem_def GETBUF_def cong: option.case_cong)

lemma prepends_der_sub_packet:
  assumes f: "prepends f bs" and len: "length bs \<le> SIZE_MAX"
  shows "prepends (all_ok [WPACKET_start_sub_packet, f, WPACKET_close]) (der_length (length bs) @ bs)"
  unfolding prepends_def
proof (intro allI impI)
  fix w
  assume inv: "e_inv w"
  then have subs0: "w_subs w \<noteq> []" and e: "w_endfirst w" by (auto simp: e_inv_def)
  let ?sub = "\<lparr>packet_len = 0, lenbytes = 0, pwritten = w_written w, sub_flags = 0\<rparr>"
  let ?w1 = "w\<lparr>w_alloc := stl (w_alloc w), w_subs := ?sub # w_subs w\<rparr>"
  have st: "WPACKET_start_sub_packet w = (if shd (w_alloc w) then (True, ?w1) else (False, w\<lparr>w_alloc := stl (w_alloc w)\<rparr>))"
    using subs0 by (simp add: WPACKET_start_sub_packet_def WPACKET_start_sub_packet_len_def new_sub_def Let_def)
  have inv1: "e_inv ?w1" using inv by (simp add: e_inv_def cong: option.case_cong)
  have out1: "e_out ?w1 = e_out w" by (simp add: e_out_def w_mem_def GETBUF_def cong: option.case_cong)
  have close: "WPACKET_close w2 = (let (ok, w3) = put_der_length (length bs) w2
      in (ok, if ok then w3\<lparr>w_subs := w_subs w\<rparr> else w3))" if "f ?w1 = (True, w2)" for w2
  proof -
    from prepends_step(1) [OF f inv1 that] have 2: "e_inv w2" "e_out w2 = bs @ e_out w" "w_subs w2 = ?sub # w_subs w"
      by (simp_all add: out1 w_frame_def)
    then have "w_written w2 - w_written w = length bs"
      using e_inv_mem(3) [OF 2(1)] e_inv_mem(3) [OF inv] by simp
    moreover have "w_endfirst w2" using 2(1) by (simp add: e_inv_def)
    ultimately show ?thesis
      using subs0 2(3) put_der_length_subs [of "length bs" w2]
      by (cases "w_subs w") (auto simp: WPACKET_close_def wpacket_intern_close_def put_der_length_def Let_def split_beta)
  qed
  note der = put_der_length_prepends [OF len]
  have alloc1: "sset (w_alloc ?w1) \<subseteq> sset (w_alloc w)" using sset_stl [of "w_alloc w"] by simp
  show "(\<forall>w'. all_ok [WPACKET_start_sub_packet, f, WPACKET_close] w = (True, w') \<longrightarrow>
        e_inv w' \<and> e_out w' = (der_length (length bs) @ bs) @ e_out w \<and> w_frame w w')
    \<and> (w_space w (length (der_length (length bs) @ bs)) \<longrightarrow> fst (all_ok [WPACKET_start_sub_packet, f, WPACKET_close] w))"
  proof (intro conjI allI impI)
    fix w'
    assume "all_ok [WPACKET_start_sub_packet, f, WPACKET_close] w = (True, w')"
    then obtain w2 where w2: "f ?w1 = (True, w2)" and "WPACKET_close w2 = (True, w')"
      by (auto simp: st split: if_splits prod.splits)
    with close [OF w2] obtain w3 where w3: "put_der_length (length bs) w2 = (True, w3)"
      and w': "w' = w3\<lparr>w_subs := w_subs w\<rparr>" by (auto split: prod.splits if_splits)
    from prepends_step(1) [OF f inv1 w2] have 2: "e_inv w2" "e_out w2 = bs @ e_out w" "w_frame ?w1 w2"
      by (simp_all add: out1)
    from prepends_step(1) [OF der 2(1) w3] 2 subs0 alloc1
    show "e_inv w'" "e_out w' = (der_length (length bs) @ bs) @ e_out w" "w_frame w w'"
      by (auto simp: w' e_subs w_frame_def)
  next
    assume space: "w_space w (length (der_length (length bs) @ bs))"
    then have shd: "shd (w_alloc w)" using shd_sset [of "w_alloc w"] by (auto simp: w_space_def)
    have space1: "w_space ?w1 (length bs + length (der_length (length bs)))"
      using space alloc1 by (auto simp: w_space_def add.commute)
    then have "fst (f ?w1)" using prepends_step(2) [OF f inv1] w_space_mono [OF space1] by simp
    then obtain w2 where w2: "f ?w1 = (True, w2)" by (cases "f ?w1") simp
    from prepends_step(1) [OF f inv1 w2] have 2: "e_inv w2" "e_out w2 = bs @ e_out ?w1" "w_frame ?w1 w2" by simp_all
    have "w_space w2 (length (der_length (length bs)))" by (rule e_space_step [OF inv1 2 space1])
    then have "fst (put_der_length (length bs) w2)" by (rule prepends_step(2) [OF der 2(1)])
    with close [OF w2] shd w2 show "fst (all_ok [WPACKET_start_sub_packet, f, WPACKET_close] w)"
      by (simp add: st split_beta)
  qed
qed

lemma prepends_memcpy: "prepends (\<lambda>w. WPACKET_memcpy w bs (length bs)) bs"
proof (cases "bs = []")
  case True
  then show ?thesis by (simp add: prepends_def WPACKET_memcpy_def)
next
  case False
  with prepends_store [OF False] show ?thesis
    by (simp add: WPACKET_memcpy_def split_beta cong: if_cong)
qed

section \<open>Writers at work\<close>

lemma init_static_inv:
  assumes "WPACKET_init_static_len alloc buf 0 = (True, w)"
  shows "w_inv w" "w_out w = []" "w_maxsize w = min SIZE_MAX (length buf)" "w_alloc w = stl alloc" "w_buf w = None"
  using assms
  by (auto simp: WPACKET_init_static_len_def wpacket_intern_init_len_def w_blank_def maxmaxsize_def
      w_inv_def w_out_def new_sub_def Let_def split: if_splits)

lemma init_der_inv:
  assumes "WPACKET_init_der alloc buf = (True, w)" "length buf \<le> SIZE_MAX"
  shows "e_inv w" "e_out w = []"
  using assms
  by (auto simp: WPACKET_init_der_def wpacket_intern_init_len_def w_blank_def
      e_inv_def e_out_def new_sub_def Let_def split: if_splits)

text \<open>A fixed buffer of 16 bytes and an allocator that never fails.\<close>

definition w_demo :: WPACKET where
  "w_demo = snd (WPACKET_init_static_len (sconst True) (replicate 16 0) 0)"

lemma w_demo: "w_inv w_demo" "w_out w_demo = []" "n \<le> 16 \<Longrightarrow> w_space w_demo n"
proof -
  have i: "WPACKET_init_static_len (sconst True) (replicate 16 0) 0 = (True, w_demo)"
    by (simp add: w_demo_def WPACKET_init_static_len_def wpacket_intern_init_len_def w_blank_def maxmaxsize_def Let_def)
  note d = init_static_inv [OF i]
  then show "w_inv w_demo" "w_out w_demo = []" by blast+
  show "w_space w_demo n" if "n \<le> 16"
    using that d length_w_out [OF d(1)] by (simp add: w_space_def)
qed

lemma sub_memcpy_fits:
  assumes inv: "w_inv w" and n: "0 < n" "n \<le> 8" and ok: "WPACKET_sub_memcpy w bs (length bs) n = (True, w')"
  shows "length bs < 2 ^ (8 * n)"
proof (rule ccontr)
  assume "\<not> ?thesis"
  then have big: "2 ^ (8 * n) \<le> length bs" by simp
  from ok obtain w1 w2 where w1: "WPACKET_start_sub_packet_len w n = (True, w1)"
    and w2: "WPACKET_memcpy w1 bs (length bs) = (True, w2)" and cl: "WPACKET_close w2 = (True, w')"
    by (auto simp: WPACKET_sub_memcpy_def split: if_splits prod.splits)
  note a = start_sub_packet_ok [OF inv n(1) w1]
  then obtain x where x: "length x = n" "w_out w1 = w_out w @ x" by blast
  have m: "appends (\<lambda>w. WPACKET_memcpy w bs (length bs)) bs" using appends_memcpy [of "length bs" bs] by simp
  note b = appendsD(1-3) [OF m a(1) w2]
  have out: "w_out w2 = w_out w @ x @ bs" using b(2) x by simp
  obtain okp wp where p: "put_value w2 (Some (length (w_out w))) (of_nat (length bs)) n = (okp, wp)" by fastforce
  have "\<not> okp" using put_value_overflow [OF b(1) out x(1) n big put_limit [OF b(1) out]] p by simp
  moreover have "w_subs w2 = \<lparr>packet_len = w_written w, lenbytes = n, pwritten = w_written w + n, sub_flags = 0\<rparr>
      # w_subs w" "w_subs w \<noteq> []" using a(2) b(3) inv by (simp_all add: w_frame_def w_inv_def)
  from close_sub_packet [OF b(1) this, of "w_out w" x bs okp wp] n x out p length_w_out [OF inv] cl
  have okp by simp
  ultimately show False by blast
qed

section \<open>Properties\<close>

text \<open>C32: What a writer copies into a sub-packet with a one, two or three byte length is what a
  reader gets back: the copy succeeds only if the length fits its field, it appends the
  length and the bytes and nothing else, and the reader's getter for that length returns
  exactly these bytes and leaves what follows.\<close>

theorem sub_packet_roundtrip:
  assumes "w_inv w" and "WPACKET_sub_memcpy w bs (length bs) k = (True, w')"
    and "packet_wf p" and "pdata p = drop (length (w_out w)) (w_out w') @ rest"
    and "(k = 1 \<and> get = PACKET_get_length_prefixed_1) \<or> (k = 2 \<and> get = PACKET_get_length_prefixed_2)
      \<or> (k = 3 \<and> get = PACKET_get_length_prefixed_3)"
  shows "length bs < 2 ^ (8 * k) \<and> w_inv w' \<and> w_out w' = w_out w @ be_bytes k (of_nat (length bs)) @ bs
    \<and> (\<exists>sub q. get p = Some (sub, q) \<and> pdata sub = bs \<and> pdata q = rest)"
proof -
  have k: "0 < k" "k \<le> 3" "k \<le> 8" using assms(5) by auto
  note fits = sub_memcpy_fits [OF assms(1) k(1,3) assms(2)]
  have "appends (\<lambda>w. WPACKET_memcpy w bs (length bs)) bs" using appends_memcpy [of "length bs" bs] by simp
  from appendsD(1,2) [OF appends_sub_packet [OF this k(1,3) fits] assms(1)] assms(2)
  have w': "w_inv w'" "w_out w' = w_out w @ be_bytes k (of_nat (length bs)) @ bs"
    by (simp_all add: WPACKET_sub_memcpy_def)
  then have data: "pdata p = be_bytes k (of_nat (length bs)) @ bs @ rest" using assms(4) by simp
  have u: "unat (of_nat (length bs) :: u64) = length bs"
  proof -
    have "(2 :: nat) ^ (8 * k) \<le> 2 ^ 24" using k by (intro power_increasing) simp_all
    then show ?thesis using fits by (simp add: unat_of_nat)
  qed
  then have len: "be_val (take k (pdata p)) = of_nat (length bs)"
    using data fits by (simp add: be_val_be_bytes_self)
  have bytes: "PACKET_get_bytes (packet_forward p k) (length bs) = Some (drop k (p_curr p), packet_forward p (k + length bs))"
    "take (length bs) (drop k (p_curr p)) = bs"
    using get_bytes_cut [OF assms(3), of k "length bs"] data by simp_all
  have "get p = Some (\<lparr>p_curr = drop k (p_curr p), p_remaining = length bs\<rparr>, packet_forward p (k + length bs))"
    using assms(5)
  proof (elim disjE conjE)
    assume k1: "k = 1" and g: "get = PACKET_get_length_prefixed_1"
    then have "pdata p = ucast (of_nat (length bs) :: u64) # bs @ rest" using data by (simp add: be_bytes_unfold)
    moreover have "unat (ucast (of_nat (length bs) :: u64) :: u8) = length bs"
      using fits u k1 by (simp add: unsigned_ucast_eq take_bit_nat_eq_self)
    ultimately show ?thesis
      using bytes k1 by (simp add: g PACKET_get_length_prefixed_1_def PACKET_get_1_eq [OF assms(3)])
  next
    assume k2: "k = 2" and g: "get = PACKET_get_length_prefixed_2"
    moreover have "unat (ucast (be_val (take 2 (pdata p))) :: u32) = length bs"
      using unat_ucast_be_val [of "take 2 (pdata p)"] len u k2 data by simp
    ultimately show ?thesis
      using bytes data by (simp add: PACKET_get_length_prefixed_2_def PACKET_get_net_eq [OF assms(3)])
  next
    assume k3: "k = 3" and g: "get = PACKET_get_length_prefixed_3"
    then show ?thesis
      using bytes data len u by (simp add: PACKET_get_length_prefixed_3_def PACKET_get_net_eq [OF assms(3)])
  qed
  with fits w' bytes(2) data show ?thesis by simp
qed

theorem sub_packet_roundtrip_witness:
  "\<exists>w' sub q. WPACKET_sub_memcpy w_demo [5, 6, 7] 3 2 = (True, w')
    \<and> PACKET_get_length_prefixed_2 \<lparr>p_curr = w_out w' @ [9], p_remaining = length (w_out w' @ [9])\<rparr> = Some (sub, q)
    \<and> pdata sub = [5, 6, 7] \<and> pdata q = [9]"
proof -
  have m: "appends (\<lambda>w. WPACKET_memcpy w [5, 6, 7] 3) [5, 6, 7]" using appends_memcpy [of 3 "[5, 6, 7]"] by simp
  have "fst (WPACKET_sub_memcpy w_demo [5, 6, 7] 3 2)"
    using appendsD(4) [OF appends_sub_packet [OF m, of 2] w_demo(1)] w_demo(3) [of 5]
    by (simp add: WPACKET_sub_memcpy_def)
  then obtain w' where w': "WPACKET_sub_memcpy w_demo [5, 6, 7] 3 2 = (True, w')"
    by (cases "WPACKET_sub_memcpy w_demo [5, 6, 7] 3 2") simp
  with sub_packet_roundtrip [of w_demo "[5, 6, 7]" 2 w'
      "\<lparr>p_curr = w_out w' @ [9], p_remaining = length (w_out w' @ [9])\<rparr>" "[9]" PACKET_get_length_prefixed_2]
  show ?thesis using w_demo by (auto simp: numeral_3_eq_3)
qed

text \<open>C33: The writing calls do what they promise on every kind of buffer: when one succeeds it
  has put its bytes right behind the output, kept the invariant that the output fits the
  buffer and the limit, and left the stack of sub-packets alone; and it succeeds whenever
  there is room.\<close>

theorem wpacket_calls_append:
  assumes "0 < n" "n \<le> 8" "unat v < 2 ^ (8 * n)" "unat u < 2 ^ 62" "k \<le> length src"
  shows "appends (\<lambda>w. WPACKET_put_bytes w v n) (be_bytes n v)
    \<and> appends (\<lambda>w. WPACKET_quic_write_vlint w u) (ossl_quic_vlint_encode u)
    \<and> appends (\<lambda>w. WPACKET_memcpy w src k) (take k src)
    \<and> appends (\<lambda>w. WPACKET_memset w ch m) (replicate m ch)"
  using assms by (intro conjI append_intros)

theorem wpacket_calls_append_witness:
  "\<exists>w'. WPACKET_quic_write_vlint w_demo 300 = (True, w') \<and> w_inv w' \<and> w_out w' = [0x41, 0x2c]"
proof -
  have e: "ossl_quic_vlint_encode 300 = [0x41, 0x2c]"
    by (simp add: ossl_quic_vlint_encode_def vlint_encode_len_cases ossl_quic_vlint_encode_n_def)
  have "appends (\<lambda>w. WPACKET_quic_write_vlint w 300) [0x41, 0x2c]"
    using wpacket_calls_append [of 1 0 300 0 "[]"] by (simp add: e)
  from appendsD [OF this w_demo(1)] w_demo(2) w_demo(3) [of 2] show ?thesis
    by (cases "WPACKET_quic_write_vlint w_demo 300") (auto simp: numeral_2_eq_2)
qed

text \<open>C35: A writer of DER puts before the contents of a sub-packet the length in the shortest
  form: one byte up to 127, and otherwise a byte with the number of length bytes, its high
  bit set, followed by the length without leading zero bytes.\<close>

theorem der_sub_packet:
  assumes "e_inv w" and "all_ok [WPACKET_start_sub_packet, \<lambda>w. WPACKET_memcpy w bs (length bs), WPACKET_close] w = (True, w')"
    and "length bs \<le> SIZE_MAX"
  shows "e_inv w' \<and> e_out w' = der_length (length bs) @ bs @ e_out w
    \<and> length bs < 256 ^ num_len_bytes (length bs)
    \<and> (\<forall>k. 0 < k \<longrightarrow> length bs < 256 ^ k \<longrightarrow> num_len_bytes (length bs) \<le> k)"
  using prepends_step(1) [OF prepends_der_sub_packet [OF prepends_memcpy assms(3)] assms(1,2)]
    num_len_bytes_enough num_len_bytes_minimal by simp

theorem der_sub_packet_witness:
  "\<exists>w w'. WPACKET_init_der (sconst True) (replicate 8 0) = (True, w)
    \<and> all_ok [WPACKET_start_sub_packet, \<lambda>w. WPACKET_memcpy w [1, 2] 2, WPACKET_close] w = (True, w')
    \<and> e_out w' = [2, 1, 2]"
proof -
  obtain w where w: "WPACKET_init_der (sconst True) (replicate 8 0) = (True, w)" and al: "w_alloc w = sconst True"
    "w_maxsize w = 8" "w_written w = 0" "w_buf w = None"
    by (simp add: WPACKET_init_der_def wpacket_intern_init_len_def w_blank_def Let_def)
  then have e: "e_inv w" "e_out w = []" using init_der_inv [OF w] by simp_all
  have "prepends (\<lambda>w. WPACKET_memcpy w [1, 2] 2) [1, 2]"
    using prepends_memcpy [of "[1, 2]"] by (simp add: numeral_2_eq_2)
  from prepends_step(2) [OF prepends_der_sub_packet [OF this] e(1)] al
  obtain w' where w': "all_ok [WPACKET_start_sub_packet, \<lambda>w. WPACKET_memcpy w [1, 2] 2, WPACKET_close] w = (True, w')"
    by (cases "all_ok [WPACKET_start_sub_packet, \<lambda>w. WPACKET_memcpy w [1, 2] 2, WPACKET_close] w")
      (auto simp: w_space_def der_length_def)
  with der_sub_packet [OF e(1), of "[1, 2]" w'] e(2) w show ?thesis
    by (auto simp: der_length_def numeral_2_eq_2)
qed

text \<open>A sub-packet headed by a variable-length integer takes the field length that its
  announced maximum needs, and any contents up to that maximum are preceded by their
  length in that field.\<close>

theorem quic_sub_packet:
  assumes "w_inv w" and "length bs \<le> max_len" and "max_len < 2 ^ 62"
    and "all_ok [\<lambda>w. WPACKET_start_quic_sub_packet_bound w max_len, \<lambda>w. WPACKET_memcpy w bs (length bs),
      WPACKET_close] w = (True, w')"
  shows "w_inv w' \<and> w_out w' = w_out w
    @ ossl_quic_vlint_encode_n (of_nat (length bs)) (ossl_quic_vlint_encode_len (of_nat max_len)) @ bs"
proof -
  have "appends (\<lambda>w. WPACKET_memcpy w bs (length bs)) bs" using appends_memcpy [of "length bs" bs] by simp
  from appendsD(1,2) [OF appends_quic_sub_packet [OF this assms(2,3)] assms(1,4)] show ?thesis by simp
qed

theorem quic_sub_packet_witness:
  "\<exists>w'. all_ok [\<lambda>w. WPACKET_start_quic_sub_packet_bound w 100, \<lambda>w. WPACKET_memcpy w [8] 1, WPACKET_close] w_demo = (True, w')
    \<and> w_out w' = [0x40, 1, 8]"
proof -
  let ?ops = "[\<lambda>w. WPACKET_start_quic_sub_packet_bound w 100, \<lambda>w. WPACKET_memcpy w [8] 1, WPACKET_close]"
  have m: "appends (\<lambda>w. WPACKET_memcpy w [8] 1) [8]" using appends_memcpy [of 1 "[8]"] by simp
  have e: "ossl_quic_vlint_encode_n 1 (ossl_quic_vlint_encode_len 100) = [0x40, 1]"
    by (simp add: vlint_encode_len_cases ossl_quic_vlint_encode_n_def)
  have "fst (all_ok ?ops w_demo)"
    using appendsD(4) [OF appends_quic_sub_packet [OF m, of 100] w_demo(1)] w_demo(3) [of 3] by (simp add: e numeral_3_eq_3)
  then obtain w' where "all_ok ?ops w_demo = (True, w')" by (cases "all_ok ?ops w_demo") simp
  with quic_sub_packet [OF w_demo(1), of "[8]" 100 w'] e w_demo(2) show ?thesis by auto
qed


end
