(* ===== verification/WireEnc.thy ===== *)
theory WireEnc
  imports QuicTypes WPacket
begin

text \<open>
  The encoders of \<^verbatim>\<open>ssl/quic/quic_wire.c\<close>: one definition per function, over the packet
  writer of \<open>WPacket\<close>. An encoder returns whether it succeeded (or the offset its pointer result
  denotes, \<open>None\<close> for \<open>NULL\<close>) and the writer, whose state after a failure is what the calls
  before the failing one left. The lemmas give for every encoder the bytes it appends.
\<close>

section \<open>Model: frames\<close>

definition ossl_quic_wire_encode_padding :: "WPACKET \<Rightarrow> nat \<Rightarrow> bool \<times> WPACKET" where
  "ossl_quic_wire_encode_padding pkt num_bytes = WPACKET_memset pkt 0 num_bytes"

definition encode_frame_hdr :: "WPACKET \<Rightarrow> u64 \<Rightarrow> bool \<times> WPACKET" where
  "encode_frame_hdr pkt frame_type = WPACKET_quic_write_vlint pkt frame_type"

definition ossl_quic_wire_encode_frame_ping :: "WPACKET \<Rightarrow> bool \<times> WPACKET" where
  "ossl_quic_wire_encode_frame_ping pkt = encode_frame_hdr pkt OSSL_QUIC_FRAME_TYPE_PING"

text \<open>The loop over the ranges after the first; all differences are taken modulo \<open>2 ^ 64\<close>.\<close>

definition encode_ack_range :: "OSSL_QUIC_FRAME_ACK \<Rightarrow> nat \<Rightarrow> WPACKET \<Rightarrow> bool \<times> WPACKET" where
  "encode_ack_range ack i =
     (let gap = ar_start (ack_ranges ack ! (i - 1)) - ar_end (ack_ranges ack ! i) - 2;
          range_len = ar_end (ack_ranges ack ! i) - ar_start (ack_ranges ack ! i)
      in all_ok [\<lambda>p. WPACKET_quic_write_vlint p gap, \<lambda>p. WPACKET_quic_write_vlint p range_len])"

definition ossl_quic_wire_encode_frame_ack :: "WPACKET \<Rightarrow> u32 \<Rightarrow> OSSL_QUIC_FRAME_ACK \<Rightarrow> bool \<times> WPACKET" where
  "ossl_quic_wire_encode_frame_ack pkt ack_delay_exponent ack =
     (let frame_type = (if ecn_present ack then OSSL_QUIC_FRAME_TYPE_ACK_WITH_ECN
                        else OSSL_QUIC_FRAME_TYPE_ACK_WITHOUT_ECN);
          num_ack_ranges = num_ack_ranges ack
      in if num_ack_ranges = 0 then (False, pkt)
         else
           let delay = ossl_time_divide (ossl_time_divide (delay_time ack) OSSL_TIME_US)
                         (push_bit (unat ack_delay_exponent) 1);
               ack_delay_enc = ossl_time2ticks delay;
               largest_ackd = ar_end (ack_ranges ack ! 0);
               first_ack_range = ar_end (ack_ranges ack ! 0) - ar_start (ack_ranges ack ! 0)
           in all_ok
               [\<lambda>p. encode_frame_hdr p frame_type,
                \<lambda>p. WPACKET_quic_write_vlint p largest_ackd,
                \<lambda>p. WPACKET_quic_write_vlint p ack_delay_enc,
                \<lambda>p. WPACKET_quic_write_vlint p (of_nat (num_ack_ranges - 1)),
                \<lambda>p. WPACKET_quic_write_vlint p first_ack_range,
                all_ok (map (encode_ack_range ack) [1..<num_ack_ranges]),
                if ecn_present ack then
                  all_ok [\<lambda>p. WPACKET_quic_write_vlint p (ect0 ack),
                          \<lambda>p. WPACKET_quic_write_vlint p (ect1 ack),
                          \<lambda>p. WPACKET_quic_write_vlint p (ecnce ack)]
                else all_ok []] pkt)"

definition ossl_quic_wire_encode_frame_reset_stream :: "WPACKET \<Rightarrow> OSSL_QUIC_FRAME_RESET_STREAM \<Rightarrow> bool \<times> WPACKET" where
  "ossl_quic_wire_encode_frame_reset_stream pkt f =
     all_ok [\<lambda>p. encode_frame_hdr p OSSL_QUIC_FRAME_TYPE_RESET_STREAM,
             \<lambda>p. WPACKET_quic_write_vlint p (rs_stream_id f),
             \<lambda>p. WPACKET_quic_write_vlint p (rs_app_error_code f),
             \<lambda>p. WPACKET_quic_write_vlint p (rs_final_size f)] pkt"

definition ossl_quic_wire_encode_frame_stop_sending :: "WPACKET \<Rightarrow> OSSL_QUIC_FRAME_STOP_SENDING \<Rightarrow> bool \<times> WPACKET" where
  "ossl_quic_wire_encode_frame_stop_sending pkt f =
     all_ok [\<lambda>p. encode_frame_hdr p OSSL_QUIC_FRAME_TYPE_STOP_SENDING,
             \<lambda>p. WPACKET_quic_write_vlint p (ss_stream_id f),
             \<lambda>p. WPACKET_quic_write_vlint p (ss_app_error_code f)] pkt"

definition ossl_quic_wire_encode_frame_crypto_hdr :: "WPACKET \<Rightarrow> OSSL_QUIC_FRAME_CRYPTO \<Rightarrow> bool \<times> WPACKET" where
  "ossl_quic_wire_encode_frame_crypto_hdr pkt f =
     all_ok [\<lambda>p. encode_frame_hdr p OSSL_QUIC_FRAME_TYPE_CRYPTO,
             \<lambda>p. WPACKET_quic_write_vlint p (cr_offset f),
             \<lambda>p. WPACKET_quic_write_vlint p (cr_len f)] pkt"

definition ossl_quic_wire_get_encoded_frame_len_crypto_hdr :: "OSSL_QUIC_FRAME_CRYPTO \<Rightarrow> nat" where
  "ossl_quic_wire_get_encoded_frame_len_crypto_hdr f =
     (let a = ossl_quic_vlint_encode_len OSSL_QUIC_FRAME_TYPE_CRYPTO;
          b = ossl_quic_vlint_encode_len (cr_offset f);
          c = ossl_quic_vlint_encode_len (cr_len f)
      in if a = 0 \<or> b = 0 \<or> c = 0 then 0 else a + b + c)"

text \<open>The payload: allocate \<open>len\<close> bytes and copy the data there, where there is data.\<close>

definition ossl_quic_wire_encode_frame_crypto :: "WPACKET \<Rightarrow> OSSL_QUIC_FRAME_CRYPTO \<Rightarrow> nat option \<times> WPACKET" where
  "ossl_quic_wire_encode_frame_crypto pkt f =
     (let (ok, pkt) = ossl_quic_wire_encode_frame_crypto_hdr pkt f
      in if \<not> ok then (None, pkt)
         else if unat (cr_len f) > SIZE_MAX then (None, pkt)
         else
           let (ok, p, pkt) = WPACKET_allocate_bytes pkt (unat (cr_len f))
           in if \<not> ok then (None, pkt)
              else (p, case cr_data f of None \<Rightarrow> pkt | Some data \<Rightarrow> w_store pkt p (take (unat (cr_len f)) data)))"

definition ossl_quic_wire_encode_frame_new_token :: "WPACKET \<Rightarrow> u8 list \<Rightarrow> nat \<Rightarrow> bool \<times> WPACKET" where
  "ossl_quic_wire_encode_frame_new_token pkt token token_len =
     all_ok [\<lambda>p. encode_frame_hdr p OSSL_QUIC_FRAME_TYPE_NEW_TOKEN,
             \<lambda>p. WPACKET_quic_write_vlint p (of_nat token_len),
             \<lambda>p. WPACKET_memcpy p token token_len] pkt"

definition ossl_quic_wire_encode_frame_stream_hdr :: "WPACKET \<Rightarrow> OSSL_QUIC_FRAME_STREAM \<Rightarrow> bool \<times> WPACKET" where
  "ossl_quic_wire_encode_frame_stream_hdr pkt f =
     (let frame_type = OSSL_QUIC_FRAME_TYPE_STREAM;
          frame_type = (if st_offset f \<noteq> 0 then or frame_type OSSL_QUIC_FRAME_FLAG_STREAM_OFF else frame_type);
          frame_type = (if has_explicit_len f then or frame_type OSSL_QUIC_FRAME_FLAG_STREAM_LEN else frame_type);
          frame_type = (if st_is_fin f then or frame_type OSSL_QUIC_FRAME_FLAG_STREAM_FIN else frame_type)
      in all_ok [\<lambda>p. encode_frame_hdr p frame_type,
                 \<lambda>p. WPACKET_quic_write_vlint p (st_stream_id f),
                 \<lambda>p. if st_offset f \<noteq> 0 then WPACKET_quic_write_vlint p (st_offset f) else (True, p),
                 \<lambda>p. if has_explicit_len f then WPACKET_quic_write_vlint p (st_len f) else (True, p)] pkt)"

definition ossl_quic_wire_get_encoded_frame_len_stream_hdr :: "OSSL_QUIC_FRAME_STREAM \<Rightarrow> nat" where
  "ossl_quic_wire_get_encoded_frame_len_stream_hdr f =
     (let a = ossl_quic_vlint_encode_len OSSL_QUIC_FRAME_TYPE_STREAM;
          b = ossl_quic_vlint_encode_len (st_stream_id f)
      in if a = 0 \<or> b = 0 then 0
         else
           let c = (if st_offset f > 0 then ossl_quic_vlint_encode_len (st_offset f) else 0)
           in if st_offset f > 0 \<and> c = 0 then 0
              else
                let d = (if has_explicit_len f then ossl_quic_vlint_encode_len (st_len f) else 0)
                in if has_explicit_len f \<and> d = 0 then 0 else a + b + c + d)"

definition ossl_quic_wire_encode_frame_stream :: "WPACKET \<Rightarrow> OSSL_QUIC_FRAME_STREAM \<Rightarrow> nat option \<times> WPACKET" where
  "ossl_quic_wire_encode_frame_stream pkt f =
     (let (ok, pkt) = ossl_quic_wire_encode_frame_stream_hdr pkt f
      in if \<not> ok then (None, pkt)
         else if unat (st_len f) > SIZE_MAX then (None, pkt)
         else
           let (ok, p, pkt) = WPACKET_allocate_bytes pkt (unat (st_len f))
           in if \<not> ok then (None, pkt)
              else (p, case st_data f of None \<Rightarrow> pkt | Some data \<Rightarrow> w_store pkt p (take (unat (st_len f)) data)))"

definition ossl_quic_wire_encode_frame_max_data :: "WPACKET \<Rightarrow> u64 \<Rightarrow> bool \<times> WPACKET" where
  "ossl_quic_wire_encode_frame_max_data pkt max_data =
     all_ok [\<lambda>p. encode_frame_hdr p OSSL_QUIC_FRAME_TYPE_MAX_DATA,
             \<lambda>p. WPACKET_quic_write_vlint p max_data] pkt"

definition ossl_quic_wire_encode_frame_max_stream_data :: "WPACKET \<Rightarrow> u64 \<Rightarrow> u64 \<Rightarrow> bool \<times> WPACKET" where
  "ossl_quic_wire_encode_frame_max_stream_data pkt stream_id max_data =
     all_ok [\<lambda>p. encode_frame_hdr p OSSL_QUIC_FRAME_TYPE_MAX_STREAM_DATA,
             \<lambda>p. WPACKET_quic_write_vlint p stream_id,
             \<lambda>p. WPACKET_quic_write_vlint p max_data] pkt"

definition ossl_quic_wire_encode_frame_max_streams :: "WPACKET \<Rightarrow> bool \<Rightarrow> u64 \<Rightarrow> bool \<times> WPACKET" where
  "ossl_quic_wire_encode_frame_max_streams pkt is_uni max_streams =
     all_ok [\<lambda>p. encode_frame_hdr p (if is_uni then OSSL_QUIC_FRAME_TYPE_MAX_STREAMS_UNI
                                     else OSSL_QUIC_FRAME_TYPE_MAX_STREAMS_BIDI),
             \<lambda>p. WPACKET_quic_write_vlint p max_streams] pkt"

definition ossl_quic_wire_encode_frame_data_blocked :: "WPACKET \<Rightarrow> u64 \<Rightarrow> bool \<times> WPACKET" where
  "ossl_quic_wire_encode_frame_data_blocked pkt max_data =
     all_ok [\<lambda>p. encode_frame_hdr p OSSL_QUIC_FRAME_TYPE_DATA_BLOCKED,
             \<lambda>p. WPACKET_quic_write_vlint p max_data] pkt"

definition ossl_quic_wire_encode_frame_stream_data_blocked :: "WPACKET \<Rightarrow> u64 \<Rightarrow> u64 \<Rightarrow> bool \<times> WPACKET" where
  "ossl_quic_wire_encode_frame_stream_data_blocked pkt stream_id max_stream_data =
     all_ok [\<lambda>p. encode_frame_hdr p OSSL_QUIC_FRAME_TYPE_STREAM_DATA_BLOCKED,
             \<lambda>p. WPACKET_quic_write_vlint p stream_id,
             \<lambda>p. WPACKET_quic_write_vlint p max_stream_data] pkt"

definition ossl_quic_wire_encode_frame_streams_blocked :: "WPACKET \<Rightarrow> bool \<Rightarrow> u64 \<Rightarrow> bool \<times> WPACKET" where
  "ossl_quic_wire_encode_frame_streams_blocked pkt is_uni max_streams =
     all_ok [\<lambda>p. encode_frame_hdr p (if is_uni then OSSL_QUIC_FRAME_TYPE_STREAMS_BLOCKED_UNI
                                     else OSSL_QUIC_FRAME_TYPE_STREAMS_BLOCKED_BIDI),
             \<lambda>p. WPACKET_quic_write_vlint p max_streams] pkt"

definition ossl_quic_wire_encode_frame_new_conn_id :: "WPACKET \<Rightarrow> OSSL_QUIC_FRAME_NEW_CONN_ID \<Rightarrow> bool \<times> WPACKET" where
  "ossl_quic_wire_encode_frame_new_conn_id pkt f =
     (if id_len (nc_conn_id f) < 1 \<or> unat (id_len (nc_conn_id f)) > QUIC_MAX_CONN_ID_LEN then (False, pkt)
      else
        all_ok [\<lambda>p. encode_frame_hdr p OSSL_QUIC_FRAME_TYPE_NEW_CONN_ID,
                \<lambda>p. WPACKET_quic_write_vlint p (nc_seq_num f),
                \<lambda>p. WPACKET_quic_write_vlint p (nc_retire_prior_to f),
                \<lambda>p. WPACKET_put_bytes p (ucast (id_len (nc_conn_id f))) 1,
                \<lambda>p. WPACKET_memcpy p (cid_id (nc_conn_id f)) (unat (id_len (nc_conn_id f))),
                \<lambda>p. WPACKET_memcpy p (nc_stateless_reset f) QUIC_STATELESS_RESET_TOKEN_LEN] pkt)"

definition ossl_quic_wire_encode_frame_retire_conn_id :: "WPACKET \<Rightarrow> u64 \<Rightarrow> bool \<times> WPACKET" where
  "ossl_quic_wire_encode_frame_retire_conn_id pkt seq_num =
     all_ok [\<lambda>p. encode_frame_hdr p OSSL_QUIC_FRAME_TYPE_RETIRE_CONN_ID,
             \<lambda>p. WPACKET_quic_write_vlint p seq_num] pkt"

definition ossl_quic_wire_encode_frame_path_challenge :: "WPACKET \<Rightarrow> u64 \<Rightarrow> bool \<times> WPACKET" where
  "ossl_quic_wire_encode_frame_path_challenge pkt data =
     all_ok [\<lambda>p. encode_frame_hdr p OSSL_QUIC_FRAME_TYPE_PATH_CHALLENGE,
             \<lambda>p. WPACKET_put_bytes p data 8] pkt"

definition ossl_quic_wire_encode_frame_path_response :: "WPACKET \<Rightarrow> u64 \<Rightarrow> bool \<times> WPACKET" where
  "ossl_quic_wire_encode_frame_path_response pkt data =
     all_ok [\<lambda>p. encode_frame_hdr p OSSL_QUIC_FRAME_TYPE_PATH_RESPONSE,
             \<lambda>p. WPACKET_put_bytes p data 8] pkt"

definition ossl_quic_wire_encode_frame_conn_close :: "WPACKET \<Rightarrow> OSSL_QUIC_FRAME_CONN_CLOSE \<Rightarrow> bool \<times> WPACKET" where
  "ossl_quic_wire_encode_frame_conn_close pkt f =
     all_ok [\<lambda>p. encode_frame_hdr p (if cc_is_app f then OSSL_QUIC_FRAME_TYPE_CONN_CLOSE_APP
                                     else OSSL_QUIC_FRAME_TYPE_CONN_CLOSE_TRANSPORT),
             \<lambda>p. WPACKET_quic_write_vlint p (cc_error_code f),
             \<lambda>p. if \<not> cc_is_app f then WPACKET_quic_write_vlint p (cc_frame_type f) else (True, p),
             \<lambda>p. WPACKET_quic_write_vlint p (of_nat (cc_reason_len f)),
             \<lambda>p. WPACKET_memcpy p (cc_reason f) (cc_reason_len f)] pkt"

definition ossl_quic_wire_encode_frame_handshake_done :: "WPACKET \<Rightarrow> bool \<times> WPACKET" where
  "ossl_quic_wire_encode_frame_handshake_done pkt = encode_frame_hdr pkt OSSL_QUIC_FRAME_TYPE_HANDSHAKE_DONE"

section \<open>Model: transport parameters\<close>

definition ossl_quic_wire_encode_transport_param_bytes ::
  "WPACKET \<Rightarrow> u64 \<Rightarrow> u8 list option \<Rightarrow> nat \<Rightarrow> nat option \<times> WPACKET" where
  "ossl_quic_wire_encode_transport_param_bytes pkt param val value_len =
     (let (ok, pkt) = all_ok [\<lambda>p. WPACKET_quic_write_vlint p param,
                              \<lambda>p. WPACKET_quic_write_vlint p (of_nat value_len)] pkt
      in if \<not> ok then (None, pkt)
         else
           let (ok, b, pkt) = (if value_len = 0 then (True, WPACKET_get_curr pkt, pkt)
                               else WPACKET_allocate_bytes pkt value_len)
           in if \<not> ok then (None, pkt)
              else (b, case val of None \<Rightarrow> pkt | Some v \<Rightarrow> w_store pkt b (take value_len v)))"

definition ossl_quic_wire_encode_transport_param_int :: "WPACKET \<Rightarrow> u64 \<Rightarrow> u64 \<Rightarrow> bool \<times> WPACKET" where
  "ossl_quic_wire_encode_transport_param_int pkt param val =
     all_ok [\<lambda>p. WPACKET_quic_write_vlint p param,
             \<lambda>p. WPACKET_quic_write_vlint p (of_nat (ossl_quic_vlint_encode_len val)),
             \<lambda>p. WPACKET_quic_write_vlint p val] pkt"

definition ossl_quic_wire_encode_transport_param_cid :: "WPACKET \<Rightarrow> u64 \<Rightarrow> QUIC_CONN_ID \<Rightarrow> bool \<times> WPACKET" where
  "ossl_quic_wire_encode_transport_param_cid wpkt param cid =
     (if unat (id_len cid) > QUIC_MAX_CONN_ID_LEN then (False, wpkt)
      else
        let (b, wpkt) = ossl_quic_wire_encode_transport_param_bytes wpkt param (Some (cid_id cid)) (unat (id_len cid))
        in if b = None then (False, wpkt) else (True, wpkt))"

section \<open>What the encoders append\<close>

abbreviation vl :: "u64 \<Rightarrow> u8 list" where "vl v \<equiv> ossl_quic_vlint_encode v"
abbreviation vl_ok :: "u64 \<Rightarrow> bool" where "vl_ok v \<equiv> unat v < 2 ^ 62"

lemma appends_cong: "appends f bs \<Longrightarrow> bs = cs \<Longrightarrow> appends f cs"
  by simp

lemma appends_if [append_intros]:
  "(c \<Longrightarrow> appends f bs) \<Longrightarrow> (\<not> c \<Longrightarrow> appends g cs) \<Longrightarrow> appends (if c then f else g) (if c then bs else cs)"
  by simp

lemma appends_opt [append_intros]:
  "(c \<Longrightarrow> appends f bs) \<Longrightarrow> appends (\<lambda>w. if c then f w else (True, w)) (if c then bs else [])"
  by (auto simp: appends_def)

lemma appends_hdr [append_intros]: "vl_ok t \<Longrightarrow> appends (\<lambda>w. encode_frame_hdr w t) (vl t)"
  unfolding encode_frame_hdr_def by (rule appends_vlint)

lemma frame_type_ok: "vl_ok t \<Longrightarrow> vl_ok u \<Longrightarrow> vl_ok (if c then t else u)"
  by simp

text \<open>An encoder that returns a pointer has succeeded when the pointer is not \<open>NULL\<close>.\<close>

definition ptr_ok :: "(WPACKET \<Rightarrow> nat option \<times> WPACKET) \<Rightarrow> WPACKET \<Rightarrow> bool \<times> WPACKET" where
  "ptr_ok f w = (let (p, w) = f w in (p \<noteq> None, w))"

lemma appends_eqI:
  assumes "appends g bs" "\<And>w. w_inv w \<Longrightarrow> f w = g w"
  shows "appends f bs"
  using assms by (simp add: appends_def)

lemma appends_payload:
  assumes h: "appends h hb" and n: "0 < n" "n \<le> length d"
    and f: "\<And>w. f w = (let (ok, w) = h w in if \<not> ok then (None, w) else
        let (ok, p, w) = WPACKET_allocate_bytes w n in if \<not> ok then (None, w) else (p, w_store w p (take n d)))"
  shows "appends (ptr_ok f) (hb @ take n d)"
proof -
  have len: "length (take n d) = n" and ne: "take n d \<noteq> []" using n by auto
  let ?g = "\<lambda>w. let (ok, p, w) = WPACKET_allocate_bytes w (length (take n d))
    in if \<not> ok then (False, w) else (True, w_store w p (take n d))"
  have "appends (all_ok [h, ?g]) (hb @ take n d @ [])"
    by (intro append_intros h appends_store ne)
  moreover have "ptr_ok f w = all_ok [h, ?g] w" if inv: "w_inv w" for w
  proof (cases "h w")
    case (Pair ok w1)
    show ?thesis
    proof (cases ok)
      case False
      then show ?thesis by (simp add: ptr_ok_def f Pair)
    next
      case True
      then have inv1: "w_inv w1" using appendsD(1) [OF h inv] Pair by simp
      obtain ok' p w2 where a: "WPACKET_allocate_bytes w1 n = (ok', p, w2)" by (metis prod_cases3)
      have "p \<noteq> None" if ok' using WPACKET_allocate_bytes_ok [OF inv1] a that by auto
      then show ?thesis using True Pair a by (auto simp: ptr_ok_def f len simp del: length_take)
    qed
  qed
  ultimately show ?thesis using appends_eqI by simp
qed

text \<open>The header of a STREAM frame.\<close>

definition stream_type :: "OSSL_QUIC_FRAME_STREAM \<Rightarrow> u64" where
  "stream_type f = 8 + (if st_offset f \<noteq> 0 then 4 else 0) + (if has_explicit_len f then 2 else 0) + (if st_is_fin f then 1 else 0)"

definition stream_hdr :: "OSSL_QUIC_FRAME_STREAM \<Rightarrow> u8 list" where
  "stream_hdr f = vl (stream_type f) @ vl (st_stream_id f)
     @ (if st_offset f \<noteq> 0 then vl (st_offset f) else [])
     @ (if has_explicit_len f then vl (st_len f) else [])"

definition stream_hdr_ok :: "OSSL_QUIC_FRAME_STREAM \<Rightarrow> bool" where
  "stream_hdr_ok f \<longleftrightarrow> vl_ok (st_stream_id f) \<and> vl_ok (st_offset f) \<and> (has_explicit_len f \<longrightarrow> vl_ok (st_len f))"

lemma stream_type_ok: "vl_ok (stream_type f)"
  by (simp add: stream_type_def)

lemma appends_stream_hdr [append_intros]:
  assumes "stream_hdr_ok f"
  shows "appends (\<lambda>w. ossl_quic_wire_encode_frame_stream_hdr w f) (stream_hdr f)"
proof -
  have t: "(let frame_type = OSSL_QUIC_FRAME_TYPE_STREAM;
          frame_type = (if st_offset f \<noteq> 0 then or frame_type OSSL_QUIC_FRAME_FLAG_STREAM_OFF else frame_type);
          frame_type = (if has_explicit_len f then or frame_type OSSL_QUIC_FRAME_FLAG_STREAM_LEN else frame_type)
      in (if st_is_fin f then or frame_type OSSL_QUIC_FRAME_FLAG_STREAM_FIN else frame_type)) = stream_type f"
    by (simp add: stream_type_def frame_types)
  have "ossl_quic_wire_encode_frame_stream_hdr w f =
      all_ok [\<lambda>p. encode_frame_hdr p (stream_type f),
                 \<lambda>p. WPACKET_quic_write_vlint p (st_stream_id f),
                 \<lambda>p. if st_offset f \<noteq> 0 then WPACKET_quic_write_vlint p (st_offset f) else (True, p),
                 \<lambda>p. if has_explicit_len f then WPACKET_quic_write_vlint p (st_len f) else (True, p)] w" for w
    unfolding ossl_quic_wire_encode_frame_stream_hdr_def t [symmetric] Let_def ..
  moreover have "appends (all_ok [\<lambda>p. encode_frame_hdr p (stream_type f),
                 \<lambda>p. WPACKET_quic_write_vlint p (st_stream_id f),
                 \<lambda>p. if st_offset f \<noteq> 0 then WPACKET_quic_write_vlint p (st_offset f) else (True, p),
                 \<lambda>p. if has_explicit_len f then WPACKET_quic_write_vlint p (st_len f) else (True, p)]) (stream_hdr f)"
    unfolding stream_hdr_def
    using assms by - (rule appends_cong, (rule append_intros stream_type_ok | force simp: stream_hdr_ok_def)+)
  ultimately show ?thesis by (rule appends_eqI [rotated])
qed

lemma appends_crypto_hdr [append_intros]:
  assumes "vl_ok (cr_offset f)" "vl_ok (cr_len f)"
  shows "appends (\<lambda>w. ossl_quic_wire_encode_frame_crypto_hdr w f) (vl 6 @ vl (cr_offset f) @ vl (cr_len f))"
  unfolding ossl_quic_wire_encode_frame_crypto_hdr_def
  using assms by - (rule appends_cong, (rule append_intros | force simp: frame_types)+)

lemma SIZE_MAX_u64 [simp]: "\<not> SIZE_MAX < unat (v :: u64)"
  using unat_u64_bound [of v] by linarith

lemma appends_stream [append_intros]:
  assumes "stream_hdr_ok f" "st_data f = Some d" "0 < unat (st_len f)" "unat (st_len f) \<le> length d"
  shows "appends (ptr_ok (\<lambda>w. ossl_quic_wire_encode_frame_stream w f)) (stream_hdr f @ take (unat (st_len f)) d)"
  by (rule appends_payload [OF appends_stream_hdr [OF assms(1)] assms(3,4)])
    (simp add: ossl_quic_wire_encode_frame_stream_def assms(2) split_beta Let_def cong: if_cong)

lemma appends_crypto [append_intros]:
  assumes "vl_ok (cr_offset f)" "vl_ok (cr_len f)" "cr_data f = Some d" "0 < unat (cr_len f)" "unat (cr_len f) \<le> length d"
  shows "appends (ptr_ok (\<lambda>w. ossl_quic_wire_encode_frame_crypto w f))
     (vl 6 @ vl (cr_offset f) @ vl (cr_len f) @ take (unat (cr_len f)) d)"
proof -
  have "appends (ptr_ok (\<lambda>w. ossl_quic_wire_encode_frame_crypto w f))
     ((vl 6 @ vl (cr_offset f) @ vl (cr_len f)) @ take (unat (cr_len f)) d)"
    by (rule appends_payload [OF appends_crypto_hdr [OF assms(1,2)] assms(4,5)])
      (simp add: ossl_quic_wire_encode_frame_crypto_def assms(3) split_beta Let_def cong: if_cong)
  then show ?thesis by simp
qed

definition ack_delay_enc :: "u32 \<Rightarrow> ossl_time \<Rightarrow> u64" where
  "ack_delay_enc e t = of_nat (unat t div 1000 div 2 ^ unat e)"

definition ack_range_bytes :: "OSSL_QUIC_FRAME_ACK \<Rightarrow> nat \<Rightarrow> u8 list" where
  "ack_range_bytes ack i =
     vl (ar_start (ack_ranges ack ! (i - 1)) - ar_end (ack_ranges ack ! i) - 2)
     @ vl (ar_end (ack_ranges ack ! i) - ar_start (ack_ranges ack ! i))"

definition ack_bytes :: "u32 \<Rightarrow> OSSL_QUIC_FRAME_ACK \<Rightarrow> u8 list" where
  "ack_bytes e ack =
     vl (if ecn_present ack then 3 else 2) @ vl (ar_end (ack_ranges ack ! 0)) @ vl (ack_delay_enc e (delay_time ack))
     @ vl (of_nat (num_ack_ranges ack - 1)) @ vl (ar_end (ack_ranges ack ! 0) - ar_start (ack_ranges ack ! 0))
     @ concat (map (ack_range_bytes ack) [1..<num_ack_ranges ack])
     @ (if ecn_present ack then vl (ect0 ack) @ vl (ect1 ack) @ vl (ecnce ack) else [])"

text \<open>An acknowledgement that can be sent: ranges in descending order with a gap between them, and
  every number small enough.\<close>

definition ack_ranges_ok :: "OSSL_QUIC_ACK_RANGE list \<Rightarrow> bool" where
  "ack_ranges_ok rs \<longleftrightarrow> rs \<noteq> [] \<and> (\<forall>r \<in> set rs. ar_start r \<le> ar_end r \<and> vl_ok (ar_end r))
     \<and> (\<forall>i. Suc i < length rs \<longrightarrow> unat (ar_end (rs ! Suc i)) + 2 \<le> unat (ar_start (rs ! i)))"

definition ack_ok :: "u32 \<Rightarrow> OSSL_QUIC_FRAME_ACK \<Rightarrow> bool" where
  "ack_ok e ack \<longleftrightarrow> ack_ranges_ok (ack_ranges ack) \<and> num_ack_ranges ack = length (ack_ranges ack)
     \<and> unat e < 64 \<and> vl_ok (ack_delay_enc e (delay_time ack))
     \<and> (ecn_present ack \<longrightarrow> vl_ok (ect0 ack) \<and> vl_ok (ect1 ack) \<and> vl_ok (ecnce ack))"

lemma unat_exp2: "n < 64 \<Longrightarrow> unat (2 ^ n :: u64) = 2 ^ n"
proof -
  assume "n < 64"
  then have "(2 :: nat) ^ n < 2 ^ 64" by (intro power_strict_increasing) simp_all
  then have "unat (of_nat (2 ^ n) :: u64) = 2 ^ n" by (intro unat_of_nat_less) simp
  then show ?thesis by simp
qed

lemma ack_delay_enc_eq:
  "unat e < 64 \<Longrightarrow> ossl_time2ticks (ossl_time_divide (ossl_time_divide t OSSL_TIME_US) (push_bit (unat e) 1)) = ack_delay_enc e t"
proof -
  assume "unat e < 64"
  then have "unat (ossl_time_divide (ossl_time_divide t OSSL_TIME_US) (push_bit (unat e) 1)) = unat t div 1000 div 2 ^ unat e"
    by (simp add: ossl_time_divide_eq unat_exp2 OSSL_TIME_US_def OSSL_TIME_MS_def OSSL_TIME_SECOND_def)
  then show ?thesis by (metis ack_delay_enc_def ossl_time2ticks_def of_nat_unat ucast_id)
qed

lemma appends_concat [append_intros]:
  "(\<And>x. x \<in> set xs \<Longrightarrow> appends (f x) (g x)) \<Longrightarrow> appends (all_ok (map f xs)) (concat (map g xs))"
  by (induction xs) (auto intro: append_intros)

lemma ack_range_ok:
  assumes "ack_ranges_ok rs" "0 < i" "i < length rs"
  shows "unat (ar_start (rs ! (i - 1)) - ar_end (rs ! i) - 2) = unat (ar_start (rs ! (i - 1))) - unat (ar_end (rs ! i)) - 2"
    and "vl_ok (ar_start (rs ! (i - 1)) - ar_end (rs ! i) - 2)"
    and "vl_ok (ar_end (rs ! i) - ar_start (rs ! i))"
proof -
  let ?s = "ar_start (rs ! (i - 1))" and ?e = "ar_end (rs ! i)"
  have "\<forall>i. Suc i < length rs \<longrightarrow> unat (ar_end (rs ! Suc i)) + 2 \<le> unat (ar_start (rs ! i))"
    using assms(1) unfolding ack_ranges_ok_def by blast
  from spec [OF this, of "i - 1"] have gap: "unat ?e + 2 \<le> unat ?s" using assms(2,3) by simp
  then have "unat (?s - ?e) = unat ?s - unat ?e" by (intro unat_sub) (simp add: word_le_nat_alt)
  with gap show e: "unat (?s - ?e - 2) = unat ?s - unat ?e - 2"
    by (subst unat_sub) (simp_all add: word_le_nat_alt)
  have "rs ! (i - 1) \<in> set rs" "rs ! i \<in> set rs" using assms(2,3) by simp_all
  then have r: "ar_start (rs ! (i - 1)) \<le> ar_end (rs ! (i - 1))" "vl_ok (ar_end (rs ! (i - 1)))"
    "ar_start (rs ! i) \<le> ar_end (rs ! i)" "vl_ok (ar_end (rs ! i))"
    using assms(1) unfolding ack_ranges_ok_def by blast+
  from r(1,2) show "vl_ok (?s - ?e - 2)" unfolding e by (simp add: word_le_nat_alt)
  from r(3,4) show "vl_ok (?e - ar_start (rs ! i))" by (simp add: unat_sub less_imp_diff_less)
qed

lemma ack_ok_first:
  assumes "ack_ranges_ok rs"
  shows "vl_ok (ar_end (rs ! 0))" "vl_ok (ar_end (rs ! 0) - ar_start (rs ! 0))" "rs \<noteq> []"
proof -
  have "rs \<noteq> []" using assms by (simp add: ack_ranges_ok_def)
  then have "rs ! 0 \<in> set rs" by simp
  then have "ar_start (rs ! 0) \<le> ar_end (rs ! 0)" "vl_ok (ar_end (rs ! 0))"
    using assms unfolding ack_ranges_ok_def by blast+
  with \<open>rs \<noteq> []\<close> show "vl_ok (ar_end (rs ! 0))" "vl_ok (ar_end (rs ! 0) - ar_start (rs ! 0))" "rs \<noteq> []"
    by (simp_all add: unat_sub less_imp_diff_less)
qed

text \<open>Descending ranges below \<open>2 ^ 62\<close> are fewer than \<open>2 ^ 62\<close>.\<close>

lemma ack_ranges_descend:
  assumes "ack_ranges_ok rs" "i < length rs"
  shows "unat (ar_end (rs ! i)) + 2 * i \<le> unat (ar_end (rs ! 0))"
  using assms(2)
proof (induction i)
  case (Suc i)
  have "rs ! i \<in> set rs" using Suc.prems by simp
  then have "unat (ar_start (rs ! i)) \<le> unat (ar_end (rs ! i))"
    using assms(1) unfolding ack_ranges_ok_def word_le_nat_alt by blast
  moreover have "unat (ar_end (rs ! Suc i)) + 2 \<le> unat (ar_start (rs ! i))"
    using assms(1) Suc.prems unfolding ack_ranges_ok_def by blast
  ultimately show ?case using Suc by simp
qed simp

lemma ack_ranges_count:
  assumes "ack_ranges_ok rs"
  shows "length rs - 1 < 2 ^ 62" "unat (of_nat (length rs - 1) :: u64) = length rs - 1"
    "vl_ok (of_nat (length rs - 1))"
proof -
  have "2 * (length rs - 1) \<le> unat (ar_end (rs ! 0))"
    using ack_ranges_descend [OF assms, of "length rs - 1"] ack_ok_first(3) [OF assms] by simp
  with ack_ok_first(1) [OF assms] show n: "length rs - 1 < 2 ^ 62" by linarith
  then show "unat (of_nat (length rs - 1) :: u64) = length rs - 1"
    by (simp add: unat_of_nat_u64)
  with n show "vl_ok (of_nat (length rs - 1))" by simp
qed

lemma appends_ack [append_intros]:
  assumes "ack_ok e ack"
  shows "appends (\<lambda>w. ossl_quic_wire_encode_frame_ack w e ack) (ack_bytes e ack)"
proof -
  have rs: "ack_ranges_ok (ack_ranges ack)" and n: "num_ack_ranges ack = length (ack_ranges ack)"
    and e: "unat e < 64" and d: "vl_ok (ack_delay_enc e (delay_time ack))"
    and ecn: "ecn_present ack \<Longrightarrow> vl_ok (ect0 ack)" "ecn_present ack \<Longrightarrow> vl_ok (ect1 ack)" "ecn_present ack \<Longrightarrow> vl_ok (ecnce ack)"
    using assms by (auto simp: ack_ok_def)
  note f = ack_ok_first [OF rs] and c = ack_ranges_count(3) [OF rs, folded n]
  have range: "appends (encode_ack_range ack i) (ack_range_bytes ack i)" if "i \<in> set [1..<num_ack_ranges ack]" for i
    unfolding encode_ack_range_def ack_range_bytes_def Let_def
    using ack_range_ok(2,3) [OF rs, of i] that n
    by - (rule appends_cong, (rule append_intros | force)+)
  have t: "vl_ok (if ecn_present ack then OSSL_QUIC_FRAME_TYPE_ACK_WITH_ECN else OSSL_QUIC_FRAME_TYPE_ACK_WITHOUT_ECN)"
    by (simp add: frame_types)
  have z: "num_ack_ranges ack \<noteq> 0" using f(3) n by simp
  show ?thesis
    unfolding ossl_quic_wire_encode_frame_ack_def Let_def if_not_P [OF z] ack_delay_enc_eq [OF e]
    by (rule appends_cong, (rule append_intros t f c d ecn range | assumption)+)
      (simp add: ack_bytes_def frame_types)
qed

lemma appends_padding [append_intros]: "appends (\<lambda>w. ossl_quic_wire_encode_padding w n) (replicate n 0)"
  unfolding ossl_quic_wire_encode_padding_def by (rule appends_memset)

lemma appends_bare [append_intros]:
  "appends ossl_quic_wire_encode_frame_ping (vl 1)"
  "appends ossl_quic_wire_encode_frame_handshake_done (vl 30)"
  using appends_hdr [of 1] appends_hdr [of 30]
  by (simp_all add: ossl_quic_wire_encode_frame_ping_def [abs_def] ossl_quic_wire_encode_frame_handshake_done_def [abs_def] frame_types)

lemma appends_reset_stream [append_intros]:
  assumes "vl_ok (rs_stream_id f)" "vl_ok (rs_app_error_code f)" "vl_ok (rs_final_size f)"
  shows "appends (\<lambda>w. ossl_quic_wire_encode_frame_reset_stream w f)
     (vl 4 @ vl (rs_stream_id f) @ vl (rs_app_error_code f) @ vl (rs_final_size f))"
  unfolding ossl_quic_wire_encode_frame_reset_stream_def
  using assms by - (rule appends_cong, (rule append_intros | force simp: frame_types)+)

lemma appends_stop_sending [append_intros]:
  assumes "vl_ok (ss_stream_id f)" "vl_ok (ss_app_error_code f)"
  shows "appends (\<lambda>w. ossl_quic_wire_encode_frame_stop_sending w f)
     (vl 5 @ vl (ss_stream_id f) @ vl (ss_app_error_code f))"
  unfolding ossl_quic_wire_encode_frame_stop_sending_def
  using assms by - (rule appends_cong, (rule append_intros | force simp: frame_types)+)

lemma appends_new_token [append_intros]:
  assumes "n \<le> length token" "n < 2 ^ 62"
  shows "appends (\<lambda>w. ossl_quic_wire_encode_frame_new_token w token n) (vl 7 @ vl (of_nat n) @ take n token)"
proof -
  have "vl_ok (of_nat n)" using assms(2) by (simp add: unat_of_nat_u64)
  then show ?thesis
    unfolding ossl_quic_wire_encode_frame_new_token_def
    using assms(1) by - (rule appends_cong, (rule append_intros | force simp: frame_types)+)
qed

lemma appends_max_data [append_intros]:
  "vl_ok v \<Longrightarrow> appends (\<lambda>w. ossl_quic_wire_encode_frame_max_data w v) (vl 16 @ vl v)"
  unfolding ossl_quic_wire_encode_frame_max_data_def
  by (rule appends_cong, (rule append_intros | force simp: frame_types)+)

lemma appends_max_stream_data [append_intros]:
  "vl_ok s \<Longrightarrow> vl_ok v \<Longrightarrow> appends (\<lambda>w. ossl_quic_wire_encode_frame_max_stream_data w s v) (vl 17 @ vl s @ vl v)"
  unfolding ossl_quic_wire_encode_frame_max_stream_data_def
  by (rule appends_cong, (rule append_intros | force simp: frame_types)+)

lemma appends_max_streams [append_intros]:
  "vl_ok v \<Longrightarrow> appends (\<lambda>w. ossl_quic_wire_encode_frame_max_streams w uni v) (vl (if uni then 19 else 18) @ vl v)"
  unfolding ossl_quic_wire_encode_frame_max_streams_def
  by (rule appends_cong, (rule append_intros | force simp: frame_types)+)

lemma appends_data_blocked [append_intros]:
  "vl_ok v \<Longrightarrow> appends (\<lambda>w. ossl_quic_wire_encode_frame_data_blocked w v) (vl 20 @ vl v)"
  unfolding ossl_quic_wire_encode_frame_data_blocked_def
  by (rule appends_cong, (rule append_intros | force simp: frame_types)+)

lemma appends_stream_data_blocked [append_intros]:
  "vl_ok s \<Longrightarrow> vl_ok v \<Longrightarrow> appends (\<lambda>w. ossl_quic_wire_encode_frame_stream_data_blocked w s v) (vl 21 @ vl s @ vl v)"
  unfolding ossl_quic_wire_encode_frame_stream_data_blocked_def
  by (rule appends_cong, (rule append_intros | force simp: frame_types)+)

lemma appends_streams_blocked [append_intros]:
  "vl_ok v \<Longrightarrow> appends (\<lambda>w. ossl_quic_wire_encode_frame_streams_blocked w uni v) (vl (if uni then 23 else 22) @ vl v)"
  unfolding ossl_quic_wire_encode_frame_streams_blocked_def
  by (rule appends_cong, (rule append_intros | force simp: frame_types)+)

lemma ucast_u8_u64 [simp]: "ucast (ucast (b :: u8) :: u64) = b"
  by (rule bit_word_eqI) (simp add: bit_simps)

definition conn_id_ok :: "QUIC_CONN_ID \<Rightarrow> bool" where
  "conn_id_ok c \<longleftrightarrow> unat (id_len c) \<le> 20 \<and> length (cid_id c) = 20"

abbreviation cid_bytes :: "QUIC_CONN_ID \<Rightarrow> u8 list" where
  "cid_bytes c \<equiv> take (unat (id_len c)) (cid_id c)"

lemma appends_new_conn_id [append_intros]:
  assumes "vl_ok (nc_seq_num f)" "vl_ok (nc_retire_prior_to f)" "conn_id_ok (nc_conn_id f)"
    "id_len (nc_conn_id f) \<noteq> 0" "length (nc_stateless_reset f) = 16"
  shows "appends (\<lambda>w. ossl_quic_wire_encode_frame_new_conn_id w f)
     (vl 24 @ vl (nc_seq_num f) @ vl (nc_retire_prior_to f) @ [id_len (nc_conn_id f)]
      @ cid_bytes (nc_conn_id f) @ nc_stateless_reset f)"
proof -
  let ?n = "id_len (nc_conn_id f)"
  have g: "\<not> (?n < 1 \<or> unat ?n > QUIC_MAX_CONN_ID_LEN)"
    using assms(3,4) by (simp add: conn_id_ok_def QUIC_MAX_CONN_ID_LEN_def word_less_nat_alt unat_eq_zero)
  have "be_bytes 1 (ucast ?n) = [?n]" by (simp add: be_bytes_unfold)
  then show ?thesis
    unfolding ossl_quic_wire_encode_frame_new_conn_id_def if_not_P [OF g]
    using assms
    by - (rule appends_cong, (rule append_intros
      | force simp: frame_types conn_id_ok_def QUIC_STATELESS_RESET_TOKEN_LEN_def unat_bound [of ?n, simplified])+)
qed

lemma appends_retire_conn_id [append_intros]:
  "vl_ok v \<Longrightarrow> appends (\<lambda>w. ossl_quic_wire_encode_frame_retire_conn_id w v) (vl 25 @ vl v)"
  unfolding ossl_quic_wire_encode_frame_retire_conn_id_def
  by (rule appends_cong, (rule append_intros | force simp: frame_types)+)

lemma appends_path [append_intros]:
  "appends (\<lambda>w. ossl_quic_wire_encode_frame_path_challenge w v) (vl 26 @ be_bytes 8 v)"
  "appends (\<lambda>w. ossl_quic_wire_encode_frame_path_response w v) (vl 27 @ be_bytes 8 v)"
  unfolding ossl_quic_wire_encode_frame_path_challenge_def ossl_quic_wire_encode_frame_path_response_def
  using unat_bound [of v]
  by - (rule appends_cong, (rule append_intros | force simp: frame_types)+)+

definition conn_close_ok :: "OSSL_QUIC_FRAME_CONN_CLOSE \<Rightarrow> bool" where
  "conn_close_ok f \<longleftrightarrow> vl_ok (cc_error_code f) \<and> (\<not> cc_is_app f \<longrightarrow> vl_ok (cc_frame_type f))
     \<and> cc_reason_len f \<le> length (cc_reason f) \<and> cc_reason_len f < 2 ^ 62"

lemma appends_conn_close [append_intros]:
  assumes "conn_close_ok f"
  shows "appends (\<lambda>w. ossl_quic_wire_encode_frame_conn_close w f)
     (vl (if cc_is_app f then 29 else 28) @ vl (cc_error_code f) @ (if cc_is_app f then [] else vl (cc_frame_type f))
      @ vl (of_nat (cc_reason_len f)) @ take (cc_reason_len f) (cc_reason f))"
proof -
  have "vl_ok (of_nat (cc_reason_len f))" using assms by (simp add: conn_close_ok_def unat_of_nat_u64)
  then show ?thesis
    unfolding ossl_quic_wire_encode_frame_conn_close_def
    using assms by - (rule appends_cong, (rule append_intros | force simp: conn_close_ok_def frame_types)+)
qed

text \<open>Transport parameters.\<close>

lemma appends_param_int [append_intros]:
  assumes "vl_ok k" "vl_ok v"
  shows "appends (\<lambda>w. ossl_quic_wire_encode_transport_param_int w k v)
    (vl k @ vl (of_nat (length (vl v))) @ vl v)"
proof -
  note e = vlint_encode [OF assms(2)]
  have "ossl_quic_vlint_encode_len v \<le> 8" by (simp add: vlint_encode_len_cases)
  then have "vl_ok (of_nat (ossl_quic_vlint_encode_len v))" by (simp add: unat_of_nat_u64)
  then show ?thesis
    unfolding ossl_quic_wire_encode_transport_param_int_def
    using assms e by - (rule appends_cong, (rule append_intros | force)+)
qed

lemma appends_param_bytes [append_intros]:
  assumes "vl_ok k" "n \<le> length d" "n < 2 ^ 62"
  shows "appends (ptr_ok (\<lambda>w. ossl_quic_wire_encode_transport_param_bytes w k (Some d) n))
    (vl k @ vl (of_nat n) @ take n d)"
proof -
  let ?h = "all_ok [\<lambda>p. WPACKET_quic_write_vlint p k, \<lambda>p. WPACKET_quic_write_vlint p (of_nat n)]"
  have "vl_ok (of_nat n)" using assms(3) by (simp add: unat_of_nat_u64)
  then have h: "appends ?h (vl k @ vl (of_nat n))"
    using assms(1) by - (rule appends_cong, (rule append_intros | force)+)
  show ?thesis
  proof (cases "n = 0")
    case False
    then have "appends (ptr_ok (\<lambda>w. ossl_quic_wire_encode_transport_param_bytes w k (Some d) n))
        ((vl k @ vl (of_nat n)) @ take n d)"
      using assms(2) by (intro appends_payload [OF h])
        (simp_all add: ossl_quic_wire_encode_transport_param_bytes_def split_beta Let_def del: all_ok.simps cong: if_cong)
    then show ?thesis by simp
  next
    case True
    have "ptr_ok (\<lambda>w. ossl_quic_wire_encode_transport_param_bytes w k (Some d) n) w = ?h w" if inv: "w_inv w" for w
    proof (cases "?h w")
      case (Pair ok w1)
      show ?thesis
      proof (cases ok)
        case False
        then show ?thesis
          using Pair by (simp add: ptr_ok_def ossl_quic_wire_encode_transport_param_bytes_def del: all_ok.simps)
      next
        case ok: True
        then have "?h w = (True, w1)" using Pair by simp
        then have inv1: "w_inv w1" and out: "w_out w1 = w_out w @ vl k @ vl (of_nat n)"
          by (rule appendsD(1,2) [OF h inv])+
        have "vl k \<noteq> []" using vlint_encode [OF assms(1)] by blast
        then have "0 < w_written w1" using length_w_out [OF inv1] out by (metis add_gr_0 append_is_Nil_conv length_append length_greater_0_conv)
        from w_inv_getbuf [OF inv1 this] have g: "GETBUF w1 = Some (w_mem w1)" .
        have "overwrite (w_mem w1) m [] = w_mem w1" for m by (simp add: overwrite_def)
        then have "w_store w1 (WPACKET_get_curr w1) [] = w1"
          using g by (auto simp: w_store_def WPACKET_get_curr_def w_setbuf_def GETBUF_def w_mem_def split: option.splits)
        then show ?thesis
          using Pair ok True g
          by (simp add: ptr_ok_def ossl_quic_wire_encode_transport_param_bytes_def WPACKET_get_curr_def del: all_ok.simps)
      qed
    qed
    from appends_eqI [OF h this] show ?thesis using True by simp
  qed
qed

lemma appends_param_cid [append_intros]:
  assumes "vl_ok k" "conn_id_ok c"
  shows "appends (\<lambda>w. ossl_quic_wire_encode_transport_param_cid w k c)
    (vl k @ vl (ucast (id_len c)) @ cid_bytes c)"
proof -
  have "unat (id_len c) \<le> length (cid_id c)" "unat (id_len c) < 2 ^ 62"
    using assms(2) by (simp_all add: conn_id_ok_def)
  from appends_param_bytes [OF assms(1) this]
  show ?thesis
    by (rule appends_cong [OF appends_eqI])
      (use assms(2) in \<open>auto simp: ossl_quic_wire_encode_transport_param_cid_def ptr_ok_def conn_id_ok_def
        QUIC_MAX_CONN_ID_LEN_def of_nat_unat split: prod.splits\<close>)
qed

section \<open>Lengths known in advance, and payloads of no bytes\<close>

lemma encode_len_zero:
  "ossl_quic_vlint_encode_len v = 0 \<longleftrightarrow> \<not> vl_ok v" "0 < ossl_quic_vlint_encode_len v \<longleftrightarrow> vl_ok v"
  by (simp_all add: vlint_encode_len_cases)

lemma length_vl: "vl_ok v \<Longrightarrow> length (vl v) = ossl_quic_vlint_encode_len v"
  using vlint_encode by blast

lemma get_encoded_frame_len_stream_hdr:
  "ossl_quic_wire_get_encoded_frame_len_stream_hdr f = (if stream_hdr_ok f then length (stream_hdr f) else 0)"
proof -
  have "ossl_quic_vlint_encode_len (stream_type f) = 1" "ossl_quic_vlint_encode_len OSSL_QUIC_FRAME_TYPE_STREAM = 1"
    by (simp_all add: stream_type_def vlint_encode_len_cases frame_types)
  then show ?thesis
    using stream_type_ok [of f]
    by (auto simp: ossl_quic_wire_get_encoded_frame_len_stream_hdr_def stream_hdr_ok_def stream_hdr_def
        length_vl encode_len_zero Let_def word_gt_0)
qed

lemma get_encoded_frame_len_crypto_hdr:
  "ossl_quic_wire_get_encoded_frame_len_crypto_hdr f =
     (if vl_ok (cr_offset f) \<and> vl_ok (cr_len f) then length (vl 6 @ vl (cr_offset f) @ vl (cr_len f)) else 0)"
  using length_vl [of 6]
  by (auto simp: ossl_quic_wire_get_encoded_frame_len_crypto_hdr_def length_vl encode_len_zero Let_def frame_types)

lemma allocate_zero: "WPACKET_allocate_bytes w 0 = (False, None, w)"
  by (simp add: WPACKET_allocate_bytes_def WPACKET_reserve_bytes_def)

end
