(* ===== verification/WireDec.thy ===== *)
theory WireDec
  imports WireEnc
begin

text \<open>
  The decoders of \<^verbatim>\<open>ssl/quic/quic_wire.c\<close>: one definition per function, over the packet
  reader of \<open>Packet\<close>. A decoder returns \<open>None\<close> where the C function returns 0 or \<open>NULL\<close>; the callers
  then drop the packet, so what a failing decoder has already consumed is not part of the result.
  Data pointers of a decoded frame are pointers into the packet.

  The lemmas give for every decoder the bytes on which it returns a given frame, and show that
  it stays inside its packet.
\<close>

section \<open>Model: frames\<close>

definition ossl_quic_wire_peek_frame_header :: "PACKET \<Rightarrow> (u64 \<times> bool) option" where
  "ossl_quic_wire_peek_frame_header pkt = PACKET_peek_quic_vlint_ex pkt"

definition ossl_quic_wire_skip_frame_header :: "PACKET \<Rightarrow> (u64 \<times> PACKET) option" where
  "ossl_quic_wire_skip_frame_header pkt = PACKET_get_quic_vlint pkt"

definition expect_frame_header_mask :: "PACKET \<Rightarrow> u64 \<Rightarrow> u64 \<Rightarrow> (u64 \<times> PACKET) option" where
  "expect_frame_header_mask pkt expected_frame_type mask_bits =
     do { (actual_frame_type, pkt) \<leftarrow> ossl_quic_wire_skip_frame_header pkt;
          if and actual_frame_type (not mask_bits) \<noteq> expected_frame_type then None
          else Some (actual_frame_type, pkt) }"

definition expect_frame_header :: "PACKET \<Rightarrow> u64 \<Rightarrow> PACKET option" where
  "expect_frame_header pkt expected_frame_type =
     do { (actual_frame_type, pkt) \<leftarrow> ossl_quic_wire_skip_frame_header pkt;
          if actual_frame_type \<noteq> expected_frame_type then None else Some pkt }"

fun skip_ack_ranges :: "nat \<Rightarrow> PACKET \<Rightarrow> PACKET option" where
  "skip_ack_ranges 0 pkt = Some pkt"
| "skip_ack_ranges (Suc n) pkt =
     do { pkt \<leftarrow> PACKET_skip_quic_vlint pkt; pkt \<leftarrow> PACKET_skip_quic_vlint pkt; skip_ack_ranges n pkt }"

definition ossl_quic_wire_peek_frame_ack_num_ranges :: "PACKET \<Rightarrow> u64 option" where
  "ossl_quic_wire_peek_frame_ack_num_ranges orig_pkt =
     do { (_, pkt) \<leftarrow> expect_frame_header_mask orig_pkt OSSL_QUIC_FRAME_TYPE_ACK_WITHOUT_ECN 1;
          pkt \<leftarrow> PACKET_skip_quic_vlint pkt;
          pkt \<leftarrow> PACKET_skip_quic_vlint pkt;
          (ack_range_count, pkt) \<leftarrow> PACKET_get_quic_vlint pkt;
          _ \<leftarrow> skip_ack_ranges (unat ack_range_count) pkt;
          Some (ack_range_count + 1) }"

text \<open>
  The loop over the ranges after the first: \<open>n\<close> iterations are left, \<open>i\<close> is the loop counter. The
  ranges are stored as far as there is an array to store them in, and \<open>start\<close> moves only when
  a range is stored.
\<close>

fun decode_ack_ranges ::
  "nat \<Rightarrow> nat \<Rightarrow> u64 \<Rightarrow> OSSL_QUIC_FRAME_ACK option \<Rightarrow> PACKET \<Rightarrow> (OSSL_QUIC_FRAME_ACK option \<times> PACKET) option" where
  "decode_ack_ranges 0 i start ack pkt = Some (ack, pkt)"
| "decode_ack_ranges (Suc n) i start ack pkt =
     do { (gap, pkt) \<leftarrow> PACKET_get_quic_vlint pkt;
          (len, pkt) \<leftarrow> PACKET_get_quic_vlint pkt;
          let rend = start - gap - 2 in
          if start < gap + 2 \<or> len > rend then None
          else (case ack of
              Some a \<Rightarrow>
                if i + 1 < num_ack_ranges a then
                  decode_ack_ranges n (i + 1) (rend - len)
                    (Some (a\<lparr>ack_ranges := (ack_ranges a)[i + 1 := \<lparr>ar_start = rend - len, ar_end = rend\<rparr>]\<rparr>)) pkt
                else decode_ack_ranges n (i + 1) start ack pkt
            | None \<Rightarrow> decode_ack_ranges n (i + 1) start ack pkt) }"

text \<open>The delay and the first range, where there is a frame to fill in.\<close>

definition store_first_range :: "u32 \<Rightarrow> u64 \<Rightarrow> u64 \<Rightarrow> u64 \<Rightarrow> OSSL_QUIC_FRAME_ACK \<Rightarrow> OSSL_QUIC_FRAME_ACK" where
  "store_first_range ack_delay_exponent ack_delay_raw start largest_ackd a =
     (let (ticks, err) = safe_mul ack_delay_raw (push_bit (unat ack_delay_exponent) 1) False;
          a = a\<lparr>delay_time := ossl_time_multiply (ossl_ticks2time OSSL_TIME_US) ticks\<rparr>;
          a = (if err then a\<lparr>delay_time := ossl_time_infinite\<rparr> else a)
      in if num_ack_ranges a > 0
         then a\<lparr>ack_ranges := (ack_ranges a)[0 := \<lparr>ar_start = start, ar_end = largest_ackd\<rparr>]\<rparr>
         else a)"

text \<open>What follows the ranges: the number of ranges, and the counts of a frame with ECN.\<close>

definition finish_ack ::
  "u64 \<Rightarrow> u64 \<Rightarrow> OSSL_QUIC_FRAME_ACK option \<Rightarrow> PACKET \<Rightarrow> ((OSSL_QUIC_FRAME_ACK option \<times> u64) \<times> PACKET) option" where
  "finish_ack frame_type ack_range_count ack pkt =
     (let ack = map_option (\<lambda>a. if unat ack_range_count + 1 < num_ack_ranges a
                                then a\<lparr>num_ack_ranges := unat ack_range_count + 1\<rparr> else a) ack;
          total_ranges = ack_range_count + 1
      in if frame_type = OSSL_QUIC_FRAME_TYPE_ACK_WITH_ECN then do {
           (e0, pkt) \<leftarrow> PACKET_get_quic_vlint pkt;
           (e1, pkt) \<leftarrow> PACKET_get_quic_vlint pkt;
           (ce, pkt) \<leftarrow> PACKET_get_quic_vlint pkt;
           Some ((map_option (\<lambda>a. a\<lparr>ect0 := e0, ect1 := e1, ecnce := ce, ecn_present := True\<rparr>) ack,
             total_ranges), pkt) }
         else Some ((map_option (\<lambda>a. a\<lparr>ecn_present := False\<rparr>) ack, total_ranges), pkt))"

definition ossl_quic_wire_decode_frame_ack ::
  "PACKET \<Rightarrow> u32 \<Rightarrow> OSSL_QUIC_FRAME_ACK option \<Rightarrow> ((OSSL_QUIC_FRAME_ACK option \<times> u64) \<times> PACKET) option" where
  "ossl_quic_wire_decode_frame_ack pkt ack_delay_exponent ack =
     do { (frame_type, pkt) \<leftarrow> expect_frame_header_mask pkt OSSL_QUIC_FRAME_TYPE_ACK_WITHOUT_ECN 1;
          (largest_ackd, pkt) \<leftarrow> PACKET_get_quic_vlint pkt;
          (ack_delay_raw, pkt) \<leftarrow> PACKET_get_quic_vlint pkt;
          (ack_range_count, pkt) \<leftarrow> PACKET_get_quic_vlint pkt;
          (first_ack_range, pkt) \<leftarrow> PACKET_get_quic_vlint pkt;
          if first_ack_range > largest_ackd then None
          else if unat ack_range_count > SIZE_MAX then None
          else
            let start = largest_ackd - first_ack_range;
                ack = map_option (store_first_range ack_delay_exponent ack_delay_raw start largest_ackd) ack
            in do {
              (ack, pkt) \<leftarrow> decode_ack_ranges (unat ack_range_count) 0 start ack pkt;
              finish_ack frame_type ack_range_count ack pkt } }"

definition ossl_quic_wire_decode_frame_reset_stream :: "PACKET \<Rightarrow> (OSSL_QUIC_FRAME_RESET_STREAM \<times> PACKET) option" where
  "ossl_quic_wire_decode_frame_reset_stream pkt =
     do { pkt \<leftarrow> expect_frame_header pkt OSSL_QUIC_FRAME_TYPE_RESET_STREAM;
          (stream_id, pkt) \<leftarrow> PACKET_get_quic_vlint pkt;
          (app_error_code, pkt) \<leftarrow> PACKET_get_quic_vlint pkt;
          (final_size, pkt) \<leftarrow> PACKET_get_quic_vlint pkt;
          Some (\<lparr>rs_stream_id = stream_id, rs_app_error_code = app_error_code, rs_final_size = final_size\<rparr>, pkt) }"

definition ossl_quic_wire_decode_frame_stop_sending :: "PACKET \<Rightarrow> (OSSL_QUIC_FRAME_STOP_SENDING \<times> PACKET) option" where
  "ossl_quic_wire_decode_frame_stop_sending pkt =
     do { pkt \<leftarrow> expect_frame_header pkt OSSL_QUIC_FRAME_TYPE_STOP_SENDING;
          (stream_id, pkt) \<leftarrow> PACKET_get_quic_vlint pkt;
          (app_error_code, pkt) \<leftarrow> PACKET_get_quic_vlint pkt;
          Some (\<lparr>ss_stream_id = stream_id, ss_app_error_code = app_error_code\<rparr>, pkt) }"

definition ossl_quic_wire_decode_frame_crypto :: "PACKET \<Rightarrow> bool \<Rightarrow> (OSSL_QUIC_FRAME_CRYPTO \<times> PACKET) option" where
  "ossl_quic_wire_decode_frame_crypto pkt nodata =
     do { pkt \<leftarrow> expect_frame_header pkt OSSL_QUIC_FRAME_TYPE_CRYPTO;
          (offset, pkt) \<leftarrow> PACKET_get_quic_vlint pkt;
          (len, pkt) \<leftarrow> PACKET_get_quic_vlint pkt;
          if unat len > SIZE_MAX then None
          else if offset + len > push_bit 62 1 - 1 then None
          else if nodata then Some (\<lparr>cr_offset = offset, cr_len = len, cr_data = None\<rparr>, pkt)
          else if PACKET_remaining pkt < unat len then None
          else
            let data = PACKET_data pkt in
            do { pkt \<leftarrow> PACKET_forward pkt (unat len);
                 Some (\<lparr>cr_offset = offset, cr_len = len, cr_data = Some data\<rparr>, pkt) } }"

definition ossl_quic_wire_decode_frame_new_token :: "PACKET \<Rightarrow> ((u8 list \<times> nat) \<times> PACKET) option" where
  "ossl_quic_wire_decode_frame_new_token pkt =
     do { pkt \<leftarrow> expect_frame_header pkt OSSL_QUIC_FRAME_TYPE_NEW_TOKEN;
          (token_len, pkt) \<leftarrow> PACKET_get_quic_vlint pkt;
          if unat token_len > SIZE_MAX then None
          else
            let token = PACKET_data pkt in
            do { pkt \<leftarrow> PACKET_forward pkt (unat token_len); Some ((token, unat token_len), pkt) } }"

definition ossl_quic_wire_decode_frame_stream :: "PACKET \<Rightarrow> bool \<Rightarrow> (OSSL_QUIC_FRAME_STREAM \<times> PACKET) option" where
  "ossl_quic_wire_decode_frame_stream pkt nodata =
     do { (frame_type, pkt) \<leftarrow> expect_frame_header_mask pkt OSSL_QUIC_FRAME_TYPE_STREAM OSSL_QUIC_FRAME_FLAG_STREAM_MASK;
          (stream_id, pkt) \<leftarrow> PACKET_get_quic_vlint pkt;
          (offset, pkt) \<leftarrow> (if and frame_type OSSL_QUIC_FRAME_FLAG_STREAM_OFF \<noteq> 0
                            then PACKET_get_quic_vlint pkt else Some (0, pkt));
          let explicit = and frame_type OSSL_QUIC_FRAME_FLAG_STREAM_LEN \<noteq> 0;
              fin = and frame_type OSSL_QUIC_FRAME_FLAG_STREAM_FIN \<noteq> 0
          in do {
            (len, pkt) \<leftarrow> (if explicit then PACKET_get_quic_vlint pkt
                          else if nodata then Some (0, pkt)
                          else Some (of_nat (PACKET_remaining pkt), pkt));
            if offset + len > push_bit 62 1 - 1 then None
            else if nodata then
              Some (\<lparr>st_stream_id = stream_id, st_offset = offset, st_len = len, st_data = None,
                     has_explicit_len = explicit, st_is_fin = fin\<rparr>, pkt)
            else
              let data = PACKET_data pkt in
              if unat len > SIZE_MAX then None
              else do {
                pkt \<leftarrow> PACKET_forward pkt (unat len);
                Some (\<lparr>st_stream_id = stream_id, st_offset = offset, st_len = len, st_data = Some data,
                       has_explicit_len = explicit, st_is_fin = fin\<rparr>, pkt) } } }"

definition ossl_quic_wire_decode_frame_max_data :: "PACKET \<Rightarrow> (u64 \<times> PACKET) option" where
  "ossl_quic_wire_decode_frame_max_data pkt =
     do { pkt \<leftarrow> expect_frame_header pkt OSSL_QUIC_FRAME_TYPE_MAX_DATA; PACKET_get_quic_vlint pkt }"

definition ossl_quic_wire_decode_frame_max_stream_data :: "PACKET \<Rightarrow> ((u64 \<times> u64) \<times> PACKET) option" where
  "ossl_quic_wire_decode_frame_max_stream_data pkt =
     do { pkt \<leftarrow> expect_frame_header pkt OSSL_QUIC_FRAME_TYPE_MAX_STREAM_DATA;
          (stream_id, pkt) \<leftarrow> PACKET_get_quic_vlint pkt;
          (max_stream_data, pkt) \<leftarrow> PACKET_get_quic_vlint pkt;
          Some ((stream_id, max_stream_data), pkt) }"

definition ossl_quic_wire_decode_frame_max_streams :: "PACKET \<Rightarrow> (u64 \<times> PACKET) option" where
  "ossl_quic_wire_decode_frame_max_streams pkt =
     do { (_, pkt) \<leftarrow> expect_frame_header_mask pkt OSSL_QUIC_FRAME_TYPE_MAX_STREAMS_BIDI 1;
          PACKET_get_quic_vlint pkt }"

definition ossl_quic_wire_decode_frame_data_blocked :: "PACKET \<Rightarrow> (u64 \<times> PACKET) option" where
  "ossl_quic_wire_decode_frame_data_blocked pkt =
     do { pkt \<leftarrow> expect_frame_header pkt OSSL_QUIC_FRAME_TYPE_DATA_BLOCKED; PACKET_get_quic_vlint pkt }"

definition ossl_quic_wire_decode_frame_stream_data_blocked :: "PACKET \<Rightarrow> ((u64 \<times> u64) \<times> PACKET) option" where
  "ossl_quic_wire_decode_frame_stream_data_blocked pkt =
     do { pkt \<leftarrow> expect_frame_header pkt OSSL_QUIC_FRAME_TYPE_STREAM_DATA_BLOCKED;
          (stream_id, pkt) \<leftarrow> PACKET_get_quic_vlint pkt;
          (max_stream_data, pkt) \<leftarrow> PACKET_get_quic_vlint pkt;
          Some ((stream_id, max_stream_data), pkt) }"

definition ossl_quic_wire_decode_frame_streams_blocked :: "PACKET \<Rightarrow> (u64 \<times> PACKET) option" where
  "ossl_quic_wire_decode_frame_streams_blocked pkt =
     do { (_, pkt) \<leftarrow> expect_frame_header_mask pkt OSSL_QUIC_FRAME_TYPE_STREAMS_BLOCKED_BIDI 1;
          PACKET_get_quic_vlint pkt }"

definition ossl_quic_wire_decode_frame_new_conn_id :: "PACKET \<Rightarrow> (OSSL_QUIC_FRAME_NEW_CONN_ID \<times> PACKET) option" where
  "ossl_quic_wire_decode_frame_new_conn_id pkt =
     do { pkt \<leftarrow> expect_frame_header pkt OSSL_QUIC_FRAME_TYPE_NEW_CONN_ID;
          (seq_num, pkt) \<leftarrow> PACKET_get_quic_vlint pkt;
          (retire_prior_to, pkt) \<leftarrow> PACKET_get_quic_vlint pkt;
          if seq_num < retire_prior_to then None
          else do {
            (len, pkt) \<leftarrow> PACKET_get_1 pkt;
            if len < 1 \<or> unat len > QUIC_MAX_CONN_ID_LEN then None
            else do {
              (cid, pkt) \<leftarrow> PACKET_copy_bytes pkt (unat len);
              (token, pkt) \<leftarrow> PACKET_copy_bytes pkt QUIC_STATELESS_RESET_TOKEN_LEN;
              Some (\<lparr>nc_seq_num = seq_num, nc_retire_prior_to = retire_prior_to,
                     nc_conn_id = \<lparr>id_len = ucast len, cid_id = cid @ replicate (QUIC_MAX_CONN_ID_LEN - unat len) 0\<rparr>,
                     nc_stateless_reset = token\<rparr>, pkt) } } }"

definition ossl_quic_wire_decode_frame_retire_conn_id :: "PACKET \<Rightarrow> (u64 \<times> PACKET) option" where
  "ossl_quic_wire_decode_frame_retire_conn_id pkt =
     do { pkt \<leftarrow> expect_frame_header pkt OSSL_QUIC_FRAME_TYPE_RETIRE_CONN_ID; PACKET_get_quic_vlint pkt }"

definition ossl_quic_wire_decode_frame_path_challenge :: "PACKET \<Rightarrow> (u64 \<times> PACKET) option" where
  "ossl_quic_wire_decode_frame_path_challenge pkt =
     do { pkt \<leftarrow> expect_frame_header pkt OSSL_QUIC_FRAME_TYPE_PATH_CHALLENGE; PACKET_get_net_8 pkt }"

definition ossl_quic_wire_decode_frame_path_response :: "PACKET \<Rightarrow> (u64 \<times> PACKET) option" where
  "ossl_quic_wire_decode_frame_path_response pkt =
     do { pkt \<leftarrow> expect_frame_header pkt OSSL_QUIC_FRAME_TYPE_PATH_RESPONSE; PACKET_get_net_8 pkt }"

definition ossl_quic_wire_decode_frame_conn_close :: "PACKET \<Rightarrow> (OSSL_QUIC_FRAME_CONN_CLOSE \<times> PACKET) option" where
  "ossl_quic_wire_decode_frame_conn_close pkt =
     do { (frame_type, pkt) \<leftarrow> expect_frame_header_mask pkt OSSL_QUIC_FRAME_TYPE_CONN_CLOSE_TRANSPORT 1;
          (error_code, pkt) \<leftarrow> PACKET_get_quic_vlint pkt;
          let app = and frame_type 1 \<noteq> 0 in
          do {
            (ftype, pkt) \<leftarrow> (if \<not> app then PACKET_get_quic_vlint pkt else Some (0, pkt));
            (reason_len, pkt) \<leftarrow> PACKET_get_quic_vlint pkt;
            if unat reason_len > SIZE_MAX then None
            else do {
              (reason, pkt) \<leftarrow> PACKET_get_bytes pkt (unat reason_len);
              Some (\<lparr>cc_is_app = app, cc_error_code = error_code, cc_frame_type = ftype, cc_reason = reason,
                     cc_reason_len = unat reason_len\<rparr>, pkt) } } }"

text \<open>The number of bytes of padding, and the packet behind them.\<close>

definition ossl_quic_wire_decode_padding :: "PACKET \<Rightarrow> nat \<times> PACKET" where
  "ossl_quic_wire_decode_padding pkt =
     (let n = length (takeWhile (\<lambda>b. b = 0) (take (PACKET_remaining pkt) (PACKET_data pkt)))
      in case PACKET_forward pkt n of None \<Rightarrow> (0, pkt) | Some pkt \<Rightarrow> (n, pkt))"

definition ossl_quic_wire_decode_frame_ping :: "PACKET \<Rightarrow> PACKET option" where
  "ossl_quic_wire_decode_frame_ping pkt = expect_frame_header pkt OSSL_QUIC_FRAME_TYPE_PING"

definition ossl_quic_wire_decode_frame_handshake_done :: "PACKET \<Rightarrow> PACKET option" where
  "ossl_quic_wire_decode_frame_handshake_done pkt = expect_frame_header pkt OSSL_QUIC_FRAME_TYPE_HANDSHAKE_DONE"

section \<open>Model: transport parameters\<close>

definition ossl_quic_wire_peek_transport_param :: "PACKET \<Rightarrow> u64 option" where
  "ossl_quic_wire_peek_transport_param pkt = PACKET_peek_quic_vlint pkt"

text \<open>The parameter's identifier, its body and the length of the body.\<close>

definition ossl_quic_wire_decode_transport_param_bytes :: "PACKET \<Rightarrow> ((u64 \<times> u8 list \<times> nat) \<times> PACKET) option" where
  "ossl_quic_wire_decode_transport_param_bytes pkt =
     do { (param, pkt) \<leftarrow> PACKET_get_quic_vlint pkt;
          (len, pkt) \<leftarrow> PACKET_get_quic_vlint pkt;
          if unat len > SIZE_MAX then None
          else do {
            (b, pkt) \<leftarrow> PACKET_get_bytes pkt (unat len);
            Some ((param, b, unat len), pkt) } }"

definition ossl_quic_wire_decode_transport_param_int :: "PACKET \<Rightarrow> ((u64 \<times> u64) \<times> PACKET) option" where
  "ossl_quic_wire_decode_transport_param_int pkt =
     do { ((param, b, len), pkt) \<leftarrow> ossl_quic_wire_decode_transport_param_bytes pkt;
          (val, sub) \<leftarrow> PACKET_get_quic_vlint \<lparr>p_curr = b, p_remaining = len\<rparr>;
          if PACKET_remaining sub > 0 then None else Some ((param, val), pkt) }"

text \<open>\<open>cid\<close> is the identifier the caller supplies: only its first \<open>len\<close> bytes are written.\<close>

definition ossl_quic_wire_decode_transport_param_cid :: "PACKET \<Rightarrow> QUIC_CONN_ID \<Rightarrow> ((u64 \<times> QUIC_CONN_ID) \<times> PACKET) option" where
  "ossl_quic_wire_decode_transport_param_cid pkt cid =
     do { ((param, body, len), pkt) \<leftarrow> ossl_quic_wire_decode_transport_param_bytes pkt;
          if len > QUIC_MAX_CONN_ID_LEN then None
          else Some ((param, cid\<lparr>id_len := of_nat len, cid_id := take len body @ drop len (cid_id cid)\<rparr>), pkt) }"

definition ossl_quic_wire_decode_transport_param_preferred_addr ::
  "PACKET \<Rightarrow> QUIC_PREFERRED_ADDR \<Rightarrow> (QUIC_PREFERRED_ADDR \<times> PACKET) option" where
  "ossl_quic_wire_decode_transport_param_preferred_addr pkt p =
     do { ((param, body, len), pkt) \<leftarrow> ossl_quic_wire_decode_transport_param_bytes pkt;
          if len < QUIC_MIN_ENCODED_PREFERRED_ADDR_LEN \<or> len > QUIC_MAX_ENCODED_PREFERRED_ADDR_LEN
             \<or> param \<noteq> QUIC_TPARAM_PREFERRED_ADDR then None
          else do {
            pkt2 \<leftarrow> PACKET_buf_init body len;
            (ipv4, pkt2) \<leftarrow> PACKET_copy_bytes pkt2 4;
            (ipv4_port, pkt2) \<leftarrow> PACKET_get_net_2 pkt2;
            (ipv6, pkt2) \<leftarrow> PACKET_copy_bytes pkt2 16;
            (ipv6_port, pkt2) \<leftarrow> PACKET_get_net_2 pkt2;
            (cidl, pkt2) \<leftarrow> PACKET_get_1 pkt2;
            if unat cidl > QUIC_MAX_CONN_ID_LEN then None
            else do {
              (cid, pkt2) \<leftarrow> PACKET_copy_bytes pkt2 (unat cidl);
              (token, pkt2) \<leftarrow> PACKET_copy_bytes pkt2 QUIC_STATELESS_RESET_TOKEN_LEN;
              Some (p\<lparr>pa_ipv4 := ipv4, pa_ipv6 := ipv6, pa_ipv4_port := ucast ipv4_port, pa_ipv6_port := ucast ipv6_port,
                      pa_stateless_reset := token,
                      pa_cid := \<lparr>id_len = ucast cidl, cid_id = cid @ drop (unat cidl) (cid_id (pa_cid p))\<rparr>\<rparr>, pkt) } } }"

section \<open>What the decoders read\<close>

text \<open>A reader reads a value from bytes: on a packet that starts with the bytes it returns the value
  and has taken exactly those bytes.\<close>

definition reads :: "'a reader \<Rightarrow> u8 list \<Rightarrow> 'a \<Rightarrow> bool" where
  "reads g bs v \<longleftrightarrow> (\<forall>p rest. packet_wf p \<longrightarrow> pdata p = bs @ rest \<longrightarrow> g p = Some (v, packet_forward p (length bs)))"

named_theorems read_intros \<open>rules that show what a decoder reads\<close>

lemma readsD: "reads g bs v \<Longrightarrow> packet_wf p \<Longrightarrow> pdata p = bs @ rest \<Longrightarrow> g p = Some (v, packet_forward p (length bs))"
  by (simp add: reads_def)

lemma reads_return [read_intros]: "v = u \<Longrightarrow> reads (\<lambda>p. Some (v, p)) [] u"
  by (simp add: reads_def)

lemma reads_bind [read_intros]:
  assumes "reads g bs u" "reads (k u) cs v"
  shows "reads (\<lambda>p. g p \<bind> (\<lambda>(x, q). k x q)) (bs @ cs) v"
  unfolding reads_def
proof (intro allI impI)
  fix p rest
  assume p: "packet_wf p" "pdata p = (bs @ cs) @ rest"
  then have "g p = Some (u, packet_forward p (length bs))" using readsD [OF assms(1)] by simp
  moreover have "k u (packet_forward p (length bs)) = Some (v, packet_forward p (length (bs @ cs)))"
    using readsD [OF assms(2), of "packet_forward p (length bs)" rest] p by simp
  ultimately show "(g p \<bind> (\<lambda>(x, q). k x q)) = Some (v, packet_forward p (length (bs @ cs)))" by simp
qed

lemma reads_last [read_intros]:
  "reads g bs u \<Longrightarrow> f u = v \<Longrightarrow> reads (\<lambda>p. g p \<bind> (\<lambda>(x, q). Some (f x, q))) bs v"
  by (simp add: reads_def)

lemma reads_bind_packet [read_intros]:
  assumes "reads (\<lambda>p. map_option (Pair ()) (g p)) bs ()" "reads k cs v"
  shows "reads (\<lambda>p. g p \<bind> k) (bs @ cs) v"
proof -
  have "(\<lambda>p. g p \<bind> k) = (\<lambda>p. map_option (Pair ()) (g p) \<bind> (\<lambda>(v, q). (\<lambda>_. k) v q))"
    by (intro ext) (simp add: Option.bind_map_option o_def)
  then show ?thesis using reads_bind [OF assms(1), of "\<lambda>_. k"] assms(2) by simp
qed

lemma reads_guard [read_intros]:
  "\<not> c \<Longrightarrow> reads g bs v \<Longrightarrow> reads (\<lambda>p. if c then None else g p) bs v"
  by simp

lemma reads_vlint [read_intros]: "vl_ok v \<Longrightarrow> reads PACKET_get_quic_vlint (vl v) v"
  by (simp add: reads_def PACKET_get_quic_vlint_enc)

lemma reads_get_1 [read_intros]: "reads PACKET_get_1 [b] (ucast b)"
  by (simp add: reads_def PACKET_get_1_eq)

lemma reads_get_net_8 [read_intros]: "reads PACKET_get_net_8 (be_bytes 8 v) v"
  by (simp add: reads_def PACKET_get_net_eq be_val_be_bytes_8)

lemma reads_copy_bytes [read_intros]: "n = length bs \<Longrightarrow> reads (\<lambda>p. PACKET_copy_bytes p n) bs bs"
  by (simp add: reads_def PACKET_copy_bytes_eq)

lemma reads_expect [read_intros]:
  "vl_ok t \<Longrightarrow> t = t' \<Longrightarrow> reads (\<lambda>p. map_option (Pair ()) (expect_frame_header p t')) (vl t) ()"
  by (simp add: reads_def expect_frame_header_def ossl_quic_wire_skip_frame_header_def PACKET_get_quic_vlint_enc)

lemma reads_expect_mask [read_intros]:
  "vl_ok t \<Longrightarrow> and t (not m) = t' \<Longrightarrow> reads (\<lambda>p. expect_frame_header_mask p t' m) (vl t) t"
  by (simp add: reads_def expect_frame_header_mask_def ossl_quic_wire_skip_frame_header_def PACKET_get_quic_vlint_enc)

lemma reads_bare [read_intros]:
  "reads (\<lambda>p. map_option (Pair ()) (ossl_quic_wire_decode_frame_ping p)) (vl 1) ()"
  "reads (\<lambda>p. map_option (Pair ()) (ossl_quic_wire_decode_frame_handshake_done p)) (vl 30) ()"
  unfolding ossl_quic_wire_decode_frame_ping_def ossl_quic_wire_decode_frame_handshake_done_def
  by (rule reads_expect; simp add: frame_types)+

lemma reads_reset_stream [read_intros]:
  assumes "vl_ok (rs_stream_id f)" "vl_ok (rs_app_error_code f)" "vl_ok (rs_final_size f)"
  shows "reads ossl_quic_wire_decode_frame_reset_stream
     (vl 4 @ vl (rs_stream_id f) @ vl (rs_app_error_code f) @ vl (rs_final_size f)) f"
  unfolding ossl_quic_wire_decode_frame_reset_stream_def [abs_def]
  using assms by - (rule read_intros | force simp: frame_types)+

lemma reads_stop_sending [read_intros]:
  assumes "vl_ok (ss_stream_id f)" "vl_ok (ss_app_error_code f)"
  shows "reads ossl_quic_wire_decode_frame_stop_sending (vl 5 @ vl (ss_stream_id f) @ vl (ss_app_error_code f)) f"
  unfolding ossl_quic_wire_decode_frame_stop_sending_def [abs_def]
  using assms by - (rule read_intros | force simp: frame_types)+

lemma reads_max_data [read_intros]:
  "vl_ok v \<Longrightarrow> reads ossl_quic_wire_decode_frame_max_data (vl 16 @ vl v) v"
  "vl_ok v \<Longrightarrow> reads ossl_quic_wire_decode_frame_data_blocked (vl 20 @ vl v) v"
  "vl_ok v \<Longrightarrow> reads ossl_quic_wire_decode_frame_retire_conn_id (vl 25 @ vl v) v"
  unfolding ossl_quic_wire_decode_frame_max_data_def [abs_def] ossl_quic_wire_decode_frame_data_blocked_def [abs_def]
    ossl_quic_wire_decode_frame_retire_conn_id_def [abs_def]
  by (rule read_intros | force simp: frame_types)+

lemma reads_max_stream_data [read_intros]:
  "vl_ok s \<Longrightarrow> vl_ok v \<Longrightarrow> reads ossl_quic_wire_decode_frame_max_stream_data (vl 17 @ vl s @ vl v) (s, v)"
  "vl_ok s \<Longrightarrow> vl_ok v \<Longrightarrow> reads ossl_quic_wire_decode_frame_stream_data_blocked (vl 21 @ vl s @ vl v) (s, v)"
  unfolding ossl_quic_wire_decode_frame_max_stream_data_def [abs_def] ossl_quic_wire_decode_frame_stream_data_blocked_def [abs_def]
  by (rule read_intros | force simp: frame_types)+

lemma reads_max_streams [read_intros]:
  "vl_ok v \<Longrightarrow> reads ossl_quic_wire_decode_frame_max_streams (vl (if uni then 19 else 18) @ vl v) v"
  "vl_ok v \<Longrightarrow> reads ossl_quic_wire_decode_frame_streams_blocked (vl (if uni then 23 else 22) @ vl v) v"
  unfolding ossl_quic_wire_decode_frame_max_streams_def [abs_def] ossl_quic_wire_decode_frame_streams_blocked_def [abs_def]
  by (rule read_intros | force simp: frame_types)+

lemma reads_path [read_intros]:
  "reads ossl_quic_wire_decode_frame_path_challenge (vl 26 @ be_bytes 8 v) v"
  "reads ossl_quic_wire_decode_frame_path_response (vl 27 @ be_bytes 8 v) v"
  unfolding ossl_quic_wire_decode_frame_path_challenge_def [abs_def] ossl_quic_wire_decode_frame_path_response_def [abs_def]
  by (rule read_intros | force simp: frame_types)+

lemma ucast_u8_u32 [simp]: "ucast (ucast (b :: u8) :: u32) = b"
  by (rule bit_word_eqI) (simp add: bit_simps)

lemma reads_new_conn_id [read_intros]:
  assumes "vl_ok (nc_seq_num f)" "vl_ok (nc_retire_prior_to f)" "nc_retire_prior_to f \<le> nc_seq_num f"
    "id_len (nc_conn_id f) \<noteq> 0" "unat (id_len (nc_conn_id f)) \<le> 20" "length (nc_stateless_reset f) = 16"
    "cid_id (nc_conn_id f) = c @ replicate (20 - unat (id_len (nc_conn_id f))) 0" "length c = unat (id_len (nc_conn_id f))"
  shows "reads ossl_quic_wire_decode_frame_new_conn_id
     (vl 24 @ vl (nc_seq_num f) @ vl (nc_retire_prior_to f) @ [id_len (nc_conn_id f)] @ c @ nc_stateless_reset f) f"
proof -
  have n: "\<not> (ucast (id_len (nc_conn_id f)) < (1 :: u32) \<or> unat (ucast (id_len (nc_conn_id f)) :: u32) > QUIC_MAX_CONN_ID_LEN)"
    using assms(4,5) by (simp add: QUIC_MAX_CONN_ID_LEN_def word_less_nat_alt unat_eq_zero)
  have f: "\<lparr>nc_seq_num = nc_seq_num f, nc_retire_prior_to = nc_retire_prior_to f,
      nc_conn_id = \<lparr>id_len = id_len (nc_conn_id f), cid_id = c @ replicate (20 - unat (id_len (nc_conn_id f))) 0\<rparr>,
      nc_stateless_reset = nc_stateless_reset f\<rparr> = f"
    using assms(7) by (cases f; cases "nc_conn_id f") simp
  show ?thesis
    unfolding ossl_quic_wire_decode_frame_new_conn_id_def [abs_def]
    by (rule read_intros n | (use assms f in \<open>simp add: frame_types QUIC_STATELESS_RESET_TOKEN_LEN_def QUIC_MAX_CONN_ID_LEN_def\<close>; fail))+
qed

text \<open>
  Frames with data. A decoded frame points into the packet; what it says is the data its length
  covers. Seen that way, the decoders copy the data.
\<close>

definition seen :: "('a \<Rightarrow> 'b) \<Rightarrow> 'a reader \<Rightarrow> 'b reader" where
  "seen h g p = map_option (map_prod h id) (g p)"

definition crypto_view :: "OSSL_QUIC_FRAME_CRYPTO \<Rightarrow> OSSL_QUIC_FRAME_CRYPTO" where
  "crypto_view f = f\<lparr>cr_data := map_option (take (unat (cr_len f))) (cr_data f)\<rparr>"

definition stream_view :: "OSSL_QUIC_FRAME_STREAM \<Rightarrow> OSSL_QUIC_FRAME_STREAM" where
  "stream_view f = f\<lparr>st_data := map_option (take (unat (st_len f))) (st_data f)\<rparr>"

definition token_view :: "u8 list \<times> nat \<Rightarrow> u8 list \<times> nat" where
  "token_view t = (take (snd t) (fst t), snd t)"

definition conn_close_view :: "OSSL_QUIC_FRAME_CONN_CLOSE \<Rightarrow> OSSL_QUIC_FRAME_CONN_CLOSE" where
  "conn_close_view f = f\<lparr>cc_reason := take (cc_reason_len f) (cc_reason f)\<rparr>"

definition param_view :: "u64 \<times> u8 list \<times> nat \<Rightarrow> u64 \<times> u8 list \<times> nat" where
  "param_view x = (fst x, take (snd (snd x)) (fst (snd x)), snd (snd x))"

lemma map_bind: "map_option f (x \<bind> k) = x \<bind> (\<lambda>a. map_option f (k a))"
  by (cases x) simp_all

lemma bind_forward: "(if PACKET_remaining p < n then None else PACKET_forward p n \<bind> k) = PACKET_forward p n \<bind> k"
  by (simp add: PACKET_forward_def)

lemma forward_copy:
  "PACKET_forward p n \<bind> (\<lambda>q. Some (f (take n (PACKET_data p)), q)) = PACKET_copy_bytes p n \<bind> (\<lambda>(d, q). Some (f d, q))"
  by (simp add: PACKET_forward_def PACKET_copy_bytes_def PACKET_peek_copy_bytes_def PACKET_data_def)

lemma get_bytes_copy:
  "PACKET_get_bytes p n \<bind> (\<lambda>(d, q). Some (f (take n d), q)) = PACKET_copy_bytes p n \<bind> (\<lambda>(d, q). Some (f d, q))"
  by (simp add: PACKET_get_bytes_def PACKET_peek_bytes_def PACKET_copy_bytes_def PACKET_peek_copy_bytes_def)

lemmas seen_rules = seen_def [abs_def] map_bind if_distrib [of "map_option _"] split_beta Let_def bind_forward

lemma seen_crypto:
  "seen crypto_view (\<lambda>p. ossl_quic_wire_decode_frame_crypto p False) = (\<lambda>p.
     do { p \<leftarrow> expect_frame_header p OSSL_QUIC_FRAME_TYPE_CRYPTO;
          (offset, p) \<leftarrow> PACKET_get_quic_vlint p;
          (len, p) \<leftarrow> PACKET_get_quic_vlint p;
          if offset + len > push_bit 62 1 - 1 then None
          else do { (d, p) \<leftarrow> PACKET_copy_bytes p (unat len);
                    Some (\<lparr>cr_offset = offset, cr_len = len, cr_data = Some d\<rparr>, p) } })"
  unfolding ossl_quic_wire_decode_frame_crypto_def seen_rules
  by (simp add: forward_copy [of _ _ "\<lambda>d. \<lparr>cr_offset = _, cr_len = _, cr_data = Some d\<rparr>", unfolded split_beta]
      crypto_view_def cong: if_cong)

lemma seen_new_token:
  "seen token_view ossl_quic_wire_decode_frame_new_token = (\<lambda>p.
     do { p \<leftarrow> expect_frame_header p OSSL_QUIC_FRAME_TYPE_NEW_TOKEN;
          (len, p) \<leftarrow> PACKET_get_quic_vlint p;
          (d, p) \<leftarrow> PACKET_copy_bytes p (unat len);
          Some ((d, unat len), p) })"
  unfolding ossl_quic_wire_decode_frame_new_token_def seen_rules
  by (simp add: forward_copy [of _ _ "\<lambda>d. (d, _)", unfolded split_beta] token_view_def cong: if_cong)

lemma seen_stream:
  "seen stream_view (\<lambda>p. ossl_quic_wire_decode_frame_stream p False) = (\<lambda>p.
     do { (t, p) \<leftarrow> expect_frame_header_mask p OSSL_QUIC_FRAME_TYPE_STREAM OSSL_QUIC_FRAME_FLAG_STREAM_MASK;
          (stream_id, p) \<leftarrow> PACKET_get_quic_vlint p;
          (offset, p) \<leftarrow> (if and t 4 \<noteq> 0 then PACKET_get_quic_vlint p else Some (0, p));
          (len, p) \<leftarrow> (if and t 2 \<noteq> 0 then PACKET_get_quic_vlint p else Some (of_nat (PACKET_remaining p), p));
          if offset + len > push_bit 62 1 - 1 then None
          else do { (d, p) \<leftarrow> PACKET_copy_bytes p (unat len);
                    Some (\<lparr>st_stream_id = stream_id, st_offset = offset, st_len = len, st_data = Some d,
                           has_explicit_len = and t 2 \<noteq> 0, st_is_fin = and t 1 \<noteq> 0\<rparr>, p) } })"
  unfolding ossl_quic_wire_decode_frame_stream_def seen_rules
  by (simp add: forward_copy [of _ _ "\<lambda>d. \<lparr>st_stream_id = _, st_offset = _, st_len = _, st_data = Some d,
        has_explicit_len = _, st_is_fin = _\<rparr>", unfolded split_beta] stream_view_def
      OSSL_QUIC_FRAME_FLAG_STREAM_OFF_def OSSL_QUIC_FRAME_FLAG_STREAM_LEN_def OSSL_QUIC_FRAME_FLAG_STREAM_FIN_def cong: if_cong)

lemma seen_conn_close:
  "seen conn_close_view ossl_quic_wire_decode_frame_conn_close = (\<lambda>p.
     do { (t, p) \<leftarrow> expect_frame_header_mask p OSSL_QUIC_FRAME_TYPE_CONN_CLOSE_TRANSPORT 1;
          (error_code, p) \<leftarrow> PACKET_get_quic_vlint p;
          (ftype, p) \<leftarrow> (if and t 1 = 0 then PACKET_get_quic_vlint p else Some (0, p));
          (len, p) \<leftarrow> PACKET_get_quic_vlint p;
          (d, p) \<leftarrow> PACKET_copy_bytes p (unat len);
          Some (\<lparr>cc_is_app = (and t 1 \<noteq> 0), cc_error_code = error_code, cc_frame_type = ftype, cc_reason = d,
                 cc_reason_len = unat len\<rparr>, p) })"
  unfolding ossl_quic_wire_decode_frame_conn_close_def seen_rules
  by (simp add: get_bytes_copy [of _ _ "\<lambda>d. \<lparr>cc_is_app = _, cc_error_code = _, cc_frame_type = _, cc_reason = d,
      cc_reason_len = _\<rparr>", unfolded split_beta] conn_close_view_def cong: if_cong)

lemma seen_param_bytes:
  "seen param_view ossl_quic_wire_decode_transport_param_bytes = (\<lambda>p.
     do { (k, p) \<leftarrow> PACKET_get_quic_vlint p;
          (len, p) \<leftarrow> PACKET_get_quic_vlint p;
          (d, p) \<leftarrow> PACKET_copy_bytes p (unat len);
          Some ((k, d, unat len), p) })"
  unfolding ossl_quic_wire_decode_transport_param_bytes_def seen_rules
  by (simp add: get_bytes_copy [of _ _ "\<lambda>d. (_, d, _)", unfolded split_beta] param_view_def cong: if_cong)

lemma sum_within_62:
  assumes "unat (a :: u64) + unat b < 2 ^ 62"
  shows "\<not> a + b > push_bit 62 1 - 1"
proof -
  have "unat (a + b) = unat a + unat b" using assms by (intro unat_add_exact) simp
  with assms show ?thesis by (simp add: word_less_nat_alt push_bit_eq_mult)
qed

lemma reads_crypto [read_intros]:
  assumes "unat (cr_offset f) + unat (cr_len f) < 2 ^ 62" "cr_data f = Some d" "length d = unat (cr_len f)"
  shows "reads (seen crypto_view (\<lambda>p. ossl_quic_wire_decode_frame_crypto p False)) (vl 6 @ vl (cr_offset f) @ vl (cr_len f) @ d) f"
  unfolding seen_crypto
  using assms by - (rule read_intros sum_within_62 | force simp: frame_types)+

lemma reads_new_token [read_intros]:
  "length d < 2 ^ 62 \<Longrightarrow> n = length d \<Longrightarrow>
    reads (seen token_view ossl_quic_wire_decode_frame_new_token) (vl 7 @ vl (of_nat n) @ d) (d, n)"
  unfolding seen_new_token
  by (rule read_intros | force simp: frame_types unat_of_nat_u64)+

lemma stream_type_mask: "and (stream_type f) (not OSSL_QUIC_FRAME_FLAG_STREAM_MASK) = OSSL_QUIC_FRAME_TYPE_STREAM"
  by (simp add: stream_type_def frame_types)

lemma stream_type_bits:
  "and (stream_type f) 4 = 0 \<longleftrightarrow> st_offset f = 0"
  "and (stream_type f) 2 = 0 \<longleftrightarrow> \<not> has_explicit_len f" "and (stream_type f) 1 = 0 \<longleftrightarrow> \<not> st_is_fin f"
  by (simp_all add: stream_type_def)

lemma reads_if_true: "c \<Longrightarrow> reads f bs v \<Longrightarrow> reads (\<lambda>p. if c then f p else g p) bs v"
  by simp

lemma reads_if_false: "\<not> c \<Longrightarrow> reads g bs v \<Longrightarrow> reads (\<lambda>p. if c then f p else g p) bs v"
  by simp

lemma reads_opt [read_intros]:
  "(c \<Longrightarrow> reads f bs v) \<Longrightarrow> (\<not> c \<Longrightarrow> w = v) \<Longrightarrow>
    reads (\<lambda>p. if c then f p else Some (w, p)) (if c then bs else []) v"
  by (auto intro: read_intros)

lemma reads_stream [read_intros]:
  assumes f: "stream_hdr_ok f" "has_explicit_len f" "unat (st_offset f) + unat (st_len f) < 2 ^ 62"
    "st_data f = Some d" "length d = unat (st_len f)"
  shows "reads (seen stream_view (\<lambda>p. ossl_quic_wire_decode_frame_stream p False)) (stream_hdr f @ d) f"
proof -
  have bytes: "stream_hdr f @ d = vl (stream_type f) @ vl (st_stream_id f) @
      (if and (stream_type f) 4 \<noteq> 0 then vl (st_offset f) else []) @ vl (st_len f) @ d"
    using f(2) by (simp add: stream_hdr_def stream_type_bits)
  have len: "vl_ok (st_len f)" "vl_ok (st_stream_id f)" "vl_ok (st_offset f)" using f(1,2) by (simp_all add: stream_hdr_ok_def)
  show ?thesis
    unfolding seen_stream bytes
    by (rule read_intros stream_type_ok stream_type_mask sum_within_62 | rule reads_if_true
      | (use f len in \<open>simp add: stream_type_bits frame_types\<close>; fail))+
qed

text \<open>Without a length the frame takes the rest of the packet.\<close>

lemma decode_stream_rest:
  assumes wf: "packet_wf p" and f: "stream_hdr_ok f" "\<not> has_explicit_len f"
    "unat (st_offset f) + unat (st_len f) < 2 ^ 62" "st_data f = Some d" "length d = unat (st_len f)"
    and p: "pdata p = stream_hdr f @ d"
  shows "seen stream_view (\<lambda>p. ossl_quic_wire_decode_frame_stream p False) p = Some (f, packet_forward p (p_remaining p))"
proof -
  have ok: "vl_ok (st_stream_id f)" "vl_ok (st_offset f)" using f(1) by (simp_all add: stream_hdr_ok_def)
  have bytes: "stream_hdr f = vl (stream_type f) @ vl (st_stream_id f) @
      (if and (stream_type f) 4 \<noteq> 0 then vl (st_offset f) else [])"
    using f(2) by (simp add: stream_hdr_def stream_type_bits)
  let ?hd = "\<lambda>p. do { (t, p) \<leftarrow> expect_frame_header_mask p OSSL_QUIC_FRAME_TYPE_STREAM OSSL_QUIC_FRAME_FLAG_STREAM_MASK;
          (stream_id, p) \<leftarrow> PACKET_get_quic_vlint p;
          (offset, p) \<leftarrow> (if and t 4 \<noteq> 0 then PACKET_get_quic_vlint p else Some (0, p));
          Some ((t, stream_id, offset), p) }"
  have hd: "reads ?hd (stream_hdr f) (stream_type f, st_stream_id f, st_offset f)"
    unfolding bytes
    by (rule read_intros stream_type_ok stream_type_mask | (use ok in \<open>simp add: stream_type_bits frame_types\<close>; fail))+
  let ?q = "packet_forward p (length (stream_hdr f))"
  have "length (pdata p) = p_remaining p" using wf by (rule length_pdata)
  then have r: "p_remaining ?q = unat (st_len f)" "length (stream_hdr f) + unat (st_len f) = p_remaining p"
    using p f(5) by simp_all
  have n: "unat (of_nat (p_remaining ?q) :: u64) = p_remaining ?q" unfolding r(1) by simp
  have "seen stream_view (\<lambda>p. ossl_quic_wire_decode_frame_stream p False) p =
     ?hd p \<bind> (\<lambda>((t, stream_id, offset), p). do {
          (len, p) \<leftarrow> (if and t 2 \<noteq> 0 then PACKET_get_quic_vlint p else Some (of_nat (PACKET_remaining p), p));
          if offset + len > push_bit 62 1 - 1 then None
          else do { (d, p) \<leftarrow> PACKET_copy_bytes p (unat len);
                    Some (\<lparr>st_stream_id = stream_id, st_offset = offset, st_len = len, st_data = Some d,
                           has_explicit_len = and t 2 \<noteq> 0, st_is_fin = and t 1 \<noteq> 0\<rparr>, p) } })"
    unfolding seen_stream by (simp add: case_prod_unfold cong: if_cong)
  also have "\<dots> = Some (f, packet_forward p (p_remaining p))"
    using readsD [OF hd wf p] wf p f(2,4,5) sum_within_62 [OF f(3)] r
    by (simp add: stream_type_bits PACKET_remaining_def PACKET_copy_bytes_eq)
  finally show ?thesis .
qed

lemma reads_conn_close [read_intros]:
  assumes "conn_close_ok f" "length (cc_reason f) = cc_reason_len f" "cc_is_app f \<Longrightarrow> cc_frame_type f = 0"
  shows "reads (seen conn_close_view ossl_quic_wire_decode_frame_conn_close)
     (vl (if cc_is_app f then 29 else 28) @ vl (cc_error_code f) @ (if cc_is_app f then [] else vl (cc_frame_type f))
      @ vl (of_nat (cc_reason_len f)) @ cc_reason f) f"
proof -
  let ?t = "if cc_is_app f then 29 else 28 :: u64"
  have bytes: "(if cc_is_app f then [] else vl (cc_frame_type f)) = (if and ?t 1 = 0 then vl (cc_frame_type f) else [])"
    by simp
  have n: "unat (of_nat (cc_reason_len f) :: u64) = cc_reason_len f"
    using assms(1) by (simp add: conn_close_ok_def unat_of_nat_u64)
  show ?thesis
    unfolding seen_conn_close bytes
    by (rule read_intros | (use assms n in \<open>simp add: conn_close_ok_def frame_types split: if_splits\<close>; fail))+
qed

lemma reads_param_bytes [read_intros]:
  assumes "vl_ok k" "length d < 2 ^ 62" "n = length d"
  shows "reads (seen param_view ossl_quic_wire_decode_transport_param_bytes) (vl k @ vl (of_nat n) @ d) (k, d, n)"
  unfolding seen_param_bytes
  by (rule read_intros | (use assms in \<open>simp add: unat_of_nat_u64\<close>; fail))+

text \<open>Padding.\<close>

lemma decode_padding_eq:
  assumes "packet_wf p"
  shows "ossl_quic_wire_decode_padding p =
    (let n = length (takeWhile (\<lambda>b. b = 0) (pdata p)) in (n, packet_forward p n))"
proof -
  have "length (takeWhile (\<lambda>b. b = 0) (pdata p)) \<le> length (pdata p)" by (rule length_takeWhile_le)
  then show ?thesis
    using assms unfolding ossl_quic_wire_decode_padding_def
    by (simp add: PACKET_forward_eq PACKET_remaining_def PACKET_data_def flip: pdata_def)
qed

lemma decode_padding_zeros:
  assumes "packet_wf p" "pdata p = replicate n 0 @ rest" "rest = [] \<or> hd rest \<noteq> 0"
  shows "ossl_quic_wire_decode_padding p = (n, packet_forward p n)"
proof -
  have "takeWhile (\<lambda>b. b = 0) (pdata p) = replicate n 0"
    using assms(2,3) by (cases rest) (simp_all add: takeWhile_append)
  then show ?thesis using assms(1) by (simp add: decode_padding_eq)
qed

section \<open>Acknowledgements\<close>

lemma get_vlint_bound: "PACKET_get_quic_vlint p = Some (v, q) \<Longrightarrow> vl_ok v"
proof -
  assume "PACKET_get_quic_vlint p = Some (v, q)"
  then have v: "v = ossl_quic_vlint_decode_unchecked (p_curr p)"
    by (auto simp: PACKET_get_quic_vlint_def Let_def split: if_splits)
  have "ossl_quic_vlint_decode_len (p_curr p ! 0) \<in> {1, 2, 4, 8}" by (rule vlint_decode_len_set)
  then have "(2 :: nat) ^ (8 * ossl_quic_vlint_decode_len (p_curr p ! 0) - 2) \<le> 2 ^ 62"
    by (intro power_increasing) auto
  with vlint_decode_bound [of "p_curr p"] show ?thesis unfolding v by linarith
qed

text \<open>The decoder of the ranges undoes the encoder.\<close>

lemma reads_ack_ranges:
  assumes rs: "ack_ranges_ok (ack_ranges ack)" and n: "Suc i + n = length (ack_ranges ack)"
    and a: "length (ack_ranges ack) \<le> num_ack_ranges a" "num_ack_ranges a \<le> length (ack_ranges a)"
  shows "reads (decode_ack_ranges n i (ar_start (ack_ranges ack ! i)) (Some a))
     (concat (map (ack_range_bytes ack) [Suc i..<Suc i + n]))
     (Some (a\<lparr>ack_ranges := take (Suc i) (ack_ranges a) @ drop (Suc i) (ack_ranges ack)
        @ drop (length (ack_ranges ack)) (ack_ranges a)\<rparr>))"
  using n a
proof (induction n arbitrary: i a)
  case 0
  have "decode_ack_ranges 0 i s (Some a) = (\<lambda>p. Some (Some a, p))" for i s by (rule ext) simp
  moreover have "take (Suc i) (ack_ranges a) @ drop (Suc i) (ack_ranges ack) @ drop (length (ack_ranges ack)) (ack_ranges a)
      = ack_ranges a"
    using 0 by (metis add_0_right append_Nil append_take_drop_id drop_all order_refl)
  ultimately show ?case by (simp add: reads_return)
next
  case (Suc n)
  let ?rs = "ack_ranges ack" and ?j = "Suc i"
  have j: "0 < ?j" "?j < length ?rs" using Suc.prems(1) by simp_all
  note r = ack_range_ok [OF rs j]
  let ?gap = "ar_start (?rs ! (?j - 1)) - ar_end (?rs ! ?j) - 2" and ?len = "ar_end (?rs ! ?j) - ar_start (?rs ! ?j)"
  have mem: "?rs ! ?j \<in> set ?rs" using j by simp
  then have le: "ar_start (?rs ! ?j) \<le> ar_end (?rs ! ?j)" using rs unfolding ack_ranges_ok_def by blast
  have sep: "unat (ar_end (?rs ! ?j)) + 2 \<le> unat (ar_start (?rs ! i))"
    using rs j(2) unfolding ack_ranges_ok_def by blast
  have gap2: "unat (?gap + 2) = unat (ar_start (?rs ! i)) - unat (ar_end (?rs ! ?j))"
    using r(1,2) sep by (subst unat_add_exact) simp_all
  have ok: "\<not> (ar_start (?rs ! i) < ?gap + 2 \<or> ?len > ar_start (?rs ! i) - ?gap - 2)"
    using gap2 le by (simp add: word_less_nat_alt word_le_nat_alt unat_sub not_less)
  let ?a = "a\<lparr>ack_ranges := (ack_ranges a)[?j := ?rs ! ?j]\<rparr>"
  have step: "decode_ack_ranges (Suc n) i (ar_start (?rs ! i)) (Some a) = (\<lambda>p.
      PACKET_get_quic_vlint p \<bind> (\<lambda>(gap, p). PACKET_get_quic_vlint p \<bind> (\<lambda>(len, p).
       if ar_start (?rs ! i) < gap + 2 \<or> len > ar_start (?rs ! i) - gap - 2 then None
       else decode_ack_ranges n ?j (ar_start (?rs ! i) - gap - 2 - len)
         (Some (a\<lparr>ack_ranges := (ack_ranges a)[?j := \<lparr>ar_start = ar_start (?rs ! i) - gap - 2 - len,
            ar_end = ar_start (?rs ! i) - gap - 2\<rparr>]\<rparr>)) p)))"
    using Suc.prems by (intro ext) (simp add: Let_def cong: if_cong)
  have final: "take (Suc ?j) (ack_ranges ?a) @ drop (Suc ?j) ?rs @ drop (length ?rs) (ack_ranges ?a)
     = take ?j (ack_ranges a) @ drop ?j ?rs @ drop (length ?rs) (ack_ranges a)"
    using j Suc.prems by (simp add: take_Suc_conv_app_nth Cons_nth_drop_Suc [symmetric])
  have "reads (decode_ack_ranges n ?j (ar_start (?rs ! ?j)) (Some ?a))
     (concat (map (ack_range_bytes ack) [Suc ?j..<Suc ?j + n]))
     (Some (?a\<lparr>ack_ranges := take (Suc ?j) (ack_ranges ?a) @ drop (Suc ?j) ?rs @ drop (length ?rs) (ack_ranges ?a)\<rparr>))"
    using Suc.prems by (intro Suc.IH) simp_all
  then have IH: "reads (decode_ack_ranges n ?j (ar_start (?rs ! ?j)) (Some ?a))
     (concat (map (ack_range_bytes ack) [Suc ?j..<Suc ?j + n]))
     (Some (a\<lparr>ack_ranges := take ?j (ack_ranges a) @ drop ?j ?rs @ drop (length ?rs) (ack_ranges a)\<rparr>))"
    unfolding final by simp
  have e: "ar_start (?rs ! i) - ?gap - 2 = ar_end (?rs ! ?j)" "ar_end (?rs ! ?j) - ?len = ar_start (?rs ! ?j)"
    "\<lparr>ar_start = ar_start (?rs ! ?j), ar_end = ar_end (?rs ! ?j)\<rparr> = ?rs ! ?j"
    by simp_all
  have bytes: "concat (map (ack_range_bytes ack) [?j..<?j + Suc n])
      = vl ?gap @ vl ?len @ concat (map (ack_range_bytes ack) [Suc ?j..<Suc ?j + n])"
    by (simp add: upt_conv_Cons ack_range_bytes_def del: upt_Suc)
  show ?case
    unfolding step bytes
    by (rule read_intros r(2,3) ok)+ (simp only: e IH)
qed

text \<open>The delay loses what the exponent does not resolve.\<close>

definition ack_delay_dec :: "u32 \<Rightarrow> u64 \<Rightarrow> ossl_time" where
  "ack_delay_dec e raw = (let (ticks, err) = safe_mul raw (push_bit (unat e) 1) False
     in if err then ossl_time_infinite else ossl_time_multiply (ossl_ticks2time OSSL_TIME_US) ticks)"

lemma ack_range_eta: "\<lparr>ar_start = ar_start r, ar_end = ar_end r\<rparr> = r"
  by simp

lemma store_first_range_eq:
  "store_first_range e raw start end a =
     a\<lparr>delay_time := ack_delay_dec e raw,
       ack_ranges := (if num_ack_ranges a > 0 then (ack_ranges a)[0 := \<lparr>ar_start = start, ar_end = end\<rparr>] else ack_ranges a)\<rparr>"
  by (cases "safe_mul raw (push_bit (unat e) 1) False") (simp add: store_first_range_def ack_delay_dec_def Let_def)

lemma ack_delay_roundtrip:
  assumes "unat e < 64"
  shows "unat (ack_delay_dec e (ack_delay_enc e t)) = unat t div (1000 * 2 ^ unat e) * (1000 * 2 ^ unat e)"
proof -
  let ?d = "unat t div 1000 div 2 ^ unat e"
  have "?d \<le> unat t" by (meson div_le_dividend order_trans)
  then have raw: "unat (ack_delay_enc e t) = ?d"
    unfolding ack_delay_enc_def using unat_u64_bound [of t] by (simp add: unat_of_nat_u64)
  have le: "?d * 2 ^ unat e \<le> unat t div 1000" by (rule div_times_less_eq_dividend)
  then have b: "?d * 2 ^ unat e < 2 ^ 64" using unat_bound [of t] by (simp add: div_le_dividend order.strict_trans1 [OF le] order.strict_trans1)
  have p: "unat (2 ^ unat e :: u64) = 2 ^ unat e" using assms by (rule unat_exp2)
  have mul: "unat (ack_delay_enc e t * 2 ^ unat e) = ?d * 2 ^ unat e"
    using b raw p by (subst unat_mult_exact) simp_all
  have "?d * 2 ^ unat e * 1000 \<le> unat t" using le by (metis div_times_less_eq_dividend mult_le_mono1 order_trans)
  then have b2: "1000 * (?d * 2 ^ unat e) < 2 ^ 64" using unat_bound [of t] by (simp add: mult.commute order.strict_trans1)
  have "unat (ack_delay_dec e (ack_delay_enc e t)) = 1000 * (?d * 2 ^ unat e)"
    using b b2 raw p mul
    by (simp add: ack_delay_dec_def safe_mul_def builtin_mul_overflow_def ossl_time_multiply_saturates
        ossl_ticks2time_def OSSL_TIME_US_def OSSL_TIME_MS_def OSSL_TIME_SECOND_def)
  then show ?thesis by (simp add: div_mult2_eq)
qed

definition ack_result :: "u32 \<Rightarrow> OSSL_QUIC_FRAME_ACK \<Rightarrow> OSSL_QUIC_FRAME_ACK \<Rightarrow> OSSL_QUIC_FRAME_ACK" where
  "ack_result e ack buf = \<lparr>ack_ranges = ack_ranges ack @ drop (length (ack_ranges ack)) (ack_ranges buf),
     num_ack_ranges = length (ack_ranges ack),
     delay_time = ack_delay_dec e (ack_delay_enc e (delay_time ack)),
     ect0 = (if ecn_present ack then ect0 ack else ect0 buf),
     ect1 = (if ecn_present ack then ect1 ack else ect1 buf),
     ecnce = (if ecn_present ack then ecnce ack else ecnce buf),
     ecn_present = ecn_present ack\<rparr>"

lemma ack_type_mask:
  "and (if c then 3 else 2) (not 1) = OSSL_QUIC_FRAME_TYPE_ACK_WITHOUT_ECN"
  "(if c then 3 else 2) = OSSL_QUIC_FRAME_TYPE_ACK_WITH_ECN \<longleftrightarrow> c"
  by (simp_all add: frame_types)

lemma reads_ack:
  assumes ack: "ack_ok e ack" and buf: "length (ack_ranges ack) \<le> num_ack_ranges buf" "num_ack_ranges buf \<le> length (ack_ranges buf)"
  shows "reads (\<lambda>p. ossl_quic_wire_decode_frame_ack p e (Some buf)) (ack_bytes e ack)
    (Some (ack_result e ack buf), of_nat (length (ack_ranges ack)))"
proof -
  let ?rs = "ack_ranges ack"
  have rs: "ack_ranges_ok ?rs" and n: "num_ack_ranges ack = length ?rs" and e: "unat e < 64"
    and d: "vl_ok (ack_delay_enc e (delay_time ack))"
    and ecn: "ecn_present ack \<Longrightarrow> vl_ok (ect0 ack) \<and> vl_ok (ect1 ack) \<and> vl_ok (ecnce ack)"
    using ack by (auto simp: ack_ok_def)
  note f = ack_ok_first [OF rs] and c = ack_ranges_count [OF rs]
  have pos: "0 < length ?rs" using f(3) by simp
  have le: "ar_start (?rs ! 0) \<le> ar_end (?rs ! 0)" using rs pos unfolding ack_ranges_ok_def by (metis nth_mem)
  then have guard: "\<not> ar_end (?rs ! 0) - ar_start (?rs ! 0) > ar_end (?rs ! 0)"
    by (simp add: word_less_nat_alt unat_sub not_less)
  define a0 where "a0 = buf\<lparr>delay_time := ack_delay_dec e (ack_delay_enc e (delay_time ack)),
    ack_ranges := (ack_ranges buf)[0 := ?rs ! 0]\<rparr>"
  have start: "ar_end (?rs ! 0) - (ar_end (?rs ! 0) - ar_start (?rs ! 0)) = ar_start (?rs ! 0)" by simp
  have init: "map_option (store_first_range e (ack_delay_enc e (delay_time ack)) (ar_start (?rs ! 0)) (ar_end (?rs ! 0))) (Some buf) = Some a0"
    using pos buf by (auto simp: store_first_range_eq a0_def ack_range_eta)
  have "reads (decode_ack_ranges (length ?rs - 1) 0 (ar_start (?rs ! 0)) (Some a0))
     (concat (map (ack_range_bytes ack) [Suc 0..<Suc 0 + (length ?rs - 1)]))
     (Some (a0\<lparr>ack_ranges := take (Suc 0) (ack_ranges a0) @ drop (Suc 0) ?rs @ drop (length ?rs) (ack_ranges a0)\<rparr>))"
    using pos buf by (intro reads_ack_ranges [OF rs]) (simp_all add: a0_def)
  moreover have "take (Suc 0) (ack_ranges a0) @ drop (Suc 0) ?rs @ drop (length ?rs) (ack_ranges a0)
     = ?rs @ drop (length ?rs) (ack_ranges buf)"
    using pos buf by (cases ?rs; cases "ack_ranges buf") (simp_all add: a0_def)
  ultimately have loop: "reads (decode_ack_ranges (length ?rs - 1) 0 (ar_start (?rs ! 0)) (Some a0))
     (concat (map (ack_range_bytes ack) [1..<length ?rs]))
     (Some (a0\<lparr>ack_ranges := ?rs @ drop (length ?rs) (ack_ranges buf)\<rparr>))"
    using pos by (simp del: upt_Suc)
  have last: "map_option (\<lambda>a. if length ?rs - 1 + 1 < num_ack_ranges a then a\<lparr>num_ack_ranges := length ?rs - 1 + 1\<rparr> else a)
      (Some (a0\<lparr>ack_ranges := ?rs @ drop (length ?rs) (ack_ranges buf)\<rparr>))
      = Some (a0\<lparr>ack_ranges := ?rs @ drop (length ?rs) (ack_ranges buf), num_ack_ranges := length ?rs\<rparr>)"
    using pos buf by (auto simp: a0_def)
  have total: "of_nat (length ?rs - 1) + 1 = (of_nat (length ?rs) :: u64)" using pos by (cases ?rs) simp_all
  have fin: "ecn_present ack \<Longrightarrow> map_option (\<lambda>a. a\<lparr>ect0 := ect0 ack, ect1 := ect1 ack, ecnce := ecnce ack, ecn_present := True\<rparr>)
      (Some (a0\<lparr>ack_ranges := ?rs @ drop (length ?rs) (ack_ranges buf), num_ack_ranges := length ?rs\<rparr>)) = Some (ack_result e ack buf)"
    "\<not> ecn_present ack \<Longrightarrow> map_option (\<lambda>a. a\<lparr>ecn_present := False\<rparr>)
      (Some (a0\<lparr>ack_ranges := ?rs @ drop (length ?rs) (ack_ranges buf), num_ack_ranges := length ?rs\<rparr>)) = Some (ack_result e ack buf)"
    by (cases buf; simp add: a0_def ack_result_def)+
  show ?thesis
  proof (cases "ecn_present ack")
    case True
    show ?thesis
      unfolding ossl_quic_wire_decode_frame_ack_def finish_ack_def ack_bytes_def n Let_def if_P [OF True]
      by (rule read_intros f(1,2) d c(3) guard SIZE_MAX_u64 | rule reads_if_true
        | (simp only: start init c(2), rule loop) | (simp only: c(2) last total fin(1) [OF True]; fail)
        | (use ecn True in \<open>simp add: frame_types\<close>; fail))+
  next
    case False
    show ?thesis
      unfolding ossl_quic_wire_decode_frame_ack_def finish_ack_def ack_bytes_def n Let_def if_not_P [OF False]
      by (rule read_intros f(1,2) d c(3) guard SIZE_MAX_u64 | rule reads_if_false
        | (simp only: start init c(2), rule loop) | (simp only: c(2) last total fin(2) [OF False]; fail)
        | (use False in \<open>simp add: frame_types\<close>; fail))+
  qed
qed

text \<open>Whatever the packet holds: ranges that are accepted and stored are in descending order, with
  gaps between them.\<close>

lemma ack_ranges_ok_snoc:
  assumes "ack_ranges_ok xs" "ar_start r \<le> ar_end r" "unat (ar_end r) + 2 \<le> unat (ar_start (last xs))"
  shows "ack_ranges_ok (xs @ [r])"
proof -
  have ne: "xs \<noteq> []" and xs: "\<forall>r \<in> set xs. ar_start r \<le> ar_end r \<and> vl_ok (ar_end r)"
    and sep: "\<forall>i. Suc i < length xs \<longrightarrow> unat (ar_end (xs ! Suc i)) + 2 \<le> unat (ar_start (xs ! i))"
    using assms(1) by (auto simp: ack_ranges_ok_def)
  have "ar_start (last xs) \<le> ar_end (last xs)" "vl_ok (ar_end (last xs))" using xs ne by simp_all
  then have "vl_ok (ar_end r)" using assms(3) unfolding word_le_nat_alt by linarith
  moreover have "unat (ar_end ((xs @ [r]) ! Suc i)) + 2 \<le> unat (ar_start ((xs @ [r]) ! i))" if "Suc i < length (xs @ [r])" for i
  proof (cases "Suc i < length xs")
    case True
    with sep show ?thesis by (simp add: nth_append)
  next
    case False
    with that have i: "length xs = Suc i" by simp
    then have "last xs = xs ! i" using ne by (simp add: last_conv_nth)
    with assms(3) i show ?thesis by (simp add: nth_append)
  qed
  ultimately show ?thesis using xs assms(2) unfolding ack_ranges_ok_def by auto
qed

lemma decode_ack_ranges_ok:
  assumes "decode_ack_ranges n i start (Some a) p = Some (ack', p')" "Suc i + n \<le> num_ack_ranges a"
    "num_ack_ranges a \<le> length (ack_ranges a)" "ack_ranges_ok (take (Suc i) (ack_ranges a))"
    "start = ar_start (ack_ranges a ! i)"
  shows "\<exists>rs. ack' = Some (a\<lparr>ack_ranges := rs\<rparr>) \<and> length rs = length (ack_ranges a)
    \<and> ack_ranges_ok (take (Suc i + n) rs) \<and> take (Suc i) rs = take (Suc i) (ack_ranges a)"
  using assms
proof (induction n arbitrary: i start a p)
  case 0
  then show ?case by (intro exI [of _ "ack_ranges a"]) simp
next
  case (Suc n)
  let ?start = "ar_start (ack_ranges a ! i)"
  from Suc.prems(1,2) obtain gap p1 len p2 where g: "PACKET_get_quic_vlint p = Some (gap, p1)"
    "PACKET_get_quic_vlint p1 = Some (len, p2)" "\<not> ?start < gap + 2" "\<not> len > ?start - gap - 2"
    and rest: "decode_ack_ranges n (Suc i) (?start - gap - 2 - len)
         (Some (a\<lparr>ack_ranges := (ack_ranges a)[Suc i := \<lparr>ar_start = ?start - gap - 2 - len,
            ar_end = ?start - gap - 2\<rparr>]\<rparr>)) p2 = Some (ack', p')"
    unfolding Suc.prems(5) by (auto simp: bind_eq_Some_conv Let_def split: if_splits)
  let ?r = "\<lparr>ar_start = ?start - gap - 2 - len, ar_end = ?start - gap - 2\<rparr>"
  let ?a = "a\<lparr>ack_ranges := (ack_ranges a)[Suc i := ?r]\<rparr>"
  have len: "Suc i < length (ack_ranges a)" using Suc.prems(2,3) by simp
  have gap: "vl_ok gap" using g(1) by (rule get_vlint_bound)
  then have g2: "unat (gap + 2) = unat gap + 2" by (subst unat_add_exact) simp_all
  then have le: "unat gap + 2 \<le> unat ?start" using g(3) by (simp add: word_less_nat_alt not_less)
  have "?start - gap - 2 = ?start - (gap + 2)" by simp
  then have e: "unat (?start - gap - 2) = unat ?start - (unat gap + 2)"
    using g(3) by (simp only: g2 unat_sub not_less)
  have lastr: "last (take (Suc i) (ack_ranges a)) = ack_ranges a ! i" using len by (simp add: take_Suc_conv_app_nth)
  have "unat (?start - gap - 2 - len) \<le> unat (?start - gap - 2)"
    using g(4) by (subst unat_sub) (simp_all add: not_less)
  then have r: "ar_start ?r \<le> ar_end ?r" by (simp add: word_le_nat_alt)
  have sep: "unat (ar_end ?r) + 2 \<le> unat (ar_start (last (take (Suc i) (ack_ranges a))))"
    unfolding lastr using e le by simp
  have "take (Suc (Suc i)) (ack_ranges ?a) = take (Suc i) (ack_ranges a) @ [?r]"
    using len by (simp add: take_Suc_conv_app_nth)
  with ack_ranges_ok_snoc [OF Suc.prems(4) r sep]
  have "ack_ranges_ok (take (Suc (Suc i)) (ack_ranges ?a))" by simp
  then obtain rs where rs: "ack' = Some (?a\<lparr>ack_ranges := rs\<rparr>)" "length rs = length (ack_ranges ?a)"
      "ack_ranges_ok (take (Suc (Suc i) + n) rs)" "take (Suc (Suc i)) rs = take (Suc (Suc i)) (ack_ranges ?a)"
    using Suc.IH [OF rest] Suc.prems(2,3) len by auto
  have "take (Suc i) rs = take (Suc i) (ack_ranges a)"
    using arg_cong [OF rs(4), of "take (Suc i)"] by (simp add: min_def)
  with rs show ?case by (intro exI [of _ rs]) simp
qed

lemma finish_ack_Some:
  assumes "finish_ack t c (Some a) p = Some ((ack', tot), p')"
  shows "tot = c + 1" "\<exists>a'. ack' = Some a' \<and> ack_ranges a' = ack_ranges a \<and> num_ack_ranges a' = min (unat c + 1) (num_ack_ranges a)"
  using assms by (auto simp: finish_ack_def bind_eq_Some_conv Let_def min_def split: if_splits)

lemma decode_frame_ack_ok:
  assumes "ossl_quic_wire_decode_frame_ack p e (Some buf) = Some ((ack', tot), p')"
    "unat tot \<le> num_ack_ranges buf" "num_ack_ranges buf \<le> length (ack_ranges buf)"
  shows "\<exists>a. ack' = Some a \<and> num_ack_ranges a = unat tot \<and> ack_ranges_ok (take (unat tot) (ack_ranges a))"
proof -
  from assms(1) obtain t p1 largest p2 raw p3 count p4 first p5 a1 p6 where
    1: "PACKET_get_quic_vlint p1 = Some (largest, p2)" "PACKET_get_quic_vlint p3 = Some (count, p4)"
      "\<not> first > largest"
      "decode_ack_ranges (unat count) 0 (largest - first)
         (Some (store_first_range e raw (largest - first) largest buf)) p5 = Some (a1, p6)"
      "finish_ack t count a1 p6 = Some ((ack', tot), p')"
    unfolding ossl_quic_wire_decode_frame_ack_def
    by (auto simp: bind_eq_Some_conv Let_def split: if_splits)
  let ?a = "store_first_range e raw (largest - first) largest buf"
  have "vl_ok count" using 1(2) by (rule get_vlint_bound)
  moreover have "tot = count + 1" using 1(5) by (auto simp: finish_ack_def bind_eq_Some_conv Let_def split: if_splits)
  ultimately have t: "unat tot = Suc (unat count)" by (simp add: unat_add_exact)
  have pos: "0 < num_ack_ranges buf" using assms(2) t by simp
  have ranges: "ack_ranges ?a = (ack_ranges buf)[0 := \<lparr>ar_start = largest - first, ar_end = largest\<rparr>]"
    "num_ack_ranges ?a = num_ack_ranges buf"
    using pos by (simp_all add: store_first_range_eq)
  have "largest - first \<le> largest" using 1(3) by (simp add: word_le_nat_alt unat_sub not_less)
  then have first: "ack_ranges_ok (take (Suc 0) (ack_ranges ?a))"
    using pos assms(3) get_vlint_bound [OF 1(1)] unfolding ranges
    by (cases "ack_ranges buf") (auto simp: ack_ranges_ok_def)
  have "ack_ranges ?a ! 0 = \<lparr>ar_start = largest - first, ar_end = largest\<rparr>"
    using pos assms(3) by (cases "ack_ranges buf") (simp_all add: ranges)
  with decode_ack_ranges_ok [OF 1(4)] first assms(2,3) t ranges
  obtain rs where rs: "a1 = Some (?a\<lparr>ack_ranges := rs\<rparr>)" "ack_ranges_ok (take (Suc (unat count)) rs)" by auto
  from finish_ack_Some(2) [OF 1(5) [unfolded rs(1)]] rs(2) t ranges(2) assms(2) show ?thesis by (auto simp: min_def)
qed

text \<open>The array keeps its size.\<close>

lemma decode_ack_ranges_length:
  "decode_ack_ranges n i start (Some a) p = Some (ack', q) \<Longrightarrow>
     \<exists>a'. ack' = Some a' \<and> length (ack_ranges a') = length (ack_ranges a) \<and> num_ack_ranges a' = num_ack_ranges a"
proof (induction n arbitrary: i start a p)
  case (Suc n)
  from Suc.prems obtain gap p1 len p2 where r: "if i + 1 < num_ack_ranges a
      then decode_ack_ranges n (i + 1) (start - gap - 2 - len)
        (Some (a\<lparr>ack_ranges := (ack_ranges a)[i + 1 := \<lparr>ar_start = start - gap - 2 - len, ar_end = start - gap - 2\<rparr>]\<rparr>)) p2 = Some (ack', q)
      else decode_ack_ranges n (i + 1) start (Some a) p2 = Some (ack', q)"
    by (auto simp: bind_eq_Some_conv Let_def split: if_splits)
  show ?case
  proof (cases "i + 1 < num_ack_ranges a")
    case True
    with r Suc.IH show ?thesis by fastforce
  next
    case False
    with r Suc.IH show ?thesis by fastforce
  qed
qed auto

lemma decode_frame_ack_length:
  assumes "ossl_quic_wire_decode_frame_ack p e (Some buf) = Some ((Some a, tot), q)"
  shows "length (ack_ranges a) = length (ack_ranges buf)"
proof -
  from assms obtain t count raw start largest a1 p5 p6 where
    1: "decode_ack_ranges (unat count) 0 start (Some (store_first_range e raw start largest buf)) p5 = Some (a1, p6)"
      "finish_ack t count a1 p6 = Some ((Some a, tot), q)"
    unfolding ossl_quic_wire_decode_frame_ack_def
    by (auto simp: bind_eq_Some_conv Let_def split: if_splits)
  then obtain b where "a1 = Some b" "length (ack_ranges b) = length (ack_ranges buf)"
    using decode_ack_ranges_length [OF 1(1)] by (auto simp: store_first_range_eq)
  with finish_ack_Some(2) [of t count b p6 "Some a" tot q] 1(2) show ?thesis by auto
qed

text \<open>The number of ranges is known before the frame is decoded, and bounded by its length.\<close>

lemma skip_ack_ranges_bytes:
  "skip_ack_ranges n p = Some q \<Longrightarrow> 2 * n + p_remaining q \<le> p_remaining p"
proof (induction n arbitrary: p)
  case (Suc n)
  have v: "PACKET_skip_quic_vlint p = Some q \<Longrightarrow> p_remaining q + 1 \<le> p_remaining p" for p q
    using vlint_decode_len_set [of "p_curr p ! 0"]
    by (auto simp: PACKET_skip_quic_vlint_def PACKET_remaining_def Let_def split: if_splits)
  from Suc.prems obtain p1 p2 where "PACKET_skip_quic_vlint p = Some p1" "PACKET_skip_quic_vlint p1 = Some p2"
    "skip_ack_ranges n p2 = Some q" by (auto simp: bind_eq_Some_conv)
  with v [of p p1] v [of p1 p2] Suc.IH [of p2] show ?case by simp
qed simp

lemma get_vlint_bytes: "PACKET_get_quic_vlint p = Some (v, q) \<Longrightarrow> p_remaining q + 1 \<le> p_remaining p"
  using vlint_decode_len_set [of "p_curr p ! 0"]
  by (auto simp: PACKET_get_quic_vlint_def PACKET_remaining_def Let_def split: if_splits)

lemma peek_ack_bound:
  assumes "ossl_quic_wire_peek_frame_ack_num_ranges p = Some n"
  shows "0 < unat n" "2 * unat n + 2 \<le> p_remaining p"
proof -
  from assms obtain t p1 v2 p2 v3 p3 c p4 p5 where
    1: "PACKET_get_quic_vlint p = Some (t, p1)" "PACKET_get_quic_vlint p1 = Some (v2, p2)"
      "PACKET_get_quic_vlint p2 = Some (v3, p3)" "PACKET_get_quic_vlint p3 = Some (c, p4)"
    and sk: "skip_ack_ranges (unat c) p4 = Some p5" and n: "n = c + 1"
    by (auto simp: ossl_quic_wire_peek_frame_ack_num_ranges_def expect_frame_header_mask_def
        ossl_quic_wire_skip_frame_header_def PACKET_skip_quic_vlint_eq bind_eq_Some_conv split: if_splits)
  have "unat n = Suc (unat c)" using get_vlint_bound [OF 1(4)] by (simp add: n unat_add_exact)
  with 1 [THEN get_vlint_bytes] skip_ack_ranges_bytes [OF sk] show "0 < unat n" "2 * unat n + 2 \<le> p_remaining p"
    by simp_all
qed

lemma peek_ack_total:
  assumes "ossl_quic_wire_peek_frame_ack_num_ranges p = Some n"
    "ossl_quic_wire_decode_frame_ack p e ack = Some ((ack', tot), q)"
  shows "tot = n"
  using assms
  by (auto simp: ossl_quic_wire_peek_frame_ack_num_ranges_def ossl_quic_wire_decode_frame_ack_def
      PACKET_skip_quic_vlint_eq bind_eq_Some_conv finish_ack_def Let_def split: if_splits)

lemma skip_vlint_reads:
  assumes "packet_wf p" "vl_ok v" "pdata p = vl v @ rest"
  shows "PACKET_skip_quic_vlint p = Some (packet_forward p (length (vl v)))"
  using PACKET_get_quic_vlint_enc [OF assms] by (simp add: PACKET_skip_quic_vlint_eq)

lemma skip_ack_ranges_reads:
  assumes "packet_wf p" "\<forall>v \<in> set vs. vl_ok v" "length vs = 2 * n" "pdata p = concat (map vl vs) @ rest"
  shows "skip_ack_ranges n p = Some (packet_forward p (length (concat (map vl vs))))"
  using assms
proof (induction n arbitrary: p vs)
  case (Suc n)
  then obtain u v ws where vs: "vs = u # v # ws" "length ws = 2 * n" by (auto simp: length_Suc_conv)
  let ?p1 = "packet_forward p (length (vl u))" and ?p2 = "packet_forward p (length (vl u) + length (vl v))"
  have "PACKET_skip_quic_vlint p = Some ?p1" "PACKET_skip_quic_vlint ?p1 = Some ?p2"
    using skip_vlint_reads [of p u "vl v @ concat (map vl ws) @ rest"]
      skip_vlint_reads [of ?p1 v "concat (map vl ws) @ rest"] Suc.prems vs by simp_all
  moreover have "skip_ack_ranges n ?p2 = Some (packet_forward ?p2 (length (concat (map vl ws))))"
    using Suc.prems vs by (intro Suc.IH) simp_all
  ultimately show ?case using vs by (simp add: add.assoc)
qed simp

definition ack_values :: "OSSL_QUIC_FRAME_ACK \<Rightarrow> u64 list" where
  "ack_values ack = (ar_end (ack_ranges ack ! 0) - ar_start (ack_ranges ack ! 0)) #
     concat (map (\<lambda>i. [ar_start (ack_ranges ack ! (i - 1)) - ar_end (ack_ranges ack ! i) - 2,
       ar_end (ack_ranges ack ! i) - ar_start (ack_ranges ack ! i)]) [1..<length (ack_ranges ack)])"

lemma ack_values:
  assumes "ack_ranges_ok (ack_ranges ack)"
  shows "concat (map vl (ack_values ack)) = vl (ar_end (ack_ranges ack ! 0) - ar_start (ack_ranges ack ! 0))
      @ concat (map (ack_range_bytes ack) [1..<length (ack_ranges ack)])"
    and "length (ack_values ack) = Suc (2 * (length (ack_ranges ack) - 1))"
    and "\<forall>v \<in> set (ack_values ack). vl_ok v"
proof -
  have "concat (map vl (concat (map (\<lambda>i. [f i, g i]) xs))) = concat (map (\<lambda>i. vl (f i) @ vl (g i)) xs)"
    for f g :: "nat \<Rightarrow> u64" and xs by (induction xs) simp_all
  then show "concat (map vl (ack_values ack)) = vl (ar_end (ack_ranges ack ! 0) - ar_start (ack_ranges ack ! 0))
      @ concat (map (ack_range_bytes ack) [1..<length (ack_ranges ack)])"
    by (simp add: ack_values_def ack_range_bytes_def [abs_def])
  show "length (ack_values ack) = Suc (2 * (length (ack_ranges ack) - 1))"
    by (simp add: ack_values_def length_concat o_def sum_list_triv)
  show "\<forall>v \<in> set (ack_values ack). vl_ok v"
    using ack_ok_first [OF assms] ack_range_ok(2,3) [OF assms] by (auto simp: ack_values_def)
qed

lemma peek_ack_reads:
  assumes ack: "ack_ok e ack" and wf: "packet_wf p" and p: "pdata p = ack_bytes e ack @ rest"
  shows "ossl_quic_wire_peek_frame_ack_num_ranges p = Some (of_nat (length (ack_ranges ack)))"
proof -
  let ?rs = "ack_ranges ack" and ?t = "if ecn_present ack then 3 else 2 :: u64"
  have rs: "ack_ranges_ok ?rs" and n: "num_ack_ranges ack = length ?rs" and d: "vl_ok (ack_delay_enc e (delay_time ack))"
    using ack by (auto simp: ack_ok_def)
  note f = ack_ok_first [OF rs] and c = ack_ranges_count [OF rs] and vs = ack_values [OF rs]
  let ?us = "butlast (ack_values ack)" and ?l = "last (ack_values ack)"
  have ne: "ack_values ack \<noteq> []" by (simp add: ack_values_def)
  have "concat (map vl (?us @ [?l])) = concat (map vl ?us) @ vl ?l" by simp
  with ne have split: "concat (map vl (ack_values ack)) = concat (map vl ?us) @ vl ?l" by simp
  have "pdata p = vl ?t @ vl (ar_end (?rs ! 0)) @ vl (ack_delay_enc e (delay_time ack))
      @ vl (of_nat (length ?rs - 1)) @ concat (map vl (ack_values ack))
      @ (if ecn_present ack then vl (ect0 ack) @ vl (ect1 ack) @ vl (ecnce ack) else []) @ rest"
    using p by (simp add: vs(1) ack_bytes_def n)
  then obtain more where tail: "pdata p = vl ?t @ vl (ar_end (?rs ! 0)) @ vl (ack_delay_enc e (delay_time ack))
      @ vl (of_nat (length ?rs - 1)) @ concat (map vl ?us) @ more"
    unfolding split by simp
  let ?hd = "\<lambda>p. do { (_, p) \<leftarrow> expect_frame_header_mask p OSSL_QUIC_FRAME_TYPE_ACK_WITHOUT_ECN 1;
      p \<leftarrow> PACKET_skip_quic_vlint p; p \<leftarrow> PACKET_skip_quic_vlint p;
      (c, p) \<leftarrow> PACKET_get_quic_vlint p; p \<leftarrow> skip_ack_ranges (unat c) p; Some (c + 1, p) }"
  have sk: "vl_ok v \<Longrightarrow> reads (\<lambda>p. map_option (Pair ()) (PACKET_skip_quic_vlint p)) (vl v) ()" for v
    by (simp add: reads_def skip_vlint_reads)
  have loop: "reads (\<lambda>p. map_option (Pair ()) (skip_ack_ranges (length ?rs - 1) p)) (concat (map vl ?us)) ()"
    unfolding reads_def using vs(2,3) by (auto dest!: in_set_butlastD intro!: skip_ack_ranges_reads)
  have total: "of_nat (length ?rs - 1) + 1 = (of_nat (length ?rs) :: u64)" using f(3) by (cases ?rs) simp_all
  have "reads ?hd (vl ?t @ vl (ar_end (?rs ! 0)) @ vl (ack_delay_enc e (delay_time ack))
      @ vl (of_nat (length ?rs - 1)) @ concat (map vl ?us) @ []) (of_nat (length ?rs))"
    by (rule read_intros sk f(1) d c(3) ack_type_mask(1) total | (simp only: c(2), rule loop) | (simp; fail))+
  from readsD [OF this wf] tail have "?hd p \<noteq> None" "map_option fst (?hd p) = Some (of_nat (length ?rs))" by simp_all
  moreover have "ossl_quic_wire_peek_frame_ack_num_ranges p = map_option fst (?hd p)"
    by (simp add: ossl_quic_wire_peek_frame_ack_num_ranges_def map_bind case_prod_unfold)
  ultimately show ?thesis by simp
qed

section \<open>The decoders stay inside the packet\<close>

lemma reader_ok_expect [reader_intros]:
  "reader_ok (\<lambda>p. expect_frame_header_mask p t m)" "reader_ok (\<lambda>p. map_option (Pair ()) (expect_frame_header p t))"
proof -
  show "reader_ok (\<lambda>p. expect_frame_header_mask p t m)"
    unfolding expect_frame_header_mask_def ossl_quic_wire_skip_frame_header_def by (intro reader_intros)
  have "(\<lambda>p. map_option (Pair ()) (expect_frame_header p t)) =
     (\<lambda>p. PACKET_get_quic_vlint p \<bind> (\<lambda>(a, p). if a \<noteq> t then None else Some ((), p)))"
    by (intro ext) (simp add: expect_frame_header_def ossl_quic_wire_skip_frame_header_def map_bind case_prod_unfold
        if_distrib [of "map_option _"] cong: if_cong)
  moreover have "reader_ok (\<lambda>p. PACKET_get_quic_vlint p \<bind> (\<lambda>(a, p). if a \<noteq> t then None else Some ((), p)))"
    by (intro reader_intros)
  ultimately show "reader_ok (\<lambda>p. map_option (Pair ()) (expect_frame_header p t))" by simp
qed

lemma reader_ok_case_option [reader_intros]:
  "(\<And>a. reader_ok (f a)) \<Longrightarrow> reader_ok g \<Longrightarrow> reader_ok (\<lambda>p. case x of Some a \<Rightarrow> f a p | None \<Rightarrow> g p)"
  by (cases x) simp_all

lemma reader_ok_ack_ranges [reader_intros]: "reader_ok (\<lambda>p. decode_ack_ranges n i start ack p)"
proof (induction n arbitrary: i start ack)
  case 0
  show ?case unfolding decode_ack_ranges.simps by (intro reader_intros)
next
  case (Suc n)
  show ?case unfolding decode_ack_ranges.simps by (intro reader_intros Suc.IH)
qed

lemma reader_ok_finish_ack [reader_intros]: "reader_ok (\<lambda>p. finish_ack t c ack p)"
  unfolding finish_ack_def by (intro reader_intros)

lemma reader_ok_decode_ack [reader_intros]: "reader_ok (\<lambda>p. ossl_quic_wire_decode_frame_ack p e ack)"
  unfolding ossl_quic_wire_decode_frame_ack_def by (intro reader_intros)

lemma reader_ok_frames [reader_intros]:
  "reader_ok ossl_quic_wire_decode_frame_reset_stream"
  "reader_ok ossl_quic_wire_decode_frame_stop_sending"
  "reader_ok ossl_quic_wire_decode_frame_max_data"
  "reader_ok ossl_quic_wire_decode_frame_max_stream_data"
  "reader_ok ossl_quic_wire_decode_frame_max_streams"
  "reader_ok ossl_quic_wire_decode_frame_data_blocked"
  "reader_ok ossl_quic_wire_decode_frame_stream_data_blocked"
  "reader_ok ossl_quic_wire_decode_frame_streams_blocked"
  "reader_ok ossl_quic_wire_decode_frame_new_conn_id"
  "reader_ok ossl_quic_wire_decode_frame_retire_conn_id"
  "reader_ok ossl_quic_wire_decode_frame_path_challenge"
  "reader_ok ossl_quic_wire_decode_frame_path_response"
  unfolding ossl_quic_wire_decode_frame_reset_stream_def [abs_def] ossl_quic_wire_decode_frame_stop_sending_def [abs_def]
    ossl_quic_wire_decode_frame_max_data_def [abs_def] ossl_quic_wire_decode_frame_max_stream_data_def [abs_def]
    ossl_quic_wire_decode_frame_max_streams_def [abs_def] ossl_quic_wire_decode_frame_data_blocked_def [abs_def]
    ossl_quic_wire_decode_frame_stream_data_blocked_def [abs_def] ossl_quic_wire_decode_frame_streams_blocked_def [abs_def]
    ossl_quic_wire_decode_frame_new_conn_id_def [abs_def] ossl_quic_wire_decode_frame_retire_conn_id_def [abs_def]
    ossl_quic_wire_decode_frame_path_challenge_def [abs_def] ossl_quic_wire_decode_frame_path_response_def [abs_def]
  by (intro reader_intros)+

lemma reader_ok_bare [reader_intros]:
  "reader_ok (\<lambda>p. map_option (Pair ()) (ossl_quic_wire_decode_frame_ping p))"
  "reader_ok (\<lambda>p. map_option (Pair ()) (ossl_quic_wire_decode_frame_handshake_done p))"
  unfolding ossl_quic_wire_decode_frame_ping_def ossl_quic_wire_decode_frame_handshake_done_def
  by (intro reader_intros)+

lemma reader_ok_padding [reader_intros]: "reader_ok (\<lambda>p. Some (ossl_quic_wire_decode_padding p))"
  by (rule reader_okI [where ok = "\<lambda>_. True" and val = "\<lambda>bs. length (takeWhile (\<lambda>b. b = 0) bs)"
        and num = "\<lambda>bs. length (takeWhile (\<lambda>b. b = 0) bs)"])
    (simp_all add: decode_padding_eq Let_def length_takeWhile_le)

lemma reader_ok_seen [reader_intros]:
  "reader_ok (seen crypto_view (\<lambda>p. ossl_quic_wire_decode_frame_crypto p False))"
  "reader_ok (seen token_view ossl_quic_wire_decode_frame_new_token)"
  "reader_ok (seen conn_close_view ossl_quic_wire_decode_frame_conn_close)"
  "reader_ok (seen param_view ossl_quic_wire_decode_transport_param_bytes)"
  unfolding seen_crypto seen_new_token seen_conn_close seen_param_bytes
  by (intro reader_intros)+

lemma reader_ok_remaining: "reader_ok (\<lambda>p. Some (f (PACKET_remaining p), p))"
  by (rule reader_okI [where ok = "\<lambda>_. True" and val = "\<lambda>bs. f (length bs)" and num = "\<lambda>_. 0"])
    (simp_all add: length_pdata PACKET_remaining_def)

lemma reader_ok_stream [reader_intros]:
  "reader_ok (seen stream_view (\<lambda>p. ossl_quic_wire_decode_frame_stream p False))"
  unfolding seen_stream by (intro reader_intros reader_ok_remaining)

lemma reader_ok_cong:
  assumes "reader_ok g" "\<And>p. packet_wf p \<Longrightarrow> g' p = g p"
  shows "reader_ok g'"
  using assms unfolding reader_ok_def by metis

text \<open>A reader that looks at a part of what another one returns.\<close>

lemma reader_ok_then:
  assumes "reader_ok g" "\<And>p. packet_wf p \<Longrightarrow> g' p = g p \<bind> (\<lambda>(x, q). map_option (\<lambda>y. (y, q)) (f x))"
  shows "reader_ok g'"
proof -
  have "reader_ok (\<lambda>q. map_option (\<lambda>y. (y, q)) (f x))" for x by (cases "f x") (simp_all add: reader_intros)
  then have "reader_ok (\<lambda>p. g p \<bind> (\<lambda>(x, q). map_option (\<lambda>y. (y, q)) (f x)))" by (rule reader_ok_bind [OF assms(1)])
  then show ?thesis using assms(2) by (rule reader_ok_cong)
qed

text \<open>Peeking: an outcome that depends on what a reader would return and leave, and a packet that stays where it was.\<close>

lemma reader_ok_peek:
  assumes "reader_ok g" "\<And>p. packet_wf p \<Longrightarrow> h p = map_option (\<lambda>(v, q). F v (p_remaining p) (p_remaining q)) (g p)"
  shows "reader_ok (\<lambda>p. map_option (\<lambda>v. (v, p)) (h p))"
  unfolding reader_ok_def
proof (intro conjI allI impI)
  fix p v p' assume "map_option (\<lambda>v. (v, p)) (h p) = Some (v, p')"
  then show "\<exists>n \<le> p_remaining p. p' = packet_forward p n" by (intro exI [of _ "0 :: nat"]) auto
next
  fix p q assume pq: "packet_wf p" "packet_wf q" "pdata p = pdata q"
  then have r: "map_option (map_prod id pdata) (g p) = map_option (map_prod id pdata) (g q)" "p_remaining p = p_remaining q"
    using assms(1) unfolding reader_ok_def by (blast, simp flip: length_pdata)
  have "h p = h q"
  proof (cases "g p")
    case None
    then show ?thesis using r(1) pq assms(2) by simp
  next
    case (Some x)
    then obtain v p' q' where g: "g p = Some (v, p')" "g q = Some (v, q')" "pdata p' = pdata q'" using r(1) by (cases x; cases "g q") auto
    then have "packet_wf p'" "packet_wf q'" using reader_ok_step [OF assms(1)] pq by metis+
    then have "p_remaining p' = p_remaining q'" using g(3) by (simp flip: length_pdata)
    then show ?thesis using g(1,2) r(2) pq assms(2) by simp
  qed
  then show "map_option (map_prod id pdata) (map_option (\<lambda>v. (v, p)) (h p)) = map_option (map_prod id pdata) (map_option (\<lambda>v. (v, q)) (h q))"
    using pq(3) by (cases "h q") simp_all
qed

lemma reader_ok_skip_ack_ranges [reader_intros]: "reader_ok (\<lambda>p. map_option (Pair ()) (skip_ack_ranges n p))"
proof (induction n)
  case 0
  show ?case by (simp add: reader_ok_return)
next
  case (Suc n)
  show ?case unfolding skip_ack_ranges.simps map_bind by (intro reader_intros Suc.IH)
qed

lemma reader_ok_peeks [reader_intros]:
  "reader_ok (\<lambda>p. map_option (\<lambda>v. (v, p)) (ossl_quic_wire_peek_frame_header p))"
  "reader_ok (\<lambda>p. map_option (\<lambda>v. (v, p)) (ossl_quic_wire_peek_frame_ack_num_ranges p))"
  "reader_ok (\<lambda>p. map_option (\<lambda>v. (v, p)) (ossl_quic_wire_peek_transport_param p))"
proof -
  have ex: "PACKET_peek_quic_vlint_ex p = map_option (\<lambda>(v, q). (v, p_remaining p - p_remaining q = ossl_quic_vlint_encode_len v)) (PACKET_get_quic_vlint p)" for p
    by (auto simp: PACKET_peek_quic_vlint_ex_def PACKET_get_quic_vlint_def PACKET_remaining_def Let_def)
  show "reader_ok (\<lambda>p. map_option (\<lambda>v. (v, p)) (ossl_quic_wire_peek_frame_header p))"
    unfolding ossl_quic_wire_peek_frame_header_def by (rule reader_ok_peek [OF reader_ok_vlint ex])
  show "reader_ok (\<lambda>p. map_option (\<lambda>v. (v, p)) (ossl_quic_wire_peek_transport_param p))"
    unfolding ossl_quic_wire_peek_transport_param_def
    by (rule reader_ok_peek [OF reader_ok_vlint, of _ "\<lambda>v _ _. v"]) (simp add: PACKET_peek_quic_vlint_def ex option.map_comp comp_def split_def)
  let ?g = "\<lambda>p. do { (_, p) \<leftarrow> expect_frame_header_mask p OSSL_QUIC_FRAME_TYPE_ACK_WITHOUT_ECN 1;
      p \<leftarrow> PACKET_skip_quic_vlint p; p \<leftarrow> PACKET_skip_quic_vlint p; (n, p) \<leftarrow> PACKET_get_quic_vlint p;
      p \<leftarrow> skip_ack_ranges (unat n) p; Some (n + 1, p) }"
  have "reader_ok ?g" by (intro reader_intros)
  then show "reader_ok (\<lambda>p. map_option (\<lambda>v. (v, p)) (ossl_quic_wire_peek_frame_ack_num_ranges p))"
    by (rule reader_ok_peek [of _ _ "\<lambda>v _ _. v"]) (simp add: ossl_quic_wire_peek_frame_ack_num_ranges_def map_bind split_def)
qed

lemma param_bytes_within:
  assumes "packet_wf p" "ossl_quic_wire_decode_transport_param_bytes p = Some ((k, b, n), q)"
  shows "packet_wf \<lparr>p_curr = b, p_remaining = n\<rparr>" "packet_wf \<lparr>p_curr = take n b, p_remaining = n\<rparr>"
    "pdata \<lparr>p_curr = b, p_remaining = n\<rparr> = take n b" "pdata \<lparr>p_curr = take n b, p_remaining = n\<rparr> = take n b"
proof -
  from assms(2) obtain p1 len p2 where g: "PACKET_get_quic_vlint p = Some (k, p1)" "PACKET_get_quic_vlint p1 = Some (len, p2)"
    "PACKET_get_bytes p2 (unat len) = Some (b, q)" "n = unat len"
    unfolding ossl_quic_wire_decode_transport_param_bytes_def by (auto simp: bind_eq_Some_conv split: if_splits)
  have "packet_wf p1" using reader_ok_step [OF reader_ok_vlint assms(1) g(1)] .
  then have "packet_wf p2" using reader_ok_step [OF reader_ok_vlint _ g(2)] by metis
  then show "packet_wf \<lparr>p_curr = b, p_remaining = n\<rparr>" "packet_wf \<lparr>p_curr = take n b, p_remaining = n\<rparr>"
    "pdata \<lparr>p_curr = b, p_remaining = n\<rparr> = take n b" "pdata \<lparr>p_curr = take n b, p_remaining = n\<rparr> = take n b"
    using g(3,4) by (auto simp: PACKET_get_bytes_def PACKET_peek_bytes_def PACKET_remaining_def packet_wf_def pdata_def split: if_splits)
qed


text \<open>So what is read inside the body of a parameter is the same for a copy of the body.\<close>

lemma param_body:
  assumes "reader_ok r" "packet_wf p" "ossl_quic_wire_decode_transport_param_bytes p = Some ((k, b, n), q)"
  shows "map_option (map_prod id pdata) (r \<lparr>p_curr = b, p_remaining = n\<rparr>) = map_option (map_prod id pdata) (r \<lparr>p_curr = take n b, p_remaining = n\<rparr>)"
  using assms(1) param_bytes_within [OF assms(2,3)] unfolding reader_ok_def by metis

lemma param_body_value:
  assumes "reader_ok r" "packet_wf p" "ossl_quic_wire_decode_transport_param_bytes p = Some ((k, b, n), q)"
  shows "map_option fst (r \<lparr>p_curr = b, p_remaining = n\<rparr>) = map_option fst (r \<lparr>p_curr = take n b, p_remaining = n\<rparr>)"
  using arg_cong [OF param_body [OF assms], of "map_option fst"] by (simp add: option.map_comp comp_def)

lemma reader_ok_params [reader_intros]:
  "reader_ok ossl_quic_wire_decode_transport_param_int"
  "reader_ok (\<lambda>p. ossl_quic_wire_decode_transport_param_cid p cid)"
  "reader_ok (\<lambda>p. ossl_quic_wire_decode_transport_param_preferred_addr p a)"
proof -
  let ?bytes = "ossl_quic_wire_decode_transport_param_bytes" and ?pk = "\<lambda>b n. \<lparr>p_curr = b, p_remaining = n\<rparr> :: PACKET"
  note bytes = reader_ok_seen(4)
  let ?full = "\<lambda>p. PACKET_get_quic_vlint p \<bind> (\<lambda>(v, q). if PACKET_remaining q > 0 then None else Some (v, q))"
  let ?i = "\<lambda>(k, d, n). map_option (Pair k) (map_option fst (?full (?pk d n)))"
  have rem: "reader_ok (\<lambda>q. if PACKET_remaining q > 0 then None else Some (v, q))" for v :: u64
    by (rule reader_okI [where ok = "\<lambda>bs. bs = []" and val = "\<lambda>_. v" and num = "\<lambda>_. 0"])
      (auto simp: PACKET_remaining_def simp flip: length_pdata)
  have full: "reader_ok ?full" by (intro reader_ok_bind reader_ok_vlint rem)
  show "reader_ok ossl_quic_wire_decode_transport_param_int"
  proof (rule reader_ok_then [OF bytes, of _ ?i])
    fix p assume wf: "packet_wf p"
    show "ossl_quic_wire_decode_transport_param_int p = seen param_view ?bytes p \<bind> (\<lambda>(x, q). map_option (\<lambda>y. (y, q)) (?i x))"
    proof (cases "?bytes p")
      case (Some x)
      then obtain k b n q where x: "?bytes p = Some ((k, b, n), q)" by (metis surj_pair)
      have "ossl_quic_wire_decode_transport_param_int p = map_option (\<lambda>v. ((k, v), q)) (map_option fst (?full (?pk b n)))"
        unfolding ossl_quic_wire_decode_transport_param_int_def x
        by (cases "PACKET_get_quic_vlint (?pk b n)") (auto split: if_splits)
      then show ?thesis unfolding param_body_value [OF full wf x] by (simp add: seen_def x param_view_def option.map_comp comp_def)
    qed (simp add: seen_def ossl_quic_wire_decode_transport_param_int_def)
  qed
  let ?c = "\<lambda>(k, d, n). if n > QUIC_MAX_CONN_ID_LEN then None else Some (k, cid\<lparr>id_len := of_nat n, cid_id := d @ drop n (cid_id cid)\<rparr>)"
  show "reader_ok (\<lambda>p. ossl_quic_wire_decode_transport_param_cid p cid)"
  proof (rule reader_ok_then [OF bytes, of _ ?c])
    fix p
    show "ossl_quic_wire_decode_transport_param_cid p cid = seen param_view ?bytes p \<bind> (\<lambda>(x, q). map_option (\<lambda>y. (y, q)) (?c x))"
      by (cases "?bytes p") (auto simp: ossl_quic_wire_decode_transport_param_cid_def seen_def param_view_def)
  qed
  let ?r = "\<lambda>pkt2. do { (ipv4, pkt2) \<leftarrow> PACKET_copy_bytes pkt2 4;
            (ipv4_port, pkt2) \<leftarrow> PACKET_get_net_2 pkt2;
            (ipv6, pkt2) \<leftarrow> PACKET_copy_bytes pkt2 16;
            (ipv6_port, pkt2) \<leftarrow> PACKET_get_net_2 pkt2;
            (cidl, pkt2) \<leftarrow> PACKET_get_1 pkt2;
            if unat cidl > QUIC_MAX_CONN_ID_LEN then None
            else do {
              (cid, pkt2) \<leftarrow> PACKET_copy_bytes pkt2 (unat cidl);
              (token, pkt2) \<leftarrow> PACKET_copy_bytes pkt2 QUIC_STATELESS_RESET_TOKEN_LEN;
              Some (a\<lparr>pa_ipv4 := ipv4, pa_ipv6 := ipv6, pa_ipv4_port := ucast ipv4_port, pa_ipv6_port := ucast ipv6_port,
                      pa_stateless_reset := token,
                      pa_cid := \<lparr>id_len = ucast cidl, cid_id = cid @ drop (unat cidl) (cid_id (pa_cid a))\<rparr>\<rparr>, pkt2) } }"
  let ?bad = "\<lambda>k n. n < QUIC_MIN_ENCODED_PREFERRED_ADDR_LEN \<or> n > QUIC_MAX_ENCODED_PREFERRED_ADDR_LEN \<or> k \<noteq> QUIC_TPARAM_PREFERRED_ADDR"
  let ?a = "\<lambda>(k, d, n). if ?bad k n then None else PACKET_buf_init d n \<bind> (\<lambda>p. map_option fst (?r p))"
  have addr: "reader_ok ?r" by (intro reader_intros)
  show "reader_ok (\<lambda>p. ossl_quic_wire_decode_transport_param_preferred_addr p a)"
  proof (rule reader_ok_then [OF bytes, of _ ?a])
    fix p assume wf: "packet_wf p"
    show "ossl_quic_wire_decode_transport_param_preferred_addr p a = seen param_view ?bytes p \<bind> (\<lambda>(x, q). map_option (\<lambda>y. (y, q)) (?a x))"
    proof (cases "?bytes p")
      case (Some x)
      then obtain k b n q where x: "?bytes p = Some ((k, b, n), q)" by (metis surj_pair)
      have "ossl_quic_wire_decode_transport_param_preferred_addr p a
        = (if ?bad k n then None else PACKET_buf_init b n \<bind> (\<lambda>s. map_option (\<lambda>v. (v, q)) (map_option fst (?r s))))"
        unfolding ossl_quic_wire_decode_transport_param_preferred_addr_def x
        by (simp add: map_bind case_prod_unfold if_distrib [of "map_option _"] option.map_comp comp_def cong: if_cong)
      also have "PACKET_buf_init b n \<bind> (\<lambda>s. map_option (\<lambda>v. (v, q)) (map_option fst (?r s)))
        = PACKET_buf_init (take n b) n \<bind> (\<lambda>s. map_option (\<lambda>v. (v, q)) (map_option fst (?r s)))"
        using param_body_value [OF addr wf x] by (simp add: PACKET_buf_init_def)
      finally show ?thesis by (simp add: seen_def x param_view_def map_bind)
    qed (simp add: seen_def ossl_quic_wire_decode_transport_param_preferred_addr_def)
  qed
qed

lemma reader_ok_nodata [reader_intros]:
  "reader_ok (seen crypto_view (\<lambda>p. ossl_quic_wire_decode_frame_crypto p nodata))"
  "reader_ok (seen stream_view (\<lambda>p. ossl_quic_wire_decode_frame_stream p nodata))"
proof -
  have "reader_ok (\<lambda>p. ossl_quic_wire_decode_frame_crypto p True)"
    unfolding ossl_quic_wire_decode_frame_crypto_def if_True by (intro reader_intros)
  moreover have "seen crypto_view (\<lambda>p. ossl_quic_wire_decode_frame_crypto p True) = (\<lambda>p. ossl_quic_wire_decode_frame_crypto p True)"
    unfolding ossl_quic_wire_decode_frame_crypto_def seen_rules by (simp add: crypto_view_def cong: if_cong)
  ultimately show "reader_ok (seen crypto_view (\<lambda>p. ossl_quic_wire_decode_frame_crypto p nodata))"
    by (cases nodata) (simp_all add: reader_ok_seen)
  have "reader_ok (\<lambda>p. ossl_quic_wire_decode_frame_stream p True)"
    unfolding ossl_quic_wire_decode_frame_stream_def if_True by (intro reader_intros)
  moreover have "seen stream_view (\<lambda>p. ossl_quic_wire_decode_frame_stream p True) = (\<lambda>p. ossl_quic_wire_decode_frame_stream p True)"
    unfolding ossl_quic_wire_decode_frame_stream_def seen_rules by (simp add: stream_view_def cong: if_cong)
  ultimately show "reader_ok (seen stream_view (\<lambda>p. ossl_quic_wire_decode_frame_stream p nodata))"
    by (cases nodata) (simp_all add: reader_ok_stream)
qed

section \<open>Transport parameters\<close>

lemma seen_param_body:
  assumes "reads (seen param_view ossl_quic_wire_decode_transport_param_bytes) bs (k, d, n)" "length d = n"
    "packet_wf p" "pdata p = bs @ rest"
  obtains b where "ossl_quic_wire_decode_transport_param_bytes p = Some ((k, b, n), packet_forward p (length bs))"
    "take n b = d" "n \<le> length b"
proof -
  have "seen param_view ossl_quic_wire_decode_transport_param_bytes p = Some ((k, d, n), packet_forward p (length bs))"
    by (rule readsD [OF assms(1,3,4)])
  then obtain b where b: "ossl_quic_wire_decode_transport_param_bytes p = Some ((k, b, n), packet_forward p (length bs))" "take n b = d"
    by (auto simp: seen_def param_view_def)
  moreover have "n \<le> length b" using b(2) assms(2) by (metis length_take min.cobounded1)
  ultimately show thesis using that by blast
qed

lemma reads_param_int [read_intros]:
  assumes "vl_ok k" "vl_ok v"
  shows "reads ossl_quic_wire_decode_transport_param_int (vl k @ vl (of_nat (length (vl v))) @ vl v) (k, v)"
  unfolding reads_def
proof (intro allI impI)
  fix p rest
  let ?bs = "vl k @ vl (of_nat (length (vl v))) @ vl v"
  assume p: "packet_wf p" "pdata p = ?bs @ rest"
  have "length (vl v) \<le> 8" using length_vl [OF assms(2)] by (simp add: vlint_encode_len_cases)
  then have "reads (seen param_view ossl_quic_wire_decode_transport_param_bytes) ?bs (k, vl v, length (vl v))"
    using assms(1) by (intro reads_param_bytes) simp_all
  from seen_param_body [OF this _ p] obtain b where
    b: "ossl_quic_wire_decode_transport_param_bytes p = Some ((k, b, length (vl v)), packet_forward p (length ?bs))"
      "take (length (vl v)) b = vl v" "length (vl v) \<le> length b" by blast
  let ?sub = "\<lparr>p_curr = b, p_remaining = length (vl v)\<rparr>"
  have "PACKET_get_quic_vlint ?sub = Some (v, packet_forward ?sub (length (vl v)))"
    using b assms(2) by (intro PACKET_get_quic_vlint_enc [where rest = "[]"]) simp_all
  with b show "ossl_quic_wire_decode_transport_param_int p = Some ((k, v), packet_forward p (length ?bs))"
    by (simp add: ossl_quic_wire_decode_transport_param_int_def PACKET_remaining_def)
qed

lemma reads_param_cid [read_intros]:
  assumes "vl_ok k" "conn_id_ok c"
  shows "reads (\<lambda>p. ossl_quic_wire_decode_transport_param_cid p c0) (vl k @ vl (ucast (id_len c)) @ cid_bytes c)
    (k, c0\<lparr>id_len := id_len c, cid_id := cid_bytes c @ drop (unat (id_len c)) (cid_id c0)\<rparr>)"
  unfolding reads_def
proof (intro allI impI)
  fix p rest
  let ?n = "unat (id_len c)" and ?bs = "vl k @ vl (ucast (id_len c)) @ cid_bytes c"
  assume p: "packet_wf p" "pdata p = ?bs @ rest"
  have n: "?n \<le> 20" "length (cid_bytes c) = ?n" using assms(2) by (simp_all add: conn_id_ok_def)
  have u: "(of_nat ?n :: u64) = ucast (id_len c)" by (simp add: of_nat_unat)
  have "reads (seen param_view ossl_quic_wire_decode_transport_param_bytes) (vl k @ vl (of_nat ?n) @ cid_bytes c) (k, cid_bytes c, ?n)"
    using assms(1) n by (intro reads_param_bytes) simp_all
  from seen_param_body [OF this [unfolded u] n(2) p] obtain b where
    "ossl_quic_wire_decode_transport_param_bytes p = Some ((k, b, ?n), packet_forward p (length ?bs))"
      "take ?n b = cid_bytes c" by blast
  then show "ossl_quic_wire_decode_transport_param_cid p c0 =
      Some ((k, c0\<lparr>id_len := id_len c, cid_id := cid_bytes c @ drop ?n (cid_id c0)\<rparr>), packet_forward p (length ?bs))"
    using n(1) by (simp add: ossl_quic_wire_decode_transport_param_cid_def QUIC_MAX_CONN_ID_LEN_def of_nat_unat)
qed

text \<open>A preferred address, with anything behind it that the maximal length leaves room for.\<close>

lemma reads_get_net_2 [read_intros]: "reads PACKET_get_net_2 (be_bytes 2 (ucast (port :: u16))) (ucast port)"
proof -
  have "unat (ucast port :: u64) < 2 ^ 16" using unat_bound [of port] by (simp add: unsigned_ucast_eq take_bit_nat_eq_self)
  then have "be_val (be_bytes 2 (ucast port)) = ucast port" by (intro be_val_be_bytes_self) simp_all
  moreover have "ucast (ucast port :: u64) = (ucast port :: u32)" by (rule bit_word_eqI) (auto simp: bit_simps)
  ultimately show ?thesis by (simp add: reads_def PACKET_get_net_eq)
qed

definition preferred_addr_bytes :: "QUIC_PREFERRED_ADDR \<Rightarrow> u8 list" where
  "preferred_addr_bytes a = pa_ipv4 a @ be_bytes 2 (ucast (pa_ipv4_port a)) @ pa_ipv6 a @ be_bytes 2 (ucast (pa_ipv6_port a))
     @ [id_len (pa_cid a)] @ cid_bytes (pa_cid a) @ pa_stateless_reset a"

definition preferred_addr_ok :: "QUIC_PREFERRED_ADDR \<Rightarrow> bool" where
  "preferred_addr_ok a \<longleftrightarrow> length (pa_ipv4 a) = 4 \<and> length (pa_ipv6 a) = 16 \<and> conn_id_ok (pa_cid a)
     \<and> length (pa_stateless_reset a) = 16"

lemma reads_preferred_addr:
  assumes a: "preferred_addr_ok a" and n: "length (preferred_addr_bytes a @ extra) \<le> 61"
  shows "reads (\<lambda>p. ossl_quic_wire_decode_transport_param_preferred_addr p b)
     (vl 13 @ vl (of_nat (length (preferred_addr_bytes a @ extra))) @ preferred_addr_bytes a @ extra)
     (a\<lparr>pa_cid := \<lparr>id_len = id_len (pa_cid a), cid_id = cid_bytes (pa_cid a) @ drop (unat (id_len (pa_cid a))) (cid_id (pa_cid b))\<rparr>\<rparr>)"
  unfolding reads_def
proof (intro allI impI)
  fix p rest
  let ?body = "preferred_addr_bytes a @ extra" and ?cid = "pa_cid a"
  let ?bs = "vl 13 @ vl (of_nat (length ?body)) @ ?body"
  let ?r = "a\<lparr>pa_cid := \<lparr>id_len = id_len ?cid, cid_id = cid_bytes ?cid @ drop (unat (id_len ?cid)) (cid_id (pa_cid b))\<rparr>\<rparr>"
  assume p: "packet_wf p" "pdata p = ?bs @ rest"
  let ?inner = "\<lambda>pkt2. do {
            (ipv4, pkt2) \<leftarrow> PACKET_copy_bytes pkt2 4;
            (ipv4_port, pkt2) \<leftarrow> PACKET_get_net_2 pkt2;
            (ipv6, pkt2) \<leftarrow> PACKET_copy_bytes pkt2 16;
            (ipv6_port, pkt2) \<leftarrow> PACKET_get_net_2 pkt2;
            (cidl, pkt2) \<leftarrow> PACKET_get_1 pkt2;
            if unat cidl > QUIC_MAX_CONN_ID_LEN then None
            else do {
              (cid, pkt2) \<leftarrow> PACKET_copy_bytes pkt2 (unat cidl);
              (token, pkt2) \<leftarrow> PACKET_copy_bytes pkt2 QUIC_STATELESS_RESET_TOKEN_LEN;
              Some (b\<lparr>pa_ipv4 := ipv4, pa_ipv6 := ipv6, pa_ipv4_port := ucast ipv4_port, pa_ipv6_port := ucast ipv6_port,
                      pa_stateless_reset := token,
                      pa_cid := \<lparr>id_len = ucast cidl, cid_id = cid @ drop (unat cidl) (cid_id (pa_cid b))\<rparr>\<rparr>, pkt2) } }"
  have port: "ucast (ucast q :: u32) = (q :: u16)" for q by (rule bit_word_eqI) (auto simp: bit_simps)
  have c: "unat (id_len ?cid) \<le> 20" "length (cid_bytes ?cid) = unat (id_len ?cid)"
    "length (pa_ipv4 a) = 4" "length (pa_ipv6 a) = 16" "length (pa_stateless_reset a) = 16"
    using a by (simp_all add: preferred_addr_ok_def conn_id_ok_def)
  have final: "b\<lparr>pa_ipv4 := pa_ipv4 a, pa_ipv6 := pa_ipv6 a, pa_ipv4_port := pa_ipv4_port a, pa_ipv6_port := pa_ipv6_port a,
      pa_stateless_reset := pa_stateless_reset a,
      pa_cid := \<lparr>id_len = id_len ?cid, cid_id = cid_bytes ?cid @ drop (unat (id_len ?cid)) (cid_id (pa_cid b))\<rparr>\<rparr> = ?r"
    by (cases a; cases b) simp
  have inner: "reads ?inner (preferred_addr_bytes a) ?r"
    unfolding preferred_addr_bytes_def
    by (rule read_intros | (use c final in \<open>simp add: port QUIC_MAX_CONN_ID_LEN_def QUIC_STATELESS_RESET_TOKEN_LEN_def\<close>; fail))+
  have "reads (seen param_view ossl_quic_wire_decode_transport_param_bytes) ?bs (13, ?body, length ?body)"
    using n by (intro reads_param_bytes) simp_all
  from seen_param_body [OF this refl p] obtain d where
    d: "ossl_quic_wire_decode_transport_param_bytes p = Some ((13, d, length ?body), packet_forward p (length ?bs))"
      "take (length ?body) d = ?body" "length ?body \<le> length d" by blast
  let ?sub = "\<lparr>p_curr = d, p_remaining = length ?body\<rparr>"
  have init: "PACKET_buf_init d (length ?body) = Some ?sub" using n by (simp add: PACKET_buf_init_def)
  have guard: "\<not> (length ?body < QUIC_MIN_ENCODED_PREFERRED_ADDR_LEN \<or> length ?body > QUIC_MAX_ENCODED_PREFERRED_ADDR_LEN
      \<or> 13 \<noteq> QUIC_TPARAM_PREFERRED_ADDR)"
    using c n by (simp add: preferred_addr_bytes_def QUIC_MIN_ENCODED_PREFERRED_ADDR_LEN_def
        QUIC_MAX_ENCODED_PREFERRED_ADDR_LEN_def QUIC_TPARAM_PREFERRED_ADDR_def)
  have run: "?inner ?sub = Some (?r, packet_forward ?sub (length (preferred_addr_bytes a)))"
    using d by (intro readsD [OF inner, where rest = extra]) simp_all
  have "ossl_quic_wire_decode_transport_param_preferred_addr p b =
     do { ((param, body, len), pkt) \<leftarrow> ossl_quic_wire_decode_transport_param_bytes p;
          if len < QUIC_MIN_ENCODED_PREFERRED_ADDR_LEN \<or> len > QUIC_MAX_ENCODED_PREFERRED_ADDR_LEN
             \<or> param \<noteq> QUIC_TPARAM_PREFERRED_ADDR then None
          else do { pkt2 \<leftarrow> PACKET_buf_init body len; (r, pkt2) \<leftarrow> ?inner pkt2; Some (r, pkt) } }"
    unfolding ossl_quic_wire_decode_transport_param_preferred_addr_def
    by (simp add: case_prod_unfold if_distrib [of "\<lambda>x. Option.bind x _"] cong: if_cong)
  then show "ossl_quic_wire_decode_transport_param_preferred_addr p b = Some (?r, packet_forward p (length ?bs))"
    by (simp only: d(1) bind.bind_lunit case_prod_conv if_not_P [OF guard] init run)
qed

end
