(* ===== verification/WireFrames.thy ===== *)
theory WireFrames
  imports WireDec
begin

text \<open>
  Whole frames. A frame is one of the frame types of \<^verbatim>\<open>include/internal/quic_wire.h\<close>; it is
  written by its encoder and read by the decoder its type field selects, the way the
  depacketiser (\<^verbatim>\<open>depack_process_frames\<close> in \<^verbatim>\<open>ssl/quic/quic_rx_depack.c\<close>) selects
  decoders: after a look at the type, which must be encoded minimally, and for an ACK frame
  with an array of as many ranges as the frame announces. Frames read in this way form a codec, so
  that a packet that holds any sequence of them is read back frame by frame.
\<close>

section \<open>Frames, their encoders and decoders\<close>

datatype quic_frame =
    F_PING
  | F_ACK OSSL_QUIC_FRAME_ACK
  | F_RESET_STREAM OSSL_QUIC_FRAME_RESET_STREAM
  | F_STOP_SENDING OSSL_QUIC_FRAME_STOP_SENDING
  | F_CRYPTO OSSL_QUIC_FRAME_CRYPTO
  | F_NEW_TOKEN "u8 list \<times> nat"
  | F_STREAM OSSL_QUIC_FRAME_STREAM
  | F_MAX_DATA u64
  | F_MAX_STREAM_DATA "u64 \<times> u64"
  | F_MAX_STREAMS bool u64
  | F_DATA_BLOCKED u64
  | F_STREAM_DATA_BLOCKED "u64 \<times> u64"
  | F_STREAMS_BLOCKED bool u64
  | F_NEW_CONN_ID OSSL_QUIC_FRAME_NEW_CONN_ID
  | F_RETIRE_CONN_ID u64
  | F_PATH_CHALLENGE u64
  | F_PATH_RESPONSE u64
  | F_CONN_CLOSE OSSL_QUIC_FRAME_CONN_CLOSE
  | F_HANDSHAKE_DONE

fun encode_frame :: "u32 \<Rightarrow> quic_frame \<Rightarrow> WPACKET \<Rightarrow> bool \<times> WPACKET" where
  "encode_frame e F_PING = (\<lambda>w. ossl_quic_wire_encode_frame_ping w)"
| "encode_frame e (F_ACK f) = (\<lambda>w. ossl_quic_wire_encode_frame_ack w e f)"
| "encode_frame e (F_RESET_STREAM f) = (\<lambda>w. ossl_quic_wire_encode_frame_reset_stream w f)"
| "encode_frame e (F_STOP_SENDING f) = (\<lambda>w. ossl_quic_wire_encode_frame_stop_sending w f)"
| "encode_frame e (F_CRYPTO f) = (\<lambda>w. ptr_ok (\<lambda>w. ossl_quic_wire_encode_frame_crypto w f) w)"
| "encode_frame e (F_NEW_TOKEN t) = (\<lambda>w. ossl_quic_wire_encode_frame_new_token w (fst t) (snd t))"
| "encode_frame e (F_STREAM f) = (\<lambda>w. ptr_ok (\<lambda>w. ossl_quic_wire_encode_frame_stream w f) w)"
| "encode_frame e (F_MAX_DATA v) = (\<lambda>w. ossl_quic_wire_encode_frame_max_data w v)"
| "encode_frame e (F_MAX_STREAM_DATA v) = (\<lambda>w. ossl_quic_wire_encode_frame_max_stream_data w (fst v) (snd v))"
| "encode_frame e (F_MAX_STREAMS uni v) = (\<lambda>w. ossl_quic_wire_encode_frame_max_streams w uni v)"
| "encode_frame e (F_DATA_BLOCKED v) = (\<lambda>w. ossl_quic_wire_encode_frame_data_blocked w v)"
| "encode_frame e (F_STREAM_DATA_BLOCKED v) = (\<lambda>w. ossl_quic_wire_encode_frame_stream_data_blocked w (fst v) (snd v))"
| "encode_frame e (F_STREAMS_BLOCKED uni v) = (\<lambda>w. ossl_quic_wire_encode_frame_streams_blocked w uni v)"
| "encode_frame e (F_NEW_CONN_ID f) = (\<lambda>w. ossl_quic_wire_encode_frame_new_conn_id w f)"
| "encode_frame e (F_RETIRE_CONN_ID v) = (\<lambda>w. ossl_quic_wire_encode_frame_retire_conn_id w v)"
| "encode_frame e (F_PATH_CHALLENGE v) = (\<lambda>w. ossl_quic_wire_encode_frame_path_challenge w v)"
| "encode_frame e (F_PATH_RESPONSE v) = (\<lambda>w. ossl_quic_wire_encode_frame_path_response w v)"
| "encode_frame e (F_CONN_CLOSE f) = (\<lambda>w. ossl_quic_wire_encode_frame_conn_close w f)"
| "encode_frame e F_HANDSHAKE_DONE = (\<lambda>w. ossl_quic_wire_encode_frame_handshake_done w)"

text \<open>The array for the ranges of an ACK frame, before it is filled in.\<close>

definition ack_buffer :: "nat \<Rightarrow> OSSL_QUIC_FRAME_ACK" where
  "ack_buffer n = \<lparr>ack_ranges = replicate n \<lparr>ar_start = 0, ar_end = 0\<rparr>, num_ack_ranges = n, delay_time = 0,
     ect0 = 0, ect1 = 0, ecnce = 0, ecn_present = False\<rparr>"

definition decode_ack :: "u32 \<Rightarrow> OSSL_QUIC_FRAME_ACK reader" where
  "decode_ack e p =
     do { n \<leftarrow> ossl_quic_wire_peek_frame_ack_num_ranges p;
          ((ack, _), p) \<leftarrow> ossl_quic_wire_decode_frame_ack p e (Some (ack_buffer (unat n)));
          Some (the ack, p) }"

definition decode_by_type :: "u32 \<Rightarrow> u64 \<Rightarrow> quic_frame reader" where
  "decode_by_type e t p =
     (if t = OSSL_QUIC_FRAME_TYPE_PING then do { p \<leftarrow> ossl_quic_wire_decode_frame_ping p; Some (F_PING, p) }
      else if OSSL_QUIC_FRAME_TYPE_IS_ACK t then do { (f, p) \<leftarrow> decode_ack e p; Some (F_ACK f, p) }
      else if t = OSSL_QUIC_FRAME_TYPE_RESET_STREAM
        then do { (f, p) \<leftarrow> ossl_quic_wire_decode_frame_reset_stream p; Some (F_RESET_STREAM f, p) }
      else if t = OSSL_QUIC_FRAME_TYPE_STOP_SENDING
        then do { (f, p) \<leftarrow> ossl_quic_wire_decode_frame_stop_sending p; Some (F_STOP_SENDING f, p) }
      else if t = OSSL_QUIC_FRAME_TYPE_CRYPTO
        then do { (f, p) \<leftarrow> seen crypto_view (\<lambda>p. ossl_quic_wire_decode_frame_crypto p False) p; Some (F_CRYPTO f, p) }
      else if t = OSSL_QUIC_FRAME_TYPE_NEW_TOKEN
        then do { (f, p) \<leftarrow> seen token_view ossl_quic_wire_decode_frame_new_token p; Some (F_NEW_TOKEN f, p) }
      else if OSSL_QUIC_FRAME_TYPE_IS_STREAM t
        then do { (f, p) \<leftarrow> seen stream_view (\<lambda>p. ossl_quic_wire_decode_frame_stream p False) p; Some (F_STREAM f, p) }
      else if t = OSSL_QUIC_FRAME_TYPE_MAX_DATA
        then do { (v, p) \<leftarrow> ossl_quic_wire_decode_frame_max_data p; Some (F_MAX_DATA v, p) }
      else if t = OSSL_QUIC_FRAME_TYPE_MAX_STREAM_DATA
        then do { (v, p) \<leftarrow> ossl_quic_wire_decode_frame_max_stream_data p; Some (F_MAX_STREAM_DATA v, p) }
      else if OSSL_QUIC_FRAME_TYPE_IS_MAX_STREAMS t
        then do { (v, p) \<leftarrow> ossl_quic_wire_decode_frame_max_streams p;
                  Some (F_MAX_STREAMS (t = OSSL_QUIC_FRAME_TYPE_MAX_STREAMS_UNI) v, p) }
      else if t = OSSL_QUIC_FRAME_TYPE_DATA_BLOCKED
        then do { (v, p) \<leftarrow> ossl_quic_wire_decode_frame_data_blocked p; Some (F_DATA_BLOCKED v, p) }
      else if t = OSSL_QUIC_FRAME_TYPE_STREAM_DATA_BLOCKED
        then do { (v, p) \<leftarrow> ossl_quic_wire_decode_frame_stream_data_blocked p; Some (F_STREAM_DATA_BLOCKED v, p) }
      else if OSSL_QUIC_FRAME_TYPE_IS_STREAMS_BLOCKED t
        then do { (v, p) \<leftarrow> ossl_quic_wire_decode_frame_streams_blocked p;
                  Some (F_STREAMS_BLOCKED (t = OSSL_QUIC_FRAME_TYPE_STREAMS_BLOCKED_UNI) v, p) }
      else if t = OSSL_QUIC_FRAME_TYPE_NEW_CONN_ID
        then do { (f, p) \<leftarrow> ossl_quic_wire_decode_frame_new_conn_id p; Some (F_NEW_CONN_ID f, p) }
      else if t = OSSL_QUIC_FRAME_TYPE_RETIRE_CONN_ID
        then do { (v, p) \<leftarrow> ossl_quic_wire_decode_frame_retire_conn_id p; Some (F_RETIRE_CONN_ID v, p) }
      else if t = OSSL_QUIC_FRAME_TYPE_PATH_CHALLENGE
        then do { (v, p) \<leftarrow> ossl_quic_wire_decode_frame_path_challenge p; Some (F_PATH_CHALLENGE v, p) }
      else if t = OSSL_QUIC_FRAME_TYPE_PATH_RESPONSE
        then do { (v, p) \<leftarrow> ossl_quic_wire_decode_frame_path_response p; Some (F_PATH_RESPONSE v, p) }
      else if OSSL_QUIC_FRAME_TYPE_IS_CONN_CLOSE t
        then do { (f, p) \<leftarrow> seen conn_close_view ossl_quic_wire_decode_frame_conn_close p; Some (F_CONN_CLOSE f, p) }
      else if t = OSSL_QUIC_FRAME_TYPE_HANDSHAKE_DONE
        then do { p \<leftarrow> ossl_quic_wire_decode_frame_handshake_done p; Some (F_HANDSHAKE_DONE, p) }
      else None)"

definition decode_frame :: "u32 \<Rightarrow> quic_frame reader" where
  "decode_frame e p =
     do { (t, was_minimal) \<leftarrow> ossl_quic_wire_peek_frame_header p;
          if \<not> was_minimal then None else decode_by_type e t p }"

section \<open>Frames as bytes\<close>

fun frame_bytes :: "u32 \<Rightarrow> quic_frame \<Rightarrow> u8 list" where
  "frame_bytes e F_PING = vl 1"
| "frame_bytes e (F_ACK f) = ack_bytes e f"
| "frame_bytes e (F_RESET_STREAM f) = vl 4 @ vl (rs_stream_id f) @ vl (rs_app_error_code f) @ vl (rs_final_size f)"
| "frame_bytes e (F_STOP_SENDING f) = vl 5 @ vl (ss_stream_id f) @ vl (ss_app_error_code f)"
| "frame_bytes e (F_CRYPTO f) = vl 6 @ vl (cr_offset f) @ vl (cr_len f) @ the (cr_data f)"
| "frame_bytes e (F_NEW_TOKEN t) = vl 7 @ vl (of_nat (snd t)) @ fst t"
| "frame_bytes e (F_STREAM f) = stream_hdr f @ the (st_data f)"
| "frame_bytes e (F_MAX_DATA v) = vl 16 @ vl v"
| "frame_bytes e (F_MAX_STREAM_DATA v) = vl 17 @ vl (fst v) @ vl (snd v)"
| "frame_bytes e (F_MAX_STREAMS uni v) = vl (if uni then 19 else 18) @ vl v"
| "frame_bytes e (F_DATA_BLOCKED v) = vl 20 @ vl v"
| "frame_bytes e (F_STREAM_DATA_BLOCKED v) = vl 21 @ vl (fst v) @ vl (snd v)"
| "frame_bytes e (F_STREAMS_BLOCKED uni v) = vl (if uni then 23 else 22) @ vl v"
| "frame_bytes e (F_NEW_CONN_ID f) = vl 24 @ vl (nc_seq_num f) @ vl (nc_retire_prior_to f) @ [id_len (nc_conn_id f)]
      @ cid_bytes (nc_conn_id f) @ nc_stateless_reset f"
| "frame_bytes e (F_RETIRE_CONN_ID v) = vl 25 @ vl v"
| "frame_bytes e (F_PATH_CHALLENGE v) = vl 26 @ be_bytes 8 v"
| "frame_bytes e (F_PATH_RESPONSE v) = vl 27 @ be_bytes 8 v"
| "frame_bytes e (F_CONN_CLOSE f) = vl (if cc_is_app f then 29 else 28) @ vl (cc_error_code f)
      @ (if cc_is_app f then [] else vl (cc_frame_type f)) @ vl (of_nat (cc_reason_len f)) @ cc_reason f"
| "frame_bytes e F_HANDSHAKE_DONE = vl 30"

text \<open>
  The frames the codec is about: every number fits a variable-length integer, lengths are those of
  the data, stream and crypto data stay below the largest offset, a STREAM frame states its
  length, a connection identifier is padded with zeros, the delay of an ACK is a multiple of what
  its exponent resolves.
\<close>

fun frame_ok :: "u32 \<Rightarrow> quic_frame \<Rightarrow> bool" where
  "frame_ok e F_PING \<longleftrightarrow> True"
| "frame_ok e (F_ACK f) \<longleftrightarrow> ack_ok e f \<and> delay_time f = ack_delay_dec e (ack_delay_enc e (delay_time f))
     \<and> (\<not> ecn_present f \<longrightarrow> ect0 f = 0 \<and> ect1 f = 0 \<and> ecnce f = 0)"
| "frame_ok e (F_RESET_STREAM f) \<longleftrightarrow> vl_ok (rs_stream_id f) \<and> vl_ok (rs_app_error_code f) \<and> vl_ok (rs_final_size f)"
| "frame_ok e (F_STOP_SENDING f) \<longleftrightarrow> vl_ok (ss_stream_id f) \<and> vl_ok (ss_app_error_code f)"
| "frame_ok e (F_CRYPTO f) \<longleftrightarrow> unat (cr_offset f) + unat (cr_len f) < 2 ^ 62 \<and> cr_len f \<noteq> 0
     \<and> (case cr_data f of None \<Rightarrow> False | Some d \<Rightarrow> length d = unat (cr_len f))"
| "frame_ok e (F_NEW_TOKEN t) \<longleftrightarrow> snd t = length (fst t) \<and> snd t < 2 ^ 62"
| "frame_ok e (F_STREAM f) \<longleftrightarrow> stream_hdr_ok f \<and> has_explicit_len f \<and> unat (st_offset f) + unat (st_len f) < 2 ^ 62
     \<and> st_len f \<noteq> 0 \<and> (case st_data f of None \<Rightarrow> False | Some d \<Rightarrow> length d = unat (st_len f))"
| "frame_ok e (F_MAX_DATA v) \<longleftrightarrow> vl_ok v"
| "frame_ok e (F_MAX_STREAM_DATA v) \<longleftrightarrow> vl_ok (fst v) \<and> vl_ok (snd v)"
| "frame_ok e (F_MAX_STREAMS uni v) \<longleftrightarrow> vl_ok v"
| "frame_ok e (F_DATA_BLOCKED v) \<longleftrightarrow> vl_ok v"
| "frame_ok e (F_STREAM_DATA_BLOCKED v) \<longleftrightarrow> vl_ok (fst v) \<and> vl_ok (snd v)"
| "frame_ok e (F_STREAMS_BLOCKED uni v) \<longleftrightarrow> vl_ok v"
| "frame_ok e (F_NEW_CONN_ID f) \<longleftrightarrow> vl_ok (nc_seq_num f) \<and> vl_ok (nc_retire_prior_to f)
     \<and> nc_retire_prior_to f \<le> nc_seq_num f \<and> conn_id_ok (nc_conn_id f) \<and> id_len (nc_conn_id f) \<noteq> 0
     \<and> drop (unat (id_len (nc_conn_id f))) (cid_id (nc_conn_id f)) = replicate (20 - unat (id_len (nc_conn_id f))) 0
     \<and> length (nc_stateless_reset f) = 16"
| "frame_ok e (F_RETIRE_CONN_ID v) \<longleftrightarrow> vl_ok v"
| "frame_ok e (F_PATH_CHALLENGE v) \<longleftrightarrow> True"
| "frame_ok e (F_PATH_RESPONSE v) \<longleftrightarrow> True"
| "frame_ok e (F_CONN_CLOSE f) \<longleftrightarrow> conn_close_ok f \<and> length (cc_reason f) = cc_reason_len f
     \<and> (cc_is_app f \<longrightarrow> cc_frame_type f = 0)"
| "frame_ok e F_HANDSHAKE_DONE \<longleftrightarrow> True"

lemma encode_frame_appends:
  assumes "frame_ok e f"
  shows "appends (encode_frame e f) (frame_bytes e f)"
proof (cases f)
  case (F_CRYPTO g)
  then obtain d where "cr_data g = Some d" "length d = unat (cr_len g)" "0 < unat (cr_len g)"
    "vl_ok (cr_offset g)" "vl_ok (cr_len g)"
    using assms by (auto split: option.splits simp: unat_gt_0)
  with appends_crypto [of g d] show ?thesis by (simp add: F_CRYPTO)
next
  case (F_STREAM g)
  then obtain d where "st_data g = Some d" "length d = unat (st_len g)" "0 < unat (st_len g)" "stream_hdr_ok g"
    using assms by (auto split: option.splits simp: unat_gt_0)
  with appends_stream [of g d] show ?thesis by (simp add: F_STREAM)
next
  case (F_NEW_TOKEN t)
  with assms appends_new_token [of "snd t" "fst t"] show ?thesis by simp
next
  case (F_CONN_CLOSE g)
  with assms appends_conn_close [of g] show ?thesis by simp
qed (insert assms, simp only: encode_frame.simps frame_bytes.simps frame_ok.simps, (rule append_intros; simp))+

lemma peek_frame_header:
  assumes "packet_wf p" "vl_ok t" "pdata p = vl t @ rest"
  shows "ossl_quic_wire_peek_frame_header p = Some (t, True)"
proof -
  have "PACKET_get_quic_vlint p = Some (t, packet_forward p (length (vl t)))"
    using assms by (rule PACKET_get_quic_vlint_enc)
  moreover have "ossl_quic_vlint_decode_len (p_curr p ! 0) = ossl_quic_vlint_encode_len t"
  proof -
    have "vl t \<noteq> []" using vlint_encode [OF assms(2)] by blast
    then have "pdata p ! 0 = vl t ! 0" "0 < length (pdata p)" using assms(3) by (simp_all add: nth_append)
    moreover have "pdata p ! 0 = p_curr p ! 0"
      using pdata_nth [of 0 p] length_pdata [OF assms(1)] calculation(2) by simp
    ultimately show ?thesis using vlint_encode(3) [OF assms(2)] by simp
  qed
  ultimately show ?thesis
    by (auto simp: ossl_quic_wire_peek_frame_header_def PACKET_peek_quic_vlint_ex_def PACKET_get_quic_vlint_def
        Let_def split: if_splits)
qed

lemma decode_frame_by_type:
  assumes "vl_ok t" "reads (decode_by_type e t) (vl t @ bs) f"
  shows "reads (decode_frame e) (vl t @ bs) f"
  unfolding reads_def
proof (intro allI impI)
  fix p rest
  assume p: "packet_wf p" "pdata p = (vl t @ bs) @ rest"
  then have "ossl_quic_wire_peek_frame_header p = Some (t, True)" using assms(1) by (intro peek_frame_header) simp_all
  moreover have "decode_by_type e t p = Some (f, packet_forward p (length (vl t @ bs)))"
    using p by (rule readsD [OF assms(2)])
  ultimately show "decode_frame e p = Some (f, packet_forward p (length (vl t @ bs)))"
    by (simp add: decode_frame_def)
qed

lemma reads_map: "reads g bs v \<Longrightarrow> reads (\<lambda>p. g p \<bind> (\<lambda>(x, p). Some (h x, p))) bs (h v)"
  by (simp add: reads_def)

lemma reads_unit: "reads (\<lambda>p. map_option (Pair ()) (g p)) bs () \<Longrightarrow> reads (\<lambda>p. g p \<bind> (\<lambda>p. Some (v, p))) bs v"
  by (auto simp: reads_def)

lemma reads_decode_ack:
  assumes "frame_ok e (F_ACK f)"
  shows "reads (decode_ack e) (ack_bytes e f) f"
  unfolding reads_def
proof (intro allI impI)
  fix p rest
  assume p: "packet_wf p" "pdata p = ack_bytes e f @ rest"
  let ?n = "length (ack_ranges f)"
  have ack: "ack_ok e f" and d: "ack_delay_dec e (ack_delay_enc e (delay_time f)) = delay_time f" using assms by simp_all
  then have rs: "ack_ranges_ok (ack_ranges f)" and num: "num_ack_ranges f = ?n" by (simp_all add: ack_ok_def)
  have n: "unat (of_nat ?n :: u64) = ?n"
    using ack_ranges_count(1) [OF rs] by (intro unat_of_nat_u64) simp
  have "reads (\<lambda>p. ossl_quic_wire_decode_frame_ack p e (Some (ack_buffer ?n))) (ack_bytes e f)
     (Some (ack_result e f (ack_buffer ?n)), of_nat ?n)"
    by (rule reads_ack [OF ack]) (simp_all add: ack_buffer_def)
  moreover have "ack_result e f (ack_buffer ?n) = f"
    using assms num d by (cases f) (simp add: ack_result_def ack_buffer_def)
  ultimately show "decode_ack e p = Some (f, packet_forward p (length (ack_bytes e f)))"
    using peek_ack_reads [OF ack p] p n by (simp add: decode_ack_def reads_def)
qed

lemmas type_tests = OSSL_QUIC_FRAME_TYPE_IS_ACK_def OSSL_QUIC_FRAME_TYPE_IS_STREAM_def OSSL_QUIC_FRAME_TYPE_IS_MAX_STREAMS_def
  OSSL_QUIC_FRAME_TYPE_IS_STREAMS_BLOCKED_def OSSL_QUIC_FRAME_TYPE_IS_CONN_CLOSE_def

text \<open>The decoder a type selects.\<close>

lemma decode_by_type_select:
  "decode_by_type e 1 = (\<lambda>p. ossl_quic_wire_decode_frame_ping p \<bind> (\<lambda>p. Some (F_PING, p)))"
  "t \<in> {2, 3} \<Longrightarrow> decode_by_type e t = (\<lambda>p. decode_ack e p \<bind> (\<lambda>(f, p). Some (F_ACK f, p)))"
  "decode_by_type e 4 = (\<lambda>p. ossl_quic_wire_decode_frame_reset_stream p \<bind> (\<lambda>(f, p). Some (F_RESET_STREAM f, p)))"
  "decode_by_type e 5 = (\<lambda>p. ossl_quic_wire_decode_frame_stop_sending p \<bind> (\<lambda>(f, p). Some (F_STOP_SENDING f, p)))"
  "decode_by_type e 6 = (\<lambda>p. seen crypto_view (\<lambda>p. ossl_quic_wire_decode_frame_crypto p False) p \<bind> (\<lambda>(f, p). Some (F_CRYPTO f, p)))"
  "decode_by_type e 7 = (\<lambda>p. seen token_view ossl_quic_wire_decode_frame_new_token p \<bind> (\<lambda>(f, p). Some (F_NEW_TOKEN f, p)))"
  "decode_by_type e (stream_type g) = (\<lambda>p. seen stream_view (\<lambda>p. ossl_quic_wire_decode_frame_stream p False) p \<bind> (\<lambda>(f, p). Some (F_STREAM f, p)))"
  "decode_by_type e 16 = (\<lambda>p. ossl_quic_wire_decode_frame_max_data p \<bind> (\<lambda>(f, p). Some (F_MAX_DATA f, p)))"
  "decode_by_type e 17 = (\<lambda>p. ossl_quic_wire_decode_frame_max_stream_data p \<bind> (\<lambda>(f, p). Some (F_MAX_STREAM_DATA f, p)))"
  "decode_by_type e (if uni then 19 else 18) = (\<lambda>p. ossl_quic_wire_decode_frame_max_streams p \<bind> (\<lambda>(f, p). Some (F_MAX_STREAMS uni f, p)))"
  "decode_by_type e 20 = (\<lambda>p. ossl_quic_wire_decode_frame_data_blocked p \<bind> (\<lambda>(f, p). Some (F_DATA_BLOCKED f, p)))"
  "decode_by_type e 21 = (\<lambda>p. ossl_quic_wire_decode_frame_stream_data_blocked p \<bind> (\<lambda>(f, p). Some (F_STREAM_DATA_BLOCKED f, p)))"
  "decode_by_type e (if uni then 23 else 22) = (\<lambda>p. ossl_quic_wire_decode_frame_streams_blocked p \<bind> (\<lambda>(f, p). Some (F_STREAMS_BLOCKED uni f, p)))"
  "decode_by_type e 24 = (\<lambda>p. ossl_quic_wire_decode_frame_new_conn_id p \<bind> (\<lambda>(f, p). Some (F_NEW_CONN_ID f, p)))"
  "decode_by_type e 25 = (\<lambda>p. ossl_quic_wire_decode_frame_retire_conn_id p \<bind> (\<lambda>(f, p). Some (F_RETIRE_CONN_ID f, p)))"
  "decode_by_type e 26 = (\<lambda>p. ossl_quic_wire_decode_frame_path_challenge p \<bind> (\<lambda>(f, p). Some (F_PATH_CHALLENGE f, p)))"
  "decode_by_type e 27 = (\<lambda>p. ossl_quic_wire_decode_frame_path_response p \<bind> (\<lambda>(f, p). Some (F_PATH_RESPONSE f, p)))"
  "decode_by_type e (if app then 29 else 28) = (\<lambda>p. seen conn_close_view ossl_quic_wire_decode_frame_conn_close p \<bind> (\<lambda>(f, p). Some (F_CONN_CLOSE f, p)))"
  "decode_by_type e 30 = (\<lambda>p. ossl_quic_wire_decode_frame_handshake_done p \<bind> (\<lambda>p. Some (F_HANDSHAKE_DONE, p)))"
  by (rule ext; force simp: decode_by_type_def type_tests frame_types stream_type_def)+

lemma decode_frame_typed:
  "vl_ok t \<Longrightarrow> decode_by_type e t = (\<lambda>p. g p \<bind> (\<lambda>(x, p). Some (h x, p))) \<Longrightarrow> reads g (vl t @ bs) v
    \<Longrightarrow> reads (decode_frame e) (vl t @ bs) (h v)"
  by (rule decode_frame_by_type) (simp_all add: reads_map)

lemma decode_frame_bare:
  "vl_ok t \<Longrightarrow> decode_by_type e t = (\<lambda>p. g p \<bind> (\<lambda>p. Some (v, p))) \<Longrightarrow> reads (\<lambda>p. map_option (Pair ()) (g p)) (vl t) ()
    \<Longrightarrow> reads (decode_frame e) (vl t) v"
  using decode_frame_by_type [of t e "[]" v] by (simp add: reads_unit)

text \<open>One rule per frame.\<close>

lemma frame_reads_ack: "frame_ok e (F_ACK g) \<Longrightarrow> reads (decode_frame e) (ack_bytes e g) (F_ACK g)"
  using reads_decode_ack [of e g] unfolding ack_bytes_def
  by (rule decode_frame_typed [rotated 2]) (auto intro!: decode_by_type_select(2))

lemma frame_reads_crypto:
  assumes "frame_ok e (F_CRYPTO g)"
  shows "reads (decode_frame e) (vl 6 @ vl (cr_offset g) @ vl (cr_len g) @ the (cr_data g)) (F_CRYPTO g)"
proof -
  from assms obtain d where "cr_data g = Some d" "length d = unat (cr_len g)" "unat (cr_offset g) + unat (cr_len g) < 2 ^ 62"
    by (auto split: option.splits)
  then show ?thesis by (intro decode_frame_typed [OF _ decode_by_type_select(5)]) (simp_all add: reads_crypto)
qed

lemma frame_reads_stream:
  assumes "frame_ok e (F_STREAM g)"
  shows "reads (decode_frame e) (stream_hdr g @ the (st_data g)) (F_STREAM g)"
proof -
  from assms obtain d where d: "st_data g = Some d" "length d = unat (st_len g)"
      "unat (st_offset g) + unat (st_len g) < 2 ^ 62" "stream_hdr_ok g" "has_explicit_len g"
    by (auto split: option.splits)
  then have "reads (seen stream_view (\<lambda>p. ossl_quic_wire_decode_frame_stream p False)) (stream_hdr g @ d) g"
    by (intro reads_stream)
  then show ?thesis unfolding stream_hdr_def append_assoc
    by (intro decode_frame_typed [OF stream_type_ok decode_by_type_select(7)]) (simp add: d)
qed

lemma frame_reads_new_conn_id:
  assumes "frame_ok e (F_NEW_CONN_ID g)"
  shows "reads (decode_frame e) (vl 24 @ vl (nc_seq_num g) @ vl (nc_retire_prior_to g)
      @ [id_len (nc_conn_id g)] @ cid_bytes (nc_conn_id g) @ nc_stateless_reset g) (F_NEW_CONN_ID g)"
proof -
  let ?c = "nc_conn_id g"
  have c: "conn_id_ok ?c" "id_len ?c \<noteq> 0" "drop (unat (id_len ?c)) (cid_id ?c) = replicate (20 - unat (id_len ?c)) 0"
    using assms by simp_all
  then have "cid_id ?c = cid_bytes ?c @ replicate (20 - unat (id_len ?c)) 0" by (metis append_take_drop_id)
  then have "reads ossl_quic_wire_decode_frame_new_conn_id (vl 24 @ vl (nc_seq_num g) @ vl (nc_retire_prior_to g)
      @ [id_len ?c] @ cid_bytes ?c @ nc_stateless_reset g) g"
    using assms c by (intro reads_new_conn_id) (simp_all add: conn_id_ok_def)
  then show ?thesis by (intro decode_frame_typed [OF _ decode_by_type_select(14)]) simp_all
qed

lemmas frame_reads =
  frame_reads_ack frame_reads_crypto frame_reads_stream frame_reads_new_conn_id
  decode_frame_bare [OF _ decode_by_type_select(1) reads_bare(1)]
  decode_frame_typed [OF _ decode_by_type_select(3) reads_reset_stream]
  decode_frame_typed [OF _ decode_by_type_select(4) reads_stop_sending]
  decode_frame_typed [OF _ decode_by_type_select(6) reads_new_token [of "fst t" "snd t", unfolded prod.collapse]]
  decode_frame_typed [OF _ decode_by_type_select(8) reads_max_data(1)]
  decode_frame_typed [OF _ decode_by_type_select(9) reads_max_stream_data(1) [of "fst t" "snd t", unfolded prod.collapse]]
  decode_frame_typed [OF _ decode_by_type_select(10) reads_max_streams(1)]
  decode_frame_typed [OF _ decode_by_type_select(11) reads_max_data(2)]
  decode_frame_typed [OF _ decode_by_type_select(12) reads_max_stream_data(2) [of "fst t" "snd t", unfolded prod.collapse]]
  decode_frame_typed [OF _ decode_by_type_select(13) reads_max_streams(2)]
  decode_frame_typed [OF _ decode_by_type_select(15) reads_max_data(3)]
  decode_frame_typed [OF _ decode_by_type_select(16) reads_path(1)]
  decode_frame_typed [OF _ decode_by_type_select(17) reads_path(2)]
  decode_frame_typed [OF _ decode_by_type_select(18) reads_conn_close]
  decode_frame_bare [OF _ decode_by_type_select(19) reads_bare(2)]
  for t

lemma decode_frame_reads: "frame_ok e f \<Longrightarrow> reads (decode_frame e) (frame_bytes e f) f"
  by (cases f; simp only: frame_bytes.simps; (rule frame_reads; simp)?)

lemma vl_nonempty: "vl_ok t \<Longrightarrow> vl t \<noteq> []"
  using vlint_encode by blast

lemma frame_bytes_nonempty: "frame_ok e f \<Longrightarrow> frame_bytes e f \<noteq> []"
  by (cases f) (simp_all add: vl_nonempty ack_bytes_def stream_hdr_def stream_type_ok)

interpretation frames: packet_codec "frame_ok e" "frame_bytes e" "decode_frame e" for e
  using readsD [OF decode_frame_reads] frame_bytes_nonempty by unfold_locales blast+

section \<open>Properties\<close>

text \<open>The packet that a writer has written.\<close>

definition written_packet :: "WPACKET \<Rightarrow> PACKET" where
  "written_packet w = \<lparr>p_curr = w_mem w, p_remaining = w_written w\<rparr>"

lemma written_packet: "w_inv w \<Longrightarrow> packet_wf (written_packet w)" "pdata (written_packet w) = w_out w"
  "p_remaining (written_packet w) = w_written w"
  by (simp_all add: written_packet_def w_mem_length w_out_def)

text \<open>C7: Frames survive the wire. Any sequence of frames within the limits of the format can be written
  one after the other where there is room, and the packet so written is read back, decoder by
  decoder as the type fields select them, as exactly that sequence.\<close>

theorem frames_roundtrip:
  assumes "w_inv w" "w_out w = []" "\<forall>f \<in> set fs. frame_ok e f"
  shows "(w_space w (length (concat (map (frame_bytes e) fs))) \<longrightarrow> fst (all_ok (map (encode_frame e) fs) w))
    \<and> (\<forall>w'. all_ok (map (encode_frame e) fs) w = (True, w') \<longrightarrow>
         read_all (Suc (w_written w')) (decode_frame e) (written_packet w') = Some fs)"
proof -
  have a: "appends (all_ok (map (encode_frame e) fs)) (concat (map (frame_bytes e) fs))"
    using assms(3) by (intro appends_concat encode_frame_appends) blast
  note d = appendsD [OF a assms(1)]
  have "read_all (Suc (w_written w')) (decode_frame e) (written_packet w') = Some fs"
    if "all_ok (map (encode_frame e) fs) w = (True, w')" for w'
    using d(1,2) [OF that] assms(2,3) by (intro frames.read_all_enc) (simp_all add: written_packet)
  with d(4) show ?thesis by blast
qed

theorem frames_roundtrip_witness:
  "\<exists>w'. all_ok (map (encode_frame 3) [F_MAX_DATA 300, F_PING]) w_demo = (True, w')
    \<and> read_all (Suc (w_written w')) (decode_frame 3) (written_packet w') = Some [F_MAX_DATA 300, F_PING]"
proof -
  have "length (concat (map (frame_bytes 3) [F_MAX_DATA 300, F_PING])) = 4"
    by (simp add: length_vl vlint_encode_len_cases)
  with frames_roundtrip [OF w_demo(1,2), of "[F_MAX_DATA 300, F_PING]" 3] w_demo(3) [of 4]
  have 1: "fst (all_ok (map (encode_frame 3) [F_MAX_DATA 300, F_PING]) w_demo)"
    and 2: "\<And>w'. all_ok (map (encode_frame 3) [F_MAX_DATA 300, F_PING]) w_demo = (True, w') \<Longrightarrow>
         read_all (Suc (w_written w')) (decode_frame 3) (written_packet w') = Some [F_MAX_DATA 300, F_PING]"
    by simp_all
  obtain ok w' where r: "all_ok (map (encode_frame 3) [F_MAX_DATA 300, F_PING]) w_demo = (ok, w')" by fastforce
  with 1 have "all_ok (map (encode_frame 3) [F_MAX_DATA 300, F_PING]) w_demo = (True, w')" by simp
  with 2 show ?thesis by blast
qed

text \<open>C10: The ranges of a received ACK frame. The number of ranges announced for the frame is bounded by
  the size of the packet, whatever the frame says; and an array of that size is enough for the decoder: when it
  succeeds, the ranges it stored are the announced number of them, non-empty, in descending order and with a gap between
  any two, so that the first holds the largest packet number.\<close>

theorem received_ack_ranges:
  assumes "ossl_quic_wire_peek_frame_ack_num_ranges p = Some n"
    "num_ack_ranges buf = unat n" "length (ack_ranges buf) = unat n"
    "ossl_quic_wire_decode_frame_ack p e (Some buf) = Some ((Some a, total_ranges), q)"
  shows "2 * unat n + 2 \<le> p_remaining p \<and> num_ack_ranges a = unat n \<and> 0 < num_ack_ranges a
    \<and> (\<forall>i < num_ack_ranges a. ar_start (ack_ranges a ! i) \<le> ar_end (ack_ranges a ! i) \<and> unat (ar_end (ack_ranges a ! i)) < 2 ^ 62)
    \<and> (\<forall>i. Suc i < num_ack_ranges a \<longrightarrow> unat (ar_end (ack_ranges a ! Suc i)) + 2 \<le> unat (ar_start (ack_ranges a ! i)))"
proof -
  have "total_ranges = n" using peek_ack_total [OF assms(1,4)] .
  with decode_frame_ack_ok [OF assms(4)] assms(2,3)
  have num: "num_ack_ranges a = unat n" and ok: "ack_ranges_ok (take (unat n) (ack_ranges a))" by simp_all
  have "length (ack_ranges a) = unat n" using decode_frame_ack_length [OF assms(4)] assms(3) by simp
  then show ?thesis using peek_ack_bound [OF assms(1)] num ok by (auto simp: ack_ranges_ok_def)
qed

lemmas decode_eval = ossl_quic_wire_peek_frame_ack_num_ranges_def ossl_quic_wire_decode_frame_ack_def finish_ack_def
  store_first_range_eq ack_buffer_def expect_frame_header_mask_def ossl_quic_wire_skip_frame_header_def PACKET_skip_quic_vlint_def
  PACKET_get_quic_vlint_def PACKET_remaining_def packet_forward_def ossl_quic_vlint_decode_len_def
  ossl_quic_vlint_decode_unchecked_def

theorem received_ack_ranges_witness:
  "\<exists>a q. ossl_quic_wire_decode_frame_ack \<lparr>p_curr = [2, 10, 0, 1, 1, 3, 2], p_remaining = 7\<rparr> 3 (Some (ack_buffer 2))
      = Some ((Some a, 2), q) \<and> num_ack_ranges a = 2
    \<and> unat (ar_end (ack_ranges a ! 1)) + 2 \<le> unat (ar_start (ack_ranges a ! 0))"
proof -
  let ?p = "\<lparr>p_curr = [2, 10, 0, 1, 1, 3, 2], p_remaining = 7\<rparr>"
  have 1: "ossl_quic_wire_peek_frame_ack_num_ranges ?p = Some 2"
    by (simp add: decode_eval frame_types)
  obtain a q where 2: "ossl_quic_wire_decode_frame_ack ?p 3 (Some (ack_buffer 2)) = Some ((Some a, 2), q)"
    by (simp add: decode_eval frame_types)
  from received_ack_ranges [OF 1 _ _ 2] have "num_ack_ranges a = 2"
    "\<forall>i. Suc i < num_ack_ranges a \<longrightarrow> unat (ar_end (ack_ranges a ! Suc i)) + 2 \<le> unat (ar_start (ack_ranges a ! i))"
    by (simp_all add: ack_buffer_def)
  with 2 show ?thesis by auto
qed

text \<open>What a gap and a length take off the packet numbers, and how many ranges the caller's array has room for.\<close>

abbreviation gap_bytes :: "(u64 \<times> u64) list \<Rightarrow> u8 list" where
  "gap_bytes gaps \<equiv> concat (map (\<lambda>(g, l). vl g @ vl l) gaps)"

definition gap_size :: "u64 \<times> u64 \<Rightarrow> nat" where
  "gap_size x = unat (fst x) + 2 + unat (snd x)"

definition ack_capacity :: "OSSL_QUIC_FRAME_ACK option \<Rightarrow> nat" where
  "ack_capacity ack = (case ack of None \<Rightarrow> 0 | Some a \<Rightarrow> num_ack_ranges a)"

lemma gap_fits:
  assumes "vl_ok g"
  shows "(start < g + 2 \<or> l > start - g - 2) \<longleftrightarrow> \<not> gap_size (g, l) \<le> unat start"
    "gap_size (g, l) \<le> unat start \<Longrightarrow> unat (start - g - 2 - l) = unat start - gap_size (g, l)"
proof -
  have g: "unat (g + 2) = unat g + 2" using assms by (subst unat_add_exact) simp_all
  have d: "start - g - 2 = start - (g + 2)" by simp
  show "(start < g + 2 \<or> l > start - g - 2) \<longleftrightarrow> \<not> gap_size (g, l) \<le> unat start"
  proof (cases "g + 2 \<le> start")
    case True
    then have "unat (start - (g + 2)) = unat start - (unat g + 2)" "unat g + 2 \<le> unat start" using g by (simp_all add: unat_sub word_le_nat_alt)
    then show ?thesis unfolding d by (simp add: gap_size_def word_less_nat_alt not_less g) linarith
  next
    case False
    then show ?thesis using g by (simp add: gap_size_def word_less_nat_alt not_le)
  qed
  assume "gap_size (g, l) \<le> unat start"
  then show "unat (start - g - 2 - l) = unat start - gap_size (g, l)"
    unfolding d using g by (simp add: gap_size_def unat_sub word_le_nat_alt)
qed

lemma all_less_Suc_length: "(\<forall>k < length (x # xs). P k) \<longleftrightarrow> P 0 \<and> (\<forall>k < length xs. P (Suc k))"
  by (auto simp: less_Suc_eq_0_disj)

lemma decode_ack_ranges_accepts:
  assumes "packet_wf p" "pdata p = gap_bytes gaps @ rest" "\<forall>x \<in> set gaps. vl_ok (fst x) \<and> vl_ok (snd x)"
  shows "(decode_ack_ranges (length gaps) i start ack p \<noteq> None) \<longleftrightarrow>
    (\<forall>k < length gaps. sum_list (map gap_size (take (min k (ack_capacity ack - 1 - i)) gaps)) + gap_size (gaps ! k) \<le> unat start)"
  using assms
proof (induction gaps arbitrary: p i start ack)
  case (Cons x gaps)
  obtain g l where x: "x = (g, l)" by (cases x)
  have ok: "vl_ok g" "vl_ok l" using Cons.prems(3) x by auto
  let ?p1 = "packet_forward p (length (vl g))" let ?p2 = "packet_forward ?p1 (length (vl l))"
  have d: "pdata p = vl g @ vl l @ gap_bytes gaps @ rest" using Cons.prems(2) x by simp
  have 1: "PACKET_get_quic_vlint p = Some (g, ?p1)" using readsD [OF reads_vlint [OF ok(1)] Cons.prems(1) d] .
  have w1: "packet_wf ?p1" "pdata ?p1 = vl l @ gap_bytes gaps @ rest" using Cons.prems(1) d by simp_all
  have 2: "PACKET_get_quic_vlint ?p1 = Some (l, ?p2)" using readsD [OF reads_vlint [OF ok(2)] w1] .
  have w2: "packet_wf ?p2" "pdata ?p2 = gap_bytes gaps @ rest" using Cons.prems(1) d by simp_all
  note IH = Cons.IH [OF w2] note fits = gap_fits [OF ok(1), where start = start and l = l]
  let ?m = "ack_capacity ack"
  show ?case
  proof (cases "gap_size x \<le> unat start")
    case False
    then have "decode_ack_ranges (length (x # gaps)) i start ack p = None" using 1 2 fits(1) x by (simp add: Let_def)
    then show ?thesis using False by (auto intro!: exI [of _ "0 :: nat"])
  next
    case True
    show ?thesis
    proof (cases "i + 1 < ?m")
      case cap: True
      then obtain a where a: "ack = Some a" "i + 1 < num_ack_ranges a" by (auto simp: ack_capacity_def split: option.splits)
      let ?a = "a\<lparr>ack_ranges := (ack_ranges a)[i + 1 := \<lparr>ar_start = start - g - 2 - l, ar_end = start - g - 2\<rparr>]\<rparr>"
      have "decode_ack_ranges (length (x # gaps)) i start ack p = decode_ack_ranges (length gaps) (i + 1) (start - g - 2 - l) (Some ?a) ?p2"
        using 1 2 fits(1) True x a by (simp add: Let_def)
      moreover have "ack_capacity (Some ?a) = ?m" by (simp add: ack_capacity_def a(1))
      moreover have "?m - 1 - i = Suc (?m - 1 - (i + 1))" using cap by simp
      ultimately show ?thesis
        using IH [of "i + 1" "start - g - 2 - l" "Some ?a"] True fits(2) x Cons.prems(3) unfolding all_less_Suc_length
        by (simp add: min_Suc_Suc add_ac le_diff_conv2)
    next
      case cap: False
      have "decode_ack_ranges (length (x # gaps)) i start ack p = decode_ack_ranges (length gaps) (i + 1) start ack ?p2"
        using 1 2 fits(1) True x cap by (auto simp: Let_def ack_capacity_def split: option.splits)
      moreover have "?m - 1 - i = 0" "?m - 1 - (i + 1) = 0" using cap by simp_all
      ultimately show ?thesis
        using IH [of "i + 1" start ack] True x Cons.prems(3) unfolding all_less_Suc_length by simp
    qed
  qed
qed simp

lemma sum_take_all:
  "(\<forall>k < length xs. sum_list (map f (take k xs)) + f (xs ! k) \<le> (n :: nat)) \<longleftrightarrow> xs = [] \<or> sum_list (map f xs) \<le> n"
proof
  assume *: "\<forall>k < length xs. sum_list (map f (take k xs)) + f (xs ! k) \<le> n"
  show "xs = [] \<or> sum_list (map f xs) \<le> n"
  proof (cases xs rule: rev_cases)
    case (snoc ys y)
    then show ?thesis using *[rule_format, of "length ys"] by simp
  qed simp
next
  assume *: "xs = [] \<or> sum_list (map f xs) \<le> n"
  have "sum_list (map f (take k xs)) + f (xs ! k) \<le> sum_list (map f xs)" if "k < length xs" for k
  proof -
    have "sum_list (map f xs) = sum_list (map f (take (Suc k) xs)) + sum_list (map f (drop (Suc k) xs))"
      by (metis append_take_drop_id map_append sum_list_append)
    then show ?thesis using that by (simp add: take_Suc_conv_app_nth)
  qed
  then show "\<forall>k < length xs. sum_list (map f (take k xs)) + f (xs ! k) \<le> n" using * by (auto intro: order_trans)
qed

text \<open>C39: Which ACK frames the decoder accepts, for every frame without ECN counts and every array, or none, of the caller. A gap and the
  length of the range behind it take \<open>gap_size\<close> packet numbers, so the ranges of a frame are valid exactly if these add up to
  no more than the smallest packet number of the first range. The decoder moves that number only where it stores a range:
  the ranges that fit into the array are checked as they add up, every further one only against the last one stored. With
  an array for all ranges the decoder accepts exactly the valid frames; without one it accepts every frame whose ranges would each
  be valid right behind the first.\<close>

theorem ack_array_changes_acceptance:
  assumes "packet_wf p" "pdata p = vl 2 @ vl largest @ vl delay @ vl (of_nat (length gaps)) @ vl first @ gap_bytes gaps @ rest"
    "vl_ok largest" "vl_ok delay" "length gaps < 2 ^ 62" "first \<le> largest" "\<forall>x \<in> set gaps. vl_ok (fst x) \<and> vl_ok (snd x)"
  shows "(ossl_quic_wire_decode_frame_ack p e ack \<noteq> None \<longleftrightarrow>
       (\<forall>k < length gaps. sum_list (map gap_size (take (min k (ack_capacity ack - 1)) gaps)) + gap_size (gaps ! k) \<le> unat (largest - first)))
    \<and> (length gaps < ack_capacity ack \<longrightarrow>
       (ossl_quic_wire_decode_frame_ack p e ack \<noteq> None \<longleftrightarrow> sum_list (map gap_size gaps) \<le> unat (largest - first)))"
proof -
  let ?n = "of_nat (length gaps) :: u64" and ?start = "largest - first"
  let ?hdr = "vl 2 @ vl largest @ vl delay @ vl ?n @ vl first" and ?q = "\<lambda>hdr. packet_forward p (length (hdr :: u8 list))"
  let ?hd = "\<lambda>p. do { (t, p) \<leftarrow> expect_frame_header_mask p OSSL_QUIC_FRAME_TYPE_ACK_WITHOUT_ECN 1; (a, p) \<leftarrow> PACKET_get_quic_vlint p;
      (b, p) \<leftarrow> PACKET_get_quic_vlint p; (c, p) \<leftarrow> PACKET_get_quic_vlint p; (d, p) \<leftarrow> PACKET_get_quic_vlint p; Some ((t, a, b, c, d), p) }"
  have n: "unat ?n = length gaps" "vl_ok ?n" using assms(5) by (simp_all add: unat_of_nat_u64)
  have first: "vl_ok first" using assms(3,6) by (simp add: word_le_nat_alt)
  have "reads ?hd (?hdr @ []) (2, largest, delay, ?n, first)"
    by (simp only: append_assoc) (rule read_intros | (use assms(3,4) n first in \<open>simp add: frame_types\<close>; fail))+
  then have hd: "?hd p = Some ((2, largest, delay, ?n, first), ?q ?hdr)" using readsD [of ?hd ?hdr _ p] assms(1,2) by simp
  have q: "packet_wf (?q ?hdr)" "pdata (?q ?hdr) = gap_bytes gaps @ rest" using assms(1,2) by simp_all
  let ?ack = "map_option (store_first_range e delay ?start largest) ack"
  have cap: "ack_capacity ?ack = ack_capacity ack" by (simp add: ack_capacity_def store_first_range_eq split: option.splits)
  have fin: "finish_ack 2 c a p \<noteq> None" for c a p by (simp add: finish_ack_def frame_types Let_def)
  have "ossl_quic_wire_decode_frame_ack p e ack = ?hd p \<bind> (\<lambda>((t, a, b, c, d), p).
      if d > a then None else if unat c > SIZE_MAX then None
      else do { (ack, p) \<leftarrow> decode_ack_ranges (unat c) 0 (a - d) (map_option (store_first_range e b (a - d) a) ack) p; finish_ack t c ack p })"
    unfolding ossl_quic_wire_decode_frame_ack_def by (simp add: split_def Let_def cong: if_cong)
  also have "\<dots> = decode_ack_ranges (length gaps) 0 ?start ?ack (?q ?hdr) \<bind> (\<lambda>(ack, p). finish_ack 2 ?n ack p)"
    unfolding hd bind.bind_lunit prod.case n(1) using assms(5,6) by (simp only: not_less [symmetric] if_False) simp
  finally have "ossl_quic_wire_decode_frame_ack p e ack \<noteq> None \<longleftrightarrow> decode_ack_ranges (length gaps) 0 ?start ?ack (?q ?hdr) \<noteq> None"
    using fin by (auto simp: bind_eq_None_conv)
  moreover note decode_ack_ranges_accepts [OF q assms(7), of 0 ?start ?ack, unfolded cap diff_zero]
  moreover have "(\<forall>k < length gaps. sum_list (map gap_size (take (min k (ack_capacity ack - 1)) gaps)) + gap_size (gaps ! k) \<le> unat ?start)
      \<longleftrightarrow> sum_list (map gap_size gaps) \<le> unat ?start" if "length gaps < ack_capacity ack"
  proof -
    have "min k (ack_capacity ack - 1) = k" if "k < length gaps" for k using that \<open>length gaps < ack_capacity ack\<close> by simp
    then show ?thesis using sum_take_all [of gaps gap_size "unat ?start"] by auto
  qed
  ultimately show ?thesis by blast
qed

theorem ack_array_changes_acceptance_witness:
  "let p = \<lparr>p_curr = [2, 10, 0, 2, 0, 0, 8, 0, 0], p_remaining = 9\<rparr>
   in ossl_quic_wire_decode_frame_ack p 3 None \<noteq> None \<and> ossl_quic_wire_decode_frame_ack p 3 (Some (ack_buffer 3)) = None"
proof -
  let ?p = "\<lparr>p_curr = [2, 10, 0, 2, 0, 0, 8, 0, 0], p_remaining = 9\<rparr> :: PACKET" and ?gaps = "[(0, 8), (0, 0)] :: (u64 \<times> u64) list"
  have "vl 0 = [0]" "vl 2 = [2]" "vl 8 = [8]" "vl 10 = [10]" by code_simp+
  then have "packet_wf ?p" "pdata ?p = vl 2 @ vl 10 @ vl 0 @ vl (of_nat (length ?gaps)) @ vl 0 @ gap_bytes ?gaps @ []"
    by (simp_all add: packet_wf_def pdata_def)
  note w = ack_array_changes_acceptance [OF this, where e = 3]
  have "ack_capacity (Some (ack_buffer 3)) = 3" "ack_capacity None = 0" by (simp_all add: ack_capacity_def ack_buffer_def)
  then have "ossl_quic_wire_decode_frame_ack ?p 3 None \<noteq> None" "ossl_quic_wire_decode_frame_ack ?p 3 (Some (ack_buffer 3)) = None"
    using w [where ack = None] w [where ack = "Some (ack_buffer 3)"]
    by (simp_all add: gap_size_def all_less_Suc_length less_Suc_eq del: not_None_eq)
  then show ?thesis by simp
qed

text \<open>The delay of an ACK frame loses on its way only what the exponent does not resolve: what the
  decoder stores is at most the delay the encoder was given, and less than one unit of
  \<open>2 ^ e\<close> microseconds below it.\<close>

theorem ack_delay_rounds_down:
  assumes "unat e < 64"
    and "raw = ossl_time2ticks (ossl_time_divide (ossl_time_divide t OSSL_TIME_US) (push_bit (unat e) 1))"
    and "a = store_first_range e raw start largest buf"
  shows "unat (delay_time a) \<le> unat t \<and> unat t < unat (delay_time a) + 1000 * 2 ^ unat e"
proof -
  let ?u = "1000 * 2 ^ unat e :: nat"
  have "unat (delay_time a) = unat t div ?u * ?u"
    using ack_delay_roundtrip [OF assms(1), of t] assms(2,3)
    by (simp only: ack_delay_enc_eq [OF assms(1)] store_first_range_eq) simp
  moreover have "unat t div ?u * ?u + unat t mod ?u = unat t" by (rule div_mult_mod_eq)
  moreover have "unat t mod ?u < ?u" by (rule mod_less_divisor) simp
  ultimately show ?thesis by linarith
qed

theorem ack_delay_rounds_down_witness:
  "unat (delay_time (store_first_range 3 (ossl_time2ticks (ossl_time_divide (ossl_time_divide 20123 OSSL_TIME_US)
      (push_bit (unat (3 :: u32)) 1))) 0 0 (ack_buffer 1))) \<le> unat (20123 :: ossl_time)"
  using ack_delay_rounds_down [of 3 _ 20123 _ 0 0 "ack_buffer 1"] by simp

lemma all_ok_vlint: "fst (all_ok fs w) \<Longrightarrow> (\<lambda>p. WPACKET_quic_write_vlint p v) \<in> set fs \<Longrightarrow> vl_ok v"
proof (induction fs arbitrary: w)
  case (Cons f fs)
  then show ?case by (cases "vl_ok v") (auto simp: vlint_too_large split: prod.splits if_splits)
qed simp

lemma all_ok_opt: "fst (all_ok fs w) \<Longrightarrow> (\<lambda>p. if c then WPACKET_quic_write_vlint p v else (True, p)) \<in> set fs \<Longrightarrow> c \<Longrightarrow> vl_ok v"
  by (rule all_ok_vlint) auto

lemma stream_hdr_nonempty: "stream_hdr f \<noteq> []"
  by (simp add: stream_hdr_def vl_nonempty [OF stream_type_ok])

text \<open>The lengths that the encoders promise for the headers of STREAM and CRYPTO frames are exact: a
  header that is written has that length, and the length is zero only for a header that cannot be
  written.\<close>

theorem frame_header_lengths:
  assumes "w_inv w"
  shows "(\<forall>w'. ossl_quic_wire_encode_frame_stream_hdr w f = (True, w') \<longrightarrow>
       ossl_quic_wire_get_encoded_frame_len_stream_hdr f \<noteq> 0
       \<and> w_written w' = w_written w + ossl_quic_wire_get_encoded_frame_len_stream_hdr f)
    \<and> (\<forall>w'. ossl_quic_wire_encode_frame_crypto_hdr w g = (True, w') \<longrightarrow>
       ossl_quic_wire_get_encoded_frame_len_crypto_hdr g \<noteq> 0
       \<and> w_written w' = w_written w + ossl_quic_wire_get_encoded_frame_len_crypto_hdr g)"
proof (intro conjI [of "\<forall>w'. _ w'"] allI impI)
  fix w'
  assume ok: "ossl_quic_wire_encode_frame_stream_hdr w f = (True, w')"
  let ?fs = "\<lambda>t. [\<lambda>p. encode_frame_hdr p t,
                 \<lambda>p. WPACKET_quic_write_vlint p (st_stream_id f),
                 \<lambda>p. if st_offset f \<noteq> 0 then WPACKET_quic_write_vlint p (st_offset f) else (True, p),
                 \<lambda>p. if has_explicit_len f then WPACKET_quic_write_vlint p (st_len f) else (True, p)]"
  obtain t where "ossl_quic_wire_encode_frame_stream_hdr w f = all_ok (?fs t) w"
    unfolding ossl_quic_wire_encode_frame_stream_hdr_def Let_def by blast
  then have s: "fst (all_ok (?fs t) w)" using ok by (metis fst_conv)
  have o: "vl_ok (st_stream_id f)" "st_offset f \<noteq> 0 \<Longrightarrow> vl_ok (st_offset f)" "has_explicit_len f \<Longrightarrow> vl_ok (st_len f)"
    using all_ok_vlint [OF s, of "st_stream_id f"] all_ok_opt [OF s, of "st_offset f \<noteq> 0" "st_offset f"]
      all_ok_opt [OF s, of "has_explicit_len f" "st_len f"] by simp_all
  have "stream_hdr_ok f" using o by (cases "st_offset f = 0") (simp_all add: stream_hdr_ok_def)
  with appendsD(1,2) [OF appends_stream_hdr assms ok] length_w_out [OF assms] length_w_out [of w']
  show "ossl_quic_wire_get_encoded_frame_len_stream_hdr f \<noteq> 0
       \<and> w_written w' = w_written w + ossl_quic_wire_get_encoded_frame_len_stream_hdr f"
    by (simp add: get_encoded_frame_len_stream_hdr stream_hdr_nonempty)
next
  fix w'
  assume ok: "ossl_quic_wire_encode_frame_crypto_hdr w g = (True, w')"
  then have s: "fst (all_ok [\<lambda>p. encode_frame_hdr p OSSL_QUIC_FRAME_TYPE_CRYPTO,
      \<lambda>p. WPACKET_quic_write_vlint p (cr_offset g), \<lambda>p. WPACKET_quic_write_vlint p (cr_len g)] w)"
    unfolding ossl_quic_wire_encode_frame_crypto_hdr_def by (metis fst_conv)
  have o: "vl_ok (cr_offset g)" "vl_ok (cr_len g)" by (rule all_ok_vlint [OF s], simp)+
  with appendsD(1,2) [OF appends_crypto_hdr assms ok] length_w_out [OF assms] length_w_out [of w']
  show "ossl_quic_wire_get_encoded_frame_len_crypto_hdr g \<noteq> 0
       \<and> w_written w' = w_written w + ossl_quic_wire_get_encoded_frame_len_crypto_hdr g"
    by (simp add: get_encoded_frame_len_crypto_hdr vl_nonempty)
qed

theorem frame_header_lengths_witness:
  "\<exists>w'. ossl_quic_wire_encode_frame_crypto_hdr w_demo \<lparr>cr_offset = 300, cr_len = 5, cr_data = None\<rparr> = (True, w')
    \<and> w_written w' = 4"
proof -
  let ?g = "\<lparr>cr_offset = 300, cr_len = 5, cr_data = None\<rparr>"
  have len: "ossl_quic_wire_get_encoded_frame_len_crypto_hdr ?g = 4"
    by (simp add: ossl_quic_wire_get_encoded_frame_len_crypto_hdr_def vlint_encode_len_cases frame_types)
  have "fst (ossl_quic_wire_encode_frame_crypto_hdr w_demo ?g)"
    by (rule appendsD(4) [OF appends_crypto_hdr w_demo(1)]) (simp_all add: w_demo(3) length_vl vlint_encode_len_cases)
  then obtain w' where w': "ossl_quic_wire_encode_frame_crypto_hdr w_demo ?g = (True, w')"
    by (cases "ossl_quic_wire_encode_frame_crypto_hdr w_demo ?g") auto
  have "w_written w_demo = 0" using length_w_out [OF w_demo(1)] w_demo(2) by simp
  with frame_header_lengths [OF w_demo(1), of undefined ?g] w' len show ?thesis by auto
qed

text \<open>C20: Every decoder of \<^verbatim>\<open>ssl/quic/quic_wire.c\<close>, for frames, frame headers and transport parameters, stays inside
  its packet: it moves the packet forward by bytes the packet has, and whether it succeeds, what it returns (with the data its pointers
  denote) and what it leaves do not depend on the memory behind the packet. The functions that peek leave the packet where
  it is.\<close>

theorem wire_decoders_sound:
  "reader_ok (\<lambda>p. ossl_quic_wire_decode_frame_ack p e ack)
   \<and> reader_ok ossl_quic_wire_decode_frame_reset_stream \<and> reader_ok ossl_quic_wire_decode_frame_stop_sending
   \<and> reader_ok (seen crypto_view (\<lambda>p. ossl_quic_wire_decode_frame_crypto p nodata))
   \<and> reader_ok (seen token_view ossl_quic_wire_decode_frame_new_token)
   \<and> reader_ok (seen stream_view (\<lambda>p. ossl_quic_wire_decode_frame_stream p nodata))
   \<and> reader_ok ossl_quic_wire_decode_frame_max_data \<and> reader_ok ossl_quic_wire_decode_frame_max_stream_data
   \<and> reader_ok ossl_quic_wire_decode_frame_max_streams \<and> reader_ok ossl_quic_wire_decode_frame_data_blocked
   \<and> reader_ok ossl_quic_wire_decode_frame_stream_data_blocked \<and> reader_ok ossl_quic_wire_decode_frame_streams_blocked
   \<and> reader_ok ossl_quic_wire_decode_frame_new_conn_id \<and> reader_ok ossl_quic_wire_decode_frame_retire_conn_id
   \<and> reader_ok ossl_quic_wire_decode_frame_path_challenge \<and> reader_ok ossl_quic_wire_decode_frame_path_response
   \<and> reader_ok (seen conn_close_view ossl_quic_wire_decode_frame_conn_close)
   \<and> reader_ok (\<lambda>p. Some (ossl_quic_wire_decode_padding p))
   \<and> reader_ok (\<lambda>p. map_option (Pair ()) (ossl_quic_wire_decode_frame_ping p))
   \<and> reader_ok (\<lambda>p. map_option (Pair ()) (ossl_quic_wire_decode_frame_handshake_done p))
   \<and> reader_ok ossl_quic_wire_skip_frame_header
   \<and> reader_ok (\<lambda>p. map_option (\<lambda>v. (v, p)) (ossl_quic_wire_peek_frame_header p))
   \<and> reader_ok (\<lambda>p. map_option (\<lambda>v. (v, p)) (ossl_quic_wire_peek_frame_ack_num_ranges p))
   \<and> reader_ok (\<lambda>p. map_option (\<lambda>v. (v, p)) (ossl_quic_wire_peek_transport_param p))
   \<and> reader_ok (seen param_view ossl_quic_wire_decode_transport_param_bytes)
   \<and> reader_ok ossl_quic_wire_decode_transport_param_int
   \<and> reader_ok (\<lambda>p. ossl_quic_wire_decode_transport_param_cid p cid)
   \<and> reader_ok (\<lambda>p. ossl_quic_wire_decode_transport_param_preferred_addr p a)"
  unfolding ossl_quic_wire_skip_frame_header_def [abs_def] by (intro conjI reader_intros)

text \<open>C19: Transport parameters survive the wire: an integer parameter and a connection identifier that were
  written into an empty packet are read back, and nothing is left of the packet.\<close>

theorem transport_params_roundtrip:
  assumes "w_inv w" "w_out w = []" "unat k < 2 ^ 62" "unat v < 2 ^ 62" "conn_id_ok c"
  shows "(\<forall>w'. ossl_quic_wire_encode_transport_param_int w k v = (True, w') \<longrightarrow>
       (\<exists>q. ossl_quic_wire_decode_transport_param_int (written_packet w') = Some ((k, v), q) \<and> PACKET_remaining q = 0))
    \<and> (\<forall>w'. ossl_quic_wire_encode_transport_param_cid w k c = (True, w') \<longrightarrow>
       (\<exists>c' q. ossl_quic_wire_decode_transport_param_cid (written_packet w') c0 = Some ((k, c'), q)
          \<and> ossl_quic_conn_id_eq c' c \<and> PACKET_remaining q = 0))"
proof (intro conjI allI impI)
  fix w'
  assume "ossl_quic_wire_encode_transport_param_int w k v = (True, w')"
  from appendsD(1,2) [OF appends_param_int [OF assms(3,4)] assms(1) this] assms(2)
  have w': "w_inv w'" "w_out w' = (vl k @ vl (of_nat (length (vl v))) @ vl v) @ []" by simp_all
  from readsD [OF reads_param_int [OF assms(3,4)] written_packet(1) [OF w'(1)], unfolded written_packet(2), OF w'(2)]
  show "\<exists>q. ossl_quic_wire_decode_transport_param_int (written_packet w') = Some ((k, v), q) \<and> PACKET_remaining q = 0"
    using length_w_out [OF w'(1)] w'(2) by (auto simp: PACKET_remaining_def written_packet(3))
next
  fix w'
  assume "ossl_quic_wire_encode_transport_param_cid w k c = (True, w')"
  from appendsD(1,2) [OF appends_param_cid [OF assms(3,5)] assms(1) this] assms(2)
  have w': "w_inv w'" "w_out w' = (vl k @ vl (ucast (id_len c)) @ cid_bytes c) @ []" by simp_all
  have eq: "ossl_quic_conn_id_eq (c0\<lparr>id_len := id_len c, cid_id := cid_bytes c @ drop (unat (id_len c)) (cid_id c0)\<rparr>) c"
    using assms(5) by (simp add: ossl_quic_conn_id_eq_def conn_id_ok_def QUIC_MAX_CONN_ID_LEN_def)
  from readsD [OF reads_param_cid [OF assms(3,5), of c0] written_packet(1) [OF w'(1)], unfolded written_packet(2), OF w'(2)] eq
  show "\<exists>c' q. ossl_quic_wire_decode_transport_param_cid (written_packet w') c0 = Some ((k, c'), q)
          \<and> ossl_quic_conn_id_eq c' c \<and> PACKET_remaining q = 0"
    using length_w_out [OF w'(1)] w'(2) by (auto simp: PACKET_remaining_def written_packet(3))
qed

theorem transport_params_roundtrip_witness:
  "\<exists>w' q. ossl_quic_wire_encode_transport_param_int w_demo 4 300 = (True, w')
    \<and> ossl_quic_wire_decode_transport_param_int (written_packet w') = Some ((4, 300), q)"
proof -
  have "fst (ossl_quic_wire_encode_transport_param_int w_demo 4 300)"
    by (rule appendsD(4) [OF appends_param_int w_demo(1)]) (simp_all add: w_demo(3) length_vl vlint_encode_len_cases)
  then obtain w' where w': "ossl_quic_wire_encode_transport_param_int w_demo 4 300 = (True, w')"
    by (cases "ossl_quic_wire_encode_transport_param_int w_demo 4 300") auto
  have "conn_id_ok \<lparr>id_len = 0, cid_id = replicate 20 0\<rparr>" by (simp add: conn_id_ok_def)
  with transport_params_roundtrip [OF w_demo(1,2), of 4 300] w' show ?thesis by fastforce
qed

text \<open>C40: A STREAM frame without data, such as one that only ends a stream, cannot be written with the
  encoder for whole frames: the call reports failure, and the header is already in the packet.\<close>

theorem empty_stream_frame_fails:
  "ossl_quic_wire_encode_frame_stream w (f\<lparr>st_len := 0\<rparr>) =
     (None, snd (ossl_quic_wire_encode_frame_stream_hdr w (f\<lparr>st_len := 0\<rparr>)))"
  by (simp add: ossl_quic_wire_encode_frame_stream_def allocate_zero split_beta)

end
