(* ===== verification/WirePkt.thy ===== *)
theory WirePkt
  imports WireFrames
begin

text \<open>
  Packet headers: \<^verbatim>\<open>ssl/quic/quic_wire_pkt.c\<close> and \<^verbatim>\<open>include/internal/quic_wire_pkt.h\<close>. The
  functions of this component read and write the header of a QUIC packet, apply and
  remove header protection, and shorten and recover packet numbers.

  A header that is decoded is filled in over the contents it had before, as in C. The pointers of
  a header are pointers into the packet; those that the header protector needs
  (\<open>QUIC_PKT_HDR_PTRS\<close>) are offsets from the start of the packet, respectively from the start of the
  buffer of the writer. The ciphers are parameters: the block cipher that makes a mask for header
  protection from a sample, and the AEAD that makes the integrity tag of a Retry packet.
\<close>

section \<open>Model: packet types\<close>

named_theorems pkt_types \<open>values of the packet types and other constants\<close>

definition QUIC_VERSION_1 :: u32 where [pkt_types]: "QUIC_VERSION_1 = 1"
definition QUIC_PKT_TYPE_INITIAL :: u32 where [pkt_types]: "QUIC_PKT_TYPE_INITIAL = 1"
definition QUIC_PKT_TYPE_0RTT :: u32 where [pkt_types]: "QUIC_PKT_TYPE_0RTT = 2"
definition QUIC_PKT_TYPE_HANDSHAKE :: u32 where [pkt_types]: "QUIC_PKT_TYPE_HANDSHAKE = 3"
definition QUIC_PKT_TYPE_RETRY :: u32 where [pkt_types]: "QUIC_PKT_TYPE_RETRY = 4"
definition QUIC_PKT_TYPE_1RTT :: u32 where [pkt_types]: "QUIC_PKT_TYPE_1RTT = 5"
definition QUIC_PKT_TYPE_VERSION_NEG :: u32 where [pkt_types]: "QUIC_PKT_TYPE_VERSION_NEG = 6"
definition QUIC_MIN_VALID_PKT_LEN_CRYPTO :: nat where [pkt_types]: "QUIC_MIN_VALID_PKT_LEN_CRYPTO = 21"
definition QUIC_MIN_VALID_PKT_LEN_VERSION_NEG :: nat where [pkt_types]: "QUIC_MIN_VALID_PKT_LEN_VERSION_NEG = 7"
definition QUIC_MIN_VALID_PKT_LEN :: nat where [pkt_types]: "QUIC_MIN_VALID_PKT_LEN = QUIC_MIN_VALID_PKT_LEN_VERSION_NEG"
definition QUIC_HDR_PROT_CIPHER_AES_128 :: u32 where [pkt_types]: "QUIC_HDR_PROT_CIPHER_AES_128 = 1"
definition QUIC_HDR_PROT_CIPHER_AES_256 :: u32 where [pkt_types]: "QUIC_HDR_PROT_CIPHER_AES_256 = 2"
definition QUIC_HDR_PROT_CIPHER_CHACHA :: u32 where [pkt_types]: "QUIC_HDR_PROT_CIPHER_CHACHA = 3"
definition QUIC_RETRY_INTEGRITY_TAG_LEN :: nat where [pkt_types]: "QUIC_RETRY_INTEGRITY_TAG_LEN = 16"

definition ossl_quic_pkt_type_to_enc_level :: "u32 \<Rightarrow> u32" where
  "ossl_quic_pkt_type_to_enc_level pkt_type =
     (if pkt_type = QUIC_PKT_TYPE_INITIAL then QUIC_ENC_LEVEL_INITIAL
      else if pkt_type = QUIC_PKT_TYPE_HANDSHAKE then QUIC_ENC_LEVEL_HANDSHAKE
      else if pkt_type = QUIC_PKT_TYPE_0RTT then QUIC_ENC_LEVEL_0RTT
      else if pkt_type = QUIC_PKT_TYPE_1RTT then QUIC_ENC_LEVEL_1RTT
      else QUIC_ENC_LEVEL_NUM)"

definition ossl_quic_enc_level_to_pkt_type :: "u32 \<Rightarrow> u32" where
  "ossl_quic_enc_level_to_pkt_type enc_level =
     (if enc_level = QUIC_ENC_LEVEL_INITIAL then QUIC_PKT_TYPE_INITIAL
      else if enc_level = QUIC_ENC_LEVEL_HANDSHAKE then QUIC_PKT_TYPE_HANDSHAKE
      else if enc_level = QUIC_ENC_LEVEL_0RTT then QUIC_PKT_TYPE_0RTT
      else if enc_level = QUIC_ENC_LEVEL_1RTT then QUIC_PKT_TYPE_1RTT
      else - 1)"

definition ossl_quic_pkt_type_is_encrypted :: "u32 \<Rightarrow> bool" where
  "ossl_quic_pkt_type_is_encrypted pkt_type =
     (if pkt_type = QUIC_PKT_TYPE_RETRY \<or> pkt_type = QUIC_PKT_TYPE_VERSION_NEG then False else True)"

definition ossl_quic_pkt_type_has_pn :: "u32 \<Rightarrow> bool" where
  "ossl_quic_pkt_type_has_pn pkt_type = ossl_quic_pkt_type_is_encrypted pkt_type"

definition ossl_quic_pkt_type_can_share_dgram :: "u32 \<Rightarrow> bool" where
  "ossl_quic_pkt_type_can_share_dgram pkt_type = ossl_quic_pkt_type_is_encrypted pkt_type"

definition ossl_quic_pkt_type_must_be_last :: "u32 \<Rightarrow> bool" where
  "ossl_quic_pkt_type_must_be_last pkt_type \<longleftrightarrow>
     \<not> ossl_quic_pkt_type_can_share_dgram pkt_type \<or> pkt_type = QUIC_PKT_TYPE_1RTT"

definition ossl_quic_pkt_type_has_version :: "u32 \<Rightarrow> bool" where
  "ossl_quic_pkt_type_has_version pkt_type \<longleftrightarrow> pkt_type \<noteq> QUIC_PKT_TYPE_1RTT \<and> pkt_type \<noteq> QUIC_PKT_TYPE_VERSION_NEG"

definition ossl_quic_pkt_type_has_scid :: "u32 \<Rightarrow> bool" where
  "ossl_quic_pkt_type_has_scid pkt_type \<longleftrightarrow> pkt_type \<noteq> QUIC_PKT_TYPE_1RTT"

section \<open>Model: header protection\<close>

text \<open>
  \<open>hp_aes\<close> encrypts one block and \<open>hp_chacha\<close> five zero bytes, under the key of the protector; \<open>None\<close>
  where the cipher reports an error.
\<close>

record QUIC_HDR_PROTECTOR =
  cipher_id :: u32
  hp_aes :: "u8 list \<Rightarrow> u8 list option"
  hp_chacha :: "u8 list \<Rightarrow> u8 list option"

text \<open>The mask, in a build that is not for fuzzing, where it would be cleared.\<close>

definition hdr_generate_mask :: "QUIC_HDR_PROTECTOR \<Rightarrow> u8 list \<Rightarrow> nat \<Rightarrow> u8 list option" where
  "hdr_generate_mask hpr sample sample_len =
     (if cipher_id hpr = QUIC_HDR_PROT_CIPHER_AES_128 \<or> cipher_id hpr = QUIC_HDR_PROT_CIPHER_AES_256 then
        if sample_len < 16 then None
        else do { dst \<leftarrow> hp_aes hpr (take 16 sample); Some (take 5 dst) }
      else if cipher_id hpr = QUIC_HDR_PROT_CIPHER_CHACHA then
        if sample_len < 16 then None
        else hp_chacha hpr (take 16 sample)
      else None)"

text \<open>The first byte and the bytes of the packet number field, changed in place.\<close>

definition xor_pn :: "u8 list \<Rightarrow> u8 list \<Rightarrow> nat \<Rightarrow> u8 list" where
  "xor_pn hp_mask pn_bytes pn_len = map2 xor (take pn_len pn_bytes) (tl hp_mask) @ drop pn_len pn_bytes"

definition ossl_quic_hdr_protector_decrypt_fields ::
  "QUIC_HDR_PROTECTOR \<Rightarrow> u8 list \<Rightarrow> nat \<Rightarrow> u8 \<Rightarrow> u8 list \<Rightarrow> (u8 \<times> u8 list) option" where
  "ossl_quic_hdr_protector_decrypt_fields hpr sample sample_len first_byte pn_bytes =
     do { hp_mask \<leftarrow> hdr_generate_mask hpr sample sample_len;
          let first_byte = xor first_byte (and (hp_mask ! 0) (if and first_byte 0x80 \<noteq> 0 then 0xf else 0x1f));
              pn_len = unat (and first_byte 3) + 1
          in Some (first_byte, xor_pn hp_mask pn_bytes pn_len) }"

definition ossl_quic_hdr_protector_encrypt_fields ::
  "QUIC_HDR_PROTECTOR \<Rightarrow> u8 list \<Rightarrow> nat \<Rightarrow> u8 \<Rightarrow> u8 list \<Rightarrow> (u8 \<times> u8 list) option" where
  "ossl_quic_hdr_protector_encrypt_fields hpr sample sample_len first_byte pn_bytes =
     do { hp_mask \<leftarrow> hdr_generate_mask hpr sample sample_len;
          let pn_len = unat (and first_byte 3) + 1;
              pn_bytes = xor_pn hp_mask pn_bytes pn_len
          in Some (xor first_byte (and (hp_mask ! 0) (if and first_byte 0x80 \<noteq> 0 then 0xf else 0x1f)), pn_bytes) }"

section \<open>Model: headers\<close>

record QUIC_PKT_HDR =
  h_type :: u32
  h_spin_bit :: bool
  h_key_phase :: bool
  h_pn_len :: u8
  h_partial :: bool
  h_fixed :: bool
  h_unused :: u8
  h_reserved :: u8
  h_version :: u32
  h_dst_conn_id :: QUIC_CONN_ID
  h_src_conn_id :: QUIC_CONN_ID
  h_pn :: "u8 list"
  h_token :: "u8 list option"
  h_token_len :: nat
  h_len :: nat
  h_data :: "u8 list option"

record QUIC_PKT_HDR_PTRS =
  raw_start :: "nat option"
  raw_sample :: "nat option"
  raw_sample_len :: u64
  raw_pn :: "nat option"

text \<open>Applying and removing protection in the buffer that holds the packet.\<close>

definition ossl_quic_hdr_protector_decrypt :: "QUIC_HDR_PROTECTOR \<Rightarrow> QUIC_PKT_HDR_PTRS \<Rightarrow> u8 list \<Rightarrow> u8 list option" where
  "ossl_quic_hdr_protector_decrypt hpr ptrs buf =
     (case (raw_start ptrs, raw_sample ptrs, raw_pn ptrs) of
        (Some s, Some m, Some n) \<Rightarrow>
          do { (b0, pn) \<leftarrow> ossl_quic_hdr_protector_decrypt_fields hpr (drop m buf) (unat (raw_sample_len ptrs)) (buf ! s) (drop n buf);
               Some (overwrite (buf[s := b0]) n pn) }
      | _ \<Rightarrow> None)"

definition ossl_quic_hdr_protector_encrypt :: "QUIC_HDR_PROTECTOR \<Rightarrow> QUIC_PKT_HDR_PTRS \<Rightarrow> u8 list \<Rightarrow> u8 list option" where
  "ossl_quic_hdr_protector_encrypt hpr ptrs buf =
     (case (raw_start ptrs, raw_sample ptrs, raw_pn ptrs) of
        (Some s, Some m, Some n) \<Rightarrow>
          do { (b0, pn) \<leftarrow> ossl_quic_hdr_protector_encrypt_fields hpr (drop m buf) (unat (raw_sample_len ptrs)) (buf ! s) (drop n buf);
               Some (overwrite (buf[s := b0]) n pn) }
      | _ \<Rightarrow> None)"

text \<open>A connection identifier of which the first bytes are written.\<close>

definition set_conn_id :: "QUIC_CONN_ID \<Rightarrow> u8 list \<Rightarrow> QUIC_CONN_ID" where
  "set_conn_id c bs = c\<lparr>id_len := of_nat (length bs), cid_id := bs @ drop (length bs) (cid_id c)\<rparr>"

text \<open>
  The decoder, block by block; \<open>l\<close> is the length of the packet, \<open>b0\<close> its first byte. A block
  returns the header and the offset of the packet number field, if there is one.
\<close>

type_synonym hdr_reader = "(QUIC_PKT_HDR \<times> nat option) reader"

definition decode_pn :: "bool \<Rightarrow> QUIC_PKT_HDR \<Rightarrow> QUIC_PKT_HDR reader" where
  "decode_pn partial hdr pkt =
     (if partial then do { pkt \<leftarrow> PACKET_forward pkt 4; Some (hdr, pkt) }
      else do { (pn, pkt) \<leftarrow> PACKET_copy_bytes pkt (unat (h_pn_len hdr));
                Some (hdr\<lparr>h_pn := pn @ drop (unat (h_pn_len hdr)) (h_pn hdr)\<rparr>, pkt) })"

definition decode_short_hdr :: "nat \<Rightarrow> bool \<Rightarrow> nat \<Rightarrow> u32 \<Rightarrow> QUIC_PKT_HDR \<Rightarrow> hdr_reader" where
  "decode_short_hdr short_conn_id_len partial l b0 hdr pkt =
     (if short_conn_id_len > QUIC_MAX_CONN_ID_LEN then None
      else if and b0 0x40 = 0 \<or> l < QUIC_MIN_VALID_PKT_LEN_CRYPTO then None
      else
        let hdr = hdr\<lparr>h_type := QUIC_PKT_TYPE_1RTT, h_fixed := True, h_spin_bit := (and b0 0x20 \<noteq> 0)\<rparr>;
            hdr = (if partial then hdr\<lparr>h_key_phase := False, h_pn_len := 0, h_reserved := 0\<rparr>
                   else hdr\<lparr>h_key_phase := (and b0 0x04 \<noteq> 0), h_pn_len := ucast (and b0 0x03) + 1,
                            h_reserved := ucast (drop_bit 3 (and b0 0x18))\<rparr>)
        in do {
          (cid, pkt) \<leftarrow> PACKET_copy_bytes pkt short_conn_id_len;
          let hdr = hdr\<lparr>h_dst_conn_id := set_conn_id (h_dst_conn_id hdr) cid, h_pn := [0, 0, 0, 0]\<rparr>;
              pn = l - PACKET_remaining pkt
          in do {
            (hdr, pkt) \<leftarrow> decode_pn partial hdr pkt;
            let hdr = hdr\<lparr>h_version := 0, h_src_conn_id := (h_src_conn_id hdr)\<lparr>id_len := 0\<rparr>, h_token := None, h_token_len := 0,
                          h_len := PACKET_remaining pkt, h_data := Some (PACKET_data pkt)\<rparr>
            in do {
              pkt \<leftarrow> PACKET_forward pkt (h_len hdr);
              Some ((hdr, Some pn), pkt) } } })"

definition decode_version_neg :: "u32 \<Rightarrow> QUIC_PKT_HDR \<Rightarrow> hdr_reader" where
  "decode_version_neg b0 hdr pkt =
     (let hdr = hdr\<lparr>h_type := QUIC_PKT_TYPE_VERSION_NEG, h_fixed := (and b0 0x40 \<noteq> 0),
                    h_data := Some (PACKET_data pkt), h_len := PACKET_remaining pkt\<rparr>
      in if h_len hdr mod 4 \<noteq> 0 then None
         else
           let hdr = hdr\<lparr>h_partial := False, h_pn_len := 0, h_spin_bit := False, h_key_phase := False,
                         h_token := None, h_token_len := 0, h_pn := [0, 0, 0, 0]\<rparr>
           in do { pkt \<leftarrow> PACKET_forward pkt (h_len hdr); Some ((hdr, None), pkt) })"

definition decode_token :: "QUIC_PKT_HDR \<Rightarrow> QUIC_PKT_HDR reader" where
  "decode_token hdr pkt =
     (if h_type hdr = QUIC_PKT_TYPE_INITIAL then do {
        (len, pkt) \<leftarrow> PACKET_get_quic_vlint pkt;
        if unat len > SIZE_MAX then None
        else do {
          (token, pkt) \<leftarrow> PACKET_get_bytes pkt (unat len);
          Some (hdr\<lparr>h_token_len := unat len, h_token := (if len = 0 then None else Some token)\<rparr>, pkt) } }
      else Some (hdr\<lparr>h_token := None, h_token_len := 0\<rparr>, pkt))"

definition decode_retry :: "u32 \<Rightarrow> QUIC_PKT_HDR \<Rightarrow> hdr_reader" where
  "decode_retry b0 hdr pkt =
     (let hdr = hdr\<lparr>h_data := Some (PACKET_data pkt), h_len := PACKET_remaining pkt, h_partial := False,
                    h_unused := ucast (and b0 0x0f), h_pn := [0, 0, 0, 0]\<rparr>
      in do { pkt \<leftarrow> PACKET_forward pkt (h_len hdr); Some ((hdr, None), pkt) })"

definition decode_with_length :: "bool \<Rightarrow> bool \<Rightarrow> nat \<Rightarrow> u32 \<Rightarrow> QUIC_PKT_HDR \<Rightarrow> hdr_reader" where
  "decode_with_length partial nodata l b0 hdr pkt =
     (let hdr = hdr\<lparr>h_pn_len := (if partial then 0 else ucast (and b0 0x03) + 1),
                    h_reserved := (if partial then 0 else ucast (drop_bit 2 (and b0 0x0C)))\<rparr>
      in do {
        (len, pkt) \<leftarrow> PACKET_get_quic_vlint pkt;
        if len < 4 then None
        else if \<not> nodata \<and> unat len > PACKET_remaining pkt then None
        else
          let pn = l - PACKET_remaining pkt; hdr = hdr\<lparr>h_pn := [0, 0, 0, 0]\<rparr>
          in do {
            (hdr, pkt) \<leftarrow> decode_pn partial hdr pkt;
            let hdr = hdr\<lparr>h_len := unat (if partial then len - 4 else len - ucast (h_pn_len hdr))\<rparr>
            in if nodata then Some ((hdr\<lparr>h_data := None\<rparr>, Some pn), pkt)
               else
                 let hdr = hdr\<lparr>h_data := Some (PACKET_data pkt)\<rparr>
                 in do { pkt \<leftarrow> PACKET_forward pkt (h_len hdr); Some ((hdr, Some pn), pkt) } } })"

definition raw_type_to_type :: "u32 \<Rightarrow> u32" where
  "raw_type_to_type raw_type =
     (if raw_type = 0 then QUIC_PKT_TYPE_INITIAL else if raw_type = 1 then QUIC_PKT_TYPE_0RTT
      else if raw_type = 2 then QUIC_PKT_TYPE_HANDSHAKE else QUIC_PKT_TYPE_RETRY)"

definition decode_v1_hdr :: "bool \<Rightarrow> bool \<Rightarrow> nat \<Rightarrow> u32 \<Rightarrow> QUIC_PKT_HDR \<Rightarrow> hdr_reader" where
  "decode_v1_hdr partial nodata l b0 hdr pkt =
     (if l < QUIC_MIN_VALID_PKT_LEN_CRYPTO then None
      else
        let hdr = hdr\<lparr>h_type := raw_type_to_type (and (drop_bit 4 b0) 3), h_pn_len := 0, h_fixed := True,
                      h_spin_bit := False, h_key_phase := False\<rparr>
        in do {
          (hdr, pkt) \<leftarrow> decode_token hdr pkt;
          if h_type hdr = QUIC_PKT_TYPE_RETRY then decode_retry b0 hdr pkt
          else decode_with_length partial nodata l b0 hdr pkt })"

definition decode_long_hdr :: "bool \<Rightarrow> bool \<Rightarrow> nat \<Rightarrow> u32 \<Rightarrow> QUIC_PKT_HDR \<Rightarrow> hdr_reader" where
  "decode_long_hdr partial nodata l b0 hdr pkt =
     do { (version, pkt) \<leftarrow> PACKET_get_net_4 pkt;
          if version \<noteq> 0 \<and> and b0 0x40 = 0 then None
          else do {
            (dst_len, pkt) \<leftarrow> PACKET_get_1 pkt;
            if unat dst_len > QUIC_MAX_CONN_ID_LEN then None
            else do {
              (dst, pkt) \<leftarrow> PACKET_copy_bytes pkt (unat dst_len);
              (src_len, pkt) \<leftarrow> PACKET_get_1 pkt;
              if unat src_len > QUIC_MAX_CONN_ID_LEN then None
              else do {
                (src, pkt) \<leftarrow> PACKET_copy_bytes pkt (unat src_len);
                let hdr = hdr\<lparr>h_version := ucast version, h_dst_conn_id := set_conn_id (h_dst_conn_id hdr) dst,
                              h_src_conn_id := set_conn_id (h_src_conn_id hdr) src\<rparr>
                in if version = 0 then decode_version_neg b0 hdr pkt
                   else if version \<noteq> ucast QUIC_VERSION_1 then None
                   else decode_v1_hdr partial nodata l b0 hdr pkt } } } }"

definition ossl_quic_wire_decode_pkt_hdr ::
  "PACKET \<Rightarrow> nat \<Rightarrow> bool \<Rightarrow> bool \<Rightarrow> QUIC_PKT_HDR \<Rightarrow> ((QUIC_PKT_HDR \<times> QUIC_PKT_HDR_PTRS) \<times> PACKET) option" where
  "ossl_quic_wire_decode_pkt_hdr pkt short_conn_id_len partial nodata hdr =
     (let l = PACKET_remaining pkt;
          ptrs = \<lparr>raw_start = Some 0, raw_sample = None, raw_sample_len = 0, raw_pn = None\<rparr>
      in if l < QUIC_MIN_VALID_PKT_LEN then None
         else do {
           (b0, pkt) \<leftarrow> PACKET_get_1 pkt;
           let hdr = hdr\<lparr>h_partial := partial, h_unused := 0, h_reserved := 0\<rparr>
           in do {
             ((hdr, pn), pkt) \<leftarrow> (if and b0 0x80 = 0 then decode_short_hdr short_conn_id_len partial l b0 hdr pkt
                                  else decode_long_hdr partial nodata l b0 hdr pkt);
             Some ((hdr, case pn of
                 None \<Rightarrow> ptrs
               | Some n \<Rightarrow> ptrs\<lparr>raw_pn := Some n, raw_sample := Some (n + 4),
                               raw_sample_len := of_nat l - of_nat (n + 4)\<rparr>), pkt) } })"

text \<open>
  The encoder, block by block. A block fails, writes a header without packet number, or writes a
  header whose packet number field starts after as many bytes as the result says.
\<close>

datatype hdr_written = Hdr_failed | Hdr_no_pn | Hdr_pn nat

definition reserve_payload :: "QUIC_PKT_HDR \<Rightarrow> WPACKET \<Rightarrow> bool \<times> WPACKET" where
  "reserve_payload hdr pkt =
     (if h_len hdr > 0 then let (ok, _, pkt) = WPACKET_reserve_bytes pkt (h_len hdr) in (ok, pkt) else (True, pkt))"

definition write_pn :: "QUIC_PKT_HDR \<Rightarrow> bool \<times> WPACKET \<Rightarrow> hdr_written \<times> WPACKET" where
  "write_pn hdr = (\<lambda>(ok, pkt).
     if \<not> ok then (Hdr_failed, pkt)
     else
       let off_pn = WPACKET_get_total_written pkt;
           (ok, pkt) = WPACKET_memcpy pkt (h_pn hdr) (unat (h_pn_len hdr))
       in (if ok then Hdr_pn off_pn else Hdr_failed, pkt))"

definition of_flag :: "bool \<Rightarrow> u8" where
  "of_flag b = (if b then 1 else 0)"

definition short_b0 :: "QUIC_PKT_HDR \<Rightarrow> u8" where
  "short_b0 hdr =
     or (or (or (or (push_bit 5 (of_flag (h_spin_bit hdr))) (push_bit 2 (of_flag (h_key_phase hdr)))) (h_pn_len hdr - 1))
            (push_bit 3 (h_reserved hdr))) 0x40"

definition encode_short_hdr :: "nat \<Rightarrow> QUIC_PKT_HDR \<Rightarrow> WPACKET \<Rightarrow> hdr_written \<times> WPACKET" where
  "encode_short_hdr short_conn_id_len hdr pkt =
     (if unat (id_len (h_dst_conn_id hdr)) \<noteq> short_conn_id_len \<or> short_conn_id_len > QUIC_MAX_CONN_ID_LEN
         \<or> h_pn_len hdr < 1 \<or> h_pn_len hdr > 4 then (Hdr_failed, pkt)
      else
        write_pn hdr (all_ok [\<lambda>p. WPACKET_put_bytes p (ucast (short_b0 hdr)) 1,
                              \<lambda>p. WPACKET_memcpy p (cid_id (h_dst_conn_id hdr)) short_conn_id_len] pkt))"

definition type_to_raw_type :: "QUIC_PKT_HDR \<Rightarrow> u8 option" where
  "type_to_raw_type hdr =
     (if h_type hdr = QUIC_PKT_TYPE_VERSION_NEG then if h_version hdr \<noteq> 0 then None else Some 0
      else if h_type hdr = QUIC_PKT_TYPE_INITIAL then Some 0
      else if h_type hdr = QUIC_PKT_TYPE_0RTT then Some 1
      else if h_type hdr = QUIC_PKT_TYPE_HANDSHAKE then Some 2
      else if h_type hdr = QUIC_PKT_TYPE_RETRY then Some 3
      else None)"

definition long_b0 :: "QUIC_PKT_HDR \<Rightarrow> u8 \<Rightarrow> u8" where
  "long_b0 hdr raw_type =
     (let b0 = or (push_bit 4 raw_type) 0x80;
          b0 = (if h_type hdr \<noteq> QUIC_PKT_TYPE_VERSION_NEG \<or> h_fixed hdr then or b0 0x40 else b0);
          b0 = (if ossl_quic_pkt_type_has_pn (h_type hdr) then or (or b0 (h_pn_len hdr - 1)) (push_bit 2 (h_reserved hdr)) else b0)
      in if h_type hdr = QUIC_PKT_TYPE_RETRY then or b0 (h_unused hdr) else b0)"

definition token_mem :: "QUIC_PKT_HDR \<Rightarrow> u8 list" where
  "token_mem hdr = (case h_token hdr of None \<Rightarrow> [] | Some t \<Rightarrow> t)"

definition encode_long_hdr :: "QUIC_PKT_HDR \<Rightarrow> WPACKET \<Rightarrow> hdr_written \<times> WPACKET" where
  "encode_long_hdr hdr pkt =
     (if unat (id_len (h_dst_conn_id hdr)) > QUIC_MAX_CONN_ID_LEN \<or> unat (id_len (h_src_conn_id hdr)) > QUIC_MAX_CONN_ID_LEN
        then (Hdr_failed, pkt)
      else if ossl_quic_pkt_type_has_pn (h_type hdr) \<and> (h_pn_len hdr < 1 \<or> h_pn_len hdr > 4) then (Hdr_failed, pkt)
      else
        case type_to_raw_type hdr of None \<Rightarrow> (Hdr_failed, pkt)
        | Some raw_type \<Rightarrow>
            let (ok, pkt) = all_ok
                  [\<lambda>p. WPACKET_put_bytes p (ucast (long_b0 hdr raw_type)) 1,
                   \<lambda>p. WPACKET_put_bytes p (ucast (h_version hdr)) 4,
                   \<lambda>p. WPACKET_put_bytes p (ucast (id_len (h_dst_conn_id hdr))) 1,
                   \<lambda>p. WPACKET_memcpy p (cid_id (h_dst_conn_id hdr)) (unat (id_len (h_dst_conn_id hdr))),
                   \<lambda>p. WPACKET_put_bytes p (ucast (id_len (h_src_conn_id hdr))) 1,
                   \<lambda>p. WPACKET_memcpy p (cid_id (h_src_conn_id hdr)) (unat (id_len (h_src_conn_id hdr)))] pkt
            in if \<not> ok then (Hdr_failed, pkt)
               else if h_type hdr = QUIC_PKT_TYPE_VERSION_NEG \<or> h_type hdr = QUIC_PKT_TYPE_RETRY then
                 let (ok, pkt) = reserve_payload hdr pkt in (if ok then Hdr_no_pn else Hdr_failed, pkt)
               else
                 let (ok, pkt) = (if h_type hdr = QUIC_PKT_TYPE_INITIAL
                       then all_ok [\<lambda>p. WPACKET_quic_write_vlint p (of_nat (h_token_len hdr)),
                                    \<lambda>p. WPACKET_memcpy p (token_mem hdr) (h_token_len hdr)] pkt
                       else (True, pkt))
                 in if \<not> ok then (Hdr_failed, pkt)
                    else write_pn hdr (WPACKET_quic_write_vlint pkt (of_nat (h_len hdr + unat (h_pn_len hdr)))))"

definition ossl_quic_wire_encode_pkt_hdr ::
  "WPACKET \<Rightarrow> nat \<Rightarrow> QUIC_PKT_HDR \<Rightarrow> QUIC_PKT_HDR_PTRS option \<Rightarrow> bool \<times> QUIC_PKT_HDR_PTRS option \<times> WPACKET" where
  "ossl_quic_wire_encode_pkt_hdr pkt short_conn_id_len hdr ptrs =
     (let start = WPACKET_get_curr pkt; off_start = WPACKET_get_total_written pkt
      in if ptrs \<noteq> None \<and> w_staticbuf pkt = None then (False, ptrs, pkt)
      else
        let ptrs = map_option (\<lambda>_. \<lparr>raw_start = None, raw_sample = None, raw_sample_len = 0, raw_pn = None\<rparr>) ptrs
        in if h_partial hdr \<or> (h_type hdr = QUIC_PKT_TYPE_1RTT \<and> unat (id_len (h_dst_conn_id hdr)) \<noteq> short_conn_id_len)
             then (False, ptrs, pkt)
        else
          case (if h_type hdr = QUIC_PKT_TYPE_1RTT then encode_short_hdr short_conn_id_len hdr pkt
                else encode_long_hdr hdr pkt) of
            (Hdr_failed, pkt) \<Rightarrow> (False, ptrs, pkt)
          | (Hdr_no_pn, pkt) \<Rightarrow> (True, ptrs, pkt)
          | (Hdr_pn off_pn, pkt) \<Rightarrow>
              let (ok, pkt) = reserve_payload hdr pkt
              in if \<not> ok then (False, ptrs, pkt)
                 else
                   let off_sample = off_pn + 4
                   in (True,
                       case (ptrs, start, WPACKET_get_curr pkt) of
                         (Some _, Some start, Some cur) \<Rightarrow>
                           Some \<lparr>raw_start = Some start, raw_sample = Some (start + (off_sample - off_start)),
                                 raw_sample_len = of_nat (cur + h_len hdr) - of_nat (start + (off_sample - off_start)),
                                 raw_pn = Some (start + (off_pn - off_start))\<rparr>
                       | _ \<Rightarrow> ptrs,
                       pkt))"

definition ossl_quic_wire_get_encoded_pkt_hdr_len :: "nat \<Rightarrow> QUIC_PKT_HDR \<Rightarrow> nat" where
  "ossl_quic_wire_get_encoded_pkt_hdr_len short_conn_id_len hdr =
     (if h_partial hdr \<or> (h_type hdr = QUIC_PKT_TYPE_1RTT \<and> unat (id_len (h_dst_conn_id hdr)) \<noteq> short_conn_id_len) then 0
      else if h_type hdr = QUIC_PKT_TYPE_1RTT then
        if unat (id_len (h_dst_conn_id hdr)) \<noteq> short_conn_id_len \<or> short_conn_id_len > QUIC_MAX_CONN_ID_LEN
           \<or> h_pn_len hdr < 1 \<or> h_pn_len hdr > 4 then 0
        else 1 + short_conn_id_len + unat (h_pn_len hdr)
      else if unat (id_len (h_dst_conn_id hdr)) > QUIC_MAX_CONN_ID_LEN \<or> unat (id_len (h_src_conn_id hdr)) > QUIC_MAX_CONN_ID_LEN then 0
      else
        let len = 1 + 4 + 1 + unat (id_len (h_dst_conn_id hdr)) + 1 + unat (id_len (h_src_conn_id hdr))
        in if ossl_quic_pkt_type_has_pn (h_type hdr) \<and> (h_pn_len hdr < 1 \<or> h_pn_len hdr > 4) then 0
        else
          let len = (if ossl_quic_pkt_type_has_pn (h_type hdr) then len + unat (h_pn_len hdr) else len);
              enclen = ossl_quic_vlint_encode_len (of_nat (h_token_len hdr))
          in if h_type hdr = QUIC_PKT_TYPE_INITIAL \<and> enclen = 0 then 0
          else
            let len = (if h_type hdr = QUIC_PKT_TYPE_INITIAL then len + (enclen + h_token_len hdr) else len);
                enclen = ossl_quic_vlint_encode_len (of_nat (h_len hdr + unat (h_pn_len hdr)))
            in if \<not> ossl_quic_pkt_type_must_be_last (h_type hdr) then if enclen = 0 then 0 else len + enclen
               else len)"

definition ossl_quic_wire_get_pkt_hdr_dst_conn_id :: "u8 list \<Rightarrow> nat \<Rightarrow> nat \<Rightarrow> QUIC_CONN_ID \<Rightarrow> QUIC_CONN_ID option" where
  "ossl_quic_wire_get_pkt_hdr_dst_conn_id buf buf_len short_conn_id_len dst_conn_id =
     (if buf_len < QUIC_MIN_VALID_PKT_LEN \<or> short_conn_id_len > QUIC_MAX_CONN_ID_LEN then None
      else
        let b0 = buf ! 0
        in if and b0 0x80 \<noteq> 0 then
             if (buf ! 1 \<noteq> 0 \<or> buf ! 2 \<noteq> 0 \<or> buf ! 3 \<noteq> 0 \<or> buf ! 4 \<noteq> 0) \<and> and b0 0x40 = 0 then None
             else
               let blen = unat (buf ! 5)
               in if blen > QUIC_MAX_CONN_ID_LEN \<or> buf_len < QUIC_MIN_VALID_PKT_LEN + blen then None
                  else Some (set_conn_id dst_conn_id (take blen (drop 6 buf)))
           else if and b0 0x40 = 0 then None
           else if buf_len < QUIC_MIN_VALID_PKT_LEN_CRYPTO + short_conn_id_len then None
           else Some (set_conn_id dst_conn_id (take short_conn_id_len (drop 1 buf))))"

section \<open>Model: packet numbers\<close>

text \<open>The variables of type \<^verbatim>\<open>int64_t\<close> are words of 64 bits compared as signed numbers.\<close>

definition truncated_pn_of :: "u8 list \<Rightarrow> nat \<Rightarrow> u64 option" where
  "truncated_pn_of enc_pn enc_pn_len =
     (if enc_pn_len = 1 then Some (ucast (enc_pn ! 0))
      else if enc_pn_len = 2 then Some (or (push_bit 8 (ucast (enc_pn ! 0))) (ucast (enc_pn ! 1)))
      else if enc_pn_len = 3 then
        Some (or (or (push_bit 16 (ucast (enc_pn ! 0))) (push_bit 8 (ucast (enc_pn ! 1)))) (ucast (enc_pn ! 2)))
      else if enc_pn_len = 4 then
        Some (or (or (or (push_bit 24 (ucast (enc_pn ! 0))) (push_bit 16 (ucast (enc_pn ! 1))))
                     (push_bit 8 (ucast (enc_pn ! 2)))) (ucast (enc_pn ! 3)))
      else None)"

definition ossl_quic_wire_decode_pkt_hdr_pn :: "u8 list \<Rightarrow> nat \<Rightarrow> QUIC_PN \<Rightarrow> QUIC_PN option" where
  "ossl_quic_wire_decode_pkt_hdr_pn enc_pn enc_pn_len largest_pn =
     do { truncated_pn \<leftarrow> truncated_pn_of enc_pn enc_pn_len;
          let expected_pn = largest_pn + 1;
              pn_win = push_bit (enc_pn_len * 8) 1;
              pn_hwin = pn_win div 2;
              pn_mask = pn_win - 1;
              candidate_pn = or (and expected_pn (not pn_mask)) truncated_pn
          in if sint candidate_pn \<le> sint (expected_pn - pn_hwin) \<and> sint candidate_pn < sint (push_bit 62 1 - pn_win)
               then Some (candidate_pn + pn_win)
             else if sint candidate_pn > sint (expected_pn + pn_hwin) \<and> sint candidate_pn \<ge> sint pn_win
               then Some (candidate_pn - pn_win)
             else Some candidate_pn }"

definition ossl_quic_wire_determine_pn_len :: "QUIC_PN \<Rightarrow> QUIC_PN \<Rightarrow> nat" where
  "ossl_quic_wire_determine_pn_len pn largest_acked =
     (let num_unacked = (if largest_acked = QUIC_PN_INVALID then pn + 1 else pn - largest_acked)
      in if num_unacked \<le> push_bit 7 1 then 1
         else if num_unacked \<le> push_bit 15 1 then 2
         else if num_unacked \<le> push_bit 23 1 then 3
         else 4)"

definition ossl_quic_wire_encode_pkt_hdr_pn :: "QUIC_PN \<Rightarrow> u8 list \<Rightarrow> nat \<Rightarrow> u8 list option" where
  "ossl_quic_wire_encode_pkt_hdr_pn pn enc_pn enc_pn_len =
     (if enc_pn_len = 1 then Some (enc_pn[0 := ucast pn])
      else if enc_pn_len = 2 then Some (enc_pn[1 := ucast pn, 0 := ucast (drop_bit 8 pn)])
      else if enc_pn_len = 3 then Some (enc_pn[2 := ucast pn, 1 := ucast (drop_bit 8 pn), 0 := ucast (drop_bit 16 pn)])
      else if enc_pn_len = 4 then
        Some (enc_pn[3 := ucast pn, 2 := ucast (drop_bit 8 pn), 1 := ucast (drop_bit 16 pn), 0 := ucast (drop_bit 24 pn)])
      else None)"

section \<open>Model: the integrity tag of Retry packets\<close>

definition retry_integrity_key :: "u8 list" where
  "retry_integrity_key =
     [0xbe, 0x0c, 0x69, 0x0b, 0x9f, 0x66, 0x57, 0x5a, 0x1d, 0x76, 0x6b, 0x54, 0xe3, 0x68, 0xc8, 0x4e]"

definition retry_integrity_nonce :: "u8 list" where
  "retry_integrity_nonce = [0x46, 0x15, 0x99, 0xd3, 0x5d, 0x63, 0x2b, 0xf2, 0x23, 0x98, 0x25, 0xbb]"

text \<open>
  \<open>gcm_tag key nonce aad\<close> is the tag AES-128-GCM gives for additional data \<open>aad\<close> and no plaintext,
  \<open>None\<close> if the cipher cannot be fetched or reports an error. The two calls that feed the
  header and the body are one call on their concatenation.
\<close>

definition ossl_quic_calculate_retry_integrity_tag ::
  "(u8 list \<Rightarrow> u8 list \<Rightarrow> u8 list \<Rightarrow> u8 list option) \<Rightarrow> bool stream \<Rightarrow> QUIC_PKT_HDR \<Rightarrow> QUIC_CONN_ID option \<Rightarrow> u8 list option" where
  "ossl_quic_calculate_retry_integrity_tag gcm_tag alloc hdr client_initial_dcid =
     (case (h_data hdr, client_initial_dcid) of
        (Some data, Some dcid) \<Rightarrow>
          if h_type hdr \<noteq> QUIC_PKT_TYPE_RETRY \<or> h_version hdr = 0 \<or> h_len hdr < QUIC_RETRY_INTEGRITY_TAG_LEN
             \<or> unat (id_len dcid) > QUIC_MAX_CONN_ID_LEN then None
          else
            let hdr2 = hdr\<lparr>h_len := 0\<rparr>;
                (ok, wpkt) = WPACKET_init_static_len alloc (replicate 128 0) 0
            in if \<not> ok then None
            else
              let (ok, wpkt) = all_ok [\<lambda>p. WPACKET_put_bytes p (ucast (id_len dcid)) 1,
                                       \<lambda>p. WPACKET_memcpy p (cid_id dcid) (unat (id_len dcid))] wpkt
              in if \<not> ok then None
              else
                let (ok, _, wpkt) = ossl_quic_wire_encode_pkt_hdr wpkt (unat (id_len (h_dst_conn_id hdr2))) hdr2 None
                in if \<not> ok then None
                else
                  let hdr_enc_len = WPACKET_get_total_written wpkt;
                      buf = (case w_staticbuf wpkt of None \<Rightarrow> [] | Some b \<Rightarrow> b)
                  in gcm_tag retry_integrity_key retry_integrity_nonce
                       (take hdr_enc_len buf @ take (h_len hdr - QUIC_RETRY_INTEGRITY_TAG_LEN) data)
      | _ \<Rightarrow> None)"

definition ossl_quic_validate_retry_integrity_tag ::
  "(u8 list \<Rightarrow> u8 list \<Rightarrow> u8 list \<Rightarrow> u8 list option) \<Rightarrow> bool stream \<Rightarrow> QUIC_PKT_HDR option \<Rightarrow> QUIC_CONN_ID option \<Rightarrow> bool" where
  "ossl_quic_validate_retry_integrity_tag gcm_tag alloc hdr client_initial_dcid =
     (case hdr of
        None \<Rightarrow> False
      | Some hdr \<Rightarrow>
          if h_len hdr < QUIC_RETRY_INTEGRITY_TAG_LEN then False
          else
            case ossl_quic_calculate_retry_integrity_tag gcm_tag alloc hdr client_initial_dcid of
              None \<Rightarrow> False
            | Some expected_tag \<Rightarrow>
                let actual_tag = drop (h_len hdr - QUIC_RETRY_INTEGRITY_TAG_LEN) (case h_data hdr of None \<Rightarrow> [] | Some d \<Rightarrow> d)
                in take QUIC_RETRY_INTEGRITY_TAG_LEN expected_tag = take QUIC_RETRY_INTEGRITY_TAG_LEN actual_tag)"

end
