(* ===== verification/WirePktProt.thy ===== *)
theory WirePktProt
  imports WirePkt
begin

text \<open>
  Header protection and packet numbers: removing the protection of a header gives back the header
  it was applied to, and a packet number shortened by the sender is recovered by the receiver.
\<close>

section \<open>Header protection\<close>

text \<open>What is relied on of the ciphers: the lengths of their output.\<close>

definition hpr_ok :: "QUIC_HDR_PROTECTOR \<Rightarrow> bool" where
  "hpr_ok hpr \<longleftrightarrow> (\<forall>s d. hp_aes hpr s = Some d \<longrightarrow> length d = 16) \<and> (\<forall>s d. hp_chacha hpr s = Some d \<longrightarrow> length d = 5)"

lemma hdr_generate_mask_length:
  "hpr_ok hpr \<Longrightarrow> hdr_generate_mask hpr s n = Some m \<Longrightarrow> length m = 5"
  by (auto simp: hdr_generate_mask_def hpr_ok_def bind_eq_Some_conv split: if_splits)

lemma map2_xor_involution: "length xs \<le> length ys \<Longrightarrow> map2 xor (map2 xor xs ys) ys = (xs :: u8 list)"
  by (induction xs arbitrary: ys) (auto simp: Suc_le_length_iff xor.assoc)

lemma length_xor_pn: "n \<le> 4 \<Longrightarrow> length m = 5 \<Longrightarrow> n \<le> length pn \<Longrightarrow> length (xor_pn m pn n) = length pn"
  by (simp add: xor_pn_def)

lemma xor_pn_involution:
  assumes "n \<le> 4" "length m = 5" "n \<le> length pn"
  shows "xor_pn m (xor_pn m pn n) n = pn"
proof -
  have "length (take n pn) \<le> length (tl m)" using assms by simp
  then show ?thesis using assms by (simp add: xor_pn_def map2_xor_involution)
qed

text \<open>The mask leaves the header form bit alone, so both directions use the same part of it.\<close>

lemma mask_keeps_form:
  fixes b m :: u8
  shows "and (xor b (and m (if and b 0x80 \<noteq> 0 then 0xf else 0x1f))) 0x80 = and b 0x80"
proof -
  have "and 0xf 0x80 = (0 :: u8)" "and 0x1f 0x80 = (0 :: u8)" by simp_all
  then show ?thesis
    by (simp add: bit.conj_xor_distrib2 and.assoc)
qed

lemma mask_self_inverse:
  fixes b m :: u8
  defines "b' \<equiv> xor b (and m (if and b 0x80 \<noteq> 0 then 0xf else 0x1f))"
  shows "xor b' (and m (if and b' 0x80 \<noteq> 0 then 0xf else 0x1f)) = b"
  using mask_keeps_form [of b m] by (simp add: b'_def xor.assoc)

lemma first_byte_pn_len: "unat (and (b :: u8) 3) + 1 \<le> 4"
proof -
  have "and b 3 \<le> 3" by (rule word_and_le1)
  then show ?thesis by (simp add: word_le_nat_alt)
qed

lemma decrypt_encrypt_fields:
  assumes "hpr_ok hpr" "4 \<le> length pn"
    and "ossl_quic_hdr_protector_encrypt_fields hpr s n b pn = Some (b', pn')"
  shows "ossl_quic_hdr_protector_decrypt_fields hpr s n b' pn' = Some (b, pn)"
    "length pn' = length pn" "drop 4 pn' = drop 4 pn"
proof -
  let ?n = "unat (and b 3) + 1"
  obtain m where m: "hdr_generate_mask hpr s n = Some m"
    and b': "b' = xor b (and (m ! 0) (if and b 0x80 \<noteq> 0 then 0xf else 0x1f))" and pn': "pn' = xor_pn m pn ?n"
    using assms(3) by (auto simp: ossl_quic_hdr_protector_encrypt_fields_def Let_def bind_eq_Some_conv)
  have l: "length m = 5" by (rule hdr_generate_mask_length [OF assms(1) m])
  have n: "?n \<le> 4" "?n \<le> length pn" using first_byte_pn_len [of b] assms(2) by auto
  show "length pn' = length pn" unfolding pn' by (rule length_xor_pn [OF n(1) l n(2)])
  show "drop 4 pn' = drop 4 pn" unfolding pn' xor_pn_def using n l by simp
  have "xor b' (and (m ! 0) (if and b' 0x80 \<noteq> 0 then 0xf else 0x1f)) = b" unfolding b' by (rule mask_self_inverse)
  then show "ossl_quic_hdr_protector_decrypt_fields hpr s n b' pn' = Some (b, pn)"
    unfolding ossl_quic_hdr_protector_decrypt_fields_def m
    using xor_pn_involution [OF n(1) l n(2)] by (simp add: Let_def pn' bind.bind_lunit)
qed

text \<open>In the buffer that holds the packet: only the first byte and the packet number field change.\<close>

lemma protector_in_buffer:
  assumes "s < n" "n + 4 \<le> length buf" "length pn = length buf - n"
  shows "overwrite (buf[s := b]) n pn ! s = b" "drop n (overwrite (buf[s := b]) n pn) = pn"
    "length (overwrite (buf[s := b]) n pn) = length buf"
    "overwrite ((overwrite (buf[s := b]) n pn)[s := buf ! s]) n (drop n buf) = buf"
proof -
  have o: "overwrite (buf[s := b]) n pn = (take n buf)[s := b] @ pn"
    using assms by (simp add: overwrite_def take_update_swap)
  show "overwrite (buf[s := b]) n pn ! s = b" "drop n (overwrite (buf[s := b]) n pn) = pn"
    "length (overwrite (buf[s := b]) n pn) = length buf"
    using assms by (simp_all add: o nth_append)
  have "(take n buf)[s := buf ! s] = take n buf"
    using list_update_id [of "take n buf" s] assms(1) by simp
  then show "overwrite ((overwrite (buf[s := b]) n pn)[s := buf ! s]) n (drop n buf) = buf"
    using assms by (simp add: o overwrite_def list_update_append take_update_swap)
qed

lemma protection_inverse:
  assumes "hpr_ok hpr" and "raw_start ptrs = Some s" "raw_pn ptrs = Some n" "raw_sample ptrs = Some (n + 4)"
    and "s < n" "n + 4 \<le> length buf"
    and "ossl_quic_hdr_protector_encrypt hpr ptrs buf = Some buf'"
  shows "ossl_quic_hdr_protector_decrypt hpr ptrs buf' = Some buf \<and> length buf' = length buf
    \<and> (\<forall>i. i \<noteq> s \<longrightarrow> i < n \<or> n + 4 \<le> i \<longrightarrow> buf' ! i = buf ! i)
    \<and> (\<exists>m. buf' ! s = xor (buf ! s) (and m (if and (buf ! s) 0x80 \<noteq> 0 then 0xf else 0x1f)))"
proof -
  obtain b pn where enc: "ossl_quic_hdr_protector_encrypt_fields hpr (drop (n + 4) buf) (unat (raw_sample_len ptrs))
      (buf ! s) (drop n buf) = Some (b, pn)" and buf': "buf' = overwrite (buf[s := b]) n pn"
    using assms(7) by (auto simp: ossl_quic_hdr_protector_encrypt_def assms(2-4) bind_eq_Some_conv)
  have l: "4 \<le> length (drop n buf)" using assms(6) by simp
  note dec = decrypt_encrypt_fields [OF assms(1) l enc]
  have lp: "length pn = length buf - n" using dec(2) by simp
  note inb = protector_in_buffer [OF assms(5,6) lp, of b]
  have sample: "drop (n + 4) buf' = drop (n + 4) buf"
  proof -
    have "drop 4 (drop n buf') = drop 4 (drop n buf)" unfolding buf' inb(2) by (rule dec(3))
    then show ?thesis by (simp add: add.commute)
  qed
  have "ossl_quic_hdr_protector_decrypt hpr ptrs buf' = Some buf"
    using dec(1) inb unfolding ossl_quic_hdr_protector_decrypt_def assms(2-4)
    by (simp add: sample buf' [symmetric] bind.bind_lunit)
  moreover have "buf' ! i = buf ! i" if "i \<noteq> s" "i < n \<or> n + 4 \<le> i" for i
    using that(2)
  proof
    assume "i < n"
    then show ?thesis using that(1) assms(6) by (simp add: buf' overwrite_def nth_append)
  next
    assume i: "n + 4 \<le> i"
    show ?thesis
    proof (cases "i < length buf")
      case True
      then show ?thesis using i sample inb(3) by (metis buf' le_add_diff_inverse nth_drop assms(6))
    next
      case False
      then show ?thesis using i sample inb(3) nth_drop [of "n + 4" buf' "i - (n + 4)"] nth_drop [of "n + 4" buf "i - (n + 4)"] assms(6)
        by (simp add: buf')
    qed
  qed
  moreover have "\<exists>m. buf' ! s = xor (buf ! s) (and m (if and (buf ! s) 0x80 \<noteq> 0 then 0xf else 0x1f))"
    using enc inb(1) unfolding buf' by (auto simp: ossl_quic_hdr_protector_encrypt_fields_def Let_def bind_eq_Some_conv)
  ultimately show ?thesis using inb(3) by (auto simp: buf')
qed

section \<open>Packet numbers\<close>

lemma sint_diff:
  fixes a b :: u64
  assumes "unat a < 2 ^ 63" "unat b < 2 ^ 63"
  shows "sint (a - b) = int (unat a) - int (unat b)"
proof -
  let ?i = "int (unat a) - int (unat b)"
  have "sint (word_of_int ?i :: u64) = ?i"
    using assms by (simp only: signed_of_int) (simp add: signed_take_bit_int_eq_self del: of_nat_unat)
  moreover have "a - b = word_of_int ?i" by simp
  ultimately show ?thesis by (simp only:)
qed

lemma sint_nonneg:
  fixes a :: u64
  assumes "unat a < 2 ^ 63"
  shows "sint a = int (unat a)"
  using sint_diff [OF assms, of 0] by simp

lemma clear_low:
  fixes e :: u64
  shows "unat (and e (not (mask n))) = unat e div 2 ^ n * 2 ^ n"
proof -
  have "e = and e (not (mask n)) + take_bit n e"
  proof -
    have "and (and e (not (mask n))) (take_bit n e) = 0"
      by (rule bit_word_eqI) (simp add: bit_simps)
    then have "and e (not (mask n)) + take_bit n e = or (and e (not (mask n))) (take_bit n e)"
      by (rule disjunctive_add_eq_or)
    also have "\<dots> = e" by (rule bit_word_eqI) (auto simp: bit_simps)
    finally show ?thesis ..
  qed
  then have "and e (not (mask n)) = e - take_bit n e" by (metis add_diff_cancel_right')
  moreover have "take_bit n e \<le> e" by (simp add: word_le_nat_alt unsigned_take_bit_eq take_bit_nat_less_eq_self)
  moreover have "unat (take_bit n e) = unat e mod 2 ^ n" unfolding unsigned_take_bit_eq by (rule take_bit_eq_mod)
  ultimately have "unat (and e (not (mask n))) = unat e - unat e mod 2 ^ n"
    by (simp only: unat_sub)
  then show ?thesis by (simp add: minus_mod_eq_div_mult)
qed

lemma candidate_pn:
  fixes e pn :: u64
  shows "unat (or (and e (not (mask n))) (take_bit n pn)) = unat e div 2 ^ n * 2 ^ n + unat pn mod 2 ^ n"
    (is "unat (or ?a ?t) = _")
proof -
  have d: "and ?a ?t = 0" by (rule bit_word_eqI) (simp add: bit_simps)
  have t: "unat ?t = unat pn mod 2 ^ n" unfolding unsigned_take_bit_eq by (rule take_bit_eq_mod)
  have "or ?a ?t = ?a + ?t" using disjunctive_add_eq_or [OF d] by simp
  moreover have "unat (?a + ?t) = unat ?a + unat ?t"
  proof (cases "n < 64")
    case True
    have "unat e div 2 ^ n < 2 ^ (64 - n)"
    proof -
      have "(2 :: nat) ^ (64 - n) * 2 ^ n = 2 ^ 64" using True by (simp flip: power_add)
      then have "unat e < 2 ^ (64 - n) * 2 ^ n" using unat_bound [of e] by simp
      then show ?thesis by (simp add: less_mult_imp_div_less)
    qed
    then have "unat e div 2 ^ n + 1 \<le> 2 ^ (64 - n)" by simp
    then have "(unat e div 2 ^ n + 1) * 2 ^ n \<le> 2 ^ (64 - n) * 2 ^ n" by (rule mult_le_mono1)
    also have "\<dots> = 2 ^ 64" using True by (simp flip: power_add)
    finally have "unat e div 2 ^ n * 2 ^ n + 2 ^ n \<le> 2 ^ 64" by (simp add: add_mult_distrib)
    moreover have "unat pn mod 2 ^ n < 2 ^ n" by simp
    ultimately have "unat ?a + unat ?t < 2 ^ 64" unfolding clear_low t by linarith
    then show ?thesis by (simp add: unat_add_lem [THEN iffD1])
  next
    case False
    then have "?a = 0" by (intro bit_word_eqI) (simp add: bit_simps)
    then show ?thesis by simp
  qed
  ultimately show ?thesis by (simp add: clear_low t)
qed

lemma pn_cases: "1 \<le> k \<Longrightarrow> k \<le> 4 \<Longrightarrow> k = 1 \<or> k = 2 \<or> k = 3 \<or> k = (4 :: nat)"
  by arith

lemma truncated_pn_be_val:
  assumes "1 \<le> k" "k \<le> 4" "4 \<le> length enc"
  shows "truncated_pn_of enc k = Some (be_val (take k enc))"
proof -
  obtain a b c d ys where "enc = a # b # c # d # ys" using assms(3) by (auto simp: numeral_eq_Suc Suc_le_length_iff)
  then show ?thesis
    using pn_cases [OF assms(1,2)]
    by (elim disjE) (simp_all add: truncated_pn_of_def be_val_numeral be_val_1)
qed

lemma list_update_numeral:
  "(a # b # c # d # ys)[3 := v] = a # b # c # v # ys" "(a # b # c # ys)[2 := v] = a # b # v # ys"
  "(a # b # ys)[1 := v] = a # v # ys" "(a # ys)[0 := v] = v # ys"
  by (simp_all add: numeral_eq_Suc)

lemma encode_pn_be_bytes:
  assumes "1 \<le> k" "k \<le> 4" "4 \<le> length enc"
  shows "ossl_quic_wire_encode_pkt_hdr_pn pn enc k = Some (be_bytes k pn @ drop k enc)"
proof -
  obtain a b c d ys where enc: "enc = a # b # c # d # ys" using assms(3) by (auto simp: numeral_eq_Suc Suc_le_length_iff)
  note defs = ossl_quic_wire_encode_pkt_hdr_pn_def enc be_bytes_unfold list_update_numeral
  consider "k = 1" | "k = 2" | "k = 3" | "k = 4" using pn_cases [OF assms(1,2)] by blast
  then show ?thesis
  proof cases
    case 1 then show ?thesis by (simp add: defs)
  next
    case 2 then show ?thesis by (simp add: defs)
  next
    case 3 then show ?thesis by (simp add: defs)
  next
    case 4 then show ?thesis by (simp add: defs)
  qed
qed

text \<open>The window around the expected number that determines a packet number.\<close>

lemma window_unique:
  fixes e pn w :: nat
  defines "c \<equiv> e div (2 * w) * (2 * w) + pn mod (2 * w)"
  assumes w: "0 < w" and lo: "e < pn + w" and hi: "pn \<le> e + w"
  shows "c + w \<le> e \<Longrightarrow> pn = c + 2 * w"
    and "e + w < c \<Longrightarrow> c = pn + 2 * w"
    and "e < c + w \<Longrightarrow> c \<le> e + w \<Longrightarrow> c = pn"
proof -
  define q where "q = int (e div (2 * w)) - int (pn div (2 * w))"
  have "int pn = int (pn div (2 * w) * (2 * w) + pn mod (2 * w))" by (simp only: div_mult_mod_eq)
  then have "int pn = int (pn div (2 * w)) * (2 * int w) + int (pn mod (2 * w))"
    by (simp only: of_nat_add of_nat_mult of_nat_numeral)
  then have diff: "int c - int pn = q * (2 * int w)"
    by (simp add: c_def q_def left_diff_distrib)
  have ce: "int c - int e < 2 * int w" "int e - int c < 2 * int w"
  proof -
    obtain k where k: "e div (2 * w) * (2 * w) = k" by simp
    then have "e = k + e mod (2 * w)" "c = k + pn mod (2 * w)" "e mod (2 * w) < 2 * w" "pn mod (2 * w) < 2 * w"
      using div_mult_mod_eq [of e "2 * w"] w by (simp_all add: c_def)
    then show "int c - int e < 2 * int w" "int e - int c < 2 * int w" by linarith+
  qed
  have steps: "int c - int pn \<le> -4 * int w \<or> int c - int pn = -2 * int w \<or> int c - int pn = 0
      \<or> int c - int pn = 2 * int w \<or> 4 * int w \<le> int c - int pn"
  proof -
    consider "q \<le> -2" | "q = -1" | "q = 0" | "q = 1" | "2 \<le> q" by linarith
    then show ?thesis
      unfolding diff
      using mult_right_mono [of q "-2" "2 * int w"] mult_right_mono [of 2 q "2 * int w"] by cases simp_all
  qed
  have lh: "int e < int pn + int w" "int pn \<le> int e + int w" using lo hi by linarith+
  show "pn = c + 2 * w" if "c + w \<le> e"
  proof -
    have "int c + int w \<le> int e" using that by linarith
    with steps lh ce have "int pn = int c + 2 * int w" by linarith
    then show ?thesis by linarith
  qed
  show "c = pn + 2 * w" if "e + w < c"
  proof -
    have "int e + int w < int c" using that by linarith
    with steps lh ce have "int c = int pn + 2 * int w" by linarith
    then show ?thesis by linarith
  qed
  show "c = pn" if "e < c + w" "c \<le> e + w"
  proof -
    have "int e < int c + int w" "int c \<le> int e + int w" using that by linarith+
    with steps lh have "int c = int pn" by linarith
    then show ?thesis by simp
  qed
qed

lemma decode_pn_in_window:
  assumes k: "1 \<le> k" "k \<le> 4" and enc: "4 \<le> length enc" "take k enc = be_bytes k pn"
    and pn: "unat pn < 2 ^ 62" and e: "unat (largest_pn + 1) \<le> 2 ^ 62"
    and lo: "unat (largest_pn + 1) < unat pn + 2 ^ (8 * k - 1)" and hi: "unat pn \<le> unat (largest_pn + 1) + 2 ^ (8 * k - 1)"
  shows "ossl_quic_wire_decode_pkt_hdr_pn enc k largest_pn = Some pn"
proof -
  define w where "w = (2 :: nat) ^ (8 * k - 1)"
  define e where "e = largest_pn + 1"
  define W H :: u64 where "W = of_nat (2 * w)" and "H = of_nat w"
  define c where "c = or (and e (not (mask (8 * k)))) (take_bit (8 * k) pn)"
  have w: "0 < w" "2 * w \<le> 2 ^ 32" "(2 :: nat) ^ (8 * k) = 2 * w"
    using pn_cases [OF k] by (auto simp: w_def)
  have t: "truncated_pn_of enc k = Some (take_bit (8 * k) pn)"
    using truncated_pn_be_val [OF k enc(1)] by (simp add: enc(2) be_val_be_bytes)
  have win: "push_bit (k * 8) (1 :: u64) = W" "W - 1 = mask (8 * k)"
    unfolding W_def w(3) [symmetric] by (simp_all add: push_bit_eq_mult mask_eq_exp_minus_1 mult.commute)
  have uw: "unat W = 2 * w" "unat H = w"
    unfolding W_def H_def by (rule unat_of_nat_u64, use w(2) in simp)+
  have hwin: "W div 2 = H"
    by (rule word_unat_eq_iff [THEN iffD2]) (simp only: unat_div uw, simp)
  have uc: "unat c = unat e div (2 * w) * (2 * w) + unat pn mod (2 * w)"
    unfolding c_def candidate_pn w(3) ..
  note u = window_unique [OF w(1), of "unat e" "unat pn", folded uc]
  have c: "unat c < 2 ^ 62 + 2 ^ 32"
  proof -
    have "unat e div (2 * w) * (2 * w) \<le> unat e" by simp
    moreover have "unat pn mod (2 * w) < 2 * w" using w(1) by simp
    ultimately show ?thesis using e w(2) unfolding uc e_def by linarith
  qed
  have plus: "unat (e + H) = unat e + w"
    using e w(2) by (subst unat_word_ariths(1)) (simp add: uw e_def)
  have s: "sint c = int (unat c)" "sint (e - H) = int (unat e) - int w"
    "sint (e + H) = int (unat e) + int w" "sint W = int (2 * w)"
    "sint (push_bit 62 (1 :: u64) - W) = 2 ^ 62 - int (2 * w)"
    using c e w(2) plus uw sint_nonneg [of c] sint_diff [of e H] sint_nonneg [of "e + H"]
      sint_nonneg [of W] sint_diff [of "push_bit 62 1" W]
    by (simp_all add: e_def)
  have d: "ossl_quic_wire_decode_pkt_hdr_pn enc k largest_pn =
    (if int (unat c) \<le> int (unat e) - int w \<and> int (unat c) < 2 ^ 62 - int (2 * w) then Some (c + W)
     else if int (unat c) > int (unat e) + int w \<and> int (unat c) \<ge> int (2 * w) then Some (c - W)
     else Some c)"
    unfolding ossl_quic_wire_decode_pkt_hdr_pn_def t
    by (simp only: Let_def win hwin e_def [symmetric] c_def [symmetric] s bind.bind_lunit)
  consider (below) "unat c + w \<le> unat e" | (above) "unat e + w < unat c"
    | (within) "unat e < unat c + w" "unat c \<le> unat e + w" by linarith
  then show ?thesis
  proof cases
    case below
    then have p: "unat pn = unat c + 2 * w" using u(1) lo hi by (simp add: e_def w_def)
    then have "c + W = pn"
      by (intro word_unat_eq_iff [THEN iffD2]) (use c w(2) in \<open>simp add: unat_word_ariths(1) uw\<close>)
    moreover have "int (unat c) \<le> int (unat e) - int w" using below by linarith
    moreover have "int (unat c) < 2 ^ 62 - int (2 * w)" using p pn by (simp del: of_nat_unat)
    ultimately show ?thesis unfolding d by simp
  next
    case above
    then have p: "unat c = unat pn + 2 * w" using u(2) lo hi by (simp add: e_def w_def)
    then have "c = pn + W"
      by (intro word_unat_eq_iff [THEN iffD2]) (use c w(2) in \<open>simp add: unat_word_ariths(1) uw\<close>)
    moreover have "int (unat c) > int (unat e) + int w" using above by linarith
    moreover have "int (unat c) \<ge> int (2 * w)" using p by linarith
    ultimately show ?thesis unfolding d by simp
  next
    case within
    then have "unat c = unat pn" using u(3) lo hi by (simp add: e_def w_def)
    then have "c = pn" by (rule word_unat_eq_iff [THEN iffD2])
    moreover have "\<not> int (unat c) \<le> int (unat e) - int w" "\<not> int (unat c) > int (unat e) + int w"
      using within by linarith+
    ultimately show ?thesis unfolding d by simp
  qed
qed

lemma determine_pn_len_range: "1 \<le> ossl_quic_wire_determine_pn_len pn a" "ossl_quic_wire_determine_pn_len pn a \<le> 4"
  by (auto simp: ossl_quic_wire_determine_pn_len_def Let_def)

lemma num_unacked: "(if a = QUIC_PN_INVALID then pn + 1 else pn - a) = pn - a"
  by (simp add: QUIC_PN_INVALID_def)

lemma determine_pn_len_enough:
  assumes "unat (pn - a) \<le> 2 ^ 31"
  shows "unat (pn - a) \<le> 2 ^ (8 * ossl_quic_wire_determine_pn_len pn a - 1)"
  using assms unfolding ossl_quic_wire_determine_pn_len_def num_unacked Let_def
  by (auto simp: word_le_nat_alt)

section \<open>Properties\<close>

text \<open>C36: Header protection round trip. The sender applies protection to a packet in its
  buffer (\<^verbatim>\<open>ossl_quic_hdr_protector_encrypt\<close>), the receiver removes it
  (\<^verbatim>\<open>ossl_quic_hdr_protector_decrypt\<close>): the receiver gets exactly the packet the sender had, and in between
  only the first byte and the four bytes of the packet number field can differ, so that the sample both
  sides derive the mask from is the same. This holds for every cipher whose output has the right length, although the
  receiver learns the length of the packet number only after it has removed the mask from the first byte.
\<close>

theorem header_protection_roundtrip:
  assumes "hpr_ok hpr" and "raw_start ptrs = Some s" "raw_pn ptrs = Some n" "raw_sample ptrs = Some (n + 4)"
    and "s < n" "n + 4 \<le> length buf"
    and "ossl_quic_hdr_protector_encrypt hpr ptrs buf = Some buf'"
  shows "ossl_quic_hdr_protector_decrypt hpr ptrs buf' = Some buf \<and> length buf' = length buf
    \<and> (\<forall>i. i \<noteq> s \<longrightarrow> i < n \<or> n + 4 \<le> i \<longrightarrow> buf' ! i = buf ! i)"
  using protection_inverse [OF assms] by blast

theorem header_protection_roundtrip_witness:
  "\<exists>hpr ptrs buf'. hpr_ok hpr \<and> ossl_quic_hdr_protector_encrypt hpr ptrs (0xc1 # replicate 29 7) = Some buf'
    \<and> buf' \<noteq> 0xc1 # replicate 29 7 \<and> ossl_quic_hdr_protector_decrypt hpr ptrs buf' = Some (0xc1 # replicate 29 7)"
proof -
  let ?hpr = "\<lparr>cipher_id = QUIC_HDR_PROT_CIPHER_AES_128, hp_aes = \<lambda>s. Some (take 16 (s @ replicate 16 0)),
    hp_chacha = \<lambda>s. Some [1, 2, 3, 4, 5]\<rparr>"
  let ?ptrs = "\<lparr>raw_start = Some 0, raw_sample = Some (5 + 4), raw_sample_len = 21, raw_pn = Some 5\<rparr>"
  let ?buf = "0xc1 # replicate 29 7 :: u8 list"
  let ?buf' = "[0xc6, 7, 7, 7, 7, 0, 0] @ replicate 23 7 :: u8 list"
  have ok: "hpr_ok ?hpr" by (auto simp: hpr_ok_def)
  have e: "ossl_quic_hdr_protector_encrypt ?hpr ?ptrs ?buf = Some ?buf'"
    by code_simp
  have "ossl_quic_hdr_protector_decrypt ?hpr ?ptrs ?buf' = Some ?buf"
    using header_protection_roundtrip [OF ok _ _ _ _ _ e, of 0 5] by simp
  then show ?thesis using ok e by (intro exI [of _ ?hpr] exI [of _ ?ptrs] exI [of _ ?buf']) simp
qed

text \<open>C11: Packet number round trip. The sender chooses a length from the packet number and the largest
  number the peer acknowledged (\<^verbatim>\<open>ossl_quic_wire_determine_pn_len\<close>) and truncates the number to it
  (\<^verbatim>\<open>ossl_quic_wire_encode_pkt_hdr_pn\<close>). The receiver expands it relative to the largest
  number it has processed (\<^verbatim>\<open>ossl_quic_wire_decode_pkt_hdr_pn\<close>) and gets the sender's number, provided it has processed
  what it acknowledged, at most \<open>2\<^sup>3\<^sup>1\<close> numbers are unacknowledged, and it is not ahead by half a window.
  The arithmetic is on signed 64-bit integers as in the code, at both ends of the range of packet numbers.
\<close>

theorem pn_roundtrip:
  assumes "unat pn < 2 ^ 62" and "k = ossl_quic_wire_determine_pn_len pn acked"
    and "acked = QUIC_PN_INVALID \<or> (acked < pn \<and> largest \<noteq> QUIC_PN_INVALID \<and> acked \<le> largest)"
    and "unat (pn - acked) \<le> 2 ^ 31" and "unat (largest + 1) \<le> 2 ^ 62"
    and "unat (largest + 1) < unat pn + 2 ^ (8 * k - 1)" and "4 \<le> length enc"
  shows "1 \<le> k \<and> k \<le> 4 \<and> (\<exists>enc'. ossl_quic_wire_encode_pkt_hdr_pn pn enc k = Some enc' \<and> length enc' = length enc
    \<and> ossl_quic_wire_decode_pkt_hdr_pn enc' k largest = Some pn)"
proof -
  have k: "1 \<le> k" "k \<le> 4" unfolding assms(2) by (rule determine_pn_len_range)+
  have u: "unat (pn - acked) \<le> 2 ^ (8 * k - 1)" unfolding assms(2) by (rule determine_pn_len_enough [OF assms(4)])
  have hi: "unat pn \<le> unat (largest + 1) + 2 ^ (8 * k - 1)"
    using assms(3)
  proof
    assume "acked = QUIC_PN_INVALID"
    then have "pn - acked = pn + 1" by (simp add: QUIC_PN_INVALID_def)
    moreover have "unat (pn + 1) = unat pn + 1" using assms(1) by (simp add: unat_word_ariths(1))
    ultimately have "unat pn + 1 \<le> 2 ^ (8 * k - 1)" using u by (simp only:)
    then show ?thesis by linarith
  next
    assume a: "acked < pn \<and> largest \<noteq> QUIC_PN_INVALID \<and> acked \<le> largest"
    have "unat (largest + 1) = unat largest + 1"
    proof -
      have "unat largest \<noteq> unat (- 1 :: u64)" using a by (auto simp: QUIC_PN_INVALID_def word_unat_eq_iff [symmetric])
      then have "unat largest + 1 < 2 ^ 64" using unat_bound [of largest] by (simp add: unat_minus_one_word)
      then show ?thesis by (simp add: unat_word_ariths(1))
    qed
    moreover have "unat (pn - acked) = unat pn - unat acked" using a by (intro unat_sub) (simp add: less_imp_le)
    moreover have "unat acked \<le> unat largest" "unat acked < unat pn" using a by (simp_all add: word_le_nat_alt word_less_nat_alt)
    ultimately show ?thesis using u by linarith
  qed
  let ?enc = "be_bytes k pn @ drop k enc"
  have "ossl_quic_wire_decode_pkt_hdr_pn ?enc k largest = Some pn"
    by (rule decode_pn_in_window [OF k _ _ assms(1,5,6) hi]) (use k assms(7) in simp_all)
  then show ?thesis using k encode_pn_be_bytes [OF k assms(7), of pn] assms(7) by simp
qed

theorem pn_roundtrip_witness:
  "ossl_quic_wire_determine_pn_len 0xac5c02 0xabe8b3 = 2
    \<and> (\<exists>enc'. ossl_quic_wire_encode_pkt_hdr_pn 0xac5c02 [0, 0, 0, 0] 2 = Some enc'
      \<and> ossl_quic_wire_decode_pkt_hdr_pn enc' 2 0xac5c00 = Some 0xac5c02)"
proof -
  have k: "2 = ossl_quic_wire_determine_pn_len 0xac5c02 0xabe8b3"
    by (simp add: ossl_quic_wire_determine_pn_len_def QUIC_PN_INVALID_def)
  show ?thesis
    using pn_roundtrip [of "0xac5c02" 2 "0xabe8b3" "0xac5c00" "[0, 0, 0, 0]", OF _ k] k
    by (auto simp: QUIC_PN_INVALID_def)
qed

end
