(* ===== verification/WirePktHdr.thy ===== *)
theory WirePktHdr
  imports WirePktProt
begin

text \<open>
  Packet headers, written and read: the bytes the encoder appends, what the decoder makes of
  them, and the parts of a packet the header protector is pointed at.
\<close>

section \<open>The first byte\<close>

lemma and_ucast_u32: "and (ucast (b :: u8)) (m :: u32) = ucast (and b (ucast m))"
  by (rule bit_word_eqI) (auto simp: bit_simps dest: bit_imp_le_length)

lemma drop_bit_ucast_u32: "drop_bit n (ucast (b :: u8) :: u32) = ucast (drop_bit n b)"
  by (rule bit_word_eqI) (auto simp: bit_simps dest: bit_imp_le_length)

lemma ucast_u32_eq_0 [simp]: "ucast (b :: u8) = (0 :: u32) \<longleftrightarrow> b = 0"
proof
  assume "ucast b = (0 :: u32)"
  then have "ucast (ucast b :: u32) = (0 :: u8)" by simp
  then show "b = 0" by simp
qed simp

lemma u8_less_4: "(r :: u8) < 4 \<Longrightarrow> r = 0 \<or> r = 1 \<or> r = 2 \<or> r = 3"
  by (simp add: word_less_nat_alt word_unat_eq_iff, arith)

lemma u8_pn_len: "1 \<le> (k :: u8) \<Longrightarrow> k \<le> 4 \<Longrightarrow> k = 1 \<or> k = 2 \<or> k = 3 \<or> k = 4"
  by (simp add: word_le_nat_alt word_unat_eq_iff, arith)

lemma short_b0_bits:
  assumes "1 \<le> h_pn_len hdr" "h_pn_len hdr \<le> 4" "h_reserved hdr < 4"
  shows "and (short_b0 hdr) 0x80 = 0" "and (short_b0 hdr) 0x40 \<noteq> 0" "and (short_b0 hdr) 0x20 \<noteq> 0 \<longleftrightarrow> h_spin_bit hdr"
    "and (short_b0 hdr) 4 \<noteq> 0 \<longleftrightarrow> h_key_phase hdr" "and (short_b0 hdr) 3 + 1 = h_pn_len hdr"
    "drop_bit 3 (and (short_b0 hdr) 0x18) = h_reserved hdr"
  using u8_pn_len [OF assms(1,2)] u8_less_4 [OF assms(3)]
  by (elim disjE; simp add: short_b0_def of_flag_def)+

section \<open>What the decoder makes of the bytes of a packet\<close>

lemma get_1_at: "packet_wf p \<Longrightarrow> pdata p = b # r \<Longrightarrow> PACKET_get_1 p = Some (ucast b, packet_forward p 1)"
  by (simp add: PACKET_get_1_eq)

lemma copy_bytes_at:
  "packet_wf p \<Longrightarrow> pdata p = bs @ r \<Longrightarrow> n = length bs \<Longrightarrow> PACKET_copy_bytes p n = Some (bs, packet_forward p n)"
  by (simp add: PACKET_copy_bytes_eq)

lemma get_net_4_at:
  "packet_wf p \<Longrightarrow> pdata p = be_bytes 4 v @ r \<Longrightarrow> unat v < 2 ^ 32 \<Longrightarrow> PACKET_get_net_4 p = Some (v, packet_forward p 4)"
  by (simp add: PACKET_get_net_eq be_val_be_bytes take_bit_unat_self)

lemma forward_at: "packet_wf p \<Longrightarrow> n \<le> length (pdata p) \<Longrightarrow> PACKET_forward p n = Some (packet_forward p n)"
  by (simp add: PACKET_forward_eq)

lemmas read_at = get_1_at copy_bytes_at get_net_4_at forward_at PACKET_get_quic_vlint_enc

text \<open>
  The packet number field: four bytes are skipped in a partial decode, otherwise as many are
  copied as the header says.
\<close>

lemma decode_pn_at:
  assumes "packet_wf p" "pdata p = pnf @ rest" "length pnf = (if partial then 4 else unat (h_pn_len hdr))"
  shows "decode_pn partial hdr p =
    Some (if partial then hdr else hdr\<lparr>h_pn := pnf @ drop (length pnf) (h_pn hdr)\<rparr>, packet_forward p (length pnf))"
  using assms by (simp add: decode_pn_def PACKET_copy_bytes_eq PACKET_forward_eq)

definition pn_field_len :: "bool \<Rightarrow> u8 \<Rightarrow> nat" where
  "pn_field_len partial b0 = (if partial then 4 else unat (and b0 3 + 1))"

lemma unat_pn_len: "unat (and (b :: u8) 3 + 1) = unat (and b 3) + 1" "unat (and (b :: u8) 3 + 1) \<le> 4"
proof -
  have "unat (and b 3) + 1 \<le> 4" by (rule first_byte_pn_len)
  moreover from this show "unat (and b 3 + 1) = unat (and b 3) + 1" by (simp add: unat_word_ariths(1))
  ultimately show "unat (and b 3 + 1) \<le> 4" by simp
qed

text \<open>What a decode fills in, for the packet number and the fields of the first byte.\<close>

definition decoded_short :: "bool \<Rightarrow> u8 \<Rightarrow> u8 list \<Rightarrow> u8 list \<Rightarrow> nat \<Rightarrow> u8 list \<Rightarrow> QUIC_PKT_HDR \<Rightarrow> QUIC_PKT_HDR" where
  "decoded_short partial b0 cid pnf len data hdr = hdr\<lparr>
     h_type := QUIC_PKT_TYPE_1RTT, h_fixed := True, h_spin_bit := (and b0 0x20 \<noteq> 0),
     h_key_phase := (\<not> partial \<and> and b0 4 \<noteq> 0), h_pn_len := (if partial then 0 else and b0 3 + 1),
     h_reserved := (if partial then 0 else drop_bit 3 (and b0 0x18)),
     h_dst_conn_id := set_conn_id (h_dst_conn_id hdr) cid,
     h_pn := (if partial then [0, 0, 0, 0] else pnf @ drop (length pnf) [0, 0, 0, 0]),
     h_version := 0, h_src_conn_id := (h_src_conn_id hdr)\<lparr>id_len := 0\<rparr>, h_token := None, h_token_len := 0,
     h_len := len, h_data := Some data\<rparr>"

lemma decode_short_at:
  assumes wf: "packet_wf p" and d: "pdata p = cid @ pnf @ rest" and n: "length cid = n" "n \<le> 20" and l: "21 \<le> l"
    and b0: "and b0 0x40 \<noteq> 0" and pnf: "length pnf = pn_field_len partial b0"
  shows "decode_short_hdr n partial l (ucast b0) hdr p =
    Some ((decoded_short partial b0 cid pnf (length rest) (drop (n + length pnf) (p_curr p)) hdr,
           Some (l - (p_remaining p - n))), packet_forward p (length (pdata p)))"
proof -
  let ?q = "packet_forward p n"
  have q: "packet_wf ?q" "pdata ?q = pnf @ rest" using wf d n by simp_all
  have r: "p_remaining p = n + length pnf + length rest" using length_pdata [OF wf] d n by simp
  have c: "PACKET_copy_bytes p n = Some (cid, ?q)" using copy_bytes_at [OF wf d] n by simp
  have k: "ucast (and (ucast b0) 3 :: u32) + 1 = and b0 3 + (1 :: u8)" "ucast (and (drop_bit 3 (ucast b0)) 3 :: u32) = and (drop_bit 3 b0) 3"
    by (simp_all add: and_ucast_u32 drop_bit_ucast_u32)
  have b: "and (ucast b0) 64 \<noteq> (0 :: u32)" "(and (ucast b0) 32 = (0 :: u32)) = (and b0 32 = 0)" "(and (ucast b0) 4 = (0 :: u32)) = (and b0 4 = 0)"
    using b0 by (simp_all add: and_ucast_u32)
  show ?thesis
  proof (cases partial)
    case True
    then have "length pnf = 4" using pnf by (simp add: pn_field_len_def)
    then show ?thesis
      using True n l b r q
      by (simp add: decode_short_hdr_def c decode_pn_at pkt_types QUIC_MAX_CONN_ID_LEN_def Let_def PACKET_remaining_def PACKET_data_def
          PACKET_forward_def decoded_short_def d add.assoc)
  next
    case False
    then have "length pnf = unat (and b0 3 + 1)" using pnf by (simp add: pn_field_len_def)
    then show ?thesis
      using False n l b r q
      by (simp add: decode_short_hdr_def c decode_pn_at pkt_types QUIC_MAX_CONN_ID_LEN_def Let_def PACKET_remaining_def PACKET_data_def
          PACKET_forward_def decoded_short_def d k add.assoc)
  qed
qed

lemma decode_with_length_at:
  assumes wf: "packet_wf p" and d: "pdata p = vl len @ pnf @ body @ rest" and len: "vl_ok len" "4 \<le> unat len" "unat len = length pnf + length body"
    and pnf: "length pnf = pn_field_len partial b0"
  shows "decode_with_length partial False l (ucast b0) hdr p =
    Some ((hdr\<lparr>h_pn_len := (if partial then 0 else and b0 3 + 1), h_reserved := (if partial then 0 else drop_bit 2 (and b0 0xC)),
                h_pn := (if partial then [0, 0, 0, 0] else pnf @ drop (length pnf) [0, 0, 0, 0]),
                h_len := length body, h_data := Some (drop (length (vl len) + length pnf) (p_curr p))\<rparr>,
           Some (l - (p_remaining p - length (vl len)))), packet_forward p (length (vl len) + unat len))"
proof -
  let ?q = "packet_forward p (length (vl len))"
  have v: "PACKET_get_quic_vlint p = Some (len, ?q)" by (rule PACKET_get_quic_vlint_enc [OF wf len(1) d])
  have q: "packet_wf ?q" "pdata ?q = pnf @ body @ rest" using wf d by simp_all
  have r: "p_remaining p = length (vl len) + length pnf + length body + length rest" using length_pdata [OF wf] d by simp
  have l4: "\<not> len < 4" using len(2) by (simp add: word_less_nat_alt)
  have k: "ucast (and (ucast b0) 3 :: u32) + 1 = and b0 3 + (1 :: u8)" "ucast (and (drop_bit 2 (ucast b0)) 3 :: u32) = and (drop_bit 2 b0) 3"
    by (simp_all add: and_ucast_u32 drop_bit_ucast_u32)
  have k4: "unat (and b0 3 + 1) \<le> 4" by (rule unat_pn_len)
  show ?thesis
  proof (cases partial)
    case True
    then have "length pnf = 4" using pnf by (simp add: pn_field_len_def)
    moreover have "unat (len - 4) = unat len - 4" using len(2) by (simp add: unat_sub word_le_nat_alt)
    ultimately show ?thesis
      using True q r len(3)
      by (simp add: decode_with_length_def v l4 decode_pn_at Let_def PACKET_remaining_def PACKET_data_def PACKET_forward_def add.assoc)
  next
    case False
    then have p: "length pnf = unat (and b0 3 + 1)" using pnf by (simp add: pn_field_len_def)
    have "unat (ucast (and b0 3 + 1 :: u8) :: u64) = unat (and b0 3 + 1)" by (rule unat_ucast_u8)
    then have "unat (len - ucast (and b0 3 + 1 :: u8)) = unat len - unat (and b0 3 + 1)"
      using len(3) p by (subst unat_sub) (simp_all add: word_le_nat_alt)
    then show ?thesis
      using False q r len(3) p
      by (simp add: decode_with_length_def v l4 decode_pn_at Let_def PACKET_remaining_def PACKET_data_def PACKET_forward_def k add.assoc)
  qed
qed

lemma decode_token_at:
  assumes "packet_wf p" "pdata p = (if h_type hdr = QUIC_PKT_TYPE_INITIAL then vl (of_nat (length tok)) @ tok else []) @ rest"
    "length tok < 2 ^ 62"
  shows "decode_token hdr p =
    (if h_type hdr = QUIC_PKT_TYPE_INITIAL
     then Some (hdr\<lparr>h_token_len := length tok, h_token := (if tok = [] then None else Some (drop (length (vl (of_nat (length tok)))) (p_curr p)))\<rparr>,
                packet_forward p (length (vl (of_nat (length tok))) + length tok))
     else Some (hdr\<lparr>h_token := None, h_token_len := 0\<rparr>, p))"
proof (cases "h_type hdr = QUIC_PKT_TYPE_INITIAL")
  case True
  let ?v = "of_nat (length tok) :: u64"
  have u: "unat ?v = length tok" using assms(3) by (simp add: unat_of_nat_u64)
  have "PACKET_get_quic_vlint p = Some (?v, packet_forward p (length (vl ?v)))"
    using assms True u by (intro PACKET_get_quic_vlint_enc [OF assms(1), of _ "tok @ rest"]) auto
  moreover have "?v = 0 \<longleftrightarrow> tok = []" using u by (metis length_0_conv unat_eq_0)
  ultimately show ?thesis
    using True assms u by (auto simp: decode_token_def PACKET_get_bytes_eq)
qed (simp add: decode_token_def)

lemma decode_long_at:
  fixes b0 :: u8
  assumes wf: "packet_wf p" and d: "pdata p = be_bytes 4 (ucast v) @ dl # dst @ sl # src @ rest"
    and len: "length dst = unat dl" "length src = unat sl" "unat dl \<le> 20" "unat sl \<le> 20"
    and b0: "v = 0 \<or> and b0 0x40 \<noteq> 0"
  shows "decode_long_hdr partial nodata l (ucast b0) hdr p =
    (let hdr = hdr\<lparr>h_version := v, h_dst_conn_id := set_conn_id (h_dst_conn_id hdr) dst,
                   h_src_conn_id := set_conn_id (h_src_conn_id hdr) src\<rparr>;
         q = packet_forward p (6 + unat dl + unat sl)
     in if v = 0 then decode_version_neg (ucast b0) hdr q
        else if v \<noteq> QUIC_VERSION_1 then None
        else decode_v1_hdr partial nodata l (ucast b0) hdr q)"
proof -
  have v: "unat (ucast v :: u64) < 2 ^ 32" using unat_bound [of v] by (simp add: unsigned_ucast_eq take_bit_nat_eq_self)
  have v0: "(ucast v :: u64) = 0 \<longleftrightarrow> v = 0" "(ucast v :: u64) = ucast QUIC_VERSION_1 \<longleftrightarrow> v = QUIC_VERSION_1" "ucast (ucast v :: u64) = v"
  proof -
    show u: "ucast (ucast v :: u64) = v" for v :: u32 by (rule bit_word_eqI) (simp add: bit_simps)
    show "(ucast v :: u64) = 0 \<longleftrightarrow> v = 0" using u [of v] by auto
    show "(ucast v :: u64) = ucast QUIC_VERSION_1 \<longleftrightarrow> v = QUIC_VERSION_1" using u by metis
  qed
  have b: "v \<noteq> 0 \<Longrightarrow> and (ucast b0) 0x40 \<noteq> (0 :: u32)" using b0 by (auto simp: and_ucast_u32)
  have dl: "unat (ucast dl :: u32) = unat dl" "unat (ucast sl :: u32) = unat sl" for dl sl :: u8
    by (simp_all add: unat_ucast_u8)
  let ?p1 = "packet_forward p 4"
  have 1: "PACKET_get_net_4 p = Some (ucast v, ?p1)" by (rule get_net_4_at [OF wf d v])
  have 2: "PACKET_get_1 ?p1 = Some (ucast dl, packet_forward p 5)" using get_1_at [of ?p1 dl] wf d by simp
  have 3: "PACKET_copy_bytes (packet_forward p 5) (unat dl) = Some (dst, packet_forward p (5 + unat dl))"
    using copy_bytes_at [of "packet_forward p 5" dst "sl # src @ rest" "unat dl"] wf d len by simp
  have 4: "PACKET_get_1 (packet_forward p (5 + unat dl)) = Some (ucast sl, packet_forward p (6 + unat dl))"
    using get_1_at [of "packet_forward p (5 + unat dl)" sl "src @ rest"] wf d len by simp
  have 5: "PACKET_copy_bytes (packet_forward p (6 + unat dl)) (unat sl) = Some (src, packet_forward p (6 + unat dl + unat sl))"
    using copy_bytes_at [of "packet_forward p (6 + unat dl)" src rest "unat sl"] wf d len by simp
  show ?thesis
    using len b by (simp add: decode_long_hdr_def 1 2 3 4 5 dl v0 QUIC_MAX_CONN_ID_LEN_def Let_def)
qed

section \<open>The bytes of a header\<close>

text \<open>
  A header is written in three parts: the bytes before the packet number, the packet number
  if the type of packet has one, and space for the payload.
\<close>

definition hdr_prefix :: "nat \<Rightarrow> QUIC_PKT_HDR \<Rightarrow> u8 list" where
  "hdr_prefix n hdr =
     (if h_type hdr = QUIC_PKT_TYPE_1RTT then short_b0 hdr # take n (cid_id (h_dst_conn_id hdr))
      else
        long_b0 hdr (the (type_to_raw_type hdr)) # be_bytes 4 (ucast (h_version hdr))
        @ id_len (h_dst_conn_id hdr) # take (unat (id_len (h_dst_conn_id hdr))) (cid_id (h_dst_conn_id hdr))
        @ id_len (h_src_conn_id hdr) # take (unat (id_len (h_src_conn_id hdr))) (cid_id (h_src_conn_id hdr))
        @ (if ossl_quic_pkt_type_has_pn (h_type hdr)
           then (if h_type hdr = QUIC_PKT_TYPE_INITIAL then vl (of_nat (h_token_len hdr)) @ take (h_token_len hdr) (token_mem hdr) else [])
             @ vl (of_nat (h_len hdr + unat (h_pn_len hdr)))
           else []))"

definition hdr_pn :: "QUIC_PKT_HDR \<Rightarrow> u8 list" where
  "hdr_pn hdr = (if ossl_quic_pkt_type_has_pn (h_type hdr) then take (unat (h_pn_len hdr)) (h_pn hdr) else [])"

text \<open>The headers that can be written; the bounds are those of the C types and of the wire format.\<close>

definition hdr_enc_ok :: "nat \<Rightarrow> QUIC_PKT_HDR \<Rightarrow> bool" where
  "hdr_enc_ok n hdr \<longleftrightarrow> \<not> h_partial hdr \<and> 1 \<le> h_type hdr \<and> h_type hdr \<le> 6
     \<and> (h_type hdr = QUIC_PKT_TYPE_1RTT \<longrightarrow> unat (id_len (h_dst_conn_id hdr)) = n)
     \<and> unat (id_len (h_dst_conn_id hdr)) \<le> 20 \<and> unat (id_len (h_src_conn_id hdr)) \<le> 20
     \<and> length (cid_id (h_dst_conn_id hdr)) = 20 \<and> length (cid_id (h_src_conn_id hdr)) = 20 \<and> length (h_pn hdr) = 4
     \<and> (ossl_quic_pkt_type_has_pn (h_type hdr) \<longrightarrow> 1 \<le> h_pn_len hdr \<and> h_pn_len hdr \<le> 4)
     \<and> (h_type hdr = QUIC_PKT_TYPE_VERSION_NEG \<longrightarrow> h_version hdr = 0)
     \<and> h_token_len hdr < 2 ^ 62 \<and> h_token_len hdr \<le> length (token_mem hdr) \<and> h_len hdr + unat (h_pn_len hdr) < 2 ^ 62
     \<and> h_reserved hdr < 4 \<and> h_unused hdr < 16"

lemma pkt_type_cases:
  assumes "1 \<le> t" "t \<le> (6 :: u32)"
  shows "t = QUIC_PKT_TYPE_INITIAL \<or> t = QUIC_PKT_TYPE_0RTT \<or> t = QUIC_PKT_TYPE_HANDSHAKE \<or> t = QUIC_PKT_TYPE_RETRY
    \<or> t = QUIC_PKT_TYPE_1RTT \<or> t = QUIC_PKT_TYPE_VERSION_NEG"
  using assms by (simp add: pkt_types word_le_nat_alt word_unat_eq_iff, arith)

definition prefix_writers :: "nat \<Rightarrow> QUIC_PKT_HDR \<Rightarrow> (WPACKET \<Rightarrow> bool \<times> WPACKET) list" where
  "prefix_writers n hdr =
     (if h_type hdr = QUIC_PKT_TYPE_1RTT
      then [\<lambda>p. WPACKET_put_bytes p (ucast (short_b0 hdr)) 1, \<lambda>p. WPACKET_memcpy p (cid_id (h_dst_conn_id hdr)) n]
      else [\<lambda>p. WPACKET_put_bytes p (ucast (long_b0 hdr (the (type_to_raw_type hdr)))) 1,
            \<lambda>p. WPACKET_put_bytes p (ucast (h_version hdr)) 4,
            \<lambda>p. WPACKET_put_bytes p (ucast (id_len (h_dst_conn_id hdr))) 1,
            \<lambda>p. WPACKET_memcpy p (cid_id (h_dst_conn_id hdr)) (unat (id_len (h_dst_conn_id hdr))),
            \<lambda>p. WPACKET_put_bytes p (ucast (id_len (h_src_conn_id hdr))) 1,
            \<lambda>p. WPACKET_memcpy p (cid_id (h_src_conn_id hdr)) (unat (id_len (h_src_conn_id hdr)))]
        @ (if ossl_quic_pkt_type_has_pn (h_type hdr)
           then (if h_type hdr = QUIC_PKT_TYPE_INITIAL
                 then [\<lambda>p. WPACKET_quic_write_vlint p (of_nat (h_token_len hdr)), \<lambda>p. WPACKET_memcpy p (token_mem hdr) (h_token_len hdr)]
                 else [])
             @ [\<lambda>p. WPACKET_quic_write_vlint p (of_nat (h_len hdr + unat (h_pn_len hdr)))]
           else []))"

lemma appends_u8: "appends (\<lambda>w. WPACKET_put_bytes w (ucast (b :: u8)) 1) [b]"
proof -
  have "unat (ucast b :: u64) < 2 ^ (8 * 1)" using unat_bound [of b] by simp
  then have "appends (\<lambda>w. WPACKET_put_bytes w (ucast b) 1) (be_bytes 1 (ucast b))" by (intro appends_put_bytes) simp_all
  moreover have "be_bytes 1 (ucast b) = [b]" by (simp add: be_bytes_unfold)
  ultimately show ?thesis by simp
qed

lemma appends_u32: "appends (\<lambda>w. WPACKET_put_bytes w (ucast (v :: u32)) 4) (be_bytes 4 (ucast v))"
proof (rule appends_put_bytes)
  show "unat (ucast v :: u64) < 2 ^ (8 * 4)" using unat_bound [of v] by (simp add: unsigned_ucast_eq take_bit_nat_eq_self)
qed simp_all

lemma appends_prefix:
  assumes "hdr_enc_ok n hdr"
  shows "appends (all_ok (prefix_writers n hdr)) (hdr_prefix n hdr)"
proof -
  have t: "vl_ok (of_nat (h_token_len hdr))" "vl_ok (of_nat (h_len hdr + unat (h_pn_len hdr)))"
    using assms by (simp_all add: hdr_enc_ok_def unat_of_nat_u64 del: of_nat_add)
  have l: "unat (id_len (h_dst_conn_id hdr)) \<le> length (cid_id (h_dst_conn_id hdr))"
    "unat (id_len (h_src_conn_id hdr)) \<le> length (cid_id (h_src_conn_id hdr))" "h_token_len hdr \<le> length (token_mem hdr)"
    "h_type hdr = QUIC_PKT_TYPE_1RTT \<Longrightarrow> n \<le> length (cid_id (h_dst_conn_id hdr))"
    using assms by (auto simp: hdr_enc_ok_def)
  consider (short) "h_type hdr = QUIC_PKT_TYPE_1RTT"
    | (bare) "h_type hdr \<noteq> QUIC_PKT_TYPE_1RTT" "\<not> ossl_quic_pkt_type_has_pn (h_type hdr)"
    | (initial) "h_type hdr \<noteq> QUIC_PKT_TYPE_1RTT" "ossl_quic_pkt_type_has_pn (h_type hdr)" "h_type hdr = QUIC_PKT_TYPE_INITIAL"
    | (other) "h_type hdr \<noteq> QUIC_PKT_TYPE_1RTT" "ossl_quic_pkt_type_has_pn (h_type hdr)" "h_type hdr \<noteq> QUIC_PKT_TYPE_INITIAL"
    by blast
  then show ?thesis
  proof cases
    case short
    show ?thesis unfolding prefix_writers_def hdr_prefix_def if_P [OF short]
      by (rule appends_cong, (rule appends_u8 append_intros t l short)+, simp)
  next
    case bare
    show ?thesis unfolding prefix_writers_def hdr_prefix_def if_not_P [OF bare(1)] if_not_P [OF bare(2)] append_Nil2
      by (rule appends_cong, (rule appends_u8 appends_u32 append_intros t l)+, simp)
  next
    case initial
    show ?thesis unfolding prefix_writers_def hdr_prefix_def if_not_P [OF initial(1)] if_P [OF initial(2)] if_P [OF initial(3)] append_Cons append_Nil
      by (rule appends_cong, (rule appends_u8 appends_u32 append_intros t l)+, simp)
  next
    case other
    show ?thesis unfolding prefix_writers_def hdr_prefix_def if_not_P [OF other(1)] if_P [OF other(2)] if_not_P [OF other(3)] append_Cons append_Nil
      by (rule appends_cong, (rule appends_u8 appends_u32 append_intros t l)+, simp)
  qed
qed

lemma all_ok_append:
  "all_ok (fs @ gs) w = (let (ok, w) = all_ok fs w in if \<not> ok then (False, w) else all_ok gs w)"
  by (induction fs arbitrary: w) (auto simp: Let_def split: prod.splits)

lemma all_ok_single: "all_ok [f] w = f w"
  by (simp split: prod.splits)

lemma all_ok_when: "all_ok (if c then fs else []) w = (if c then all_ok fs w else (True, w))"
  by simp

lemma write_pn_seq:
  "write_pn hdr (let (ok, w) = x in if \<not> ok then (False, w) else f w) =
    (let (ok, w) = x in if \<not> ok then (Hdr_failed, w) else write_pn hdr (f w))"
  by (cases x) (simp add: write_pn_def)

text \<open>The encoder as the sequence of its parts.\<close>

definition no_ptrs :: QUIC_PKT_HDR_PTRS where
  "no_ptrs = \<lparr>raw_start = None, raw_sample = None, raw_sample_len = 0, raw_pn = None\<rparr>"

definition ptrs_at :: "nat \<Rightarrow> nat \<Rightarrow> nat \<Rightarrow> QUIC_PKT_HDR_PTRS" where
  "ptrs_at start pn end = \<lparr>raw_start = Some start, raw_sample = Some (pn + 4), raw_sample_len = of_nat end - of_nat (pn + 4),
     raw_pn = Some pn\<rparr>"

lemma enc_ok_raw_type:
  assumes "hdr_enc_ok n hdr" "h_type hdr \<noteq> QUIC_PKT_TYPE_1RTT"
  obtains r where "type_to_raw_type hdr = Some r"
proof -
  have "1 \<le> h_type hdr" "h_type hdr \<le> 6" "h_type hdr = QUIC_PKT_TYPE_VERSION_NEG \<Longrightarrow> h_version hdr = 0"
    using assms(1) by (simp_all add: hdr_enc_ok_def)
  then have "type_to_raw_type hdr \<noteq> None"
    using pkt_type_cases [of "h_type hdr"] assms(2) unfolding type_to_raw_type_def by auto
  with that show ?thesis by blast
qed

lemma enc_ok_guards:
  assumes "hdr_enc_ok n hdr"
  shows "\<not> (unat (id_len (h_dst_conn_id hdr)) > QUIC_MAX_CONN_ID_LEN \<or> unat (id_len (h_src_conn_id hdr)) > QUIC_MAX_CONN_ID_LEN)"
    "\<not> (ossl_quic_pkt_type_has_pn (h_type hdr) \<and> (h_pn_len hdr < 1 \<or> h_pn_len hdr > 4))"
    "\<not> (h_partial hdr \<or> (h_type hdr = QUIC_PKT_TYPE_1RTT \<and> unat (id_len (h_dst_conn_id hdr)) \<noteq> n))"
  using assms by (auto simp: hdr_enc_ok_def QUIC_MAX_CONN_ID_LEN_def)

lemma encode_hdr_parts:
  assumes ok: "hdr_enc_ok n hdr" and inv: "w_inv w" and s: "ptrs = None \<or> w_staticbuf w \<noteq> None"
  shows "ossl_quic_wire_encode_pkt_hdr w n hdr ptrs =
    (case all_ok (prefix_writers n hdr) w of (ok, w1) \<Rightarrow>
       if \<not> ok then (False, map_option (\<lambda>_. no_ptrs) ptrs, w1)
       else if \<not> ossl_quic_pkt_type_has_pn (h_type hdr)
         then case reserve_payload hdr w1 of (ok, w2) \<Rightarrow> (ok, map_option (\<lambda>_. no_ptrs) ptrs, w2)
       else case WPACKET_memcpy w1 (h_pn hdr) (unat (h_pn_len hdr)) of (ok, w2) \<Rightarrow>
         if \<not> ok then (False, map_option (\<lambda>_. no_ptrs) ptrs, w2)
         else case reserve_payload hdr w2 of (ok, w3) \<Rightarrow>
           if \<not> ok then (False, map_option (\<lambda>_. no_ptrs) ptrs, w3)
           else (True, case (ptrs, WPACKET_get_curr w, WPACKET_get_curr w3) of
               (Some _, Some s, Some c) \<Rightarrow> Some (ptrs_at s (s + (w_written w1 - w_written w)) (c + h_len hdr))
             | _ \<Rightarrow> map_option (\<lambda>_. no_ptrs) ptrs, w3))"
proof -
  obtain ok1 w1 where P: "all_ok (prefix_writers n hdr) w = (ok1, w1)" by fastforce
  have mono: "w_written w \<le> w_written w1" if ok1
    using appendsD(1,2) [OF appends_prefix [OF ok] inv] P that length_w_out [OF inv] length_w_out [of w1] by simp
  then have off: "ok1 \<Longrightarrow> s + (w_written w1 + 4 - w_written w) = s + (w_written w1 - w_written w) + 4" for s by simp
  obtain ok2 w2 where M: "WPACKET_memcpy w1 (h_pn hdr) (unat (h_pn_len hdr)) = (ok2, w2)" by fastforce
  obtain ok3 w3 where R: "reserve_payload hdr w2 = (ok3, w3)" by fastforce
  note g = enc_ok_guards [OF ok]
  have s': "\<not> (ptrs \<noteq> None \<and> w_staticbuf w = None)" using s by auto
  note types = pkt_types ossl_quic_pkt_type_has_pn_def ossl_quic_pkt_type_is_encrypted_def
  note pn = M R off ptrs_at_def no_ptrs_def WPACKET_get_total_written_def write_pn_def Let_def
  consider (short) "h_type hdr = QUIC_PKT_TYPE_1RTT"
    | (bare) "h_type hdr = QUIC_PKT_TYPE_RETRY \<or> h_type hdr = QUIC_PKT_TYPE_VERSION_NEG"
    | (long) "h_type hdr = QUIC_PKT_TYPE_INITIAL \<or> h_type hdr = QUIC_PKT_TYPE_0RTT \<or> h_type hdr = QUIC_PKT_TYPE_HANDSHAKE"
    using pkt_type_cases [of "h_type hdr"] ok by (auto simp: hdr_enc_ok_def)
  then show ?thesis
  proof cases
    case short
    have e: "encode_short_hdr n hdr w = write_pn hdr (all_ok (prefix_writers n hdr) w)"
      unfolding encode_short_hdr_def prefix_writers_def if_P [OF short]
      using ok short by (auto simp: hdr_enc_ok_def QUIC_MAX_CONN_ID_LEN_def pkt_types ossl_quic_pkt_type_has_pn_def
          ossl_quic_pkt_type_is_encrypted_def not_less)
    have "ossl_quic_pkt_type_has_pn (h_type hdr)" by (simp add: short pkt_types ossl_quic_pkt_type_has_pn_def ossl_quic_pkt_type_is_encrypted_def)
    then show ?thesis
      unfolding ossl_quic_wire_encode_pkt_hdr_def
      using s short ok by (auto simp: e P pn hdr_enc_ok_def split: option.splits)
  next
    case bare
    then have bare': "(h_type hdr = QUIC_PKT_TYPE_VERSION_NEG \<or> h_type hdr = QUIC_PKT_TYPE_RETRY) = True" by auto
    have t: "h_type hdr \<noteq> QUIC_PKT_TYPE_1RTT" "\<not> ossl_quic_pkt_type_has_pn (h_type hdr)"
      using bare by (auto simp: types)
    obtain r where r: "type_to_raw_type hdr = Some r" using enc_ok_raw_type [OF ok t(1)] .
    have e: "encode_long_hdr hdr w = (case all_ok (prefix_writers n hdr) w of (ok, w1) \<Rightarrow>
        if \<not> ok then (Hdr_failed, w1)
        else case reserve_payload hdr w1 of (ok, w2) \<Rightarrow> (if ok then Hdr_no_pn else Hdr_failed, w2))"
      unfolding encode_long_hdr_def if_not_P [OF g(1)] if_not_P [OF g(2)] r option.case
        prefix_writers_def if_not_P [OF t(1)] if_not_P [OF t(2)] append_Nil2 option.sel Let_def
      by (simp only: bare' if_True)
    show ?thesis
      unfolding ossl_quic_wire_encode_pkt_hdr_def Let_def if_not_P [OF g(3)] if_not_P [OF t(1)] if_not_P [OF s'] e P
      by (simp add: t(2) no_ptrs_def split: prod.splits)
  next
    case long
    have t: "h_type hdr \<noteq> QUIC_PKT_TYPE_1RTT" "ossl_quic_pkt_type_has_pn (h_type hdr)"
      "h_type hdr \<noteq> QUIC_PKT_TYPE_VERSION_NEG" "h_type hdr \<noteq> QUIC_PKT_TYPE_RETRY"
      using long by (auto simp: types)
    have t': "\<not> (h_type hdr = QUIC_PKT_TYPE_VERSION_NEG \<or> h_type hdr = QUIC_PKT_TYPE_RETRY)" using t(3,4) by blast
    obtain r where r: "type_to_raw_type hdr = Some r" using enc_ok_raw_type [OF ok t(1)] .
    have e: "encode_long_hdr hdr w = write_pn hdr (all_ok (prefix_writers n hdr) w)"
      unfolding encode_long_hdr_def if_not_P [OF g(1)] if_not_P [OF g(2)] r option.case
        prefix_writers_def if_not_P [OF t(1)] if_P [OF t(2)] all_ok_append option.sel write_pn_seq all_ok_when all_ok_single if_not_P [OF t']
      by (simp only: Let_def)
    show ?thesis
      unfolding ossl_quic_wire_encode_pkt_hdr_def Let_def if_not_P [OF g(3)] if_not_P [OF t(1)] if_not_P [OF s'] e P
      by (auto simp: t(2) pn split: option.splits)
  qed
qed

lemma reserve_payload_ok:
  assumes "w_inv w" "reserve_payload hdr w = (True, w')"
  shows "w_inv w' \<and> w_out w' = w_out w \<and> w_frame w w' \<and> w_written w' = w_written w"
  using assms WPACKET_reserve_bytes_ok [OF assms(1), of "h_len hdr"]
  by (auto simp: reserve_payload_def split: if_splits prod.splits)

lemma reserve_payload_success:
  assumes "w_inv w" "w_space w (h_len hdr)"
  shows "fst (reserve_payload hdr w)"
  using WPACKET_reserve_bytes_success [OF assms(1) _ assms(2)] by (auto simp: reserve_payload_def split: prod.splits)

lemma static_buf_inv: "w_inv w \<Longrightarrow> w_staticbuf w \<noteq> None \<longleftrightarrow> w_buf w = None"
  by (auto simp: w_inv_def split: option.splits)

lemma get_curr_static: "w_inv w \<Longrightarrow> w_staticbuf w \<noteq> None \<Longrightarrow> WPACKET_get_curr w = Some (w_written w)"
  by (auto simp: WPACKET_get_curr_def GETBUF_def w_inv_def split: option.splits)

lemma static_frame:
  assumes "w_inv w" "w_inv w'" "w_frame w w'" "w_staticbuf w \<noteq> None"
  shows "w_staticbuf w' \<noteq> None"
proof -
  have "w_buf w = None" using static_buf_inv [OF assms(1)] assms(4) by simp
  then have "w_buf w' = None" using assms(3) by (simp add: w_frame_def)
  then show ?thesis using static_buf_inv [OF assms(2)] by simp
qed

lemma appends_pn: "hdr_enc_ok n hdr \<Longrightarrow> ossl_quic_pkt_type_has_pn (h_type hdr) \<Longrightarrow>
    appends (\<lambda>w. WPACKET_memcpy w (h_pn hdr) (unat (h_pn_len hdr))) (hdr_pn hdr)"
  using appends_memcpy [of "unat (h_pn_len hdr)" "h_pn hdr"]
  by (simp add: hdr_pn_def hdr_enc_ok_def word_le_nat_alt)

lemma encode_hdr_static:
  assumes "ossl_quic_wire_encode_pkt_hdr w n hdr ptrs = (True, ptrs', w')"
  shows "ptrs = None \<or> w_staticbuf w \<noteq> None"
proof (rule ccontr)
  assume "\<not> (ptrs = None \<or> w_staticbuf w \<noteq> None)"
  then have c: "ptrs \<noteq> None \<and> w_staticbuf w = None" by simp
  have "ossl_quic_wire_encode_pkt_hdr w n hdr ptrs = (False, ptrs, w)"
    unfolding ossl_quic_wire_encode_pkt_hdr_def Let_def by (rule if_P [OF c])
  with assms show False by simp
qed

text \<open>The encoder writes the header and points the header protector at it.\<close>

lemma encode_hdr_ok:
  assumes ok: "hdr_enc_ok n hdr" and inv: "w_inv w" and r: "ossl_quic_wire_encode_pkt_hdr w n hdr ptrs = (True, ptrs', w')"
  shows "w_inv w'" "w_out w' = w_out w @ hdr_prefix n hdr @ hdr_pn hdr" "w_frame w w'"
    "ptrs = Some x \<Longrightarrow> ossl_quic_pkt_type_has_pn (h_type hdr) \<Longrightarrow>
      ptrs' = Some (ptrs_at (w_written w) (w_written w + length (hdr_prefix n hdr)) (w_written w' + h_len hdr))"
proof -
  note parts = encode_hdr_parts [OF ok inv encode_hdr_static [OF r]]
  obtain w1 where P: "all_ok (prefix_writers n hdr) w = (True, w1)"
    using r parts by (cases "all_ok (prefix_writers n hdr) w") (auto split: if_splits)
  note p1 = appendsD(1-3) [OF appends_prefix [OF ok] inv P]
  have len1: "w_written w1 = w_written w + length (hdr_prefix n hdr)"
    using length_w_out [OF inv] length_w_out [OF p1(1)] p1(2) by simp
  have "w_inv w' \<and> w_out w' = w_out w @ hdr_prefix n hdr @ hdr_pn hdr \<and> w_frame w w' \<and> (ptrs = Some x \<longrightarrow>
      ossl_quic_pkt_type_has_pn (h_type hdr) \<longrightarrow>
      ptrs' = Some (ptrs_at (w_written w) (w_written w + length (hdr_prefix n hdr)) (w_written w' + h_len hdr)))"
  proof (cases "ossl_quic_pkt_type_has_pn (h_type hdr)")
    case False
    then have "reserve_payload hdr w1 = (True, w')"
      using r parts P by (auto split: prod.splits)
    from reserve_payload_ok [OF p1(1) this] False p1
    show ?thesis
      by (auto simp: hdr_pn_def intro: w_frame_trans)
  next
    case True
    obtain w2 where M: "WPACKET_memcpy w1 (h_pn hdr) (unat (h_pn_len hdr)) = (True, w2)" and R: "reserve_payload hdr w2 = (True, w')"
      and p: "ptrs' = (case (ptrs, WPACKET_get_curr w, WPACKET_get_curr w') of
               (Some _, Some s, Some c) \<Rightarrow> Some (ptrs_at s (s + (w_written w1 - w_written w)) (c + h_len hdr))
             | _ \<Rightarrow> map_option (\<lambda>_. no_ptrs) ptrs)"
      using r parts P True by (auto split: prod.splits if_splits)
    note p2 = appendsD(1-3) [OF appends_pn [OF ok True] p1(1) M]
    note p3 = reserve_payload_ok [OF p2(1) R]
    have f: "w_frame w w'" using p1(3) p2(3) p3 by (blast intro: w_frame_trans)
    moreover have "ptrs' = Some (ptrs_at (w_written w) (w_written w + length (hdr_prefix n hdr)) (w_written w' + h_len hdr))"
      if "ptrs = Some x"
    proof -
      have s: "w_staticbuf w \<noteq> None" using encode_hdr_static [OF r] that by simp
      have "w_inv w'" using p3 by simp
      then show ?thesis
        using p that get_curr_static [OF inv s] get_curr_static [of w'] static_frame [OF inv _ f s] len1 by simp
    qed
    ultimately show ?thesis
      using p1(2) p2(2) p3 by simp
  qed
  then show "w_inv w'" "w_out w' = w_out w @ hdr_prefix n hdr @ hdr_pn hdr" "w_frame w w'"
    "ptrs = Some x \<Longrightarrow> ossl_quic_pkt_type_has_pn (h_type hdr) \<Longrightarrow>
      ptrs' = Some (ptrs_at (w_written w) (w_written w + length (hdr_prefix n hdr)) (w_written w' + h_len hdr))"
    by blast+
qed

lemma encode_hdr_success:
  assumes ok: "hdr_enc_ok n hdr" and inv: "w_inv w" and s: "ptrs = None \<or> w_staticbuf w \<noteq> None"
    and space: "w_space w (length (hdr_prefix n hdr @ hdr_pn hdr) + h_len hdr)"
  shows "fst (ossl_quic_wire_encode_pkt_hdr w n hdr ptrs)"
proof -
  note parts = encode_hdr_parts [OF ok inv s]
  have "fst (all_ok (prefix_writers n hdr) w)"
    using appendsD(4) [OF appends_prefix [OF ok] inv] w_space_mono [OF space] by simp
  then obtain w1 where P: "all_ok (prefix_writers n hdr) w = (True, w1)" by (metis prod.collapse)
  note p1 = appendsD(1-3) [OF appends_prefix [OF ok] inv P]
  have s1: "w_space w1 (length (hdr_pn hdr) + h_len hdr)"
    using w_space_frame [OF p1(3) inv p1(1,2)] space by (simp add: add.assoc)
  show ?thesis
  proof (cases "ossl_quic_pkt_type_has_pn (h_type hdr)")
    case False
    then have "w_space w1 (h_len hdr)" using s1 by (simp add: hdr_pn_def)
    from reserve_payload_success [OF p1(1) this] show ?thesis
      unfolding parts using P False by (auto split: prod.splits)
  next
    case True
    note a = appends_pn [OF ok True]
    have "fst (WPACKET_memcpy w1 (h_pn hdr) (unat (h_pn_len hdr)))"
      using appendsD(4) [OF a p1(1)] w_space_mono [OF s1] by simp
    then obtain w2 where M: "WPACKET_memcpy w1 (h_pn hdr) (unat (h_pn_len hdr)) = (True, w2)" by (metis prod.collapse)
    note p2 = appendsD(1-3) [OF a p1(1) M]
    have "w_space w2 (h_len hdr)" using w_space_frame [OF p2(3) p1(1) p2(1,2)] s1 by simp
    from reserve_payload_success [OF p2(1) this] show ?thesis
      unfolding parts using P M True by (auto split: prod.splits)
  qed
qed

lemma vl_len: "vl_ok v \<Longrightarrow> ossl_quic_vlint_encode_len v = length (vl v)" "vl_ok v \<Longrightarrow> ossl_quic_vlint_encode_len v \<noteq> 0"
  using vlint_encode(1,2) [of v] by (metis, metis length_0_conv)

text \<open>The length announced for a header is the length written.\<close>

lemma encoded_hdr_len:
  assumes ok: "hdr_enc_ok n hdr"
  shows "ossl_quic_wire_get_encoded_pkt_hdr_len n hdr = length (hdr_prefix n hdr @ hdr_pn hdr)"
proof -
  have v1: "vl_ok (of_nat (h_token_len hdr))" and v2: "vl_ok (of_nat (h_len hdr + unat (h_pn_len hdr)))"
    using ok by (simp_all add: hdr_enc_ok_def unat_of_nat_u64 del: of_nat_add)
  have v: "ossl_quic_vlint_encode_len (of_nat (h_token_len hdr)) = length (vl (of_nat (h_token_len hdr)))"
    "ossl_quic_vlint_encode_len (of_nat (h_token_len hdr)) \<noteq> 0"
    "ossl_quic_vlint_encode_len (of_nat (h_len hdr + unat (h_pn_len hdr))) = length (vl (of_nat (h_len hdr + unat (h_pn_len hdr))))"
    "ossl_quic_vlint_encode_len (of_nat (h_len hdr + unat (h_pn_len hdr))) \<noteq> 0"
    by (rule vl_len [OF v1] vl_len [OF v2])+
  have l: "length (take (unat (h_pn_len hdr)) (h_pn hdr)) = unat (h_pn_len hdr)" if "ossl_quic_pkt_type_has_pn (h_type hdr)"
    using ok that by (simp add: hdr_enc_ok_def word_le_nat_alt)
  note g = enc_ok_guards [OF ok]
  note types = pkt_types ossl_quic_pkt_type_has_pn_def ossl_quic_pkt_type_is_encrypted_def ossl_quic_pkt_type_must_be_last_def
    ossl_quic_pkt_type_can_share_dgram_def
  have c: "length (cid_bytes (h_dst_conn_id hdr)) = unat (id_len (h_dst_conn_id hdr))" "length (cid_bytes (h_src_conn_id hdr)) = unat (id_len (h_src_conn_id hdr))"
    "length (take (h_token_len hdr) (token_mem hdr)) = h_token_len hdr"
    "h_type hdr = QUIC_PKT_TYPE_1RTT \<Longrightarrow> length (take n (cid_id (h_dst_conn_id hdr))) = n \<and> n \<le> 20"
    using ok by (auto simp: hdr_enc_ok_def)
  show ?thesis
  proof (cases "h_type hdr = QUIC_PKT_TYPE_1RTT")
    case True
    have h: "ossl_quic_pkt_type_has_pn (h_type hdr)" by (simp add: True types)
    have "\<not> (unat (id_len (h_dst_conn_id hdr)) \<noteq> n \<or> n > QUIC_MAX_CONN_ID_LEN \<or> h_pn_len hdr < 1 \<or> h_pn_len hdr > 4)"
      using g h True c(4) by (auto simp: QUIC_MAX_CONN_ID_LEN_def)
    then show ?thesis
      unfolding ossl_quic_wire_get_encoded_pkt_hdr_len_def if_not_P [OF g(3)] hdr_prefix_def hdr_pn_def if_P [OF True] if_P [OF h]
      using c(4) [OF True] l [OF h] by (simp only: if_not_P length_append list.size) simp
  next
    case False
    have m: "ossl_quic_pkt_type_must_be_last (h_type hdr) \<longleftrightarrow> \<not> ossl_quic_pkt_type_has_pn (h_type hdr)"
      "\<not> ossl_quic_pkt_type_has_pn (h_type hdr) \<Longrightarrow> h_type hdr \<noteq> QUIC_PKT_TYPE_INITIAL"
      using False by (auto simp: types)
    show ?thesis
      unfolding ossl_quic_wire_get_encoded_pkt_hdr_len_def if_not_P [OF g(3)] if_not_P [OF False] if_not_P [OF g(1)] if_not_P [OF g(2)] Let_def
        hdr_prefix_def hdr_pn_def m
      using m(2) by (simp add: v(1,3) vlint_encode(2) [OF v1] vlint_encode(2) [OF v2] l c del: of_nat_add length_take)
  qed
qed

end
