(* ===== verification/WirePktCodec.thy ===== *)
theory WirePktCodec
  imports WirePktHdr
begin

text \<open>
  Whole packet headers: a header that is written is read back, also through header protection; what
  any decode of a packet guarantees; and the integrity tag of Retry packets.
\<close>

section \<open>Decoding a packet\<close>

lemma long_b0_bits:
  assumes "h_type hdr = QUIC_PKT_TYPE_INITIAL \<or> h_type hdr = QUIC_PKT_TYPE_0RTT \<or> h_type hdr = QUIC_PKT_TYPE_HANDSHAKE"
    "1 \<le> h_pn_len hdr" "h_pn_len hdr \<le> 4" "h_reserved hdr < 4"
  defines "b0 \<equiv> long_b0 hdr (the (type_to_raw_type hdr))"
  shows "and b0 0x80 \<noteq> 0" "and b0 0x40 \<noteq> 0" "raw_type_to_type (ucast (and (drop_bit 4 b0) 3)) = h_type hdr"
    "and b0 3 + 1 = h_pn_len hdr" "drop_bit 2 (and b0 0xC) = h_reserved hdr"
  using assms(1) u8_pn_len [OF assms(2,3)] u8_less_4 [OF assms(4)] unfolding b0_def
  by (elim disjE; simp add: long_b0_def type_to_raw_type_def raw_type_to_type_def pkt_types Let_def
      ossl_quic_pkt_type_has_pn_def ossl_quic_pkt_type_is_encrypted_def)+

lemma u8_less_16:
  "(r :: u8) < 16 \<Longrightarrow> r = 0 \<or> r = 1 \<or> r = 2 \<or> r = 3 \<or> r = 4 \<or> r = 5 \<or> r = 6 \<or> r = 7 \<or> r = 8 \<or> r = 9
    \<or> r = 10 \<or> r = 11 \<or> r = 12 \<or> r = 13 \<or> r = 14 \<or> r = 15"
  by (simp add: word_less_nat_alt word_unat_eq_iff, arith)

lemma retry_b0_bits:
  assumes "h_type hdr = QUIC_PKT_TYPE_RETRY" "h_unused hdr < 16"
  defines "b0 \<equiv> long_b0 hdr (the (type_to_raw_type hdr))"
  shows "and b0 0x80 \<noteq> 0" "and b0 0x40 \<noteq> 0" "raw_type_to_type (ucast (and (drop_bit 4 b0) 3)) = h_type hdr"
    "and b0 0xf = h_unused hdr"
proof -
  have b: "b0 = or 0xf0 (h_unused hdr)"
    using assms by (simp add: long_b0_def type_to_raw_type_def pkt_types Let_def ossl_quic_pkt_type_has_pn_def ossl_quic_pkt_type_is_encrypted_def)
  show "and b0 0x80 \<noteq> 0" "and b0 0x40 \<noteq> 0" "raw_type_to_type (ucast (and (drop_bit 4 b0) 3)) = h_type hdr"
    "and b0 0xf = h_unused hdr"
    unfolding b using u8_less_16 [OF assms(2)] by (elim disjE; simp add: raw_type_to_type_def pkt_types assms(1))+
qed

lemma version_neg_b0_bits:
  assumes "h_type hdr = QUIC_PKT_TYPE_VERSION_NEG" "h_version hdr = 0"
  defines "b0 \<equiv> long_b0 hdr (the (type_to_raw_type hdr))"
  shows "and b0 0x80 \<noteq> 0" "and b0 0x40 \<noteq> 0 \<longleftrightarrow> h_fixed hdr"
  unfolding b0_def using assms
  by (auto simp: long_b0_def type_to_raw_type_def pkt_types Let_def ossl_quic_pkt_type_has_pn_def ossl_quic_pkt_type_is_encrypted_def)

text \<open>
  The decoder on a packet laid out as the encoder lays it out. The bits of the first byte that are
  protected only matter where the decode is not partial.
\<close>

lemma decode_pkt_short:
  assumes wf: "packet_wf p" and d: "pdata p = b0 # cid @ pnf @ rest" and n: "length cid = n" "n \<le> 20" and l: "21 \<le> length (pdata p)"
    and b0: "and b0 0x80 = 0" "and b0 0x40 \<noteq> 0" and pnf: "length pnf = pn_field_len partial b0"
  shows "ossl_quic_wire_decode_pkt_hdr p n partial nodata hdr =
    Some ((decoded_short partial b0 cid pnf (length rest) (drop (1 + n + length pnf) (p_curr p))
             (hdr\<lparr>h_partial := partial, h_unused := 0, h_reserved := 0\<rparr>), ptrs_at 0 (1 + n) (length (pdata p))),
      packet_forward p (length (pdata p)))"
proof -
  let ?q = "packet_forward p 1"
  have q: "packet_wf ?q" "pdata ?q = cid @ pnf @ rest" using wf d by simp_all
  have r: "p_remaining p = Suc (n + (length pnf + length rest))" "\<not> p_remaining p < 7" "21 \<le> p_remaining p"
    using length_pdata [OF wf] d n l by simp_all
  have b: "and (ucast b0) 0x80 = (0 :: u32)" using b0 by (simp add: and_ucast_u32)
  note s = decode_short_at [OF q n r(3) b0(2) pnf]
  have l7: "\<not> p_remaining p < QUIC_MIN_VALID_PKT_LEN" using r(2) by (simp add: pkt_types)
  show ?thesis
    unfolding ossl_quic_wire_decode_pkt_hdr_def Let_def PACKET_remaining_def if_not_P [OF l7] get_1_at [OF wf d]
      bind.bind_lunit prod.case if_P [OF b] s
    using r(1) n by (simp add: ptrs_at_def d)
qed

lemma decode_pkt_long:
  fixes b0 :: u8
  assumes wf: "packet_wf p" and d: "pdata p = b0 # be_bytes 4 (ucast v) @ dl # dst @ sl # src @ rest"
    and len: "length dst = unat dl" "length src = unat sl" "unat dl \<le> 20" "unat sl \<le> 20"
    and b0: "and b0 0x80 \<noteq> 0" "v = 0 \<or> and b0 0x40 \<noteq> 0"
  shows "ossl_quic_wire_decode_pkt_hdr p n partial nodata hdr =
    (let hdr = hdr\<lparr>h_partial := partial, h_unused := 0, h_reserved := 0, h_version := v,
                   h_dst_conn_id := set_conn_id (h_dst_conn_id hdr) dst, h_src_conn_id := set_conn_id (h_src_conn_id hdr) src\<rparr>;
         q = packet_forward p (7 + unat dl + unat sl)
     in do {
       ((hdr, pn), pkt) \<leftarrow>
         (if v = 0 then decode_version_neg (ucast b0) hdr q
          else if v \<noteq> QUIC_VERSION_1 then None
          else decode_v1_hdr partial nodata (length (pdata p)) (ucast b0) hdr q);
       Some ((hdr, case pn of None \<Rightarrow> no_ptrs\<lparr>raw_start := Some 0\<rparr> | Some k \<Rightarrow> ptrs_at 0 k (length (pdata p))), pkt) })"
proof -
  let ?q = "packet_forward p 1"
  have q: "packet_wf ?q" "pdata ?q = be_bytes 4 (ucast v) @ dl # dst @ sl # src @ rest" using wf d by simp_all
  have r: "length (pdata p) = p_remaining p" "\<not> p_remaining p < 7" using length_pdata [OF wf] d by simp_all
  have b: "and (ucast b0) 0x80 \<noteq> (0 :: u32)" using b0 by (simp add: and_ucast_u32)
  note s = decode_long_at [OF q len b0(2), unfolded Let_def]
  have l7: "\<not> p_remaining p < QUIC_MIN_VALID_PKT_LEN" using r(2) by (simp add: pkt_types)
  show ?thesis
    unfolding ossl_quic_wire_decode_pkt_hdr_def Let_def PACKET_remaining_def if_not_P [OF l7] get_1_at [OF wf d]
      bind.bind_lunit prod.case if_not_P [OF b] s r(1)
    by (simp add: ptrs_at_def no_ptrs_def add.assoc cong: option.case_cong)
qed

text \<open>Initial, 0-RTT and Handshake packets; the type is read from bits that are not protected.\<close>

definition decoded_long :: "bool \<Rightarrow> u8 \<Rightarrow> u8 list \<Rightarrow> u8 list \<Rightarrow> u32 \<Rightarrow> u8 list \<Rightarrow> u8 list option \<Rightarrow> u8 list \<Rightarrow> nat \<Rightarrow> u8 list
    \<Rightarrow> QUIC_PKT_HDR \<Rightarrow> QUIC_PKT_HDR" where
  "decoded_long partial b0 dst src t tok tokp pnf len data hdr = hdr\<lparr>
     h_partial := partial, h_unused := 0, h_version := QUIC_VERSION_1,
     h_dst_conn_id := set_conn_id (h_dst_conn_id hdr) dst, h_src_conn_id := set_conn_id (h_src_conn_id hdr) src,
     h_type := t, h_fixed := True, h_spin_bit := False, h_key_phase := False,
     h_token_len := length tok, h_token := tokp,
     h_pn_len := (if partial then 0 else and b0 3 + 1), h_reserved := (if partial then 0 else drop_bit 2 (and b0 0xC)),
     h_pn := (if partial then [0, 0, 0, 0] else pnf @ drop (length pnf) [0, 0, 0, 0]), h_len := len, h_data := Some data\<rparr>"

lemma drop_length_append: "drop (length xs) (xs @ ys) = ys"
  by simp

lemma drop_long_hdr:
  assumes "length dst = a" "length src = b"
  shows "drop (7 + a + b) (b0 # be_bytes 4 v @ dl # dst @ sl # src @ rest) = rest"
proof -
  let ?x = "b0 # be_bytes 4 v @ dl # dst @ sl # src"
  have l: "length ?x = 7 + a + b" using assms by simp
  from drop_length_append [of ?x rest] show ?thesis unfolding l by (simp only: append_Cons append_assoc)
qed

lemma decode_pkt_with_length:
  fixes b0 :: u8
  assumes wf: "packet_wf p"
    and d: "pdata p = b0 # be_bytes 4 1 @ dl # dst @ sl # src
      @ (if t = QUIC_PKT_TYPE_INITIAL then vl (of_nat (length tok)) @ tok else []) @ vl len @ pnf @ body @ rest"
    and ids: "length dst = unat dl" "length src = unat sl" "unat dl \<le> 20" "unat sl \<le> 20"
    and b0: "and b0 0x80 \<noteq> 0" "and b0 0x40 \<noteq> 0" "raw_type_to_type (ucast (and (drop_bit 4 b0) 3)) = t" "t \<noteq> QUIC_PKT_TYPE_RETRY"
    and tok: "length tok < 2 ^ 62" "t \<noteq> QUIC_PKT_TYPE_INITIAL \<longrightarrow> tok = []"
    and len: "vl_ok len" "4 \<le> unat len" "unat len = length pnf + length body" and pnf: "length pnf = pn_field_len partial b0"
    and l: "21 \<le> length (pdata p)"
  defines "pre \<equiv> b0 # be_bytes 4 1 @ dl # dst @ sl # src
      @ (if t = QUIC_PKT_TYPE_INITIAL then vl (of_nat (length tok)) @ tok else []) @ vl len"
  shows "ossl_quic_wire_decode_pkt_hdr p n partial False hdr =
    Some ((decoded_long partial b0 dst src t tok
            (if tok = [] then None else Some (drop (length (vl (of_nat (length tok))) + (7 + unat dl + unat sl)) (p_curr p)))
            pnf (length body) (drop (length pre + length pnf) (p_curr p)) hdr,
           ptrs_at 0 (length pre) (length (pdata p))), packet_forward p (length (pre @ pnf @ body)))"
proof -
  define T where "T = (if t = QUIC_PKT_TYPE_INITIAL then vl (of_nat (length tok)) @ tok else [])"
  define tp where "tp = (if tok = [] then None else Some (drop (length (vl (of_nat (length tok))) + (7 + unat dl + unat sl)) (p_curr p)))"
  let ?q = "packet_forward p (7 + unat dl + unat sl)"
  let ?h = "hdr\<lparr>h_partial := partial, h_unused := 0, h_reserved := 0, h_version := 1,
      h_dst_conn_id := set_conn_id (h_dst_conn_id hdr) dst, h_src_conn_id := set_conn_id (h_src_conn_id hdr) src,
      h_type := t, h_pn_len := 0, h_fixed := True, h_spin_bit := False, h_key_phase := False\<rparr>"
  let ?q2 = "packet_forward ?q (length T)"
  have d': "pdata p = b0 # be_bytes 4 (ucast (1 :: u32)) @ dl # dst @ sl # src @ T @ vl len @ pnf @ body @ rest"
    using d by (simp add: T_def)
  have q: "packet_wf ?q" "pdata ?q = T @ vl len @ pnf @ body @ rest" using wf d' drop_long_hdr [OF ids(1,2)] by simp_all
  have r: "length (pdata p) = p_remaining p" by (rule length_pdata [OF wf])
  have t: "and (drop_bit 4 (ucast b0)) 3 = (ucast (and (drop_bit 4 b0) 3) :: u32)"
    by (simp add: drop_bit_ucast_u32 and_ucast_u32)
  have tk: "decode_token ?h ?q = Some (?h\<lparr>h_token_len := length tok, h_token := tp\<rparr>, ?q2)"
    using decode_token_at [OF q(1), of ?h tok "vl len @ pnf @ body @ rest"] q(2) tok by (auto simp: T_def tp_def)
  have q2: "packet_wf ?q2" "pdata ?q2 = vl len @ pnf @ body @ rest"
    unfolding packet_forward_simps(4) [of ?q] q(2) by (rule packet_forward_simps(3) [OF q(1)] drop_length_append)+
  have pre: "length pre = 7 + unat dl + unat sl + length T + length (vl len)" using ids by (simp add: pre_def T_def)
  have le: "length pre \<le> p_remaining p" using r d' unfolding pre by (simp add: ids)
  have wl: "decode_with_length partial False (p_remaining p) (ucast b0) hdr ?q2 =
    Some ((hdr\<lparr>h_pn_len := (if partial then 0 else and b0 3 + 1), h_reserved := (if partial then 0 else drop_bit 2 (and b0 0xC)),
                h_pn := (if partial then [0, 0, 0, 0] else pnf @ drop (length pnf) [0, 0, 0, 0]),
                h_len := length body, h_data := Some (drop (length pre + length pnf) (p_curr p))\<rparr>,
           Some (length pre)), packet_forward p (length (pre @ pnf @ body)))" for hdr
  proof -
    have "drop (length (vl len) + length pnf) (p_curr ?q2) = drop (length pre + length pnf) (p_curr p)"
      by (simp add: pre ac_simps)
    moreover have "p_remaining p - (p_remaining ?q2 - length (vl len)) = length pre" using le by (simp add: pre)
    moreover have "packet_forward ?q2 (length (vl len) + unat len) = packet_forward p (length (pre @ pnf @ body))"
      using len(3) by (simp add: pre ac_simps)
    ultimately show ?thesis unfolding decode_with_length_at [OF q2 len pnf, of "p_remaining p"] by (simp only:)
  qed
  have l21: "\<not> p_remaining p < QUIC_MIN_VALID_PKT_LEN_CRYPTO" using l r by (simp add: pkt_types)
  have v: "decode_v1_hdr partial False (p_remaining p) (ucast b0) (hdr\<lparr>h_partial := partial, h_unused := 0, h_reserved := 0,
      h_version := 1, h_dst_conn_id := set_conn_id (h_dst_conn_id hdr) dst, h_src_conn_id := set_conn_id (h_src_conn_id hdr) src\<rparr>) ?q =
    Some ((decoded_long partial b0 dst src t tok tp pnf (length body) (drop (length pre + length pnf) (p_curr p)) hdr,
      Some (length pre)), packet_forward p (length (pre @ pnf @ body)))"
    unfolding decode_v1_hdr_def if_not_P [OF l21] Let_def t b0(3)
    using b0(4) by (simp add: tk wl decoded_long_def pkt_types del: packet_forward_simps(5))
  show ?thesis
    unfolding decode_pkt_long [OF wf d' ids b0(1) disjI2 [OF b0(2)]] r tp_def [symmetric]
    using v by (simp add: pkt_types)
qed

text \<open>Retry and Version Negotiation packets, which have no packet number and end the datagram.\<close>

definition decoded_bare :: "u8 list \<Rightarrow> u8 list \<Rightarrow> u32 \<Rightarrow> u32 \<Rightarrow> bool \<Rightarrow> u8 \<Rightarrow> nat \<Rightarrow> u8 list \<Rightarrow> QUIC_PKT_HDR \<Rightarrow> QUIC_PKT_HDR" where
  "decoded_bare dst src t v fixed unused len data hdr = hdr\<lparr>
     h_partial := False, h_unused := unused, h_reserved := 0, h_version := v,
     h_dst_conn_id := set_conn_id (h_dst_conn_id hdr) dst, h_src_conn_id := set_conn_id (h_src_conn_id hdr) src,
     h_type := t, h_fixed := fixed, h_pn_len := 0, h_spin_bit := False, h_key_phase := False,
     h_token := None, h_token_len := 0, h_pn := [0, 0, 0, 0], h_len := len, h_data := Some data\<rparr>"

definition bare_ok :: "u8 \<Rightarrow> u32 \<Rightarrow> u32 \<Rightarrow> bool \<Rightarrow> u8 \<Rightarrow> nat \<Rightarrow> nat \<Rightarrow> bool" where
  "bare_ok b0 v t fixed unused len l \<longleftrightarrow> and b0 0x80 \<noteq> 0
     \<and> (v = 0 \<and> t = QUIC_PKT_TYPE_VERSION_NEG \<and> len mod 4 = 0 \<and> fixed = (and b0 0x40 \<noteq> 0) \<and> unused = 0
        \<or> v = QUIC_VERSION_1 \<and> t = QUIC_PKT_TYPE_RETRY \<and> raw_type_to_type (ucast (and (drop_bit 4 b0) 3)) = QUIC_PKT_TYPE_RETRY
          \<and> and b0 0x40 \<noteq> 0 \<and> fixed \<and> unused = and b0 0xf \<and> 21 \<le> l)"

lemma decode_pkt_bare:
  fixes b0 :: u8
  assumes wf: "packet_wf p" and d: "pdata p = b0 # be_bytes 4 (ucast v) @ dl # dst @ sl # src @ body"
    and ids: "length dst = unat dl" "length src = unat sl" "unat dl \<le> 20" "unat sl \<le> 20"
    and ok: "bare_ok b0 v t fixed unused (length body) (length (pdata p))"
  shows "ossl_quic_wire_decode_pkt_hdr p n partial nodata hdr =
    Some ((decoded_bare dst src t v fixed unused (length body) (drop (7 + unat dl + unat sl) (p_curr p)) hdr,
           no_ptrs\<lparr>raw_start := Some 0\<rparr>), packet_forward p (length (pdata p)))"
proof -
  let ?q = "packet_forward p (7 + unat dl + unat sl)"
  have r: "length (pdata p) = p_remaining p" by (rule length_pdata [OF wf])
  have len: "p_remaining p = 7 + unat dl + unat sl + length body" using r d ids by simp
  have q: "PACKET_remaining ?q = length body" "PACKET_data ?q = drop (7 + unat dl + unat sl) (p_curr p)"
    "PACKET_forward ?q (length body) = Some (packet_forward p (p_remaining p))"
    by (simp_all add: PACKET_remaining_def PACKET_data_def PACKET_forward_def len)
  have b0: "and b0 0x80 \<noteq> 0" "v = 0 \<or> and b0 0x40 \<noteq> 0" using ok by (auto simp: bare_ok_def)
  have f: "and (drop_bit 4 (ucast b0)) 3 = (ucast (and (drop_bit 4 b0) 3) :: u32)" "ucast (and (ucast b0) 0xf :: u32) = and b0 0xf"
    "and (ucast b0) 0x40 = (0 :: u32) \<longleftrightarrow> and b0 0x40 = 0"
    by (simp_all add: drop_bit_ucast_u32 and_ucast_u32)
  note long = decode_pkt_long [OF wf d ids b0, unfolded r]
  consider (neg) "v = 0" "t = QUIC_PKT_TYPE_VERSION_NEG" "length body mod 4 = 0" "fixed = (and b0 0x40 \<noteq> 0)" "unused = 0"
    | (retry) "v = QUIC_VERSION_1" "t = QUIC_PKT_TYPE_RETRY" "raw_type_to_type (ucast (and (drop_bit 4 b0) 3)) = QUIC_PKT_TYPE_RETRY"
        "fixed" "unused = and b0 0xf" "21 \<le> p_remaining p"
    using ok unfolding bare_ok_def r by (elim conjE disjE) metis+
  then show ?thesis
  proof cases
    case neg
    then show ?thesis
      unfolding long r by (simp add: Let_def decode_version_neg_def q f decoded_bare_def del: packet_forward_simps(5))
  next
    case retry
    then have l21: "\<not> p_remaining p < QUIC_MIN_VALID_PKT_LEN_CRYPTO" by (simp add: pkt_types)
    show ?thesis
      unfolding long r decode_v1_hdr_def if_not_P [OF l21] f(1)
      using retry by (simp add: Let_def decode_token_def decode_retry_def q f decoded_bare_def pkt_types del: packet_forward_simps(5))
  qed
qed

end
