(* ===== verification/WirePktProps.thy ===== *)
theory WirePktProps
  imports WirePktCodec
begin

text \<open>
  The properties of packet headers: round trips, also through header protection, what every
  decoded header satisfies, and the integrity tag of Retry packets.
\<close>

section \<open>A header read back\<close>

text \<open>
  What a header says: the bytes its pointers and connection identifiers stand for, without what lies
  behind them.
\<close>

definition conn_id_view :: "QUIC_CONN_ID \<Rightarrow> QUIC_CONN_ID" where
  "conn_id_view c = \<lparr>id_len = id_len c, cid_id = take (unat (id_len c)) (cid_id c)\<rparr>"

definition hdr_view :: "QUIC_PKT_HDR \<Rightarrow> QUIC_PKT_HDR" where
  "hdr_view h = h\<lparr>h_dst_conn_id := conn_id_view (h_dst_conn_id h), h_src_conn_id := conn_id_view (h_src_conn_id h),
     h_token := map_option (take (h_token_len h)) (h_token h), h_data := map_option (take (h_len h)) (h_data h)\<rparr>"

text \<open>
  Headers whose fields are zero where the type of packet does not have them, and that the decoder
  accepts: of version 1 unless they negotiate a version, long enough to be sampled, with at
  least the four bytes that may be a packet number.
\<close>

definition hdr_canonical :: "QUIC_PKT_HDR \<Rightarrow> bool" where
  "hdr_canonical h \<longleftrightarrow>
     (h_type h \<noteq> QUIC_PKT_TYPE_1RTT \<longrightarrow> \<not> h_spin_bit h \<and> \<not> h_key_phase h)
     \<and> (h_type h = QUIC_PKT_TYPE_1RTT \<longrightarrow> h_version h = 0 \<and> id_len (h_src_conn_id h) = 0)
     \<and> (h_type h \<noteq> QUIC_PKT_TYPE_INITIAL \<longrightarrow> h_token_len h = 0) \<and> (h_token h = None \<longleftrightarrow> h_token_len h = 0)
     \<and> (if ossl_quic_pkt_type_has_pn (h_type h)
        then drop (unat (h_pn_len h)) (h_pn h) = drop (unat (h_pn_len h)) [0, 0, 0, 0]
        else h_pn_len h = 0 \<and> h_pn h = [0, 0, 0, 0] \<and> h_reserved h = 0)
     \<and> (h_type h \<noteq> QUIC_PKT_TYPE_RETRY \<longrightarrow> h_unused h = 0)
     \<and> (h_type h \<noteq> QUIC_PKT_TYPE_VERSION_NEG \<longrightarrow> h_fixed h)
     \<and> (h_type h = QUIC_PKT_TYPE_VERSION_NEG \<longrightarrow> h_len h mod 4 = 0)
     \<and> (ossl_quic_pkt_type_has_version (h_type h) \<longrightarrow> h_version h = QUIC_VERSION_1)
     \<and> (\<not> ossl_quic_pkt_type_must_be_last (h_type h) \<longrightarrow> 4 \<le> h_len h + unat (h_pn_len h))"

definition long_enough :: "nat \<Rightarrow> QUIC_PKT_HDR \<Rightarrow> bool" where
  "long_enough n h \<longleftrightarrow> h_type h = QUIC_PKT_TYPE_VERSION_NEG \<or> 21 \<le> length (hdr_prefix n h @ hdr_pn h) + h_len h"

lemma window_data:
  assumes "packet_wf p" "pdata p = a @ b @ c" "k = length a"
  shows "take (length b) (drop k (p_curr p)) = b"
proof -
  have "take (length b) (drop (length a) (pdata p)) = b" unfolding assms(2) by simp
  moreover have "length b \<le> p_remaining p - length a" using length_pdata [OF assms(1)] assms(2) by simp
  ultimately show ?thesis unfolding assms(3) by (simp add: pdata_def drop_take min_def)
qed

lemma conn_id_view_set: "length bs \<le> 20 \<Longrightarrow> conn_id_view (set_conn_id c bs) = \<lparr>id_len = of_nat (length bs), cid_id = bs\<rparr>"
  by (simp add: conn_id_view_def set_conn_id_def unat_of_nat_less)

lemma conn_id_view_take:
  "unat (id_len c) \<le> 20 \<Longrightarrow> length (cid_id c) = 20 \<Longrightarrow> conn_id_view (set_conn_id d (cid_bytes c)) = conn_id_view c"
  by (simp add: conn_id_view_set) (simp add: conn_id_view_def)

lemma canonical_pn:
  assumes "hdr_enc_ok n hdr" "hdr_canonical hdr" "ossl_quic_pkt_type_has_pn (h_type hdr)"
  shows "1 \<le> h_pn_len hdr" "h_pn_len hdr \<le> 4" "h_reserved hdr < 4" "length (hdr_pn hdr) = unat (h_pn_len hdr)"
    "h_pn hdr = hdr_pn hdr @ drop (length (hdr_pn hdr)) [0, 0, 0, 0]"
proof -
  show k: "1 \<le> h_pn_len hdr" "h_pn_len hdr \<le> 4" "h_reserved hdr < 4" using assms(1,3) by (simp_all add: hdr_enc_ok_def)
  have "unat (h_pn_len hdr) \<le> 4" using k(2) by (simp add: word_le_nat_alt)
  then show l: "length (hdr_pn hdr) = unat (h_pn_len hdr)" using assms(1,3) by (simp add: hdr_enc_ok_def hdr_pn_def)
  have "drop (unat (h_pn_len hdr)) (h_pn hdr) = drop (unat (h_pn_len hdr)) [0, 0, 0, 0]"
    using assms(2,3) by (simp add: hdr_canonical_def)
  then show "h_pn hdr = hdr_pn hdr @ drop (length (hdr_pn hdr)) [0, 0, 0, 0]"
    unfolding l using assms(3) by (metis append_take_drop_id hdr_pn_def)
qed

lemma canonical_token:
  assumes "hdr_enc_ok n hdr" "hdr_canonical hdr"
  shows "h_token hdr = None \<longleftrightarrow> h_token_len hdr = 0" "length (take (h_token_len hdr) (token_mem hdr)) = h_token_len hdr"
    "h_token hdr = Some t \<Longrightarrow> token_mem hdr = t"
  using assms by (auto simp: hdr_enc_ok_def hdr_canonical_def token_mem_def)

lemma hdr_view_short:
  assumes ok: "hdr_enc_ok n hdr" "hdr_canonical hdr" "h_type hdr = QUIC_PKT_TYPE_1RTT"
    and data: "take (h_len hdr) data = payload" "length payload = h_len hdr"
  shows "hdr_view (decoded_short False (short_b0 hdr) (cid_bytes (h_dst_conn_id hdr)) (hdr_pn hdr) (h_len hdr) data
      (h0\<lparr>h_partial := False, h_unused := 0, h_reserved := 0\<rparr>)) = hdr_view (hdr\<lparr>h_data := Some payload\<rparr>)"
proof -
  have pn: "ossl_quic_pkt_type_has_pn (h_type hdr)"
    by (simp add: assms(3) ossl_quic_pkt_type_has_pn_def ossl_quic_pkt_type_is_encrypted_def pkt_types)
  note c = canonical_pn [OF ok(1,2) pn]
  have e: "\<not> h_partial hdr" "unat (id_len (h_dst_conn_id hdr)) \<le> 20" "length (cid_id (h_dst_conn_id hdr)) = 20"
    using ok(1) by (simp_all add: hdr_enc_ok_def)
  have z: "h_version hdr = 0" "id_len (h_src_conn_id hdr) = 0" "h_unused hdr = 0" "h_fixed hdr" "h_token_len hdr = 0" "h_token hdr = None"
    using ok(2) unfolding hdr_canonical_def ok(3) by (auto simp: pkt_types)
  show ?thesis
    by (rule QUIC_PKT_HDR.equality)
      (simp_all add: hdr_view_def decoded_short_def ok(3) short_b0_bits [OF c(1-3)] short_b0_bits(6) [OF c(1-3), simplified] c(5) [symmetric] e z conn_id_view_take data
        conn_id_view_def [of "_\<lparr>id_len := 0\<rparr>"] conn_id_view_def [of "h_src_conn_id hdr"])
qed

lemma hdr_view_long:
  assumes ok: "hdr_enc_ok n hdr" "hdr_canonical hdr"
    and t: "h_type hdr = QUIC_PKT_TYPE_INITIAL \<or> h_type hdr = QUIC_PKT_TYPE_0RTT \<or> h_type hdr = QUIC_PKT_TYPE_HANDSHAKE"
    and data: "take (h_len hdr) data = payload" "length payload = h_len hdr"
    and tok: "tok = take (h_token_len hdr) (token_mem hdr)" "map_option (take (h_token_len hdr)) tokp = (if tok = [] then None else Some tok)"
  shows "hdr_view (decoded_long False (long_b0 hdr (the (type_to_raw_type hdr))) (cid_bytes (h_dst_conn_id hdr))
      (cid_bytes (h_src_conn_id hdr)) (h_type hdr) tok tokp (hdr_pn hdr) (h_len hdr) data h0) = hdr_view (hdr\<lparr>h_data := Some payload\<rparr>)"
proof -
  have pn: "ossl_quic_pkt_type_has_pn (h_type hdr)" and v: "ossl_quic_pkt_type_has_version (h_type hdr)"
    and n: "h_type hdr \<noteq> QUIC_PKT_TYPE_1RTT" "h_type hdr \<noteq> QUIC_PKT_TYPE_RETRY" "h_type hdr \<noteq> QUIC_PKT_TYPE_VERSION_NEG"
    using t by (auto simp: ossl_quic_pkt_type_has_pn_def ossl_quic_pkt_type_is_encrypted_def pkt_types ossl_quic_pkt_type_has_version_def)
  note c = canonical_pn [OF ok(1,2) pn]
  have e: "\<not> h_partial hdr" "unat (id_len (h_dst_conn_id hdr)) \<le> 20" "length (cid_id (h_dst_conn_id hdr)) = 20"
    "unat (id_len (h_src_conn_id hdr)) \<le> 20" "length (cid_id (h_src_conn_id hdr)) = 20"
    using ok(1) by (simp_all add: hdr_enc_ok_def)
  have z: "h_version hdr = QUIC_VERSION_1" "\<not> h_spin_bit hdr" "\<not> h_key_phase hdr" "h_unused hdr = 0" "h_fixed hdr"
    using ok(2) v n unfolding hdr_canonical_def by auto
  have k: "length tok = h_token_len hdr" unfolding tok(1) by (rule canonical_token(2) [OF ok])
  have tk: "map_option (take (h_token_len hdr)) (h_token hdr) = (if tok = [] then None else Some tok)"
    using canonical_token [OF ok] k by (cases "h_token hdr") (auto simp: tok(1))
  show ?thesis
    by (rule QUIC_PKT_HDR.equality)
      (simp_all add: hdr_view_def decoded_long_def long_b0_bits [OF t c(1-3)] long_b0_bits(5) [OF t c(1-3), simplified] c(5) [symmetric] e z conn_id_view_take data k tk tok(2))
qed

lemma hdr_view_bare:
  assumes ok: "hdr_enc_ok n hdr" "hdr_canonical hdr"
    and t: "h_type hdr = QUIC_PKT_TYPE_RETRY \<or> h_type hdr = QUIC_PKT_TYPE_VERSION_NEG"
    and data: "take (h_len hdr) data = payload" "length payload = h_len hdr"
  shows "hdr_view (decoded_bare (cid_bytes (h_dst_conn_id hdr)) (cid_bytes (h_src_conn_id hdr)) (h_type hdr) (h_version hdr)
      (h_fixed hdr) (h_unused hdr) (h_len hdr) data h0) = hdr_view (hdr\<lparr>h_data := Some payload\<rparr>)"
proof -
  have pn: "\<not> ossl_quic_pkt_type_has_pn (h_type hdr)" and n: "h_type hdr \<noteq> QUIC_PKT_TYPE_1RTT" "h_type hdr \<noteq> QUIC_PKT_TYPE_INITIAL"
    using t by (auto simp: ossl_quic_pkt_type_has_pn_def ossl_quic_pkt_type_is_encrypted_def pkt_types)
  have e: "\<not> h_partial hdr" "unat (id_len (h_dst_conn_id hdr)) \<le> 20" "length (cid_id (h_dst_conn_id hdr)) = 20"
    "unat (id_len (h_src_conn_id hdr)) \<le> 20" "length (cid_id (h_src_conn_id hdr)) = 20"
    using ok(1) by (simp_all add: hdr_enc_ok_def)
  have z: "\<not> h_spin_bit hdr" "\<not> h_key_phase hdr" "h_token_len hdr = 0" "h_token hdr = None"
    "h_pn_len hdr = 0" "h_pn hdr = [0, 0, 0, 0]" "h_reserved hdr = 0"
    using ok(2) pn n unfolding hdr_canonical_def by auto
  show ?thesis
    by (rule QUIC_PKT_HDR.equality) (simp_all add: hdr_view_def decoded_bare_def e z conn_id_view_take data)
qed

section \<open>Decoding what was encoded\<close>

lemma hdr_prefix_short:
  assumes "h_type hdr = QUIC_PKT_TYPE_1RTT" "hdr_enc_ok n hdr"
  shows "hdr_prefix n hdr = short_b0 hdr # cid_bytes (h_dst_conn_id hdr)" "length (cid_bytes (h_dst_conn_id hdr)) = n" "n \<le> 20"
  using assms by (auto simp: hdr_prefix_def hdr_enc_ok_def)

lemma hdr_prefix_long:
  assumes t: "h_type hdr = QUIC_PKT_TYPE_INITIAL \<or> h_type hdr = QUIC_PKT_TYPE_0RTT \<or> h_type hdr = QUIC_PKT_TYPE_HANDSHAKE"
    and ok: "hdr_enc_ok n hdr" "hdr_canonical hdr"
  defines "tok \<equiv> take (h_token_len hdr) (token_mem hdr)"
  shows "hdr_prefix n hdr = long_b0 hdr (the (type_to_raw_type hdr)) # be_bytes 4 1
      @ id_len (h_dst_conn_id hdr) # cid_bytes (h_dst_conn_id hdr) @ id_len (h_src_conn_id hdr) # cid_bytes (h_src_conn_id hdr)
      @ (if h_type hdr = QUIC_PKT_TYPE_INITIAL then vl (of_nat (length tok)) @ tok else []) @ vl (of_nat (h_len hdr + unat (h_pn_len hdr)))"
    and "length tok < 2 ^ 62" "h_type hdr \<noteq> QUIC_PKT_TYPE_INITIAL \<longrightarrow> tok = []"
    "vl_ok (of_nat (h_len hdr + unat (h_pn_len hdr)))" "unat (of_nat (h_len hdr + unat (h_pn_len hdr)) :: u64) = h_len hdr + unat (h_pn_len hdr)"
    "4 \<le> h_len hdr + unat (h_pn_len hdr)"
proof -
  have pn: "ossl_quic_pkt_type_has_pn (h_type hdr)" "ossl_quic_pkt_type_has_version (h_type hdr)" "\<not> ossl_quic_pkt_type_must_be_last (h_type hdr)"
    and n: "h_type hdr \<noteq> QUIC_PKT_TYPE_1RTT"
    using t by (auto simp: ossl_quic_pkt_type_has_pn_def ossl_quic_pkt_type_is_encrypted_def pkt_types
        ossl_quic_pkt_type_has_version_def ossl_quic_pkt_type_must_be_last_def ossl_quic_pkt_type_can_share_dgram_def)
  have v: "ucast (h_version hdr) = (1 :: u64)" using ok(2) pn by (simp add: hdr_canonical_def pkt_types)
  have k: "length tok = h_token_len hdr" unfolding tok_def by (rule canonical_token(2) [OF ok])
  show "hdr_prefix n hdr = long_b0 hdr (the (type_to_raw_type hdr)) # be_bytes 4 1
      @ id_len (h_dst_conn_id hdr) # cid_bytes (h_dst_conn_id hdr) @ id_len (h_src_conn_id hdr) # cid_bytes (h_src_conn_id hdr)
      @ (if h_type hdr = QUIC_PKT_TYPE_INITIAL then vl (of_nat (length tok)) @ tok else []) @ vl (of_nat (h_len hdr + unat (h_pn_len hdr)))"
    unfolding hdr_prefix_def if_not_P [OF n] if_P [OF pn(1)] v k by (simp only: tok_def append_assoc)
  show "length tok < 2 ^ 62" "h_type hdr \<noteq> QUIC_PKT_TYPE_INITIAL \<longrightarrow> tok = []"
    using ok by (auto simp: k hdr_enc_ok_def hdr_canonical_def tok_def)
  show l: "unat (of_nat (h_len hdr + unat (h_pn_len hdr)) :: u64) = h_len hdr + unat (h_pn_len hdr)"
    using ok(1) by (intro unat_of_nat_u64) (simp add: hdr_enc_ok_def)
  show "vl_ok (of_nat (h_len hdr + unat (h_pn_len hdr)))" unfolding l using ok(1) by (simp add: hdr_enc_ok_def)
  show "4 \<le> h_len hdr + unat (h_pn_len hdr)" using ok(2) pn(3) by (simp add: hdr_canonical_def)
qed

lemma hdr_prefix_bare:
  assumes t: "h_type hdr = QUIC_PKT_TYPE_RETRY \<or> h_type hdr = QUIC_PKT_TYPE_VERSION_NEG"
  shows "hdr_prefix n hdr @ hdr_pn hdr = long_b0 hdr (the (type_to_raw_type hdr)) # be_bytes 4 (ucast (h_version hdr))
      @ id_len (h_dst_conn_id hdr) # cid_bytes (h_dst_conn_id hdr) @ id_len (h_src_conn_id hdr) # cid_bytes (h_src_conn_id hdr)"
proof -
  have "\<not> ossl_quic_pkt_type_has_pn (h_type hdr)" "h_type hdr \<noteq> QUIC_PKT_TYPE_1RTT"
    using t by (auto simp: ossl_quic_pkt_type_has_pn_def ossl_quic_pkt_type_is_encrypted_def pkt_types)
  then show ?thesis by (simp add: hdr_prefix_def hdr_pn_def)
qed

lemma type_cases [consumes 1, case_names short long bare]:
  assumes "hdr_enc_ok n hdr"
  obtains "h_type hdr = QUIC_PKT_TYPE_1RTT"
    | "h_type hdr = QUIC_PKT_TYPE_INITIAL \<or> h_type hdr = QUIC_PKT_TYPE_0RTT \<or> h_type hdr = QUIC_PKT_TYPE_HANDSHAKE"
    | "h_type hdr = QUIC_PKT_TYPE_RETRY \<or> h_type hdr = QUIC_PKT_TYPE_VERSION_NEG"
  using pkt_type_cases [of "h_type hdr"] assms by (auto simp: hdr_enc_ok_def)

lemma decode_written_short:
  assumes t: "h_type hdr = QUIC_PKT_TYPE_1RTT" and ok: "hdr_enc_ok n hdr" "hdr_canonical hdr" "long_enough n hdr"
    and p: "packet_wf p" "pdata p = hdr_prefix n hdr @ hdr_pn hdr @ payload" "length payload = h_len hdr"
  shows "\<exists>hdr'. ossl_quic_wire_decode_pkt_hdr p n False False h0 =
      Some ((hdr', ptrs_at 0 (length (hdr_prefix n hdr)) (length (pdata p))), packet_forward p (length (pdata p)))
    \<and> hdr_view hdr' = hdr_view (hdr\<lparr>h_data := Some payload\<rparr>)"
proof -
  have pn: "ossl_quic_pkt_type_has_pn (h_type hdr)"
    by (simp add: t ossl_quic_pkt_type_has_pn_def ossl_quic_pkt_type_is_encrypted_def pkt_types)
  note c = canonical_pn [OF ok(1,2) pn]
  note b = short_b0_bits [OF c(1-3)]
  note pre = hdr_prefix_short [OF t ok(1)]
  have d: "pdata p = short_b0 hdr # cid_bytes (h_dst_conn_id hdr) @ hdr_pn hdr @ payload" using p(2) pre(1) by simp
  have l: "21 \<le> length (pdata p)" using ok(3) p(2,3) by (simp add: long_enough_def t pkt_types)
  have f: "length (hdr_pn hdr) = pn_field_len False (short_b0 hdr)" by (simp add: pn_field_len_def b(5) c(4))
  have w: "take (h_len hdr) (drop (1 + n + length (hdr_pn hdr)) (p_curr p)) = payload"
    using window_data [OF p(1), of "hdr_prefix n hdr @ hdr_pn hdr" payload "[]"] p(2,3) pre by simp
  show ?thesis
    using decode_pkt_short [OF p(1) d pre(2,3) l b(1,2) f, of False h0] hdr_view_short [OF ok(1,2) t w p(3), of h0] p(3) pre
    by simp
qed

lemma decode_written_long:
  assumes t: "h_type hdr = QUIC_PKT_TYPE_INITIAL \<or> h_type hdr = QUIC_PKT_TYPE_0RTT \<or> h_type hdr = QUIC_PKT_TYPE_HANDSHAKE"
    and ok: "hdr_enc_ok n hdr" "hdr_canonical hdr" "long_enough n hdr"
    and p: "packet_wf p" "pdata p = hdr_prefix n hdr @ hdr_pn hdr @ payload @ rest" "length payload = h_len hdr"
  shows "\<exists>hdr'. ossl_quic_wire_decode_pkt_hdr p n False False h0 =
      Some ((hdr', ptrs_at 0 (length (hdr_prefix n hdr)) (length (pdata p))),
        packet_forward p (length (hdr_prefix n hdr @ hdr_pn hdr) + h_len hdr))
    \<and> hdr_view hdr' = hdr_view (hdr\<lparr>h_data := Some payload\<rparr>)"
proof -
  let ?b = "long_b0 hdr (the (type_to_raw_type hdr))" and ?tok = "take (h_token_len hdr) (token_mem hdr)"
  let ?len = "of_nat (h_len hdr + unat (h_pn_len hdr)) :: u64"
  have pn: "ossl_quic_pkt_type_has_pn (h_type hdr)" and nr: "h_type hdr \<noteq> QUIC_PKT_TYPE_RETRY"
    using t by (auto simp: ossl_quic_pkt_type_has_pn_def ossl_quic_pkt_type_is_encrypted_def pkt_types)
  note c = canonical_pn [OF ok(1,2) pn]
  note b = long_b0_bits [OF t c(1-3)]
  note pre = hdr_prefix_long [OF t ok(1,2)]
  have ids: "length (cid_bytes (h_dst_conn_id hdr)) = unat (id_len (h_dst_conn_id hdr))"
    "length (cid_bytes (h_src_conn_id hdr)) = unat (id_len (h_src_conn_id hdr))"
    "unat (id_len (h_dst_conn_id hdr)) \<le> 20" "unat (id_len (h_src_conn_id hdr)) \<le> 20"
    using ok(1) by (simp_all add: hdr_enc_ok_def)
  have d: "pdata p = ?b # be_bytes 4 1 @ id_len (h_dst_conn_id hdr) # cid_bytes (h_dst_conn_id hdr)
      @ id_len (h_src_conn_id hdr) # cid_bytes (h_src_conn_id hdr)
      @ (if h_type hdr = QUIC_PKT_TYPE_INITIAL then vl (of_nat (length ?tok)) @ ?tok else []) @ vl ?len @ hdr_pn hdr @ payload @ rest"
    unfolding p(2) pre(1) by (simp only: append_Cons append_assoc)
  have l: "21 \<le> length (pdata p)" using ok(3) p(2,3) t by (auto simp: long_enough_def pkt_types)
  have f: "length (hdr_pn hdr) = pn_field_len False ?b" by (simp add: pn_field_len_def b(4) c(4))
  have len: "unat ?len = length (hdr_pn hdr) + length payload" "4 \<le> unat ?len" using pre(5,6) p(3) c(4) by simp_all
  let ?tp = "if ?tok = [] then None else Some (drop (length (vl (of_nat (length ?tok)))
      + (7 + unat (id_len (h_dst_conn_id hdr)) + unat (id_len (h_src_conn_id hdr)))) (p_curr p))"
  note dec = decode_pkt_with_length [OF p(1) d ids b(1-3) nr pre(2-4) len(2,1) f l, of n h0, folded pre(1)]
  have w: "take (h_len hdr) (drop (length (hdr_prefix n hdr) + length (hdr_pn hdr)) (p_curr p)) = payload"
    using window_data [OF p(1), of "hdr_prefix n hdr @ hdr_pn hdr" payload rest] p(2,3) by simp
  have tp: "map_option (take (h_token_len hdr)) ?tp = (if ?tok = [] then None else Some ?tok)"
  proof (cases "?tok = []")
    case False
    then have i: "h_type hdr = QUIC_PKT_TYPE_INITIAL" using pre(3) by blast
    let ?a = "?b # be_bytes 4 1 @ id_len (h_dst_conn_id hdr) # cid_bytes (h_dst_conn_id hdr)
      @ id_len (h_src_conn_id hdr) # cid_bytes (h_src_conn_id hdr) @ vl (of_nat (length ?tok))"
    have "pdata p = ?a @ ?tok @ (vl ?len @ hdr_pn hdr @ payload @ rest)" unfolding d if_P [OF i] by (simp only: append_Cons append_assoc)
    from window_data [OF p(1) this, of "length (vl (of_nat (length ?tok)))
      + (7 + unat (id_len (h_dst_conn_id hdr)) + unat (id_len (h_src_conn_id hdr)))"]
    have "take (length ?tok) (drop (length (vl (of_nat (length ?tok))) + (7 + unat (id_len (h_dst_conn_id hdr)) + unat (id_len (h_src_conn_id hdr))))
        (p_curr p)) = ?tok" using ids by simp
    then show ?thesis using False canonical_token(2) [OF ok(1,2)] by simp
  qed simp
  have "hdr_view (decoded_long False ?b (cid_bytes (h_dst_conn_id hdr)) (cid_bytes (h_src_conn_id hdr)) (h_type hdr) ?tok ?tp (hdr_pn hdr)
      (h_len hdr) (drop (length (hdr_prefix n hdr) + length (hdr_pn hdr)) (p_curr p)) h0) = hdr_view (hdr\<lparr>h_data := Some payload\<rparr>)"
    by (rule hdr_view_long [OF ok(1,2) t w p(3) refl tp])
  with dec p(3) show ?thesis by (auto simp: add.assoc)
qed

lemma decode_written_bare:
  assumes t: "h_type hdr = QUIC_PKT_TYPE_RETRY \<or> h_type hdr = QUIC_PKT_TYPE_VERSION_NEG"
    and ok: "hdr_enc_ok n hdr" "hdr_canonical hdr" "long_enough n hdr"
    and p: "packet_wf p" "pdata p = (hdr_prefix n hdr @ hdr_pn hdr) @ payload" "length payload = h_len hdr"
  shows "\<exists>hdr'. ossl_quic_wire_decode_pkt_hdr p n' partial False h0 =
      Some ((hdr', no_ptrs\<lparr>raw_start := Some 0\<rparr>), packet_forward p (length (pdata p)))
    \<and> hdr_view hdr' = hdr_view (hdr\<lparr>h_data := Some payload\<rparr>)"
proof -
  let ?b = "long_b0 hdr (the (type_to_raw_type hdr))"
  have ids: "length (cid_bytes (h_dst_conn_id hdr)) = unat (id_len (h_dst_conn_id hdr))"
    "length (cid_bytes (h_src_conn_id hdr)) = unat (id_len (h_src_conn_id hdr))"
    "unat (id_len (h_dst_conn_id hdr)) \<le> 20" "unat (id_len (h_src_conn_id hdr)) \<le> 20"
    using ok(1) by (simp_all add: hdr_enc_ok_def)
  have d: "pdata p = ?b # be_bytes 4 (ucast (h_version hdr)) @ id_len (h_dst_conn_id hdr) # cid_bytes (h_dst_conn_id hdr)
      @ id_len (h_src_conn_id hdr) # cid_bytes (h_src_conn_id hdr) @ payload"
    unfolding p(2) hdr_prefix_bare [OF t] by (simp only: append_Cons append_assoc)
  have w: "take (h_len hdr) (drop (7 + unat (id_len (h_dst_conn_id hdr)) + unat (id_len (h_src_conn_id hdr))) (p_curr p)) = payload"
    using window_data [OF p(1), of "hdr_prefix n hdr @ hdr_pn hdr" payload "[]"] p(2,3) ids unfolding hdr_prefix_bare [OF t] by (simp add: add.assoc)
  have b: "bare_ok ?b (h_version hdr) (h_type hdr) (h_fixed hdr) (h_unused hdr) (length payload) (length (pdata p))"
    using t
  proof
    assume r: "h_type hdr = QUIC_PKT_TYPE_RETRY"
    have "h_unused hdr < 16" "h_version hdr = QUIC_VERSION_1" "h_fixed hdr"
      using ok(1,2) by (simp_all add: hdr_enc_ok_def hdr_canonical_def r ossl_quic_pkt_type_has_version_def pkt_types)
    moreover have "21 \<le> length (pdata p)" using ok(3) p(2,3) r by (simp add: long_enough_def pkt_types)
    ultimately show ?thesis using retry_b0_bits [OF r] r by (simp add: bare_ok_def)
  next
    assume r: "h_type hdr = QUIC_PKT_TYPE_VERSION_NEG"
    have v: "h_version hdr = 0" using ok(1) r by (simp add: hdr_enc_ok_def)
    moreover have "h_len hdr mod 4 = 0" "h_unused hdr = 0" using ok(2) r by (simp_all add: hdr_canonical_def pkt_types)
    ultimately show ?thesis using version_neg_b0_bits [OF r v] r p(3) by (simp add: bare_ok_def)
  qed
  show ?thesis
    using decode_pkt_bare [OF p(1) d ids b, of n' partial False h0] hdr_view_bare [OF ok(1,2) t w p(3), of h0] p(3) by auto
qed

lemma decode_written:
  assumes ok: "hdr_enc_ok n hdr" "hdr_canonical hdr" "long_enough n hdr"
    and p: "packet_wf p" "pdata p = (hdr_prefix n hdr @ hdr_pn hdr) @ payload @ rest" "length payload = h_len hdr"
    and last: "ossl_quic_pkt_type_must_be_last (h_type hdr) \<longrightarrow> rest = []"
  shows "\<exists>hdr'. ossl_quic_wire_decode_pkt_hdr p n False False h0 =
      Some ((hdr', if ossl_quic_pkt_type_has_pn (h_type hdr) then ptrs_at 0 (length (hdr_prefix n hdr)) (length (pdata p))
                   else no_ptrs\<lparr>raw_start := Some 0\<rparr>), packet_forward p (length (hdr_prefix n hdr @ hdr_pn hdr) + h_len hdr))
    \<and> hdr_view hdr' = hdr_view (hdr\<lparr>h_data := Some payload\<rparr>)"
proof -
  note types = ossl_quic_pkt_type_has_pn_def ossl_quic_pkt_type_is_encrypted_def pkt_types
    ossl_quic_pkt_type_must_be_last_def ossl_quic_pkt_type_can_share_dgram_def
  from ok(1) show ?thesis
  proof (cases rule: type_cases)
    case short
    then have r: "rest = []" "ossl_quic_pkt_type_has_pn (h_type hdr)" using last by (simp_all add: types)
    show ?thesis using decode_written_short [OF short ok p(1) _ p(3), of h0] p(2,3) r by (simp add: add.assoc)
  next
    case long
    then have "ossl_quic_pkt_type_has_pn (h_type hdr)" by (auto simp: types)
    then show ?thesis using decode_written_long [OF long ok p(1) _ p(3), of rest h0] p(2) by simp
  next
    case bare
    then have r: "rest = []" "\<not> ossl_quic_pkt_type_has_pn (h_type hdr)" using last by (auto simp: types)
    show ?thesis using decode_written_bare [OF bare ok p(1) _ p(3), of n False h0] p(2,3) r by (simp add: add.assoc)
  qed
qed

text \<open>A packet with header protection, seen by a partial decode.\<close>

lemma protected_bits:
  fixes b m :: u8
  assumes "b' = xor b (and m (if and b 0x80 \<noteq> 0 then 0xf else 0x1f))"
  shows "and b' 0x80 = and b 0x80" "and b' 0x40 = and b 0x40" "and b 0x80 \<noteq> 0 \<Longrightarrow> drop_bit 4 b' = drop_bit 4 b"
proof -
  have c: "and (xor b (and m c)) x = and b x" if "and c x = 0" for c x
    using that by (simp add: bit.conj_xor_distrib2 and.assoc)
  show "and b' 0x80 = and b 0x80" "and b' 0x40 = and b 0x40" unfolding assms by (simp_all add: c)
  show "drop_bit 4 b' = drop_bit 4 b" if "and b 0x80 \<noteq> 0"
    using that unfolding assms by (simp add: drop_bit_xor drop_bit_and)
qed

lemma decode_protected:
  assumes ok: "hdr_enc_ok n hdr" "hdr_canonical hdr" "long_enough n hdr" and pn: "ossl_quic_pkt_type_has_pn (h_type hdr)"
    and p: "packet_wf p" "pdata p = b' # tl (hdr_prefix n hdr) @ body" "length body = length (hdr_pn hdr) + h_len hdr" "4 \<le> length body"
    and b': "b' = xor (hd (hdr_prefix n hdr)) (and m (if and (hd (hdr_prefix n hdr)) 0x80 \<noteq> 0 then 0xf else 0x1f))"
  shows "\<exists>hdr'. ossl_quic_wire_decode_pkt_hdr p n True False h0 =
      Some ((hdr', ptrs_at 0 (length (hdr_prefix n hdr)) (length (pdata p))), packet_forward p (length (pdata p)))
    \<and> h_partial hdr' \<and> h_type hdr' = h_type hdr \<and> conn_id_view (h_dst_conn_id hdr') = conn_id_view (h_dst_conn_id hdr)"
proof -
  note c = canonical_pn [OF ok(1,2) pn]
  have ids: "length (cid_bytes (h_dst_conn_id hdr)) = unat (id_len (h_dst_conn_id hdr))"
    "length (cid_bytes (h_src_conn_id hdr)) = unat (id_len (h_src_conn_id hdr))"
    "unat (id_len (h_dst_conn_id hdr)) \<le> 20" "unat (id_len (h_src_conn_id hdr)) \<le> 20" "length (cid_id (h_dst_conn_id hdr)) = 20"
    using ok(1) by (simp_all add: hdr_enc_ok_def)
  have ne: "hdr_prefix n hdr \<noteq> []" by (simp add: hdr_prefix_def)
  have l: "21 \<le> length (pdata p)"
    using ok(3) pn p(2,3) ne by (auto simp: long_enough_def ossl_quic_pkt_type_has_pn_def ossl_quic_pkt_type_is_encrypted_def Suc_diff_1)
  have body: "body = take 4 body @ drop 4 body" by simp
  have f: "length (take 4 body) = pn_field_len True b'" using p(4) by (simp add: pn_field_len_def)
  note pb = protected_bits [OF b']
  from ok(1) show ?thesis
  proof (cases rule: type_cases)
    case short
    note pre = hdr_prefix_short [OF short ok(1)]
    note b = short_b0_bits [OF c(1-3)]
    have d: "pdata p = b' # cid_bytes (h_dst_conn_id hdr) @ take 4 body @ drop 4 body" using p(2) pre(1) by simp
    have bb: "and b' 0x80 = 0" "and b' 0x40 \<noteq> 0" using pb b(1,2) pre(1) by simp_all
    show ?thesis
      using decode_pkt_short [OF p(1) d pre(2,3) l bb f, of False h0] pre ids conn_id_view_take [of "h_dst_conn_id hdr" "h_dst_conn_id h0"]
      by (simp add: decoded_short_def short)
  next
    case long
    let ?tok = "take (h_token_len hdr) (token_mem hdr)" and ?len = "of_nat (h_len hdr + unat (h_pn_len hdr)) :: u64"
    note pre = hdr_prefix_long [OF long ok(1,2)]
    note b = long_b0_bits [OF long c(1-3)]
    have nr: "h_type hdr \<noteq> QUIC_PKT_TYPE_RETRY" using long by (auto simp: pkt_types)
    have bb: "and b' 0x80 \<noteq> 0" "and b' 0x40 \<noteq> 0" "raw_type_to_type (ucast (and (drop_bit 4 b') 3)) = h_type hdr"
      using pb b(1-3) pre(1) by simp_all
    have d: "pdata p = b' # be_bytes 4 1 @ id_len (h_dst_conn_id hdr) # cid_bytes (h_dst_conn_id hdr)
        @ id_len (h_src_conn_id hdr) # cid_bytes (h_src_conn_id hdr)
        @ (if h_type hdr = QUIC_PKT_TYPE_INITIAL then vl (of_nat (length ?tok)) @ ?tok else []) @ vl ?len @ take 4 body @ drop 4 body @ []"
      unfolding p(2) pre(1) by (simp only: list.sel append_Cons append_assoc append_take_drop_id append_Nil2)
    have len: "unat ?len = length (take 4 body) + length (drop 4 body)" "4 \<le> unat ?len" using pre(5,6) p(3,4) c(4) by simp_all
    define X where "X = b' # be_bytes 4 1 @ id_len (h_dst_conn_id hdr) # cid_bytes (h_dst_conn_id hdr)
        @ id_len (h_src_conn_id hdr) # cid_bytes (h_src_conn_id hdr)
        @ (if h_type hdr = QUIC_PKT_TYPE_INITIAL then vl (of_nat (length ?tok)) @ ?tok else []) @ vl ?len"
    note dec = decode_pkt_with_length [OF p(1) d ids(1-4) bb nr pre(2-4) len(2,1) f l, of n h0, folded X_def]
    have lX: "length (hdr_prefix n hdr) = length X" unfolding pre(1) X_def by (simp only: list.size)
    have "pdata p = X @ take 4 body @ drop 4 body" unfolding d X_def by (simp only: append_Cons append_assoc append_Nil2)
    then have e: "length (X @ take 4 body @ drop 4 body) = length (pdata p)" by simp
    show ?thesis
      unfolding dec lX e using ids conn_id_view_take [of "h_dst_conn_id hdr" "h_dst_conn_id h0"] by (simp add: decoded_long_def)
  next
    case bare
    then show ?thesis using pn by (auto simp: ossl_quic_pkt_type_has_pn_def ossl_quic_pkt_type_is_encrypted_def)
  qed
qed

section \<open>Properties\<close>

text \<open>C8: Packet header round trip. A header written by \<^verbatim>\<open>ossl_quic_wire_encode_pkt_hdr\<close>, of any of
  the six types of packet, followed by its payload and, unless the type has to be last, by other packets of the
  datagram, is read back by \<^verbatim>\<open>ossl_quic_wire_decode_pkt_hdr\<close>: every field of the header, the token,
  the connection identifiers and the payload are the ones written, the decoder stops behind the
  payload, and the header has the length \<^verbatim>\<open>ossl_quic_wire_get_encoded_pkt_hdr_len\<close> announced.
\<close>

theorem pkt_hdr_roundtrip:
  assumes "hdr_enc_ok n hdr" "hdr_canonical hdr" "long_enough n hdr" "w_inv w"
    and "ossl_quic_wire_encode_pkt_hdr w n hdr None = (True, x, w')"
    and "packet_wf p" "pdata p = drop (length (w_out w)) (w_out w') @ payload @ rest" "length payload = h_len hdr"
    and "ossl_quic_pkt_type_must_be_last (h_type hdr) \<longrightarrow> rest = []"
  shows "w_out w' = w_out w @ drop (length (w_out w)) (w_out w')
    \<and> length (w_out w') = length (w_out w) + ossl_quic_wire_get_encoded_pkt_hdr_len n hdr
    \<and> (\<exists>hdr' ptrs q. ossl_quic_wire_decode_pkt_hdr p n False False h0 = Some ((hdr', ptrs), q)
      \<and> pdata q = rest \<and> hdr_view hdr' = hdr_view (hdr\<lparr>h_data := Some payload\<rparr>))"
proof -
  have o: "w_out w' = w_out w @ hdr_prefix n hdr @ hdr_pn hdr" by (rule encode_hdr_ok(2) [OF assms(1,4,5)])
  then have d: "pdata p = (hdr_prefix n hdr @ hdr_pn hdr) @ payload @ rest" using assms(7) by simp
  have "drop (length (hdr_prefix n hdr @ hdr_pn hdr) + h_len hdr) (pdata p) = rest"
    unfolding d assms(8) [symmetric] using drop_length_append [of "(hdr_prefix n hdr @ hdr_pn hdr) @ payload" rest] by simp
  with decode_written [OF assms(1-3,6) d assms(8,9), of h0] encoded_hdr_len [OF assms(1)] o show ?thesis by auto
qed

text \<open>A header and a writer to show the round trips on.\<close>

definition demo_hdr :: QUIC_PKT_HDR where
  "demo_hdr = \<lparr>h_type = QUIC_PKT_TYPE_INITIAL, h_spin_bit = False, h_key_phase = False, h_pn_len = 2, h_partial = False, h_fixed = True,
     h_unused = 0, h_reserved = 0, h_version = QUIC_VERSION_1,
     h_dst_conn_id = \<lparr>id_len = 4, cid_id = [1, 2, 3, 4] @ replicate 16 0\<rparr>, h_src_conn_id = \<lparr>id_len = 2, cid_id = [5, 6] @ replicate 18 0\<rparr>,
     h_pn = [9, 8, 0, 0], h_token = Some [7], h_token_len = 1, h_len = 20, h_data = None\<rparr>"

lemma demo_hdr_ok: "hdr_enc_ok 0 demo_hdr" "hdr_canonical demo_hdr" "long_enough 0 demo_hdr"
  "length (hdr_prefix 0 demo_hdr @ hdr_pn demo_hdr) \<le> 40"
proof -
  note types = pkt_types ossl_quic_pkt_type_has_pn_def ossl_quic_pkt_type_is_encrypted_def ossl_quic_pkt_type_must_be_last_def
    ossl_quic_pkt_type_can_share_dgram_def ossl_quic_pkt_type_has_version_def
  show "hdr_enc_ok 0 demo_hdr" "hdr_canonical demo_hdr" "long_enough 0 demo_hdr"
    by (simp_all add: hdr_enc_ok_def hdr_canonical_def long_enough_def hdr_prefix_def hdr_pn_def demo_hdr_def types token_mem_def)
  show "length (hdr_prefix 0 demo_hdr @ hdr_pn demo_hdr) \<le> 40"
    by (simp add: hdr_prefix_def hdr_pn_def demo_hdr_def types token_mem_def ossl_quic_vlint_encode_def ossl_quic_vlint_encode_len_def
        ossl_quic_vlint_encode_n_def)
qed

lemma demo_writer:
  obtains w where "w_inv w" "w_out w = []" "w_staticbuf w \<noteq> None" "w_space w 64"
proof -
  obtain w where i: "WPACKET_init_static_len (sconst True) (replicate 64 0) 0 = (True, w)"
    by (simp add: WPACKET_init_static_len_def wpacket_intern_init_len_def w_blank_def maxmaxsize_def Let_def)
  note d = init_static_inv [OF i]
  have "w_staticbuf w \<noteq> None" using static_buf_inv [OF d(1)] d(5) by simp
  moreover have "w_space w 64" using d length_w_out [OF d(1)] by (simp add: w_space_def)
  ultimately show thesis using that d by blast
qed

theorem pkt_hdr_roundtrip_witness:
  "\<exists>w x w' hdr' ptrs q. ossl_quic_wire_encode_pkt_hdr w 0 demo_hdr None = (True, x, w')
    \<and> ossl_quic_wire_decode_pkt_hdr \<lparr>p_curr = w_out w' @ replicate 20 3 @ [1], p_remaining = length (w_out w' @ replicate 20 3 @ [1])\<rparr>
        0 False False demo_hdr = Some ((hdr', ptrs), q)
    \<and> pdata q = [1] \<and> hdr_view hdr' = hdr_view (demo_hdr\<lparr>h_data := Some (replicate 20 3)\<rparr>)"
proof -
  obtain w where w: "w_inv w" "w_out w = []" "w_space w 64" using demo_writer .
  have "fst (ossl_quic_wire_encode_pkt_hdr w 0 demo_hdr None)"
    by (rule encode_hdr_success [OF demo_hdr_ok(1) w(1)]) (use demo_hdr_ok(4) w_space_mono [OF w(3)] in \<open>auto simp: demo_hdr_def\<close>)
  then obtain x w' where e: "ossl_quic_wire_encode_pkt_hdr w 0 demo_hdr None = (True, x, w')" by (metis prod.collapse)
  let ?d = "w_out w' @ replicate 20 3 @ [1]"
  have l: "ossl_quic_pkt_type_must_be_last (h_type demo_hdr) \<longrightarrow> [1] = ([] :: u8 list)"
    by (simp add: demo_hdr_def ossl_quic_pkt_type_must_be_last_def ossl_quic_pkt_type_can_share_dgram_def
        ossl_quic_pkt_type_is_encrypted_def pkt_types)
  show ?thesis
    using pkt_hdr_roundtrip [OF demo_hdr_ok(1-3) w(1) e, of "\<lparr>p_curr = ?d, p_remaining = length ?d\<rparr>" "replicate 20 3" "[1]" demo_hdr, OF _ _ _ l] e w(2)
    by (fastforce simp: demo_hdr_def)
qed

text \<open>C2: Protected packet round trip. The sender writes a header into its buffer, puts the payload behind it
  and applies header protection at the positions the encoder reported. The receiver decodes the
  protected packet partially: it learns the type and destination of the packet and exactly the positions the sender used. It removes
  the protection at these positions, which restores the packet, and a full decode reads every
  field of the header and the payload the sender wrote.
\<close>

theorem protected_packet_roundtrip:
  assumes "hpr_ok hpr" "hdr_enc_ok n hdr" "hdr_canonical hdr" "long_enough n hdr"
    and "ossl_quic_pkt_type_has_pn (h_type hdr)" "4 \<le> h_len hdr + unat (h_pn_len hdr)"
    and "w_inv w" "w_out w = []" "ossl_quic_wire_encode_pkt_hdr w n hdr (Some x) = (True, Some ptrs, w')"
    and "length payload = h_len hdr" "ossl_quic_hdr_protector_encrypt hpr ptrs (w_out w' @ payload) = Some wire"
  shows "\<exists>h1 q1 h2 ptrs2 q2.
      ossl_quic_wire_decode_pkt_hdr \<lparr>p_curr = wire, p_remaining = length wire\<rparr> n True False h0 = Some ((h1, ptrs), q1)
    \<and> h_partial h1 \<and> h_type h1 = h_type hdr \<and> conn_id_view (h_dst_conn_id h1) = conn_id_view (h_dst_conn_id hdr)
    \<and> ossl_quic_hdr_protector_decrypt hpr ptrs wire = Some (w_out w' @ payload)
    \<and> ossl_quic_wire_decode_pkt_hdr \<lparr>p_curr = w_out w' @ payload, p_remaining = length wire\<rparr> n False False h1 = Some ((h2, ptrs2), q2)
    \<and> hdr_view h2 = hdr_view (hdr\<lparr>h_data := Some payload\<rparr>)"
proof -
  let ?pre = "hdr_prefix n hdr" and ?pn = "hdr_pn hdr"
  let ?pkt = "w_out w' @ payload"
  have o: "w_out w' = ?pre @ ?pn" using encode_hdr_ok(2) [OF assms(2,7,9)] assms(8) by simp
  have wr: "w_written w = 0" "w_written w' = length (?pre @ ?pn)"
    using length_w_out [OF assms(7)] length_w_out [OF encode_hdr_ok(1) [OF assms(2,7,9)]] assms(8) o by simp_all
  have ptrs: "ptrs = ptrs_at 0 (length ?pre) (length ?pkt)"
    using encode_hdr_ok(4) [OF assms(2,7,9) refl assms(5)] assms(10) wr o by (simp add: add.assoc)
  have pn: "length ?pn = unat (h_pn_len hdr)" using canonical_pn(4) [OF assms(2,3,5)] .
  have ne: "0 < length ?pre" by (simp add: hdr_prefix_def)
  have l4: "length ?pre + 4 \<le> length ?pkt" using assms(6,10) pn o by simp
  have rs: "raw_start ptrs = Some 0" "raw_pn ptrs = Some (length ?pre)" "raw_sample ptrs = Some (length ?pre + 4)"
    by (simp_all add: ptrs ptrs_at_def)
  note inv = protection_inverse [OF assms(1) rs ne l4 assms(11)]
  then have dec: "ossl_quic_hdr_protector_decrypt hpr ptrs wire = Some ?pkt" and lw: "length wire = length ?pkt"
    and same: "i \<noteq> 0 \<Longrightarrow> i < length ?pre \<Longrightarrow> wire ! i = ?pkt ! i" for i
    by simp_all
  from inv obtain m where m: "wire ! 0 = xor (?pkt ! 0) (and m (if and (?pkt ! 0) 0x80 \<noteq> 0 then 0xf else 0x1f))" by blast
  have hd: "?pkt ! 0 = hd ?pre" using ne by (simp add: o nth_append hd_conv_nth)
  have "take (length ?pre) wire = wire ! 0 # tl ?pre"
  proof (rule nth_equalityI)
    show len: "length (take (length ?pre) wire) = length (wire ! 0 # tl ?pre)" using l4 lw ne by simp
    fix i
    assume "i < length (take (length ?pre) wire)"
    then show "take (length ?pre) wire ! i = (wire ! 0 # tl ?pre) ! i"
      using same [of i] ne by (cases i) (auto simp: o nth_append nth_tl)
  qed
  then have w: "wire = wire ! 0 # tl ?pre @ drop (length ?pre) wire"
    using append_take_drop_id [of "length ?pre" wire] by simp
  let ?p1 = "\<lparr>p_curr = wire, p_remaining = length wire\<rparr>" and ?p2 = "\<lparr>p_curr = ?pkt, p_remaining = length wire\<rparr>"
  have p1: "packet_wf ?p1" "pdata ?p1 = wire ! 0 # tl ?pre @ drop (length ?pre) wire" using w by simp_all
  have b: "length (drop (length ?pre) wire) = length ?pn + h_len hdr" "4 \<le> length (drop (length ?pre) wire)"
    using lw assms(6,10) pn by (simp_all add: o)
  obtain h1 where h1: "ossl_quic_wire_decode_pkt_hdr ?p1 n True False h0 =
      Some ((h1, ptrs_at 0 (length ?pre) (length (pdata ?p1))), packet_forward ?p1 (length (pdata ?p1)))"
    "h_partial h1" "h_type h1 = h_type hdr" "conn_id_view (h_dst_conn_id h1) = conn_id_view (h_dst_conn_id hdr)"
    using decode_protected [OF assms(2-5) p1 b m [unfolded hd], of h0] by blast
  have p2: "packet_wf ?p2" "pdata ?p2 = (?pre @ ?pn) @ payload @ []" using lw by (simp_all add: o)
  obtain h2 where "ossl_quic_wire_decode_pkt_hdr ?p2 n False False h1 =
      Some ((h2, if ossl_quic_pkt_type_has_pn (h_type hdr) then ptrs_at 0 (length ?pre) (length (pdata ?p2))
                 else no_ptrs\<lparr>raw_start := Some 0\<rparr>), packet_forward ?p2 (length (?pre @ ?pn) + h_len hdr))"
    "hdr_view h2 = hdr_view (hdr\<lparr>h_data := Some payload\<rparr>)"
    using decode_written [OF assms(2-4) p2 assms(10), of h1] by blast
  moreover have "ptrs_at 0 (length ?pre) (length (pdata ?p1)) = ptrs" unfolding ptrs by (simp add: lw)
  ultimately show ?thesis using h1 dec by fastforce
qed

theorem protected_packet_roundtrip_witness:
  "\<exists>hpr w ptrs w' wire h1 q1 h2 ptrs2 q2. ossl_quic_wire_encode_pkt_hdr w 0 demo_hdr (Some no_ptrs) = (True, Some ptrs, w')
    \<and> ossl_quic_hdr_protector_encrypt hpr ptrs (w_out w' @ replicate 20 3) = Some wire
    \<and> ossl_quic_wire_decode_pkt_hdr \<lparr>p_curr = wire, p_remaining = length wire\<rparr> 0 True False demo_hdr = Some ((h1, ptrs), q1)
    \<and> ossl_quic_hdr_protector_decrypt hpr ptrs wire = Some (w_out w' @ replicate 20 3)
    \<and> ossl_quic_wire_decode_pkt_hdr \<lparr>p_curr = w_out w' @ replicate 20 3, p_remaining = length wire\<rparr> 0 False False h1 = Some ((h2, ptrs2), q2)
    \<and> hdr_view h2 = hdr_view (demo_hdr\<lparr>h_data := Some (replicate 20 3)\<rparr>)"
proof -
  define hpr where "hpr = \<lparr>cipher_id = QUIC_HDR_PROT_CIPHER_AES_128, hp_aes = \<lambda>s. Some (take 16 (s @ replicate 16 0)),
    hp_chacha = \<lambda>s. Some [1, 2, 3, 4, 5]\<rparr>"
  have hpr: "hpr_ok hpr" by (auto simp: hpr_ok_def hpr_def)
  obtain w where w: "w_inv w" "w_out w = []" "w_staticbuf w \<noteq> None" "w_space w 64" using demo_writer .
  have "fst (ossl_quic_wire_encode_pkt_hdr w 0 demo_hdr (Some no_ptrs))"
    by (rule encode_hdr_success [OF demo_hdr_ok(1) w(1)]) (use demo_hdr_ok(4) w_space_mono [OF w(4)] w(3) in \<open>auto simp: demo_hdr_def\<close>)
  then obtain x w' where e0: "ossl_quic_wire_encode_pkt_hdr w 0 demo_hdr (Some no_ptrs) = (True, x, w')" by (metis prod.collapse)
  have pn: "ossl_quic_pkt_type_has_pn (h_type demo_hdr)"
    by (simp add: demo_hdr_def ossl_quic_pkt_type_has_pn_def ossl_quic_pkt_type_is_encrypted_def pkt_types)
  define pre where "pre = hdr_prefix 0 demo_hdr @ hdr_pn demo_hdr"
  let ?ptrs = "ptrs_at 0 (length (hdr_prefix 0 demo_hdr)) (length pre + 20)"
  have o: "w_out w' = pre" using encode_hdr_ok(2) [OF demo_hdr_ok(1) w(1) e0] w(2) by (simp add: pre_def)
  have wr: "w_written w = 0" "w_written w' = length pre"
    using length_w_out [OF w(1)] length_w_out [OF encode_hdr_ok(1) [OF demo_hdr_ok(1) w(1) e0]] w(2) o by simp_all
  have e: "ossl_quic_wire_encode_pkt_hdr w 0 demo_hdr (Some no_ptrs) = (True, Some ?ptrs, w')"
    using encode_hdr_ok(4) [OF demo_hdr_ok(1) w(1) e0 refl pn] e0 wr by (simp add: demo_hdr_def)
  have l: "length (hdr_pn demo_hdr) = 2" "length pre \<le> 40"
    using canonical_pn(4) [OF demo_hdr_ok(1,2) pn] demo_hdr_ok(4) by (simp_all add: demo_hdr_def pre_def)
  obtain wire where p: "ossl_quic_hdr_protector_encrypt hpr ?ptrs (w_out w' @ replicate 20 3) = Some wire"
    using l unfolding o
    by (simp add: ptrs_at_def ossl_quic_hdr_protector_encrypt_def ossl_quic_hdr_protector_encrypt_fields_def hdr_generate_mask_def
        hpr_def pkt_types pre_def Let_def unat_of_nat)
  show ?thesis
    using protected_packet_roundtrip [OF hpr demo_hdr_ok(1-3) pn _ w(1,2) e _ p, of demo_hdr] e p
    by (auto simp: demo_hdr_def) blast
qed

end
