(* ===== verification/WirePktWf.thy ===== *)
theory WirePktWf
  imports WirePktProps
begin

text \<open>
  What every accepted packet header satisfies, by inversion of the decoder block by block.
\<close>

section \<open>What every decode guarantees\<close>

text \<open>A packet that has advanced by so many bytes, within its data.\<close>

definition moved :: "PACKET \<Rightarrow> nat \<Rightarrow> PACKET \<Rightarrow> bool" where
  "moved p j q \<longleftrightarrow> q = packet_forward p j \<and> j \<le> p_remaining p"

lemma moved_refl: "moved p 0 p"
  by (simp add: moved_def)

lemma moved_trans: "moved p j q \<Longrightarrow> moved q k r \<Longrightarrow> moved p (j + k) r"
  by (auto simp: moved_def)

lemma moved_wf: "moved p j q \<Longrightarrow> packet_wf p \<Longrightarrow> packet_wf q"
  by (simp add: moved_def)

lemma moved_get_1: "PACKET_get_1 p = Some (v, q) \<Longrightarrow> moved p 1 q"
  by (auto simp: moved_def PACKET_get_1_def PACKET_peek_1_def PACKET_remaining_def bind_eq_Some_conv split: if_splits)

lemma moved_copy_bytes: "PACKET_copy_bytes p n = Some (bs, q) \<Longrightarrow> moved p n q"
  by (auto simp: moved_def PACKET_copy_bytes_def PACKET_peek_copy_bytes_def PACKET_remaining_def bind_eq_Some_conv split: if_splits)

lemma length_copy_bytes: "PACKET_copy_bytes p n = Some (bs, q) \<Longrightarrow> packet_wf p \<Longrightarrow> length bs = n"
  by (auto simp: PACKET_copy_bytes_def PACKET_peek_copy_bytes_def PACKET_remaining_def packet_wf_def bind_eq_Some_conv split: if_splits)

lemma moved_get_bytes: "PACKET_get_bytes p n = Some (bs, q) \<Longrightarrow> moved p n q \<and> bs = p_curr p"
  by (auto simp: moved_def PACKET_get_bytes_def PACKET_peek_bytes_def PACKET_remaining_def bind_eq_Some_conv split: if_splits)

lemma moved_forward: "PACKET_forward p n = Some q \<Longrightarrow> moved p n q"
  by (auto simp: moved_def PACKET_forward_def PACKET_remaining_def split: if_splits)

lemma moved_get_net_4: "PACKET_get_net_4 p = Some (v, q) \<Longrightarrow> moved p 4 q"
  by (auto simp: moved_def PACKET_get_net_4_def PACKET_peek_net_4_def PACKET_remaining_def bind_eq_Some_conv split: if_splits)

lemma moved_vlint: "PACKET_get_quic_vlint p = Some (v, q) \<Longrightarrow> \<exists>k. moved p k q"
  by (auto simp: moved_def PACKET_get_quic_vlint_def PACKET_remaining_def Let_def bind_eq_Some_conv split: if_splits)

lemma byte_field:
  "unat (ucast (take_bit k (x :: u32)) :: u8) < 2 ^ k"
proof -
  have "ucast (take_bit k x) = (take_bit k (ucast x) :: u8)"
    by (rule bit_word_eqI) (auto simp: bit_ucast_iff bit_take_bit_iff)
  then show ?thesis by (simp add: unsigned_take_bit_eq)
qed

lemma byte_fields:
  "ucast (and (b0 :: u32) 3) < (4 :: u8)" "ucast (and (drop_bit 3 (b0 :: u32)) 3) < (4 :: u8)" "ucast (and (drop_bit 2 (b0 :: u32)) 3) < (4 :: u8)"
  "ucast (and (b0 :: u32) 0xf) < (16 :: u8)"
  using byte_field [of 2 b0] byte_field [of 2 "drop_bit 3 b0"] byte_field [of 2 "drop_bit 2 b0"] byte_field [of 4 b0]
  by (simp_all add: take_bit_eq_mask mask_numeral word_less_nat_alt)

lemma u8_pn_len_range: "x < 4 \<Longrightarrow> 1 \<le> x + 1 \<and> x + 1 \<le> 4" for x :: u8
proof -
  assume "x < 4"
  then have "unat x < 4" by (simp add: word_less_nat_alt)
  then have "unat (x + 1) = unat x + 1" by (simp add: unat_add_exact)
  then show ?thesis using \<open>unat x < 4\<close> by (simp add: word_le_nat_alt)
qed

text \<open>The parts of a header that do not depend on its type.\<close>

definition payload_at :: "PACKET \<Rightarrow> QUIC_PKT_HDR \<Rightarrow> PACKET \<Rightarrow> bool" where
  "payload_at p h q \<longleftrightarrow> (\<exists>k. h_data h = Some (drop k (p_curr p)) \<and> moved p (k + h_len h) q)"

lemma payload_at_moved: "moved p j q \<Longrightarrow> payload_at q h r \<Longrightarrow> payload_at p h r"
  unfolding payload_at_def
proof (elim exE conjE)
  fix k assume "moved p j q" "h_data h = Some (drop k (p_curr q))" "moved q (k + h_len h) r"
  then show "\<exists>k. h_data h = Some (drop k (p_curr p)) \<and> moved p (k + h_len h) r"
    using moved_trans [of p j q "k + h_len h" r] by (intro exI [of _ "j + k"]) (auto simp: moved_def ac_simps)
qed

lemma decode_pn_inv:
  assumes "decode_pn partial hdr p = Some (hdr', q)" "packet_wf p" "length (h_pn hdr) = 4" "h_pn_len hdr \<le> 4"
  shows "moved p (if partial then 4 else unat (h_pn_len hdr)) q" "hdr' = hdr\<lparr>h_pn := h_pn hdr'\<rparr>" "length (h_pn hdr') = 4"
    "partial \<Longrightarrow> h_pn hdr' = h_pn hdr"
proof -
  have "unat (h_pn_len hdr) \<le> 4" using assms(4) by (simp add: word_le_nat_alt)
  then show "moved p (if partial then 4 else unat (h_pn_len hdr)) q" "hdr' = hdr\<lparr>h_pn := h_pn hdr'\<rparr>" "length (h_pn hdr') = 4"
    "partial \<Longrightarrow> h_pn hdr' = h_pn hdr"
    using assms by (auto simp: decode_pn_def bind_eq_Some_conv length_copy_bytes dest: moved_copy_bytes moved_forward split: if_splits)
qed

lemma decode_with_length_inv:
  assumes "decode_with_length partial False l b0 hdr p = Some ((hdr', pn), q)" "packet_wf p"
  shows "\<exists>j. pn = Some (l - (p_remaining p - j)) \<and> j + 4 \<le> p_remaining p \<and> payload_at p hdr' q
    \<and> (if partial then h_pn_len hdr' = 0 \<and> h_reserved hdr' = 0 \<and> h_pn hdr' = [0, 0, 0, 0]
       else 1 \<le> h_pn_len hdr' \<and> h_pn_len hdr' \<le> 4 \<and> h_reserved hdr' < 4) \<and> length (h_pn hdr') = 4
    \<and> hdr' = hdr\<lparr>h_pn_len := h_pn_len hdr', h_reserved := h_reserved hdr', h_pn := h_pn hdr', h_len := h_len hdr', h_data := h_data hdr'\<rparr>"
proof -
  let ?pl = "if partial then 0 else ucast (and b0 3) + 1 :: u8"
  let ?h = "hdr\<lparr>h_pn_len := ?pl, h_reserved := (if partial then 0 else ucast (drop_bit 2 (and b0 0x0C))), h_pn := [0, 0, 0, 0]\<rparr>"
  obtain len p1 h2 p2 where v: "PACKET_get_quic_vlint p = Some (len, p1)" and len: "4 \<le> len" "unat len \<le> p_remaining p1"
    and d: "decode_pn partial ?h p1 = Some (h2, p2)"
    and f: "PACKET_forward p2 (h_len hdr') = Some q" and pn: "pn = Some (l - p_remaining p1)"
    and h: "hdr' = h2\<lparr>h_len := unat (if partial then len - 4 else len - ucast (h_pn_len h2)), h_data := Some (p_curr p2)\<rparr>"
    using assms(1) unfolding decode_with_length_def Let_def
    by (auto simp: bind_eq_Some_conv PACKET_remaining_def PACKET_data_def not_less split: if_splits)
  obtain j where j: "moved p j p1" using moved_vlint [OF v] by blast
  have rb: "ucast (drop_bit 2 (and b0 0x0C)) < (4 :: u8)" using byte_fields(3) [of b0] by (simp add: drop_bit_and)
  have pl: "?pl \<le> 4" "\<not> partial \<Longrightarrow> 1 \<le> ?pl"
    using byte_fields(1) [of b0] by (auto simp: u8_pn_len_range)
  have i: "moved p1 (if partial then 4 else unat ?pl) p2" "h2 = ?h\<lparr>h_pn := h_pn h2\<rparr>" "length (h_pn h2) = 4"
    "partial \<Longrightarrow> h_pn h2 = [0, 0, 0, 0]"
    using decode_pn_inv [OF d moved_wf [OF j assms(2)]] pl(1) by (simp_all cong: if_cong)
  have l2: "moved p2 (h_len hdr') q" by (rule moved_forward [OF f])
  have "payload_at p2 hdr' q" unfolding payload_at_def by (rule exI [of _ 0]) (use l2 h in simp)
  then have "payload_at p hdr' q" using j i(1) payload_at_moved by blast
  moreover have "j + 4 \<le> p_remaining p" "p_remaining p1 = p_remaining p - j" using j len by (auto simp: moved_def word_le_nat_alt)
  moreover obtain x where x: "h2 = ?h\<lparr>h_pn := x\<rparr>" using i(2) by metis
  moreover have "hdr' = hdr\<lparr>h_pn_len := h_pn_len hdr', h_reserved := h_reserved hdr', h_pn := h_pn hdr', h_len := h_len hdr', h_data := h_data hdr'\<rparr>"
    unfolding h x by simp
  ultimately show ?thesis using pn i(3,4) pl rb h by (intro exI [of _ j]) (auto)
qed


text \<open>What every decoded header satisfies, whatever the bytes of the packet.\<close>

definition hdr_wf :: "bool \<Rightarrow> QUIC_PKT_HDR \<Rightarrow> bool" where
  "hdr_wf partial h \<longleftrightarrow>
     1 \<le> h_type h \<and> h_type h \<le> 6
   \<and> (h_partial h \<longleftrightarrow> partial \<and> ossl_quic_pkt_type_has_pn (h_type h))
   \<and> h_unused h < 16 \<and> h_reserved h < 4 \<and> length (h_pn h) = 4
   \<and> unat (id_len (h_dst_conn_id h)) \<le> QUIC_MAX_CONN_ID_LEN \<and> unat (id_len (h_src_conn_id h)) \<le> QUIC_MAX_CONN_ID_LEN
   \<and> (if ossl_quic_pkt_type_has_pn (h_type h) \<and> \<not> partial then 1 \<le> h_pn_len h \<and> h_pn_len h \<le> 4 else h_pn_len h = 0)
   \<and> (h_type h = QUIC_PKT_TYPE_INITIAL \<or> h_token h = None \<and> h_token_len h = 0)
   \<and> (h_token h = None \<longleftrightarrow> h_token_len h = 0)
   \<and> (ossl_quic_pkt_type_has_version (h_type h) \<longrightarrow> h_version h = QUIC_VERSION_1)"

lemmas pkt_type_preds = ossl_quic_pkt_type_has_pn_def ossl_quic_pkt_type_is_encrypted_def ossl_quic_pkt_type_has_version_def pkt_types

lemma decode_short_inv:
  assumes "decode_short_hdr n partial l b0 hdr p = Some ((hdr', pn), q)" "packet_wf p"
    and "h_partial hdr = partial" "h_unused hdr = 0" "h_reserved hdr = 0"
  shows "\<exists>j. pn = Some (l - (p_remaining p - j)) \<and> (partial \<longrightarrow> j + 4 \<le> p_remaining p) \<and> j \<le> p_remaining p \<and> payload_at p hdr' q \<and> hdr_wf partial hdr'"
proof -
  let ?pl = "if partial then 0 else ucast (and b0 3) + 1 :: u8"
  define h1 where "h1 = (hdr\<lparr>h_type := QUIC_PKT_TYPE_1RTT, h_fixed := True, h_spin_bit := (and b0 0x20 \<noteq> 0)\<rparr>)
    \<lparr>h_key_phase := \<not> partial \<and> and b0 0x04 \<noteq> 0, h_pn_len := ?pl, h_reserved := if partial then 0 else ucast (drop_bit 3 (and b0 0x18))\<rparr>"
  obtain cid p1 h2 p2 where n: "n \<le> 20" and c: "PACKET_copy_bytes p n = Some (cid, p1)"
    and d: "decode_pn partial (h1\<lparr>h_dst_conn_id := set_conn_id (h_dst_conn_id h1) cid, h_pn := [0, 0, 0, 0]\<rparr>) p1 = Some (h2, p2)"
    and h: "hdr' = h2\<lparr>h_version := 0, h_src_conn_id := (h_src_conn_id h2)\<lparr>id_len := 0\<rparr>, h_token := None, h_token_len := 0,
          h_len := p_remaining p2, h_data := Some (p_curr p2)\<rparr>"
    and f: "PACKET_forward p2 (h_len hdr') = Some q" and pn: "pn = Some (l - p_remaining p1)"
    using assms(1) unfolding decode_short_hdr_def Let_def h1_def
    by (auto simp: bind_eq_Some_conv PACKET_remaining_def PACKET_data_def not_less QUIC_MAX_CONN_ID_LEN_def split: if_splits)
  note j = moved_copy_bytes [OF c]
  have rb: "ucast (drop_bit 3 (and b0 0x18)) < (4 :: u8)" using byte_fields(2) [of b0] by (simp add: drop_bit_and)
  have pl: "?pl \<le> 4" "\<not> partial \<Longrightarrow> 1 \<le> ?pl"
    using byte_fields(1) [of b0] by (auto simp: u8_pn_len_range)
  let ?h = "h1\<lparr>h_dst_conn_id := set_conn_id (h_dst_conn_id h1) cid\<rparr>"
  have i: "moved p1 (if partial then 4 else unat ?pl) p2" "h2 = ?h\<lparr>h_pn := h_pn h2\<rparr>" "length (h_pn h2) = 4"
    using decode_pn_inv [OF d moved_wf [OF j assms(2)]] pl(1) by (simp_all add: h1_def cong: if_cong)
  then obtain x where x: "h2 = ?h\<lparr>h_pn := x\<rparr>" by metis
  have "payload_at p2 hdr' q" unfolding payload_at_def by (rule exI [of _ 0]) (use moved_forward [OF f] h in simp)
  then have "payload_at p hdr' q" using j i(1) payload_at_moved by blast
  moreover have "hdr_wf partial hdr'"
    using pl rb i(3) n length_copy_bytes [OF c assms(2)] assms(3-5) unfolding hdr_wf_def h x h1_def
    by (auto simp: pkt_type_preds set_conn_id_def QUIC_MAX_CONN_ID_LEN_def unat_of_nat)
  moreover have "n \<le> p_remaining p \<and> (partial \<longrightarrow> n + 4 \<le> p_remaining p)" "p_remaining p1 = p_remaining p - n" using j i(1) by (auto simp: moved_def)
  ultimately show ?thesis using pn by (intro exI [of _ n]) auto
qed


definition token_at :: "PACKET \<Rightarrow> QUIC_PKT_HDR \<Rightarrow> bool" where
  "token_at p h \<longleftrightarrow> (\<forall>t. h_token h = Some t \<longrightarrow> (\<exists>k. t = drop k (p_curr p) \<and> k + h_token_len h \<le> p_remaining p))"

lemma token_at_moved: "moved p j q \<Longrightarrow> token_at q h \<Longrightarrow> token_at p h"
  unfolding token_at_def moved_def
proof (intro allI impI)
  fix t
  assume "q = packet_forward p j \<and> j \<le> p_remaining p" "h_token h = Some t"
    "\<forall>t. h_token h = Some t \<longrightarrow> (\<exists>k. t = drop k (p_curr q) \<and> k + h_token_len h \<le> p_remaining q)"
  then obtain k where "t = drop k (p_curr (packet_forward p j))" "k + h_token_len h \<le> p_remaining (packet_forward p j)" "j \<le> p_remaining p"
    by blast
  then show "\<exists>k. t = drop k (p_curr p) \<and> k + h_token_len h \<le> p_remaining p" by (intro exI [of _ "j + k"]) (simp add: ac_simps)
qed

lemma decode_token_inv:
  assumes "decode_token hdr p = Some (hdr', q)" "packet_wf p"
  shows "\<exists>j. moved p j q" "token_at p hdr'" "h_token hdr' = None \<longleftrightarrow> h_token_len hdr' = 0"
    "h_type hdr = QUIC_PKT_TYPE_INITIAL \<or> h_token hdr' = None \<and> h_token_len hdr' = 0"
    "\<exists>t n. hdr' = hdr\<lparr>h_token_len := n, h_token := t\<rparr>"
proof -
  consider (initial) len p1 token where "h_type hdr = QUIC_PKT_TYPE_INITIAL" "PACKET_get_quic_vlint p = Some (len, p1)"
      "PACKET_get_bytes p1 (unat len) = Some (token, q)"
      "hdr' = hdr\<lparr>h_token_len := unat len, h_token := (if len = 0 then None else Some token)\<rparr>"
    | (other) "hdr' = hdr\<lparr>h_token_len := 0, h_token := None\<rparr>" "q = p"
  proof (cases "h_type hdr = QUIC_PKT_TYPE_INITIAL")
    case True
    obtain len p1 where v: "PACKET_get_quic_vlint p = Some (len, p1)"
      using assms(1) True by (cases "PACKET_get_quic_vlint p") (auto simp: decode_token_def)
    obtain token p2 where b: "PACKET_get_bytes p1 (unat len) = Some (token, p2)"
      using assms(1) True v by (cases "PACKET_get_bytes p1 (unat len)") (auto simp: decode_token_def split: if_splits)
    show thesis by (rule initial [OF True v]) (use assms(1) True v b in \<open>auto simp: decode_token_def split: if_splits\<close>)
  next
    case False
    show thesis by (rule other) (use assms(1) False in \<open>auto simp: decode_token_def\<close>)
  qed
  then have "(\<exists>j. moved p j q) \<and> token_at p hdr' \<and> (h_token hdr' = None \<longleftrightarrow> h_token_len hdr' = 0)
    \<and> (h_type hdr = QUIC_PKT_TYPE_INITIAL \<or> h_token hdr' = None \<and> h_token_len hdr' = 0) \<and> (\<exists>t n. hdr' = hdr\<lparr>h_token_len := n, h_token := t\<rparr>)"
  proof cases
    case initial
    obtain j where j: "moved p j p1" using moved_vlint [OF initial(2)] by blast
    have g: "moved p1 (unat len) q" "token = p_curr p1" using moved_get_bytes [OF initial(3)] by simp_all
    have "token_at p1 hdr'" unfolding token_at_def by (auto simp: initial(4) g moved_def split: if_splits intro!: exI [of _ 0]) (use g in \<open>simp add: moved_def\<close>)
    then show ?thesis using token_at_moved [OF j] moved_trans [OF j g(1)] initial by (auto simp: unat_eq_0)
  next
    case other
    then show ?thesis using moved_refl by (auto simp: token_at_def)
  qed
  then show "\<exists>j. moved p j q" "token_at p hdr'" "h_token hdr' = None \<longleftrightarrow> h_token_len hdr' = 0"
    "h_type hdr = QUIC_PKT_TYPE_INITIAL \<or> h_token hdr' = None \<and> h_token_len hdr' = 0" "\<exists>t n. hdr' = hdr\<lparr>h_token_len := n, h_token := t\<rparr>"
    by blast+
qed

text \<open>The outcome of a block that starts in packet \<open>p\<close>, which is what is left of a packet of \<open>l\<close> bytes.\<close>

definition block_ok :: "bool \<Rightarrow> nat \<Rightarrow> PACKET \<Rightarrow> QUIC_PKT_HDR \<Rightarrow> nat option \<Rightarrow> PACKET \<Rightarrow> bool" where
  "block_ok partial l p hdr pn q \<longleftrightarrow> hdr_wf partial hdr \<and> payload_at p hdr q \<and> token_at p hdr
     \<and> (pn = None \<longleftrightarrow> \<not> ossl_quic_pkt_type_has_pn (h_type hdr))
     \<and> (\<forall>k. pn = Some k \<longrightarrow> (\<exists>j. k = l - (p_remaining p - j) \<and> j \<le> p_remaining p
           \<and> (partial \<or> h_type hdr \<noteq> QUIC_PKT_TYPE_1RTT \<longrightarrow> j + 4 \<le> p_remaining p)))"

lemma block_ok_moved: "moved p i q \<Longrightarrow> block_ok partial l q hdr pn r \<Longrightarrow> block_ok partial l p hdr pn r"
proof -
  assume m: "moved p i q" and b: "block_ok partial l q hdr pn r"
  have "\<exists>j. k = l - (p_remaining p - j) \<and> j \<le> p_remaining p \<and> (partial \<or> h_type hdr \<noteq> QUIC_PKT_TYPE_1RTT \<longrightarrow> j + 4 \<le> p_remaining p)"
    if pk: "pn = Some k" for k
  proof -
    obtain j where "k = l - (p_remaining q - j)" "j \<le> p_remaining q" "partial \<or> h_type hdr \<noteq> QUIC_PKT_TYPE_1RTT \<longrightarrow> j + 4 \<le> p_remaining q"
      using b pk unfolding block_ok_def by blast
    then show ?thesis using m by (intro exI [of _ "i + j"]) (auto simp: moved_def)
  qed
  then show ?thesis using b payload_at_moved [OF m] token_at_moved [OF m] unfolding block_ok_def by blast
qed

lemma payload_at_rest:
  assumes "PACKET_forward p (h_len hdr) = Some q" "h_data hdr = Some (PACKET_data p)"
  shows "payload_at p hdr q"
  unfolding payload_at_def by (rule exI [of _ 0]) (use moved_forward [OF assms(1)] assms(2) in \<open>simp add: PACKET_data_def\<close>)

lemma decode_v1_inv:
  assumes "decode_v1_hdr partial False l b0 hdr p = Some ((hdr', pn), q)" "packet_wf p"
    and "h_partial hdr = partial" "h_unused hdr = 0" "h_reserved hdr = 0" "h_version hdr = QUIC_VERSION_1"
    "unat (id_len (h_dst_conn_id hdr)) \<le> QUIC_MAX_CONN_ID_LEN" "unat (id_len (h_src_conn_id hdr)) \<le> QUIC_MAX_CONN_ID_LEN"
  shows "block_ok partial l p hdr' pn q"
proof -
  define ty where "ty = raw_type_to_type (and (drop_bit 4 b0) 3)"
  have ty: "ty = QUIC_PKT_TYPE_INITIAL \<or> ty = QUIC_PKT_TYPE_0RTT \<or> ty = QUIC_PKT_TYPE_HANDSHAKE \<or> ty = QUIC_PKT_TYPE_RETRY"
    by (simp add: ty_def raw_type_to_type_def)
  define h1 where "h1 = hdr\<lparr>h_type := ty, h_pn_len := 0, h_fixed := True, h_spin_bit := False, h_key_phase := False\<rparr>"
  obtain h2 p1 where t: "decode_token h1 p = Some (h2, p1)"
    and r: "(if h_type h2 = QUIC_PKT_TYPE_RETRY then decode_retry b0 h2 p1 else decode_with_length partial False l b0 h2 p1) = Some ((hdr', pn), q)"
    using assms(1) unfolding decode_v1_hdr_def Let_def h1_def ty_def by (auto simp: bind_eq_Some_conv split: if_splits)
  note ti = decode_token_inv [OF t assms(2)]
  obtain j where j: "moved p j p1" using ti(1) by blast
  obtain tk tl where h2: "h2 = h1\<lparr>h_token_len := tl, h_token := tk\<rparr>" using ti(5) by blast
  show ?thesis
  proof (cases "ty = QUIC_PKT_TYPE_RETRY")
    case True
    let ?h = "h2\<lparr>h_data := Some (PACKET_data p1), h_len := PACKET_remaining p1, h_partial := False, h_unused := ucast (and b0 0x0f), h_pn := [0, 0, 0, 0]\<rparr>"
    have "h_type h2 = QUIC_PKT_TYPE_RETRY" by (simp add: h2 h1_def True)
    then have f: "PACKET_forward p1 (h_len ?h) = Some q" and h: "hdr' = ?h" and pn: "pn = None"
      using r by (auto simp: decode_retry_def bind_eq_Some_conv Let_def)
    have "payload_at p1 hdr' q" by (rule payload_at_rest) (use f h in simp_all)
    moreover have "hdr_wf partial hdr'"
      using ti(3,4) assms(3-8) byte_fields(4) [of b0] True unfolding hdr_wf_def h h2 h1_def by (auto simp: pkt_type_preds)
    moreover have "token_at p hdr'" using ti(2) by (simp add: h token_at_def)
    ultimately show ?thesis unfolding block_ok_def using payload_at_moved [OF j] pn True
      by (simp add: pkt_type_preds h h2 h1_def)
  next
    case False
    have nr: "h_type h2 \<noteq> QUIC_PKT_TYPE_RETRY" using False by (simp add: h2 h1_def)
    have r': "decode_with_length partial False l b0 h2 p1 = Some ((hdr', pn), q)" using r nr by simp
    obtain i where i: "pn = Some (l - (p_remaining p1 - i))" "i + 4 \<le> p_remaining p1" "payload_at p1 hdr' q"
      "if partial then h_pn_len hdr' = 0 \<and> h_reserved hdr' = 0 \<and> h_pn hdr' = [0, 0, 0, 0]
       else 1 \<le> h_pn_len hdr' \<and> h_pn_len hdr' \<le> 4 \<and> h_reserved hdr' < 4" "length (h_pn hdr') = 4"
      "hdr' = h2\<lparr>h_pn_len := h_pn_len hdr', h_reserved := h_reserved hdr', h_pn := h_pn hdr', h_len := h_len hdr', h_data := h_data hdr'\<rparr>"
      using decode_with_length_inv [OF r' moved_wf [OF j assms(2)]] by blast
    obtain v1 v2 v3 v4 v5 where h: "hdr' = h2\<lparr>h_pn_len := v1, h_reserved := v2, h_pn := v3, h_len := v4, h_data := v5\<rparr>" using i(6) by blast
    have "hdr_wf partial hdr'"
      using ti(3,4) assms(3-8) i(4,5) ty False unfolding hdr_wf_def h h2 h1_def by (auto simp: pkt_type_preds split: if_splits)
    moreover have "token_at p hdr'" using ti(2) by (simp add: h token_at_def)
    moreover have "ossl_quic_pkt_type_has_pn (h_type hdr')" using False ty by (auto simp: h h2 h1_def pkt_type_preds)
    ultimately show ?thesis unfolding block_ok_def using payload_at_moved [OF j i(3)] i(1,2) j
      by (auto simp: moved_def intro!: exI [of _ "j + i"])
  qed
qed


lemma decode_version_neg_inv:
  assumes "decode_version_neg b0 hdr p = Some ((hdr', pn), q)"
    and "h_unused hdr = 0" "h_reserved hdr = 0"
    "unat (id_len (h_dst_conn_id hdr)) \<le> QUIC_MAX_CONN_ID_LEN" "unat (id_len (h_src_conn_id hdr)) \<le> QUIC_MAX_CONN_ID_LEN"
  shows "block_ok partial l p hdr' pn q"
proof -
  let ?h = "hdr\<lparr>h_type := QUIC_PKT_TYPE_VERSION_NEG, h_fixed := (and b0 0x40 \<noteq> 0), h_data := Some (PACKET_data p), h_len := PACKET_remaining p,
    h_partial := False, h_pn_len := 0, h_spin_bit := False, h_key_phase := False, h_token := None, h_token_len := 0, h_pn := [0, 0, 0, 0]\<rparr>"
  have f: "PACKET_forward p (h_len ?h) = Some q" and h: "hdr' = ?h" and pn: "pn = None"
    using assms(1) by (auto simp: decode_version_neg_def bind_eq_Some_conv Let_def split: if_splits)
  have "payload_at p hdr' q" by (rule payload_at_rest) (use f h in simp_all)
  moreover have "hdr_wf partial hdr'" using assms(2-5) unfolding hdr_wf_def h by (simp add: pkt_type_preds)
  ultimately show ?thesis by (simp add: block_ok_def pn h token_at_def pkt_type_preds)
qed

lemma set_conn_id_len: "length bs \<le> 20 \<Longrightarrow> unat (id_len (set_conn_id c bs)) \<le> QUIC_MAX_CONN_ID_LEN"
  by (simp add: set_conn_id_def QUIC_MAX_CONN_ID_LEN_def unat_of_nat)

lemma decode_long_inv:
  assumes "decode_long_hdr partial False l b0 hdr p = Some ((hdr', pn), q)" "packet_wf p"
    and "h_partial hdr = partial" "h_unused hdr = 0" "h_reserved hdr = 0"
  shows "block_ok partial l p hdr' pn q"
proof -
  obtain version p1 dl p2 dst p3 sl p4 src p5 where g: "PACKET_get_net_4 p = Some (version, p1)" "PACKET_get_1 p1 = Some (dl, p2)"
      "PACKET_copy_bytes p2 (unat dl) = Some (dst, p3)" "PACKET_get_1 p3 = Some (sl, p4)" "PACKET_copy_bytes p4 (unat sl) = Some (src, p5)"
    and l: "unat dl \<le> 20" "unat sl \<le> 20"
    and r: "(let hdr = hdr\<lparr>h_version := ucast version, h_dst_conn_id := set_conn_id (h_dst_conn_id hdr) dst, h_src_conn_id := set_conn_id (h_src_conn_id hdr) src\<rparr>
      in if version = 0 then decode_version_neg b0 hdr p5 else if version \<noteq> ucast QUIC_VERSION_1 then None else decode_v1_hdr partial False l b0 hdr p5)
      = Some ((hdr', pn), q)"
    using assms(1) unfolding decode_long_hdr_def by (auto simp: bind_eq_Some_conv QUIC_MAX_CONN_ID_LEN_def not_less split: if_splits)
  note m1 = moved_get_net_4 [OF g(1)]
  note m2 = moved_trans [OF m1 moved_get_1 [OF g(2)]]
  note m3 = moved_trans [OF m2 moved_copy_bytes [OF g(3)]]
  note m4 = moved_trans [OF m3 moved_get_1 [OF g(4)]]
  note m5 = moved_trans [OF m4 moved_copy_bytes [OF g(5)]]
  have ids: "length dst \<le> 20" "length src \<le> 20"
    using length_copy_bytes [OF g(3) moved_wf [OF m2 assms(2)]] length_copy_bytes [OF g(5) moved_wf [OF m4 assms(2)]] l by simp_all
  let ?h = "hdr\<lparr>h_version := ucast version, h_dst_conn_id := set_conn_id (h_dst_conn_id hdr) dst, h_src_conn_id := set_conn_id (h_src_conn_id hdr) src\<rparr>"
  have "block_ok partial l p5 hdr' pn q"
  proof (cases "version = 0")
    case True
    then show ?thesis using r by (intro decode_version_neg_inv [of b0 ?h]) (simp_all add: assms(3-5) set_conn_id_len ids)
  next
    case False
    then have "version = ucast QUIC_VERSION_1" "decode_v1_hdr partial False l b0 ?h p5 = Some ((hdr', pn), q)"
      using r by (simp_all add: Let_def split: if_splits)
    then show ?thesis by (intro decode_v1_inv [of partial l b0 ?h]) (simp_all add: assms(3-5) set_conn_id_len ids moved_wf [OF m5 assms(2)] QUIC_VERSION_1_def)
  qed
  then show ?thesis by (rule block_ok_moved [OF m5])
qed

lemma decode_hdr_guarantees:
  assumes "packet_wf p" "ossl_quic_wire_decode_pkt_hdr p n partial False h0 = Some ((hdr, ptrs), q)"
  shows "hdr_wf partial hdr \<and> payload_at p hdr q \<and> token_at p hdr \<and> p_remaining q < p_remaining p
    \<and> raw_start ptrs = Some 0 \<and> (raw_pn ptrs = None \<longleftrightarrow> \<not> ossl_quic_pkt_type_has_pn (h_type hdr))
    \<and> (\<forall>k. raw_pn ptrs = Some k \<longrightarrow> k \<le> p_remaining p \<and> raw_sample ptrs = Some (k + 4)
         \<and> (partial \<or> h_type hdr \<noteq> QUIC_PKT_TYPE_1RTT \<longrightarrow>
              k + 4 \<le> p_remaining p \<and> raw_sample_len ptrs = of_nat (p_remaining p - (k + 4))))"
proof -
  let ?h = "h0\<lparr>h_partial := partial, h_unused := 0, h_reserved := 0\<rparr>" and ?l = "p_remaining p"
  obtain b0 p1 pn where g: "PACKET_get_1 p = Some (b0, p1)"
    and d: "(if and b0 0x80 = 0 then decode_short_hdr n partial ?l b0 ?h p1 else decode_long_hdr partial False ?l b0 ?h p1) = Some ((hdr, pn), q)"
    and ptrs: "ptrs = (case pn of None \<Rightarrow> \<lparr>raw_start = Some 0, raw_sample = None, raw_sample_len = 0, raw_pn = None\<rparr>
      | Some n \<Rightarrow> \<lparr>raw_start = Some 0, raw_sample = Some (n + 4), raw_sample_len = of_nat ?l - of_nat (n + 4), raw_pn = Some n\<rparr>)"
    using assms(2) unfolding ossl_quic_wire_decode_pkt_hdr_def
    by (auto simp: bind_eq_Some_conv Let_def PACKET_remaining_def split: if_splits option.splits)
  note m = moved_get_1 [OF g] and wf = moved_wf [OF moved_get_1 [OF g] assms(1)]
  have b1: "block_ok partial ?l p1 hdr pn q"
  proof (cases "and b0 0x80 = 0")
    case True
    then have s: "decode_short_hdr n partial ?l b0 ?h p1 = Some ((hdr, pn), q)" using d by simp
    then have "h_type hdr = QUIC_PKT_TYPE_1RTT" "h_token hdr = None"
      by (auto simp: decode_short_hdr_def decode_pn_def Let_def bind_eq_Some_conv split: if_splits)
    then show ?thesis using decode_short_inv [OF s wf] by (auto simp: block_ok_def token_at_def pkt_type_preds)
  next
    case False
    then have "decode_long_hdr partial False ?l b0 ?h p1 = Some ((hdr, pn), q)" using d by simp
    then show ?thesis by (rule decode_long_inv [OF _ wf]) simp_all
  qed
  note b = block_ok_moved [OF m b1, unfolded block_ok_def]
  have "p_remaining q < ?l" using b1 m unfolding block_ok_def payload_at_def moved_def by auto
  moreover have "k \<le> ?l \<and> (partial \<or> h_type hdr \<noteq> QUIC_PKT_TYPE_1RTT \<longrightarrow> k + 4 \<le> ?l)" if "pn = Some k" for k
    using b that by auto
  ultimately show ?thesis using b by (auto simp: ptrs of_nat_diff split: option.splits)
qed

text \<open>C16: Every header that \<^verbatim>\<open>ossl_quic_wire_decode_pkt_hdr\<close> accepts, whatever the bytes of the packet and whatever
  the structure held before, is well formed: its type is one of the six, connection identifiers fit their arrays, the fields of one or two
  bits are in range, only Initial packets have a token, and only packets that still have header protection are marked as partially decoded.
  The payload and the token lie inside the packet, the decoder stops exactly behind the payload and
  has made progress, and there is a pointer to the packet number exactly for the types that have one. Where the decode is partial, or
  the header long, four bytes are available at the pointer and the length of the sample is what
  is left behind them.
\<close>

theorem decoded_hdr_wf:
  assumes "packet_wf p" "ossl_quic_wire_decode_pkt_hdr p n partial False h0 = Some ((hdr, ptrs), q)"
  shows "hdr_wf partial hdr \<and> payload_at p hdr q \<and> token_at p hdr \<and> p_remaining q < p_remaining p
    \<and> raw_start ptrs = Some 0 \<and> (raw_pn ptrs = None \<longleftrightarrow> \<not> ossl_quic_pkt_type_has_pn (h_type hdr))
    \<and> (\<forall>k. raw_pn ptrs = Some k \<longrightarrow> k \<le> p_remaining p \<and> raw_sample ptrs = Some (k + 4)
         \<and> (partial \<or> h_type hdr \<noteq> QUIC_PKT_TYPE_1RTT \<longrightarrow>
              k + 4 \<le> p_remaining p \<and> raw_sample_len ptrs = of_nat (p_remaining p - (k + 4))))"
  by (rule decode_hdr_guarantees [OF assms])

theorem decoded_hdr_wf_witness:
  "\<exists>hdr ptrs q. ossl_quic_wire_decode_pkt_hdr \<lparr>p_curr = 0x41 # replicate 29 7, p_remaining = 30\<rparr> 4 True False demo_hdr = Some ((hdr, ptrs), q)
    \<and> hdr_wf True hdr \<and> p_remaining q < 30"
proof -
  let ?p = "\<lparr>p_curr = 0x41 # replicate 29 7, p_remaining = 30\<rparr> :: PACKET"
  have "ossl_quic_wire_decode_pkt_hdr ?p 4 True False demo_hdr \<noteq> None" by code_simp
  then obtain hdr ptrs q where d: "ossl_quic_wire_decode_pkt_hdr ?p 4 True False demo_hdr = Some ((hdr, ptrs), q)" by auto
  have "packet_wf ?p" by (simp add: packet_wf_def)
  then show ?thesis using decoded_hdr_wf [OF _ d] d by auto
qed

end
