(* ===== verification/WirePktBytes.thy ===== *)
theory WirePktBytes
  imports WirePktWf
begin

text \<open>
  What the bytes of an accepted packet are, and two routines that work on the same bytes: the quick
  lookup of the destination, and the integrity tag of Retry packets.
\<close>

section \<open>The bytes of an accepted packet\<close>

lemma bytes_get_1: "PACKET_get_1 p = Some (v, q) \<Longrightarrow> packet_wf p \<Longrightarrow> \<exists>b. v = ucast b \<and> pdata p = b # pdata q \<and> packet_wf q"
  by (auto simp: PACKET_get_1_eq split: list.splits)

lemma bytes_copy: "PACKET_copy_bytes p n = Some (bs, q) \<Longrightarrow> packet_wf p \<Longrightarrow> pdata p = bs @ pdata q \<and> packet_wf q \<and> length bs = n"
  by (auto simp: PACKET_copy_bytes_eq split: if_splits)

lemma bytes_get_net_4:
  assumes "PACKET_get_net_4 p = Some (v, q)" "packet_wf p"
  shows "pdata p = be_bytes 4 v @ pdata q \<and> packet_wf q"
proof -
  have l: "4 \<le> length (pdata p)" "v = be_val (take 4 (pdata p))" "q = packet_forward p 4"
    using assms by (auto simp: PACKET_get_net_eq split: if_splits)
  then have "be_bytes 4 v = take 4 (pdata p)" using be_bytes_be_val [of "take 4 (pdata p)"] by simp
  then show ?thesis using assms(2) l(3) by simp
qed

text \<open>The fields in front of the part of a header that depends on its type are not written again.\<close>

abbreviation "route h \<equiv> (h_type h, h_version h, h_dst_conn_id h, h_src_conn_id h)"

lemma route_pn: "decode_pn partial hdr p = Some (hdr', q) \<Longrightarrow> route hdr' = route hdr"
  by (auto simp: decode_pn_def bind_eq_Some_conv split: if_splits)

lemma route_token: "decode_token hdr p = Some (hdr', q) \<Longrightarrow> packet_wf p \<Longrightarrow> route hdr' = route hdr"
  using decode_token_inv(5) [of hdr p hdr' q] by auto

lemma route_with_length:
  assumes "decode_with_length partial nodata l b0 hdr p = Some ((hdr', pn), q)"
  shows "route hdr' = route hdr"
proof -
  let ?h = "hdr\<lparr>h_pn_len := (if partial then 0 else ucast (and b0 0x03) + 1),
                    h_reserved := (if partial then 0 else ucast (drop_bit 2 (and b0 0x0C)))\<rparr>\<lparr>h_pn := [0, 0, 0, 0]\<rparr>"
  obtain len p1 where v: "PACKET_get_quic_vlint p = Some (len, p1)"
    using assms by (cases "PACKET_get_quic_vlint p") (auto simp: decode_with_length_def Let_def)
  obtain h2 p2 where d: "decode_pn partial ?h p1 = Some (h2, p2)"
    using assms v by (cases "decode_pn partial ?h p1") (auto simp: decode_with_length_def Let_def split: if_splits)
  have "route h2 = route hdr" using route_pn [OF d] by simp
  moreover have "\<exists>n x. hdr' = h2\<lparr>h_len := n, h_data := x\<rparr>"
    using assms d unfolding decode_with_length_def v Let_def by (cases nodata) (auto simp: bind_eq_Some_conv split: if_splits)
  ultimately show ?thesis by auto
qed

lemma route_v1:
  assumes "decode_v1_hdr partial nodata l b0 hdr p = Some ((hdr', pn), q)" "packet_wf p"
  shows "route hdr' = (raw_type_to_type (and (drop_bit 4 b0) 3), h_version hdr, h_dst_conn_id hdr, h_src_conn_id hdr)"
proof -
  let ?h = "hdr\<lparr>h_type := raw_type_to_type (and (drop_bit 4 b0) 3), h_pn_len := 0, h_fixed := True,
                      h_spin_bit := False, h_key_phase := False\<rparr>"
  obtain h2 p1 where d: "decode_token ?h p = Some (h2, p1)"
    using assms by (cases "decode_token ?h p") (auto simp: decode_v1_hdr_def Let_def split: if_splits)
  have r: "(if h_type h2 = QUIC_PKT_TYPE_RETRY then decode_retry b0 h2 p1 else decode_with_length partial nodata l b0 h2 p1) = Some ((hdr', pn), q)"
    using assms(1) d unfolding decode_v1_hdr_def Let_def by (simp split: if_splits)
  then have "route hdr' = route h2"
  proof (cases "h_type h2 = QUIC_PKT_TYPE_RETRY")
    case True
    with r show ?thesis by (auto simp: decode_retry_def Let_def bind_eq_Some_conv)
  qed (use r in \<open>simp add: route_with_length\<close>)
  moreover have "route h2 = route ?h" using route_token [OF d assms(2)] by simp
  ultimately show ?thesis by simp
qed

lemma route_version_neg: "decode_version_neg b0 hdr p = Some ((hdr', pn), q) \<Longrightarrow>
    route hdr' = (QUIC_PKT_TYPE_VERSION_NEG, h_version hdr, h_dst_conn_id hdr, h_src_conn_id hdr)"
  by (auto simp: decode_version_neg_def Let_def bind_eq_Some_conv split: if_splits)

lemma decode_long_bytes:
  assumes "decode_long_hdr partial nodata l b0 hdr p = Some ((hdr', pn), q)" "packet_wf p"
  obtains v dst src p5 where "packet_wf p5" "length dst \<le> 20" "length src \<le> 20" "v = 0 \<or> v = ucast QUIC_VERSION_1 \<and> and b0 0x40 \<noteq> 0"
    "pdata p = be_bytes 4 v @ of_nat (length dst) # dst @ of_nat (length src) # src @ pdata p5"
    "route hdr' = (if v = 0 then QUIC_PKT_TYPE_VERSION_NEG else raw_type_to_type (and (drop_bit 4 b0) 3), ucast v, set_conn_id (h_dst_conn_id hdr) dst, set_conn_id (h_src_conn_id hdr) src)"
    "(if v = 0 then decode_version_neg b0 else decode_v1_hdr partial nodata l b0)
       (hdr\<lparr>h_version := ucast v, h_dst_conn_id := set_conn_id (h_dst_conn_id hdr) dst, h_src_conn_id := set_conn_id (h_src_conn_id hdr) src\<rparr>) p5
       = Some ((hdr', pn), q)"
proof -
  let ?h = "\<lambda>v dst src. hdr\<lparr>h_version := ucast v, h_dst_conn_id := set_conn_id (h_dst_conn_id hdr) dst, h_src_conn_id := set_conn_id (h_src_conn_id hdr) src\<rparr>"
  obtain v p1 dl p2 dst p3 sl p4 src p5 where g: "PACKET_get_net_4 p = Some (v, p1)" "PACKET_get_1 p1 = Some (dl, p2)"
      "PACKET_copy_bytes p2 (unat dl) = Some (dst, p3)" "PACKET_get_1 p3 = Some (sl, p4)" "PACKET_copy_bytes p4 (unat sl) = Some (src, p5)"
    and l: "unat dl \<le> 20" "unat sl \<le> 20" and v: "v = 0 \<or> v = ucast QUIC_VERSION_1 \<and> and b0 0x40 \<noteq> 0"
    and r: "(if v = 0 then decode_version_neg b0 else decode_v1_hdr partial nodata l b0) (?h v dst src) p5 = Some ((hdr', pn), q)"
    using assms(1) unfolding decode_long_hdr_def Let_def by (auto simp: bind_eq_Some_conv QUIC_MAX_CONN_ID_LEN_def not_less split: if_splits)
  note b1 = bytes_get_net_4 [OF g(1) assms(2)]
  obtain d where b2: "dl = ucast d" "pdata p1 = d # pdata p2" "packet_wf p2" using bytes_get_1 [OF g(2)] b1 by blast
  note b3 = bytes_copy [OF g(3) b2(3)]
  obtain s where b4: "sl = ucast s" "pdata p3 = s # pdata p4" "packet_wf p4" using bytes_get_1 [OF g(4)] b3 by blast
  note b5 = bytes_copy [OF g(5) b4(3)]
  have ds: "d = of_nat (length dst)" "s = of_nat (length src)" using b3 b5 b2(1) b4(1) by simp_all
  have "route hdr' = (if v = 0 then QUIC_PKT_TYPE_VERSION_NEG else raw_type_to_type (and (drop_bit 4 b0) 3), ucast v,
    set_conn_id (h_dst_conn_id hdr) dst, set_conn_id (h_src_conn_id hdr) src)"
  proof (cases "v = 0")
    case True
    then have "decode_version_neg b0 (?h v dst src) p5 = Some ((hdr', pn), q)" using r by simp
    from route_version_neg [OF this] show ?thesis using True by simp
  next
    case False
    then have "decode_v1_hdr partial nodata l b0 (?h v dst src) p5 = Some ((hdr', pn), q)" using r by simp
    from route_v1 [OF this] b5 show ?thesis using False by simp
  qed
  moreover have "pdata p = be_bytes 4 v @ of_nat (length dst) # dst @ of_nat (length src) # src @ pdata p5"
    unfolding ds [symmetric] using b1 b2 b3 b4 b5 by simp
  ultimately show thesis
    by (intro that [OF _ _ _ v _ _ r]) (use b3 b5 l in simp_all)
qed


lemma cid_bytes_set: "length bs \<le> 20 \<Longrightarrow> cid_bytes (set_conn_id c bs) = bs"
  by (simp add: set_conn_id_def unat_of_nat)

text \<open>The two forms of an accepted header.\<close>

lemma decode_pkt_forms:
  assumes "packet_wf p" "ossl_quic_wire_decode_pkt_hdr p n partial nodata h0 = Some ((hdr, ptrs), q)"
  obtains (short) b cid p2 where "pdata p = b # cid @ pdata p2" "length cid = n" "n \<le> 20" "and b 0x80 = 0" "and b 0x40 \<noteq> 0"
      "21 \<le> p_remaining p" "h_type hdr = QUIC_PKT_TYPE_1RTT" "cid_bytes (h_dst_conn_id hdr) = cid"
    | (long) b p1 pn where "pdata p = b # pdata p1" "packet_wf p1" "and b 0x80 \<noteq> 0"
      "decode_long_hdr partial nodata (p_remaining p) (ucast b) (h0\<lparr>h_partial := partial, h_unused := 0, h_reserved := 0\<rparr>) p1 = Some ((hdr, pn), q)"
proof -
  let ?h = "h0\<lparr>h_partial := partial, h_unused := 0, h_reserved := 0\<rparr>" and ?l = "p_remaining p"
  obtain b0 p1 pn where g: "PACKET_get_1 p = Some (b0, p1)"
    and d: "(if and b0 0x80 = 0 then decode_short_hdr n partial ?l b0 ?h p1 else decode_long_hdr partial nodata ?l b0 ?h p1) = Some ((hdr, pn), q)"
    using assms(2) unfolding ossl_quic_wire_decode_pkt_hdr_def
    by (auto simp: bind_eq_Some_conv Let_def PACKET_remaining_def split: if_splits option.splits)
  obtain b where b: "b0 = ucast b" "pdata p = b # pdata p1" "packet_wf p1" using bytes_get_1 [OF g assms(1)] by blast
  have bits: "and b0 0x80 = 0 \<longleftrightarrow> and b 0x80 = 0" "and b0 0x40 = 0 \<longleftrightarrow> and b 0x40 = 0"
    unfolding b(1) by (simp_all add: and_ucast_u32 ucast_u32_eq_0)
  show thesis
  proof (cases "and b 0x80 = 0")
    case False
    then show thesis using long [OF b(2,3)] d bits b(1) by simp
  next
    case True
    then have s: "decode_short_hdr n partial ?l b0 ?h p1 = Some ((hdr, pn), q)" using d bits by simp
    then obtain cid p2 where c: "PACKET_copy_bytes p1 n = Some (cid, p2)"
      by (cases "PACKET_copy_bytes p1 n") (auto simp: decode_short_hdr_def Let_def split: if_splits)
    have n: "n \<le> 20" "and b 0x40 \<noteq> 0" "21 \<le> p_remaining p"
      using s bits by (auto simp: decode_short_hdr_def QUIC_MAX_CONN_ID_LEN_def pkt_types split: if_splits)
    have "h_type hdr = QUIC_PKT_TYPE_1RTT \<and> h_dst_conn_id hdr = set_conn_id (h_dst_conn_id ?h) cid"
      using s c by (auto simp: decode_short_hdr_def decode_pn_def Let_def bind_eq_Some_conv split: if_splits)
    then show thesis using short [of b cid p2] b n bytes_copy [OF c b(3)] True by (simp add: cid_bytes_set)
  qed
qed

text \<open>C18: The quick lookup of the destination of a packet, \<^verbatim>\<open>ossl_quic_wire_get_pkt_hdr_dst_conn_id\<close>, agrees with the full decoder: for a
  packet the decoder accepts it returns exactly the destination the decoder finds, except for short headers in packets of
  less than 21 bytes more than the connection identifier, which it rejects.
\<close>

theorem dst_conn_id_lookup_exact:
  assumes "packet_wf p" "ossl_quic_wire_decode_pkt_hdr p n partial nodata h0 = Some ((hdr, ptrs), q)" "n \<le> QUIC_MAX_CONN_ID_LEN"
  shows "ossl_quic_wire_get_pkt_hdr_dst_conn_id (p_curr p) (p_remaining p) n c =
    (if h_type hdr = QUIC_PKT_TYPE_1RTT \<and> p_remaining p < QUIC_MIN_VALID_PKT_LEN_CRYPTO + n then None
     else Some (set_conn_id c (cid_bytes (h_dst_conn_id hdr))))"
  using assms(1,2)
proof (cases rule: decode_pkt_forms)
  case (short b cid p2)
  have l: "n + 1 \<le> p_remaining p" using length_pdata [OF assms(1)] short by simp
  have "p_curr p ! 0 = b" "take n (drop 1 (p_curr p)) = cid"
    using pdata_nth [of 0 p] pdata_take [OF l] short l by (simp_all add: take_drop)
  then show ?thesis using short assms(3) unfolding ossl_quic_wire_get_pkt_hdr_dst_conn_id_def
    by (simp add: Let_def pkt_types QUIC_MAX_CONN_ID_LEN_def)
next
  case (long b p1 pn)
  obtain v dst src p5 where d: "length dst \<le> 20" "v = 0 \<or> v = ucast QUIC_VERSION_1 \<and> and (ucast b) 0x40 \<noteq> (0 :: u32)"
    "pdata p1 = be_bytes 4 v @ of_nat (length dst) # dst @ of_nat (length src) # src @ pdata p5"
    "h_type hdr = (if v = 0 then QUIC_PKT_TYPE_VERSION_NEG else raw_type_to_type (and (drop_bit 4 (ucast b)) 3))"
    "h_dst_conn_id hdr = set_conn_id (h_dst_conn_id h0) dst"
    by (rule decode_long_bytes [OF long(4,2)]) simp
  obtain x1 x2 x3 x4 where x: "be_bytes 4 v = [x1, x2, x3, x4]" by (simp add: be_bytes_unfold)
  have pd: "pdata p = b # x1 # x2 # x3 # x4 # of_nat (length dst) # dst @ of_nat (length src) # src @ pdata p5"
    using long(1) d(3) x by simp
  have l: "6 + length dst + 1 \<le> p_remaining p" unfolding length_pdata [OF assms(1), symmetric] pd by simp
  have c: "p_curr p ! 0 = b" "p_curr p ! 1 = x1" "p_curr p ! 2 = x2" "p_curr p ! 3 = x3" "p_curr p ! 4 = x4" "p_curr p ! 5 = of_nat (length dst)"
    using pdata_nth [of 0 p] pdata_nth [of 1 p] pdata_nth [of 2 p] pdata_nth [of 3 p] pdata_nth [of 4 p] pdata_nth [of 5 p] l by (simp_all add: pd)
  have t: "take (length dst) (drop 6 (p_curr p)) = dst"
  proof -
    have "take (length dst) (drop 6 (p_curr p)) = take (length dst) (drop 6 (pdata p))"
      using pdata_take [of "6 + length dst" p] l by (simp add: take_drop add.commute)
    then show ?thesis by (simp add: pd)
  qed
  have z: "x1 = 0 \<and> x2 = 0 \<and> x3 = 0 \<and> x4 = 0 \<or> and b 0x40 \<noteq> 0"
    using d(2) x by (auto simp: be_bytes_unfold and_ucast_u32)
  have "unat (of_nat (length dst) :: u8) = length dst" using d(1) by (simp add: unat_of_nat)
  moreover have "h_type hdr \<noteq> QUIC_PKT_TYPE_1RTT" by (simp add: d(4) raw_type_to_type_def pkt_types)
  ultimately show ?thesis using long(3) assms(3) l z d(1) unfolding ossl_quic_wire_get_pkt_hdr_dst_conn_id_def c Let_def t
    by (auto simp: t c pkt_types QUIC_MAX_CONN_ID_LEN_def cid_bytes_set d(5))
qed

theorem dst_conn_id_lookup_exact_witness:
  "\<exists>hdr ptrs q. ossl_quic_wire_decode_pkt_hdr \<lparr>p_curr = 0x41 # replicate 29 7, p_remaining = 30\<rparr> 4 True False demo_hdr = Some ((hdr, ptrs), q)
    \<and> ossl_quic_wire_get_pkt_hdr_dst_conn_id (0x41 # replicate 29 7) 30 4 (h_dst_conn_id demo_hdr) = Some (set_conn_id (h_dst_conn_id demo_hdr) (cid_bytes (h_dst_conn_id hdr)))"
proof -
  let ?p = "\<lparr>p_curr = 0x41 # replicate 29 7, p_remaining = 30\<rparr> :: PACKET"
  have "ossl_quic_wire_decode_pkt_hdr ?p 4 True False demo_hdr \<noteq> None" by code_simp
  then obtain hdr ptrs q where d: "ossl_quic_wire_decode_pkt_hdr ?p 4 True False demo_hdr = Some ((hdr, ptrs), q)" by auto
  have "packet_wf ?p" by (simp add: packet_wf_def)
  then show ?thesis using dst_conn_id_lookup_exact [OF _ d, of "h_dst_conn_id demo_hdr"] d by (simp add: QUIC_MAX_CONN_ID_LEN_def pkt_types)
qed

section \<open>The integrity tag of Retry packets\<close>

lemma retry_first_byte:
  assumes "and (b :: u8) 0x80 \<noteq> 0" "and b 0x40 \<noteq> 0" "and (drop_bit 4 (ucast b :: u32)) 3 = 3"
  shows "or 0xF0 (and b 0xf) = b"
proof -
  have m: "(0x80 :: u8) = push_bit 7 1" "(0x40 :: u8) = push_bit 6 1" "(3 :: u32) = mask 2" by (simp_all add: mask_numeral)
  have "bit b 7" "bit b 6" using assms(1,2) unfolding m by (auto simp: bit_iff_and_push_bit_not_eq_0)
  moreover have "bit (and (drop_bit 4 (ucast b :: u32)) 3) 0" "bit (and (drop_bit 4 (ucast b :: u32)) 3) 1" using assms(3) by simp_all
  then have "bit b 4" "bit b 5" unfolding m(3) by (simp_all add: bit_simps)
  ultimately show ?thesis
    by (intro bit_word_eqI) (auto dest!: less_8_cases simp: bit_simps)
qed

lemma mask2_3: "raw_type_to_type (and x 3) = QUIC_PKT_TYPE_RETRY \<Longrightarrow> and x 3 = 3"
proof -
  assume r: "raw_type_to_type (and x 3) = QUIC_PKT_TYPE_RETRY"
  have "and x 3 = take_bit 2 x" by (simp add: take_bit_eq_mask mask_numeral)
  then have "unat (and x 3) < 4" using take_bit_nat_less_exp [of 2 "unat x"] by (simp add: unsigned_take_bit_eq)
  then have "and x 3 = 0 \<or> and x 3 = 1 \<or> and x 3 = 2 \<or> and x 3 = 3" unfolding word_unat_eq_iff by simp arith
  then show ?thesis using r by (auto simp: raw_type_to_type_def pkt_types)
qed

lemma decoded_retry:
  assumes "packet_wf p" "ossl_quic_wire_decode_pkt_hdr p n partial False h0 = Some ((hdr, ptrs), q)" "h_type hdr = QUIC_PKT_TYPE_RETRY"
    and arrays: "length (cid_id (h_dst_conn_id h0)) = 20" "length (cid_id (h_src_conn_id h0)) = 20"
  shows "hdr_enc_ok m (hdr\<lparr>h_len := 0\<rparr>)" "h_version hdr \<noteq> 0"
    "\<exists>p5. packet_wf p5 \<and> pdata p = hdr_prefix m hdr @ pdata p5 \<and> h_data hdr = Some (p_curr p5) \<and> h_len hdr = p_remaining p5"
proof -
  obtain b p1 pn where long: "pdata p = b # pdata p1" "packet_wf p1" "and b 0x80 \<noteq> 0"
    "decode_long_hdr partial False (p_remaining p) (ucast b) (h0\<lparr>h_partial := partial, h_unused := 0, h_reserved := 0\<rparr>) p1 = Some ((hdr, pn), q)"
    using assms(3) by (cases rule: decode_pkt_forms [OF assms(1,2)]) (auto simp: pkt_types)
  let ?b = "ucast b :: u32"
  obtain v dst src p5 where d: "packet_wf p5" "length dst \<le> 20" "length src \<le> 20" "v = 0 \<or> v = ucast QUIC_VERSION_1 \<and> and ?b 0x40 \<noteq> 0"
    "pdata p1 = be_bytes 4 v @ of_nat (length dst) # dst @ of_nat (length src) # src @ pdata p5"
    "route hdr = (if v = 0 then QUIC_PKT_TYPE_VERSION_NEG else raw_type_to_type (and (drop_bit 4 ?b) 3), ucast v,
       set_conn_id (h_dst_conn_id h0) dst, set_conn_id (h_src_conn_id h0) src)"
    "(if v = 0 then decode_version_neg ?b else decode_v1_hdr partial False (p_remaining p) ?b)
       (h0\<lparr>h_partial := partial, h_unused := 0, h_reserved := 0, h_version := ucast v, h_dst_conn_id := set_conn_id (h_dst_conn_id h0) dst, h_src_conn_id := set_conn_id (h_src_conn_id h0) src\<rparr>) p5
       = Some ((hdr, pn), q)"
    by (rule decode_long_bytes [OF long(4,2)]) simp
  have v: "v = ucast QUIC_VERSION_1" "and b 0x40 \<noteq> 0" "v \<noteq> 0"
    using d(4,6) assms(3) by (auto simp: pkt_types and_ucast_u32 split: if_splits)
  have raw: "raw_type_to_type (and (drop_bit 4 ?b) 3) = QUIC_PKT_TYPE_RETRY" using d(6) v(3) assms(3) by simp
  show "h_version hdr \<noteq> 0" using d(6) v(1) by (simp add: QUIC_VERSION_1_def)
  let ?h = "h0\<lparr>h_partial := partial, h_unused := 0, h_reserved := 0, h_version := ucast v, h_dst_conn_id := set_conn_id (h_dst_conn_id h0) dst,
      h_src_conn_id := set_conn_id (h_src_conn_id h0) src, h_type := QUIC_PKT_TYPE_RETRY, h_pn_len := 0, h_fixed := True, h_spin_bit := False,
      h_key_phase := False, h_token := None, h_token_len := 0, h_data := Some (p_curr p5), h_len := p_remaining p5, h_partial := False,
      h_unused := ucast (and ?b 0x0f), h_pn := [0, 0, 0, 0]\<rparr>"
  have h: "hdr = ?h"
    using d(7) v(3) raw unfolding decode_v1_hdr_def Let_def decode_token_def
    by (auto simp: decode_retry_def bind_eq_Some_conv Let_def PACKET_data_def PACKET_remaining_def pkt_types split: if_splits)
  have "hdr_wf partial hdr" using decode_hdr_guarantees [OF assms(1,2)] by simp
  then show "hdr_enc_ok m (hdr\<lparr>h_len := 0\<rparr>)"
    unfolding hdr_wf_def hdr_enc_ok_def using arrays d(2,3)
    by (simp add: h pkt_type_preds QUIC_MAX_CONN_ID_LEN_def set_conn_id_def)
  have "long_b0 hdr 3 = or 0xF0 (and b 0xf)"
    by (simp add: h long_b0_def pkt_type_preds and_ucast_u32)
  then have "long_b0 hdr (the (type_to_raw_type hdr)) = b"
    using retry_first_byte [OF long(3) v(2) mask2_3 [OF raw]] by (simp add: type_to_raw_type_def assms(3) pkt_types)
  then have "pdata p = hdr_prefix m hdr @ pdata p5"
    using d(2,3,5) long(1) assms(3) unfolding hdr_prefix_def
    by (simp add: h pkt_type_preds cid_bytes_set v) (simp add: set_conn_id_def)
  then show "\<exists>p5. packet_wf p5 \<and> pdata p = hdr_prefix m hdr @ pdata p5 \<and> h_data hdr = Some (p_curr p5) \<and> h_len hdr = p_remaining p5"
    using d(1) by (intro exI [of _ p5]) (simp add: h)
qed


lemma init_static_success:
  assumes "sset alloc \<subseteq> {True}" "0 < length buf" "length buf \<le> SIZE_MAX"
  obtains w where "WPACKET_init_static_len alloc buf 0 = (True, w)" "w_inv w" "w_out w = []" "w_staticbuf w \<noteq> None" "w_space w (length buf)"
proof -
  have a: "shd alloc" "sset (stl alloc) \<subseteq> {True}" using assms(1) shd_sset [of alloc] sset_stl [of alloc] by auto
  then obtain w where i: "WPACKET_init_static_len alloc buf 0 = (True, w)"
    using assms(2) by (simp add: WPACKET_init_static_len_def wpacket_intern_init_len_def w_blank_def maxmaxsize_def Let_def)
  note d = init_static_inv [OF i]
  have "w_staticbuf w \<noteq> None" using static_buf_inv [OF d(1)] d(5) by simp
  moreover have "w_space w (length buf)" using d length_w_out [OF d(1)] assms(3) a by (simp add: w_space_def)
  ultimately show thesis using that i d by blast
qed

lemma cut_tail:
  assumes "packet_wf p" "packet_wf p5" "pdata p = pre @ pdata p5" "t \<le> p_remaining p5"
  shows "take (p_remaining p - t) (pdata p) = pre @ take (p_remaining p5 - t) (pdata p5)"
    "drop (p_remaining p - t) (pdata p) = drop (p_remaining p5 - t) (pdata p5)"
proof -
  have "p_remaining p - t = length pre + (p_remaining p5 - t)"
    using assms length_pdata [OF assms(1)] length_pdata [OF assms(2)] by simp
  then show "take (p_remaining p - t) (pdata p) = pre @ take (p_remaining p5 - t) (pdata p5)"
    "drop (p_remaining p - t) (pdata p) = drop (p_remaining p5 - t) (pdata p5)"
    using assms(3) by simp_all
qed

lemma retry_tag_input:
  assumes "packet_wf p" "ossl_quic_wire_decode_pkt_hdr p n partial False h0 = Some ((hdr, ptrs), q)" "h_type hdr = QUIC_PKT_TYPE_RETRY"
    and "length (cid_id (h_dst_conn_id h0)) = 20" "length (cid_id (h_src_conn_id h0)) = 20"
    and dcid: "unat (id_len dcid) \<le> 20" "length (cid_id dcid) = 20" and alloc: "sset alloc \<subseteq> {True}"
    and len: "QUIC_RETRY_INTEGRITY_TAG_LEN \<le> h_len hdr"
  shows "ossl_quic_calculate_retry_integrity_tag gcm_tag alloc hdr (Some dcid) =
    gcm_tag retry_integrity_key retry_integrity_nonce (id_len dcid # cid_bytes dcid @ take (p_remaining p - QUIC_RETRY_INTEGRITY_TAG_LEN) (pdata p))"
proof -
  let ?m = "unat (id_len (h_dst_conn_id (hdr\<lparr>h_len := 0\<rparr>)))" and ?hdr2 = "hdr\<lparr>h_len := 0\<rparr>"
  note ok = decoded_retry(1) [OF assms(1-5), of ?m] and ver = decoded_retry(2) [OF assms(1-5)]
  obtain p5 where p5: "packet_wf p5" "pdata p = hdr_prefix ?m hdr @ pdata p5" "h_data hdr = Some (p_curr p5)" "h_len hdr = p_remaining p5"
    using decoded_retry(3) [OF assms(1-5), of ?m] by blast
  have pre: "hdr_prefix ?m ?hdr2 = hdr_prefix ?m hdr" "hdr_pn ?hdr2 = []"
    using assms(3) by (simp_all add: hdr_prefix_def hdr_pn_def pkt_type_preds long_b0_def type_to_raw_type_def)
  have pl: "length (hdr_prefix ?m hdr) \<le> 47"
    using ok assms(3) by (simp add: hdr_prefix_def pkt_type_preds hdr_enc_ok_def)
  obtain w0 where w0: "WPACKET_init_static_len alloc (replicate 128 0) 0 = (True, w0)" "w_inv w0" "w_out w0 = []" "w_staticbuf w0 \<noteq> None" "w_space w0 128"
    by (rule init_static_success [OF alloc, of "replicate 128 0"]) (simp_all add: SIZE_MAX_u64)
  let ?fs = "[\<lambda>p. WPACKET_put_bytes p (ucast (id_len dcid)) 1, \<lambda>p. WPACKET_memcpy p (cid_id dcid) (unat (id_len dcid))]"
  have ap: "appends (all_ok ?fs) ([id_len dcid] @ cid_bytes dcid @ [])" by (intro append_intros appends_u8) (use dcid in simp)
  have "fst (all_ok ?fs w0)" by (rule appendsD(4) [OF ap w0(2)]) (use w_space_mono [OF w0(5)] dcid in simp)
  then obtain w1 where w1: "all_ok ?fs w0 = (True, w1)" by (metis prod.collapse)
  note a1 = appendsD(1-3) [OF ap w0(2) w1]
  have o1: "w_out w1 = id_len dcid # cid_bytes dcid" using a1(2) w0(3) by simp
  have "fst (ossl_quic_wire_encode_pkt_hdr w1 ?m ?hdr2 None)"
    by (rule encode_hdr_success [OF ok a1(1)]) (use w_space_frame [OF a1(3) w0(2) a1(1,2)] w_space_mono [OF w0(5)] pre pl dcid in auto)
  then obtain x w2 where w2: "ossl_quic_wire_encode_pkt_hdr w1 ?m ?hdr2 None = (True, x, w2)" by (metis prod.collapse)
  have o2: "w_out w2 = id_len dcid # cid_bytes dcid @ hdr_prefix ?m hdr" using encode_hdr_ok(2) [OF ok a1(1) w2] o1 pre by simp
  have st: "w_staticbuf w2 \<noteq> None"
    using static_frame [OF a1(1) encode_hdr_ok(1,3) [OF ok a1(1) w2] static_frame [OF w0(2) a1(1,3) w0(4)]] .
  then have buf: "take (w_written w2) (case w_staticbuf w2 of None \<Rightarrow> [] | Some b \<Rightarrow> b) = w_out w2"
    by (auto simp: w_out_def w_mem_def GETBUF_def)
  have "take (p_remaining p - QUIC_RETRY_INTEGRITY_TAG_LEN) (pdata p)
      = hdr_prefix ?m hdr @ take (h_len hdr - QUIC_RETRY_INTEGRITY_TAG_LEN) (p_curr p5)"
    using cut_tail(1) [OF assms(1) p5(1,2)] len p5(4) by (simp add: pdata_take)
  then show ?thesis
    using assms(3) ver len dcid w0(1) w1 w2 buf o2 p5(3)
    by (simp add: ossl_quic_calculate_retry_integrity_tag_def Let_def QUIC_MAX_CONN_ID_LEN_def WPACKET_get_total_written_def)
qed

text \<open>C17: A Retry packet is authenticated as the protocol prescribes (RFC 9001, section 5.8). For a decoded Retry packet,
  \<^verbatim>\<open>ossl_quic_calculate_retry_integrity_tag\<close>, which encodes the header again from its fields, gives the AEAD
  exactly the length and bytes of the original destination followed by all the bytes of the packet but the last sixteen, and
  \<^verbatim>\<open>ossl_quic_validate_retry_integrity_tag\<close> accepts the packet if and only if
  the last sixteen bytes are the tag of that input. A packet without room for a tag is rejected.
\<close>

theorem retry_integrity_exact:
  assumes "packet_wf p" "ossl_quic_wire_decode_pkt_hdr p n partial False h0 = Some ((hdr, ptrs), q)" "h_type hdr = QUIC_PKT_TYPE_RETRY"
    and "length (cid_id (h_dst_conn_id h0)) = 20" "length (cid_id (h_src_conn_id h0)) = 20"
    and "unat (id_len dcid) \<le> 20" "length (cid_id dcid) = 20" "sset alloc \<subseteq> {True}"
  shows "ossl_quic_validate_retry_integrity_tag gcm_tag alloc (Some hdr) (Some dcid) \<longleftrightarrow>
    QUIC_RETRY_INTEGRITY_TAG_LEN \<le> h_len hdr
    \<and> (\<exists>tag. gcm_tag retry_integrity_key retry_integrity_nonce
               (id_len dcid # cid_bytes dcid @ take (p_remaining p - QUIC_RETRY_INTEGRITY_TAG_LEN) (pdata p)) = Some tag
           \<and> take 16 tag = drop (p_remaining p - QUIC_RETRY_INTEGRITY_TAG_LEN) (pdata p))"
proof (cases "QUIC_RETRY_INTEGRITY_TAG_LEN \<le> h_len hdr")
  case True
  obtain p5 where p5: "packet_wf p5" "pdata p = hdr_prefix 0 hdr @ pdata p5" "h_data hdr = Some (p_curr p5)" "h_len hdr = p_remaining p5"
    using decoded_retry(3) [OF assms(1-5), of 0] by blast
  let ?d = "h_len hdr - QUIC_RETRY_INTEGRITY_TAG_LEN"
  have "take 16 (drop ?d (p_curr p5)) = drop ?d (pdata p5)"
    using True p5(4) by (simp add: pdata_def drop_take QUIC_RETRY_INTEGRITY_TAG_LEN_def)
  also have "\<dots> = drop (p_remaining p - QUIC_RETRY_INTEGRITY_TAG_LEN) (pdata p)"
    using cut_tail(2) [OF assms(1) p5(1,2)] True p5(4) by simp
  finally show ?thesis
    using True retry_tag_input [OF assms True, of gcm_tag] p5(3)
    by (auto simp: ossl_quic_validate_retry_integrity_tag_def QUIC_RETRY_INTEGRITY_TAG_LEN_def Let_def split: option.splits)
qed (simp add: ossl_quic_validate_retry_integrity_tag_def)

theorem retry_integrity_exact_witness:
  "\<exists>hdr ptrs q. ossl_quic_wire_decode_pkt_hdr \<lparr>p_curr = [0xf5, 0, 0, 0, 1, 2, 8, 9, 0, 7] @ replicate 16 5, p_remaining = 26\<rparr> 0 True False demo_hdr
      = Some ((hdr, ptrs), q)
    \<and> ossl_quic_validate_retry_integrity_tag (\<lambda>k n aad. if length aad = 15 then Some (replicate 16 5) else None) (sconst True) (Some hdr)
        (Some (h_dst_conn_id demo_hdr))"
proof -
  let ?p = "\<lparr>p_curr = [0xf5, 0, 0, 0, 1, 2, 8, 9, 0, 7] @ replicate 16 5, p_remaining = 26\<rparr> :: PACKET"
  have "map_option (\<lambda>r. (h_type (fst (fst r)), h_len (fst (fst r)))) (ossl_quic_wire_decode_pkt_hdr ?p 0 True False demo_hdr)
    = Some (QUIC_PKT_TYPE_RETRY, 17)" by code_simp
  then obtain hdr ptrs q where d: "ossl_quic_wire_decode_pkt_hdr ?p 0 True False demo_hdr = Some ((hdr, ptrs), q)"
    and t: "h_type hdr = QUIC_PKT_TYPE_RETRY" "h_len hdr = 17" by auto
  have "packet_wf ?p" by (simp add: packet_wf_def)
  moreover have c: "length (cid_id (h_dst_conn_id demo_hdr)) = 20" "length (cid_id (h_src_conn_id demo_hdr)) = 20"
    "unat (id_len (h_dst_conn_id demo_hdr)) = 4" by (simp_all add: demo_hdr_def)
  moreover have "sset (sconst True) \<subseteq> {True}" by simp
  ultimately show ?thesis
    using retry_integrity_exact [OF _ d t(1), of "h_dst_conn_id demo_hdr" "sconst True"] d t
    by (simp add: QUIC_RETRY_INTEGRITY_TAG_LEN_def)
qed

text \<open>
  The header promises that the pointer to the packet number is null unless four bytes are available
  there. A full decode of a short header does not keep the promise, and the length of the sample wraps around.
\<close>

lemma raw_pn_without_four_bytes:
  "map_option (\<lambda>r. (raw_pn (snd (fst r)), raw_sample_len (snd (fst r))))
     (ossl_quic_wire_decode_pkt_hdr \<lparr>p_curr = 0x40 # replicate 20 7, p_remaining = 21\<rparr> 18 False False demo_hdr) = Some (Some 19, - 2)"
  by code_simp

end
