(* ===== verification/FlowControl.thy ===== *)
theory FlowControl
  imports QuicTypes "HOL-Library.Stream"
begin

text \<open>
  The QUIC flow controllers of \<^verbatim>\<open>ssl/quic/quic_fc.c\<close>: for sending (TXFC) and for
  receiving (RXFC). A stream-level controller points to the controller of its connection,
  which several streams share, so the controllers live in a store that maps addresses
  (natural numbers) to records and \<open>parent\<close> holds an address. All watermarks are 64-bit
  words with C's wrap-around. The clock callback \<open>now\<close> of a receive controller is a
  stream of readings that each call advances. The \<^verbatim>\<open>assert\<close>s of the code are
  compiled out of release builds; their conditions are lemmas here.
\<close>

section \<open>Sending: model\<close>

record txfc =
  tx_parent :: "nat option"
  tx_swm :: u64
  tx_cwm :: u64
  has_become_blocked :: bool

type_synonym tx_store = "nat \<Rightarrow> txfc"

definition ossl_quic_txfc_init :: "tx_store \<Rightarrow> nat \<Rightarrow> nat option \<Rightarrow> bool \<times> tx_store" where
  "ossl_quic_txfc_init h p conn =
     (if (case conn of None \<Rightarrow> False | Some c \<Rightarrow> tx_parent (h c) \<noteq> None) then (False, h)
      else (True, h(p := \<lparr>tx_parent = conn, tx_swm = 0, tx_cwm = 0, has_become_blocked = False\<rparr>)))"

definition ossl_quic_txfc_get_parent :: "tx_store \<Rightarrow> nat \<Rightarrow> nat option" where
  "ossl_quic_txfc_get_parent h p = tx_parent (h p)"

definition ossl_quic_txfc_bump_cwm :: "tx_store \<Rightarrow> nat \<Rightarrow> u64 \<Rightarrow> bool \<times> tx_store" where
  "ossl_quic_txfc_bump_cwm h p cwm =
     (if cwm \<le> tx_cwm (h p) then (False, h) else (True, h(p := (h p)\<lparr>tx_cwm := cwm\<rparr>)))"

definition ossl_quic_txfc_get_credit_local :: "tx_store \<Rightarrow> nat \<Rightarrow> u64 \<Rightarrow> u64" where
  "ossl_quic_txfc_get_credit_local h p consumed =
     tx_cwm (h p) - (consumed + tx_swm (h p))"

definition ossl_quic_txfc_get_credit :: "tx_store \<Rightarrow> nat \<Rightarrow> u64 \<Rightarrow> u64" where
  "ossl_quic_txfc_get_credit h p consumed =
     (let r = ossl_quic_txfc_get_credit_local h p 0 in
      case tx_parent (h p) of
        None \<Rightarrow> r
      | Some c \<Rightarrow>
          let conn_r = ossl_quic_txfc_get_credit_local h c consumed
          in if conn_r < r then conn_r else r)"

definition ossl_quic_txfc_consume_credit_local ::
  "tx_store \<Rightarrow> nat \<Rightarrow> u64 \<Rightarrow> bool \<times> tx_store" where
  "ossl_quic_txfc_consume_credit_local h p num_bytes =
     (let credit = ossl_quic_txfc_get_credit_local h p 0;
          (ok, num_bytes) = (if num_bytes > credit then (False, credit) else (True, num_bytes));
          t = h p;
          t = (if num_bytes > 0 \<and> num_bytes = credit then t\<lparr>has_become_blocked := True\<rparr> else t)
      in (ok, h(p := t\<lparr>tx_swm := tx_swm t + num_bytes\<rparr>)))"

definition ossl_quic_txfc_consume_credit ::
  "tx_store \<Rightarrow> nat \<Rightarrow> u64 \<Rightarrow> bool \<times> tx_store" where
  "ossl_quic_txfc_consume_credit h p num_bytes =
     (let (ok, h) = ossl_quic_txfc_consume_credit_local h p num_bytes in
      case tx_parent (h p) of
        None \<Rightarrow> (ok, h)
      | Some c \<Rightarrow>
          let (conn_ok, h) = ossl_quic_txfc_consume_credit_local h c num_bytes
          in if \<not> conn_ok then (False, h) else (ok, h))"

definition ossl_quic_txfc_has_become_blocked :: "tx_store \<Rightarrow> nat \<Rightarrow> bool \<Rightarrow> bool \<times> tx_store" where
  "ossl_quic_txfc_has_become_blocked h p clear =
     (let r = has_become_blocked (h p)
      in (r, if clear then h(p := (h p)\<lparr>has_become_blocked := False\<rparr>) else h))"

definition ossl_quic_txfc_get_cwm :: "tx_store \<Rightarrow> nat \<Rightarrow> u64" where
  "ossl_quic_txfc_get_cwm h p = tx_cwm (h p)"

definition ossl_quic_txfc_get_swm :: "tx_store \<Rightarrow> nat \<Rightarrow> u64" where
  "ossl_quic_txfc_get_swm h p = tx_swm (h p)"

section \<open>Receiving: model\<close>

record rxfc =
  rx_cwm :: u64
  rx_swm :: u64
  rx_rwm :: u64
  rx_esrwm :: u64
  rx_hwm :: u64
  cur_window_size :: u64
  max_window_size :: u64
  epoch_start :: ossl_time
  rx_parent :: "nat option"
  error_code :: u8
  has_cwm_changed :: bool
  rx_is_fin :: bool
  standalone :: bool

type_synonym rx_store = "nat \<Rightarrow> rxfc"
type_synonym clock = "ossl_time stream"

definition ossl_quic_rxfc_init ::
  "rx_store \<Rightarrow> nat \<Rightarrow> nat option \<Rightarrow> u64 \<Rightarrow> u64 \<Rightarrow> bool \<times> rx_store" where
  "ossl_quic_rxfc_init h p conn initial_window_size max_window =
     (if (case conn of None \<Rightarrow> False | Some c \<Rightarrow> rx_parent (h c) \<noteq> None) then (False, h)
      else (True, h(p := \<lparr>rx_cwm = initial_window_size, rx_swm = 0, rx_rwm = 0, rx_esrwm = 0,
              rx_hwm = 0, cur_window_size = initial_window_size, max_window_size = max_window,
              epoch_start = ossl_time_zero, rx_parent = conn, error_code = 0,
              has_cwm_changed = False, rx_is_fin = False, standalone = False\<rparr>)))"

definition ossl_quic_rxfc_init_standalone ::
  "rx_store \<Rightarrow> nat \<Rightarrow> u64 \<Rightarrow> bool \<times> rx_store" where
  "ossl_quic_rxfc_init_standalone h p initial_window_size =
     (let (ok, h) = ossl_quic_rxfc_init h p None initial_window_size initial_window_size
      in if \<not> ok then (False, h) else (True, h(p := (h p)\<lparr>standalone := True\<rparr>)))"

definition ossl_quic_rxfc_get_parent :: "rx_store \<Rightarrow> nat \<Rightarrow> nat option" where
  "ossl_quic_rxfc_get_parent h p = rx_parent (h p)"

definition ossl_quic_rxfc_set_max_window_size :: "rx_store \<Rightarrow> nat \<Rightarrow> u64 \<Rightarrow> rx_store" where
  "ossl_quic_rxfc_set_max_window_size h p max_window = h(p := (h p)\<lparr>max_window_size := max_window\<rparr>)"

definition rxfc_start_epoch :: "clock \<Rightarrow> rxfc \<Rightarrow> rxfc \<times> clock" where
  "rxfc_start_epoch now r = (r\<lparr>epoch_start := shd now, rx_esrwm := rx_rwm r\<rparr>, stl now)"

definition on_rx_controlled_bytes :: "rxfc \<Rightarrow> u64 \<Rightarrow> bool \<times> rxfc" where
  "on_rx_controlled_bytes r num_bytes =
     (let credit = rx_cwm r - rx_swm r;
          (ok, num_bytes, r) =
            (if num_bytes > credit
             then (False, credit, r\<lparr>error_code := OSSL_QUIC_ERR_FLOW_CONTROL_ERROR\<rparr>)
             else (True, num_bytes, r))
      in (ok, r\<lparr>rx_swm := rx_swm r + num_bytes\<rparr>))"

definition ossl_quic_rxfc_on_rx_stream_frame ::
  "rx_store \<Rightarrow> nat \<Rightarrow> u64 \<Rightarrow> bool \<Rightarrow> bool \<times> rx_store" where
  "ossl_quic_rxfc_on_rx_stream_frame h p end is_fin =
     (let r = h p in
      if \<not> standalone r \<and> rx_parent r = None then (False, h)
      else if rx_is_fin r \<and> (is_fin \<and> rx_hwm r \<noteq> end \<or> end > rx_hwm r) then
        (True, h(p := r\<lparr>error_code := OSSL_QUIC_ERR_FINAL_SIZE_ERROR\<rparr>))
      else
        let r = (if is_fin then r\<lparr>rx_is_fin := True\<rparr> else r) in
        if end > rx_hwm r then
          let delta = end - rx_hwm r;
              r = r\<lparr>rx_hwm := end\<rparr>;
              (_, r) = on_rx_controlled_bytes r delta;
              h = h(p := r)
          in (True,
              case rx_parent r of
                None \<Rightarrow> h
              | Some c \<Rightarrow> h(c := snd (on_rx_controlled_bytes (h c) delta)))
        else if end < rx_hwm r \<and> is_fin then
          (True, h(p := r\<lparr>error_code := OSSL_QUIC_ERR_FINAL_SIZE_ERROR\<rparr>))
        else (True, h(p := r)))"

definition WINDOW_THRESHOLD_NUM :: u64 where "WINDOW_THRESHOLD_NUM = 3"
definition WINDOW_THRESHOLD_DEN :: u64 where "WINDOW_THRESHOLD_DEN = 4"

definition rxfc_cwm_bump_desired :: "rxfc \<Rightarrow> bool" where
  "rxfc_cwm_bump_desired r =
     (let window_rem = rx_cwm r - rx_rwm r;
          (threshold, err) =
            safe_muldiv (cur_window_size r) WINDOW_THRESHOLD_NUM WINDOW_THRESHOLD_DEN False;
          threshold = (if err then cur_window_size r div 2 else threshold)
      in \<not> rx_is_fin r \<and> window_rem \<le> threshold)"

definition rxfc_should_bump_window_size :: "clock \<Rightarrow> rxfc \<Rightarrow> ossl_time \<Rightarrow> bool \<times> clock" where
  "rxfc_should_bump_window_size now r rtt =
     (let b = rx_rwm r - rx_esrwm r in
      if b = 0 then (False, now)
      else
        let dt = ossl_time_subtract (shd now) (epoch_start r);
            t_window = ossl_time_muldiv dt (cur_window_size r) b
        in (ossl_time_compare t_window (ossl_time_multiply rtt 4) < 0, stl now))"

definition rxfc_adjust_window_size ::
  "clock \<Rightarrow> rxfc \<Rightarrow> u64 \<Rightarrow> ossl_time \<Rightarrow> rxfc \<times> clock" where
  "rxfc_adjust_window_size now r min_window_size rtt =
     (let (bump, now) = rxfc_should_bump_window_size now r rtt;
          w = (if bump then cur_window_size r * 2 else cur_window_size r);
          w = (if w < min_window_size then min_window_size else w);
          w = (if w > max_window_size r then max_window_size r else w)
      in rxfc_start_epoch now (r\<lparr>cur_window_size := w\<rparr>))"

definition rxfc_update_cwm ::
  "clock \<Rightarrow> rxfc \<Rightarrow> u64 \<Rightarrow> ossl_time \<Rightarrow> rxfc \<times> clock" where
  "rxfc_update_cwm now r min_window_size rtt =
     (if \<not> rxfc_cwm_bump_desired r then (r, now)
      else
        let (r, now) = rxfc_adjust_window_size now r min_window_size rtt;
            new_cwm = rx_rwm r + cur_window_size r
        in (if new_cwm > rx_cwm r
            then (r\<lparr>rx_cwm := new_cwm, has_cwm_changed := True\<rparr>, now)
            else (r, now)))"

definition rxfc_on_retire ::
  "clock \<Rightarrow> rxfc \<Rightarrow> u64 \<Rightarrow> u64 \<Rightarrow> ossl_time \<Rightarrow> rxfc \<times> clock" where
  "rxfc_on_retire now r num_bytes min_window_size rtt =
     (let (r, now) = (if ossl_time_is_zero (epoch_start r) then rxfc_start_epoch now r else (r, now))
      in rxfc_update_cwm now (r\<lparr>rx_rwm := rx_rwm r + num_bytes\<rparr>) min_window_size rtt)"

definition ossl_quic_rxfc_on_retire ::
  "clock \<Rightarrow> rx_store \<Rightarrow> nat \<Rightarrow> u64 \<Rightarrow> ossl_time \<Rightarrow> bool \<times> rx_store \<times> clock" where
  "ossl_quic_rxfc_on_retire now h p num_bytes rtt =
     (let r = h p in
      if rx_parent r = None \<and> \<not> standalone r then (False, h, now)
      else if num_bytes = 0 then (True, h, now)
      else if rx_rwm r + num_bytes > rx_swm r then (False, h, now)
      else
        let (r, now) = rxfc_on_retire now r num_bytes 0 rtt;
            h = h(p := r)
        in if \<not> standalone r then
             let c = the (rx_parent r);
                 (rc, now) = rxfc_on_retire now (h c) num_bytes (cur_window_size r) rtt
             in (True, h(c := rc), now)
           else (True, h, now))"

definition ossl_quic_rxfc_get_cwm :: "rx_store \<Rightarrow> nat \<Rightarrow> u64" where
  "ossl_quic_rxfc_get_cwm h p = rx_cwm (h p)"

definition ossl_quic_rxfc_get_swm :: "rx_store \<Rightarrow> nat \<Rightarrow> u64" where
  "ossl_quic_rxfc_get_swm h p = rx_swm (h p)"

definition ossl_quic_rxfc_get_rwm :: "rx_store \<Rightarrow> nat \<Rightarrow> u64" where
  "ossl_quic_rxfc_get_rwm h p = rx_rwm (h p)"

definition ossl_quic_rxfc_get_credit :: "rx_store \<Rightarrow> nat \<Rightarrow> u64" where
  "ossl_quic_rxfc_get_credit h p = ossl_quic_rxfc_get_cwm h p - ossl_quic_rxfc_get_swm h p"

definition ossl_quic_rxfc_has_cwm_changed :: "rx_store \<Rightarrow> nat \<Rightarrow> bool \<Rightarrow> bool \<times> rx_store" where
  "ossl_quic_rxfc_has_cwm_changed h p clear =
     (let r = has_cwm_changed (h p)
      in (r, if clear then h(p := (h p)\<lparr>has_cwm_changed := False\<rparr>) else h))"

definition ossl_quic_rxfc_get_error :: "rx_store \<Rightarrow> nat \<Rightarrow> bool \<Rightarrow> u8 \<times> rx_store" where
  "ossl_quic_rxfc_get_error h p clear =
     (let r = error_code (h p)
      in (r, if clear then h(p := (h p)\<lparr>error_code := 0\<rparr>) else h))"

definition ossl_quic_rxfc_get_final_size :: "rx_store \<Rightarrow> nat \<Rightarrow> u64 option" where
  "ossl_quic_rxfc_get_final_size h p =
     (if \<not> rx_is_fin (h p) then None else Some (rx_hwm (h p)))"

section \<open>Sending: lemmas\<close>

lemmas txfc_defs = ossl_quic_txfc_get_credit_local_def ossl_quic_txfc_get_credit_def
  ossl_quic_txfc_consume_credit_local_def ossl_quic_txfc_consume_credit_def

text \<open>
  A connection with controller \<open>c\<close> and stream controllers \<open>S\<close> is in order when no
  controller has sent more than its credit watermark and the connection has accounted for
  exactly what its streams have sent.
\<close>

definition tx_conn :: "tx_store \<Rightarrow> nat \<Rightarrow> nat set \<Rightarrow> bool" where
  "tx_conn h c S \<longleftrightarrow> finite S \<and> c \<notin> S \<and> tx_parent (h c) = None
     \<and> (\<forall>s \<in> S. tx_parent (h s) = Some c)
     \<and> (\<forall>p \<in> insert c S. tx_swm (h p) \<le> tx_cwm (h p))
     \<and> (\<Sum>s \<in> S. unat (tx_swm (h s))) = unat (tx_swm (h c))"

text \<open>What one controller does, as a function of its record.\<close>

definition txfc_credit :: "txfc \<Rightarrow> u64" where
  "txfc_credit t = tx_cwm t - tx_swm t"

definition txfc_take :: "txfc \<Rightarrow> u64 \<Rightarrow> txfc" where
  "txfc_take t n = t\<lparr>tx_swm := tx_swm t + min n (txfc_credit t),
     has_become_blocked := has_become_blocked t
       \<or> 0 < n \<and> 0 < txfc_credit t \<and> txfc_credit t \<le> n\<rparr>"

lemma txfc_take_simps [simp]:
  "tx_cwm (txfc_take t n) = tx_cwm t" "tx_parent (txfc_take t n) = tx_parent t"
  by (simp_all add: txfc_take_def)

lemma consume_local_eq:
  "ossl_quic_txfc_consume_credit_local h p n
     = (n \<le> txfc_credit (h p), h(p := txfc_take (h p) n))"
proof (cases "txfc_credit (h p) < n")
  case True
  then have "0 < n" "\<not> n \<le> txfc_credit (h p)" "txfc_credit (h p) \<le> n" by (auto simp: le_less_trans [OF word_zero_le])
  with True show ?thesis
    by (cases "h p") (auto simp: ossl_quic_txfc_consume_credit_local_def
        ossl_quic_txfc_get_credit_local_def txfc_take_def txfc_credit_def min_def Let_def)
next
  case False
  then show ?thesis
    by (cases "h p") (auto simp: ossl_quic_txfc_consume_credit_local_def
        ossl_quic_txfc_get_credit_local_def txfc_take_def txfc_credit_def min_def Let_def)
qed

lemma consume_credit_eq:
  assumes "tx_parent (h s) = Some c" "s \<noteq> c"
  shows "ossl_quic_txfc_consume_credit h s n
     = (n \<le> txfc_credit (h s) \<and> n \<le> txfc_credit (h c),
        h(s := txfc_take (h s) n, c := txfc_take (h c) n))"
  using assms by (simp add: ossl_quic_txfc_consume_credit_def consume_local_eq)

lemma get_credit_eq:
  "tx_parent (h s) = Some c \<Longrightarrow>
   ossl_quic_txfc_get_credit h s 0 = min (txfc_credit (h s)) (txfc_credit (h c))"
  by (auto simp: ossl_quic_txfc_get_credit_def ossl_quic_txfc_get_credit_local_def
      txfc_credit_def Let_def min_def)

lemma unat_txfc_credit:
  "tx_swm t \<le> tx_cwm t \<Longrightarrow> unat (txfc_credit t) = unat (tx_cwm t) - unat (tx_swm t)"
  by (simp add: txfc_credit_def unat_sub_exact)

lemma unat_txfc_take:
  assumes "tx_swm t \<le> tx_cwm t"
  shows "unat (tx_swm (txfc_take t n))
    = unat (tx_swm t) + min (unat n) (unat (tx_cwm t) - unat (tx_swm t))"
proof -
  have "unat (min n (txfc_credit t)) = min (unat n) (unat (tx_cwm t) - unat (tx_swm t))"
    using unat_txfc_credit [OF assms] by (simp add: min_def word_le_nat_alt)
  moreover from this have "unat (tx_swm t) + unat (min n (txfc_credit t)) \<le> unat (tx_cwm t)"
    using assms by (simp add: word_le_nat_alt)
  then have "unat (tx_swm t) + unat (min n (txfc_credit t)) < 2 ^ LENGTH(64)"
    using unat_bound [of "tx_cwm t"] by linarith
  ultimately show ?thesis by (simp add: txfc_take_def unat_add_exact)
qed

lemma txfc_take_le: "tx_swm t \<le> tx_cwm t \<Longrightarrow> tx_swm (txfc_take t n) \<le> tx_cwm t"
  using unat_txfc_take [of t n] by (simp add: word_le_nat_alt)

text \<open>The assertion of \<^verbatim>\<open>ossl_quic_txfc_get_credit_local\<close> holds for any \<open>consumed\<close>
  within the credit.\<close>

lemma credit_local_assert:
  assumes "tx_swm t \<le> tx_cwm t" "n \<le> txfc_credit t"
  shows "tx_swm t + n \<le> tx_cwm t"
  using txfc_take_le [OF assms(1), of n] assms(2) by (simp add: txfc_take_def min_def)

lemma tx_connD:
  assumes "tx_conn h c S" "s \<in> S"
  shows "tx_parent (h s) = Some c" "s \<noteq> c" "tx_swm (h s) \<le> tx_cwm (h s)"
    "tx_swm (h c) \<le> tx_cwm (h c)"
  using assms by (auto simp: tx_conn_def)

lemma consume_credit_conn:
  assumes conn: "tx_conn h c S" and s: "s \<in> S" and n: "n \<le> ossl_quic_txfc_get_credit h s 0"
  shows "\<exists>h'. ossl_quic_txfc_consume_credit h s n = (True, h') \<and> tx_conn h' c S
    \<and> unat (tx_swm (h' s)) = unat (tx_swm (h s)) + unat n
    \<and> unat (tx_swm (h' c)) = unat (tx_swm (h c)) + unat n
    \<and> (\<forall>p. tx_cwm (h' p) = tx_cwm (h p))"
proof -
  note d = tx_connD [OF conn s]
  let ?h = "h(s := txfc_take (h s) n, c := txfc_take (h c) n)"
  have le: "n \<le> txfc_credit (h s)" "n \<le> txfc_credit (h c)" using n get_credit_eq [of h s c] d by simp_all
  have us: "unat (tx_swm (txfc_take (h s) n)) = unat (tx_swm (h s)) + unat n"
    and uc: "unat (tx_swm (txfc_take (h c) n)) = unat (tx_swm (h c)) + unat n"
    using le d unat_txfc_credit [of "h s"] unat_txfc_credit [of "h c"]
    by (simp_all add: unat_txfc_take word_le_nat_alt)
  have fin: "finite S" and cS: "c \<notin> S"
    and sum: "(\<Sum>s \<in> S. unat (tx_swm (h s))) = unat (tx_swm (h c))"
    using conn by (auto simp: tx_conn_def)
  have "(\<Sum>x \<in> S. unat (tx_swm (?h x))) = (\<Sum>x \<in> S. unat (tx_swm (h x))) + unat n"
    using sum_store_upd [OF fin s, of "\<lambda>t. unat (tx_swm t)" h "txfc_take (h s) n"] us
      sum_store_other [OF cS, of "\<lambda>t. unat (tx_swm t)" "h(s := txfc_take (h s) n)" "txfc_take (h c) n"]
    by linarith
  then have "tx_conn ?h c S"
    using conn uc d sum by (auto simp: tx_conn_def txfc_take_le)
  then show ?thesis using consume_credit_eq [of h s c n] d le us uc by auto
qed

text \<open>A caller that asks for too much is refused, and even then no watermark is overrun.\<close>

lemma consume_credit_safe:
  assumes conn: "tx_conn h c S" and s: "s \<in> S"
  shows "fst (ossl_quic_txfc_consume_credit h s n) \<longleftrightarrow> n \<le> ossl_quic_txfc_get_credit h s 0"
    and "p \<in> insert c S \<Longrightarrow> tx_swm (snd (ossl_quic_txfc_consume_credit h s n) p)
      \<le> tx_cwm (snd (ossl_quic_txfc_consume_credit h s n) p)"
proof -
  note d = tx_connD [OF conn s]
  show "fst (ossl_quic_txfc_consume_credit h s n) \<longleftrightarrow> n \<le> ossl_quic_txfc_get_credit h s 0"
    using d by (simp add: consume_credit_eq get_credit_eq)
  show "tx_swm (snd (ossl_quic_txfc_consume_credit h s n) p)
      \<le> tx_cwm (snd (ossl_quic_txfc_consume_credit h s n) p)" if "p \<in> insert c S"
    using that conn d by (auto simp: consume_credit_eq txfc_take_le tx_conn_def)
qed

section \<open>Receiving: lemmas\<close>

lemma on_rx_controlled_bytes_simps [simp]:
  "rx_cwm (snd (on_rx_controlled_bytes r n)) = rx_cwm r"
  "rx_rwm (snd (on_rx_controlled_bytes r n)) = rx_rwm r"
  "rx_hwm (snd (on_rx_controlled_bytes r n)) = rx_hwm r"
  "rx_parent (snd (on_rx_controlled_bytes r n)) = rx_parent r"
  "rx_is_fin (snd (on_rx_controlled_bytes r n)) = rx_is_fin r"
  "standalone (snd (on_rx_controlled_bytes r n)) = standalone r"
  "error_code (snd (on_rx_controlled_bytes r n))
     = (if rx_cwm r - rx_swm r < n then OSSL_QUIC_ERR_FLOW_CONTROL_ERROR else error_code r)"
  "rx_swm (snd (on_rx_controlled_bytes r n)) = rx_swm r + min n (rx_cwm r - rx_swm r)"
  by (auto simp: on_rx_controlled_bytes_def Let_def min_def not_le)

lemma unat_rx_swm:
  assumes "rx_swm r \<le> rx_cwm r"
  shows "unat (rx_swm r + min n (rx_cwm r - rx_swm r))
    = unat (rx_swm r) + min (unat n) (unat (rx_cwm r) - unat (rx_swm r))"
proof -
  have "unat (min n (rx_cwm r - rx_swm r)) = min (unat n) (unat (rx_cwm r) - unat (rx_swm r))"
    using assms by (simp add: min_def word_le_nat_alt unat_sub_exact)
  moreover from this have "unat (rx_swm r) + unat (min n (rx_cwm r - rx_swm r)) \<le> unat (rx_cwm r)"
    using assms by (simp add: word_le_nat_alt)
  then have "unat (rx_swm r) + unat (min n (rx_cwm r - rx_swm r)) < 2 ^ LENGTH(64)"
    using unat_bound [of "rx_cwm r"] by linarith
  ultimately show ?thesis by (simp add: unat_add_exact)
qed

text \<open>
  Retiring bytes: the update of one controller as far as its watermarks go. The credit
  watermark only ever moves up, whatever the clock says and whatever wraps around.
\<close>

lemma rxfc_start_epoch_simps [simp]:
  "rx_cwm (fst (rxfc_start_epoch now r)) = rx_cwm r"
  "rx_swm (fst (rxfc_start_epoch now r)) = rx_swm r"
  "rx_rwm (fst (rxfc_start_epoch now r)) = rx_rwm r"
  "rx_hwm (fst (rxfc_start_epoch now r)) = rx_hwm r"
  "cur_window_size (fst (rxfc_start_epoch now r)) = cur_window_size r"
  "max_window_size (fst (rxfc_start_epoch now r)) = max_window_size r"
  "rx_parent (fst (rxfc_start_epoch now r)) = rx_parent r"
  "rx_is_fin (fst (rxfc_start_epoch now r)) = rx_is_fin r"
  "error_code (fst (rxfc_start_epoch now r)) = error_code r"
  "has_cwm_changed (fst (rxfc_start_epoch now r)) = has_cwm_changed r"
  "standalone (fst (rxfc_start_epoch now r)) = standalone r"
  by (simp_all add: rxfc_start_epoch_def)

lemma rxfc_adjust_window_size_simps [simp]:
  "rx_cwm (fst (rxfc_adjust_window_size now r m rtt)) = rx_cwm r"
  "rx_swm (fst (rxfc_adjust_window_size now r m rtt)) = rx_swm r"
  "rx_rwm (fst (rxfc_adjust_window_size now r m rtt)) = rx_rwm r"
  "rx_hwm (fst (rxfc_adjust_window_size now r m rtt)) = rx_hwm r"
  "max_window_size (fst (rxfc_adjust_window_size now r m rtt)) = max_window_size r"
  "rx_parent (fst (rxfc_adjust_window_size now r m rtt)) = rx_parent r"
  "rx_is_fin (fst (rxfc_adjust_window_size now r m rtt)) = rx_is_fin r"
  "error_code (fst (rxfc_adjust_window_size now r m rtt)) = error_code r"
  "has_cwm_changed (fst (rxfc_adjust_window_size now r m rtt)) = has_cwm_changed r"
  "standalone (fst (rxfc_adjust_window_size now r m rtt)) = standalone r"
  by (simp_all add: rxfc_adjust_window_size_def Let_def split: prod.splits)

lemma rxfc_adjust_window_size_bounded:
  "cur_window_size (fst (rxfc_adjust_window_size now r m rtt)) \<le> max_window_size r"
  by (auto simp: rxfc_adjust_window_size_def Let_def not_less split: prod.splits)

lemma rxfc_update_cwm_simps [simp]:
  "rx_swm (fst (rxfc_update_cwm now r m rtt)) = rx_swm r"
  "rx_rwm (fst (rxfc_update_cwm now r m rtt)) = rx_rwm r"
  "rx_hwm (fst (rxfc_update_cwm now r m rtt)) = rx_hwm r"
  "rx_parent (fst (rxfc_update_cwm now r m rtt)) = rx_parent r"
  "rx_is_fin (fst (rxfc_update_cwm now r m rtt)) = rx_is_fin r"
  "error_code (fst (rxfc_update_cwm now r m rtt)) = error_code r"
  "standalone (fst (rxfc_update_cwm now r m rtt)) = standalone r"
  by (simp_all add: rxfc_update_cwm_def Let_def split_beta)

lemma rxfc_update_cwm_mono:
  "rx_cwm r \<le> rx_cwm (fst (rxfc_update_cwm now r m rtt))"
  "has_cwm_changed (fst (rxfc_update_cwm now r m rtt)) \<longleftrightarrow>
     has_cwm_changed r \<or> rx_cwm r < rx_cwm (fst (rxfc_update_cwm now r m rtt))"
  by (auto simp: rxfc_update_cwm_def Let_def split_beta)

text \<open>No more than the maximum window is ever granted beyond what has been consumed.\<close>

lemma rxfc_update_cwm_limit:
  "rx_cwm (fst (rxfc_update_cwm now r m rtt)) = rx_cwm r
   \<or> (\<exists>w \<le> max_window_size r. rx_cwm (fst (rxfc_update_cwm now r m rtt)) = rx_rwm r + w)"
proof -
  obtain r1 now1 where a: "rxfc_adjust_window_size now r m rtt = (r1, now1)" by fastforce
  with rxfc_adjust_window_size_bounded [of now r m rtt] rxfc_adjust_window_size_simps [of now r m rtt]
  have "cur_window_size r1 \<le> max_window_size r" "rx_cwm r1 = rx_cwm r" "rx_rwm r1 = rx_rwm r" by simp_all
  then show ?thesis using a by (auto simp: rxfc_update_cwm_def Let_def)
qed

lemma rxfc_on_retire_eq:
  "rxfc_on_retire now r n m rtt =
     (let (r', now') = (if epoch_start r = 0 then rxfc_start_epoch now r else (r, now))
      in rxfc_update_cwm now' (r'\<lparr>rx_rwm := rx_rwm r' + n\<rparr>) m rtt)"
  by (simp add: rxfc_on_retire_def)

lemma rxfc_on_retire_simps [simp]:
  "rx_swm (fst (rxfc_on_retire now r n m rtt)) = rx_swm r"
  "rx_rwm (fst (rxfc_on_retire now r n m rtt)) = rx_rwm r + n"
  "rx_hwm (fst (rxfc_on_retire now r n m rtt)) = rx_hwm r"
  "rx_parent (fst (rxfc_on_retire now r n m rtt)) = rx_parent r"
  "rx_is_fin (fst (rxfc_on_retire now r n m rtt)) = rx_is_fin r"
  "error_code (fst (rxfc_on_retire now r n m rtt)) = error_code r"
  "standalone (fst (rxfc_on_retire now r n m rtt)) = standalone r"
  by (simp_all add: rxfc_on_retire_eq Let_def split_beta)

lemma rxfc_on_retire_mono:
  "rx_cwm r \<le> rx_cwm (fst (rxfc_on_retire now r n m rtt))"
  "has_cwm_changed (fst (rxfc_on_retire now r n m rtt)) \<longleftrightarrow>
     has_cwm_changed r \<or> rx_cwm r < rx_cwm (fst (rxfc_on_retire now r n m rtt))"
proof -
  obtain r1 now1 where e: "rxfc_start_epoch now r = (r1, now1)" by fastforce
  with rxfc_start_epoch_simps [of now r]
  have r1: "rx_cwm r1 = rx_cwm r" "has_cwm_changed r1 = has_cwm_changed r" by simp_all
  have "rx_cwm r \<le> rx_cwm (fst (rxfc_on_retire now r n m rtt))
    \<and> (has_cwm_changed (fst (rxfc_on_retire now r n m rtt)) \<longleftrightarrow>
     has_cwm_changed r \<or> rx_cwm r < rx_cwm (fst (rxfc_on_retire now r n m rtt)))"
    using rxfc_update_cwm_mono [where r = "r1\<lparr>rx_rwm := rx_rwm r1 + n\<rparr>" and now = now1 and m = m and rtt = rtt]
      rxfc_update_cwm_mono [where r = "r\<lparr>rx_rwm := rx_rwm r + n\<rparr>" and now = now and m = m and rtt = rtt] r1 e
    by (simp add: rxfc_on_retire_eq)
  then show "rx_cwm r \<le> rx_cwm (fst (rxfc_on_retire now r n m rtt))"
    "has_cwm_changed (fst (rxfc_on_retire now r n m rtt)) \<longleftrightarrow>
     has_cwm_changed r \<or> rx_cwm r < rx_cwm (fst (rxfc_on_retire now r n m rtt))" by simp_all
qed

text \<open>
  A connection with receive controller \<open>c\<close> and stream controllers \<open>S\<close> whose peer has
  kept to its limits so far: on every level what is consumed is at most what was received,
  which is at most the credit granted; and the connection accounts for the sum of its
  streams.
\<close>

definition rx_conn :: "rx_store \<Rightarrow> nat \<Rightarrow> nat set \<Rightarrow> bool" where
  "rx_conn h c S \<longleftrightarrow> finite S \<and> c \<notin> S \<and> rx_parent (h c) = None
     \<and> (\<forall>s \<in> S. rx_parent (h s) = Some c \<and> \<not> standalone (h s)
           \<and> rx_swm (h s) = rx_hwm (h s) \<and> rx_rwm (h s) \<le> rx_swm (h s))
     \<and> (\<forall>p \<in> insert c S. rx_swm (h p) \<le> rx_cwm (h p))
     \<and> (\<Sum>s \<in> S. unat (rx_swm (h s))) = unat (rx_swm (h c))
     \<and> (\<Sum>s \<in> S. unat (rx_rwm (h s))) = unat (rx_rwm (h c))"

lemma rx_connD:
  assumes "rx_conn h c S" "s \<in> S"
  shows "rx_parent (h s) = Some c" "s \<noteq> c" "\<not> standalone (h s)" "rx_swm (h s) = rx_hwm (h s)"
    "rx_rwm (h s) \<le> rx_swm (h s)" "rx_swm (h s) \<le> rx_cwm (h s)" "rx_swm (h c) \<le> rx_cwm (h c)"
  using assms by (auto simp: rx_conn_def)

lemma rx_conn_rwm_le: "rx_conn h c S \<Longrightarrow> rx_rwm (h c) \<le> rx_swm (h c)"
proof -
  assume conn: "rx_conn h c S"
  then have "(\<Sum>s \<in> S. unat (rx_rwm (h s))) \<le> (\<Sum>s \<in> S. unat (rx_swm (h s)))"
    by (intro sum_mono) (auto simp: rx_conn_def word_le_nat_alt)
  moreover from conn have "(\<Sum>s \<in> S. unat (rx_swm (h s))) = unat (rx_swm (h c))"
    "(\<Sum>s \<in> S. unat (rx_rwm (h s))) = unat (rx_rwm (h c))" by (simp_all only: rx_conn_def)
  ultimately show ?thesis by (simp only: word_le_nat_alt)
qed

text \<open>The two ways in which a frame can contradict the final size of its stream.\<close>

definition final_size_violation :: "rxfc \<Rightarrow> u64 \<Rightarrow> bool \<Rightarrow> bool" where
  "final_size_violation r end is_fin \<longleftrightarrow>
     rx_is_fin r \<and> (is_fin \<and> rx_hwm r \<noteq> end \<or> end > rx_hwm r)
     \<or> is_fin \<and> end < rx_hwm r"

lemma rx_frame_eq:
  fixes h :: rx_store and fin_off :: u64 and is_fin :: bool
  assumes "rx_parent (h s) = Some c" "s \<noteq> c" "\<not> standalone (h s)"
  defines "r \<equiv> h s" and "d \<equiv> fin_off - rx_hwm (h s)"
  defines "r' \<equiv> (if is_fin then r\<lparr>rx_is_fin := True\<rparr> else r)\<lparr>rx_hwm := fin_off\<rparr>"
  shows "final_size_violation r fin_off is_fin \<Longrightarrow>
      ossl_quic_rxfc_on_rx_stream_frame h s fin_off is_fin
        = (True, h(s := r\<lparr>error_code := OSSL_QUIC_ERR_FINAL_SIZE_ERROR, rx_is_fin := True\<rparr>))"
    and "\<not> final_size_violation r fin_off is_fin \<Longrightarrow> rx_hwm r < fin_off \<Longrightarrow>
      ossl_quic_rxfc_on_rx_stream_frame h s fin_off is_fin
        = (True, h(s := snd (on_rx_controlled_bytes r' d), c := snd (on_rx_controlled_bytes (h c) d)))"
    and "\<not> final_size_violation r fin_off is_fin \<Longrightarrow> fin_off \<le> rx_hwm r \<Longrightarrow>
      ossl_quic_rxfc_on_rx_stream_frame h s fin_off is_fin
        = (True, h(s := if is_fin then r\<lparr>rx_is_fin := True\<rparr> else r))"
proof -
  have r: "rx_parent r = Some c" using assms by simp
  show "ossl_quic_rxfc_on_rx_stream_frame h s fin_off is_fin
        = (True, h(s := r\<lparr>error_code := OSSL_QUIC_ERR_FINAL_SIZE_ERROR, rx_is_fin := True\<rparr>))"
    if "final_size_violation r fin_off is_fin"
    using that r
    by (cases "h s") (auto simp: ossl_quic_rxfc_on_rx_stream_frame_def final_size_violation_def
        Let_def r_def)
  show "ossl_quic_rxfc_on_rx_stream_frame h s fin_off is_fin
        = (True, h(s := snd (on_rx_controlled_bytes r' d), c := snd (on_rx_controlled_bytes (h c) d)))"
    if "\<not> final_size_violation r fin_off is_fin" "rx_hwm r < fin_off"
    using that r assms(2)
    by (auto simp: ossl_quic_rxfc_on_rx_stream_frame_def Let_def r_def r'_def d_def
        final_size_violation_def split_beta)
  show "ossl_quic_rxfc_on_rx_stream_frame h s fin_off is_fin
        = (True, h(s := if is_fin then r\<lparr>rx_is_fin := True\<rparr> else r))"
    if "\<not> final_size_violation r fin_off is_fin" "fin_off \<le> rx_hwm r"
  proof -
    from that have "\<not> (rx_is_fin r \<and> (is_fin \<and> rx_hwm r \<noteq> fin_off \<or> fin_off > rx_hwm r))"
      "\<not> fin_off > rx_hwm r" "is_fin \<Longrightarrow> \<not> fin_off < rx_hwm r"
      by (simp_all add: final_size_violation_def not_less)
    with r show ?thesis
      unfolding ossl_quic_rxfc_on_rx_stream_frame_def Let_def r_def [symmetric]
      by (cases is_fin) simp_all
  qed
qed

text \<open>Updates that leave a stream's watermarks alone leave the accounting alone.\<close>

lemma rx_conn_upd:
  assumes conn: "rx_conn h c S" and s: "s \<in> S"
    and r: "rx_parent r = rx_parent (h s)" "standalone r = standalone (h s)" "rx_swm r = rx_swm (h s)"
      "rx_rwm r = rx_rwm (h s)" "rx_hwm r = rx_hwm (h s)" "rx_cwm r = rx_cwm (h s)"
  shows "rx_conn (h(s := r)) c S"
proof -
  have "(\<Sum>x \<in> S. unat (rx_swm ((h(s := r)) x))) = (\<Sum>x \<in> S. unat (rx_swm (h x)))"
    "(\<Sum>x \<in> S. unat (rx_rwm ((h(s := r)) x))) = (\<Sum>x \<in> S. unat (rx_rwm (h x)))"
    using r by (auto intro: sum.cong)
  with conn s r rx_connD [OF conn s] show ?thesis by (auto simp: rx_conn_def)
qed

lemma rx_frame_accepted:
  assumes conn: "rx_conn h c S" and s: "s \<in> S"
    and nv: "\<not> final_size_violation (h s) e is_fin"
    and strm: "e \<le> rx_cwm (h s)"
    and cn: "rx_hwm (h s) < e \<Longrightarrow>
      unat e - unat (rx_hwm (h s)) + unat (rx_swm (h c)) \<le> unat (rx_cwm (h c))"
  shows "\<exists>h'. ossl_quic_rxfc_on_rx_stream_frame h s e is_fin = (True, h') \<and> rx_conn h' c S
    \<and> (\<forall>p. error_code (h' p) = error_code (h p)) \<and> rx_hwm (h' s) = max (rx_hwm (h s)) e
    \<and> rx_is_fin (h' s) = (rx_is_fin (h s) \<or> is_fin)
    \<and> (\<forall>p. rx_cwm (h' p) = rx_cwm (h p)) \<and> (\<forall>p. p \<noteq> s \<longrightarrow> p \<noteq> c \<longrightarrow> h' p = h p)"
proof -
  note d = rx_connD [OF conn s]
  show ?thesis
  proof (cases "rx_hwm (h s) < e")
    case True
    let ?d = "e - rx_hwm (h s)"
    let ?r = "(if is_fin then h s\<lparr>rx_is_fin := True\<rparr> else h s)\<lparr>rx_hwm := e\<rparr>"
    let ?s = "snd (on_rx_controlled_bytes ?r ?d)" and ?c = "snd (on_rx_controlled_bytes (h c) ?d)"
    have ud: "unat ?d = unat e - unat (rx_hwm (h s))" using True by (simp add: unat_sub_exact)
    have ds: "?d \<le> rx_cwm (h s) - rx_swm (h s)" "?d \<le> rx_cwm (h c) - rx_swm (h c)"
      using strm cn [OF True] d by (simp_all add: word_le_nat_alt unat_sub_exact ud True less_imp_le)
    have fields: "rx_swm ?s = e" "rx_cwm ?s = rx_cwm (h s)" "rx_rwm ?s = rx_rwm (h s)"
      "rx_parent ?s = rx_parent (h s)" "standalone ?s = standalone (h s)" "rx_hwm ?s = e"
      "error_code ?s = error_code (h s)" "rx_is_fin ?s = (rx_is_fin (h s) \<or> is_fin)"
      using ds(1) d(4) by (auto simp: min_def)
    have cswm: "unat (rx_swm ?c) = unat (rx_swm (h c)) + unat ?d"
      using unat_rx_swm [OF d(7), of ?d] ds(2) d(7) by (simp add: word_le_nat_alt unat_sub_exact)
    have fin: "finite S" and cS: "c \<notin> S"
      and sw: "(\<Sum>s \<in> S. unat (rx_swm (h s))) = unat (rx_swm (h c))"
      and rw: "(\<Sum>s \<in> S. unat (rx_rwm (h s))) = unat (rx_rwm (h c))"
      using conn by (auto simp: rx_conn_def)
    let ?h = "h(s := ?s, c := ?c)"
    have "unat e = unat (rx_swm (h s)) + unat ?d" using ud True d(4) by (simp add: word_less_nat_alt)
    then have sw': "(\<Sum>x \<in> S. unat (rx_swm (?h x))) = unat (rx_swm ?c)"
      using sum_store_upd [OF fin s, of "\<lambda>r. unat (rx_swm r)" h ?s] sw cswm
        arg_cong [OF fields(1), of unat]
        sum_store_other [OF cS, of "\<lambda>r. unat (rx_swm r)" "h(s := ?s)" ?c] by linarith
    have rw': "(\<Sum>x \<in> S. unat (rx_rwm (?h x))) = unat (rx_rwm ?c)"
      using sum_store_upd [OF fin s, of "\<lambda>r. unat (rx_rwm r)" h ?s] rw
        arg_cong [OF fields(3), of unat]
        sum_store_other [OF cS, of "\<lambda>r. unat (rx_rwm r)" "h(s := ?s)" ?c] by simp
    have "rx_swm ?c \<le> rx_cwm ?c"
      using cswm ds(2) d(7) by (simp add: word_le_nat_alt unat_sub_exact)
    moreover have "rx_rwm (h s) \<le> e" using d(4,5) True by simp
    ultimately have "rx_conn ?h c S"
      using conn fields strm d sw' rw' by (auto simp: rx_conn_def simp del: on_rx_controlled_bytes_simps(8))
    moreover have "error_code ?c = error_code (h c)" using ds(2) by (auto simp: not_less)
    then have "error_code (?h p) = error_code (h p)" for p using fields(7) by simp
    moreover have "ossl_quic_rxfc_on_rx_stream_frame h s e is_fin = (True, ?h)"
      by (rule rx_frame_eq(2) [where h = h and s = s, OF d(1-3) nv True])
    moreover have "rx_hwm (?h s) = max (rx_hwm (h s)) e"
      using fields(6) d(2) True by (simp add: max_def less_imp_le)
    moreover have "rx_is_fin (?h s) = (rx_is_fin (h s) \<or> is_fin)" using fields(8) d(2) by simp
    moreover have "rx_cwm (?h p) = rx_cwm (h p)" for p using fields(2) by simp
    moreover have "p \<noteq> s \<longrightarrow> p \<noteq> c \<longrightarrow> ?h p = h p" for p by simp
    ultimately show ?thesis by blast
  next
    case False
    then have eq: "ossl_quic_rxfc_on_rx_stream_frame h s e is_fin
        = (True, h(s := if is_fin then h s\<lparr>rx_is_fin := True\<rparr> else h s))"
      by (intro rx_frame_eq(3) [where h = h and s = s, OF d(1-3) nv]) simp
    have "rx_conn (h(s := if is_fin then h s\<lparr>rx_is_fin := True\<rparr> else h s)) c S"
      by (rule rx_conn_upd [OF conn s]) simp_all
    with eq False show ?thesis
      by (intro exI [of _ "h(s := if is_fin then h s\<lparr>rx_is_fin := True\<rparr> else h s)"])
        (simp add: max_def)
  qed
qed

lemma rx_frame_errors:
  fixes h :: rx_store and e :: u64 and is_fin :: bool
  assumes conn: "rx_conn h c S" and s: "s \<in> S"
    and clear: "error_code (h s) = 0" "error_code (h c) = 0"
  defines "h' \<equiv> snd (ossl_quic_rxfc_on_rx_stream_frame h s e is_fin)"
  shows "error_code (h' s) =
      (if final_size_violation (h s) e is_fin then OSSL_QUIC_ERR_FINAL_SIZE_ERROR
       else if e > rx_cwm (h s) then OSSL_QUIC_ERR_FLOW_CONTROL_ERROR else 0)"
    and "error_code (h' c) =
      (if \<not> final_size_violation (h s) e is_fin
          \<and> unat (rx_swm (h c)) + (unat e - unat (rx_hwm (h s))) > unat (rx_cwm (h c))
       then OSSL_QUIC_ERR_FLOW_CONTROL_ERROR else 0)"
proof -
  note d = rx_connD [OF conn s]
  have "error_code (h' s) =
      (if final_size_violation (h s) e is_fin then OSSL_QUIC_ERR_FINAL_SIZE_ERROR
       else if e > rx_cwm (h s) then OSSL_QUIC_ERR_FLOW_CONTROL_ERROR else 0)
    \<and> error_code (h' c) =
      (if \<not> final_size_violation (h s) e is_fin
          \<and> unat (rx_swm (h c)) + (unat e - unat (rx_hwm (h s))) > unat (rx_cwm (h c))
       then OSSL_QUIC_ERR_FLOW_CONTROL_ERROR else 0)"
  proof (cases "final_size_violation (h s) e is_fin")
    case True
    then show ?thesis
      using rx_frame_eq(1) [where h = h and s = s, OF d(1-3) True] d(2) clear by (simp add: h'_def)
  next
    case nv: False
    show ?thesis
    proof (cases "rx_hwm (h s) < e")
      case True
      let ?d = "e - rx_hwm (h s)"
      have ud: "unat ?d = unat e - unat (rx_hwm (h s))" using True by (simp add: unat_sub_exact)
      have "rx_cwm (h s) - rx_swm (h s) < ?d \<longleftrightarrow> rx_cwm (h s) < e"
        using d True by (auto simp: word_less_nat_alt word_le_nat_alt unat_sub_exact)
      moreover have "rx_cwm (h c) - rx_swm (h c) < ?d \<longleftrightarrow>
          unat (rx_swm (h c)) + (unat e - unat (rx_hwm (h s))) > unat (rx_cwm (h c))"
        using d(7) ud by (auto simp: word_less_nat_alt word_le_nat_alt unat_sub_exact)
      ultimately show ?thesis
        using rx_frame_eq(2) [where h = h and s = s, OF d(1-3) nv True] nv d(2) clear by (simp add: h'_def)
    next
      case False
      then have le: "e \<le> rx_hwm (h s)" by simp
      then have "\<not> e > rx_cwm (h s)" using d(4,6) by simp
      moreover have "unat e - unat (rx_hwm (h s)) = 0" using le by (simp add: word_le_nat_alt)
      ultimately show ?thesis
        using rx_frame_eq(3) [where h = h and s = s, OF d(1-3) nv le] nv d(2,7) clear
        by (simp add: h'_def word_le_nat_alt)
    qed
  qed
  then show "error_code (h' s) =
      (if final_size_violation (h s) e is_fin then OSSL_QUIC_ERR_FINAL_SIZE_ERROR
       else if e > rx_cwm (h s) then OSSL_QUIC_ERR_FLOW_CONTROL_ERROR else 0)"
    and "error_code (h' c) =
      (if \<not> final_size_violation (h s) e is_fin
          \<and> unat (rx_swm (h c)) + (unat e - unat (rx_hwm (h s))) > unat (rx_cwm (h c))
       then OSSL_QUIC_ERR_FLOW_CONTROL_ERROR else 0)" by blast+
qed

lemma rx_retire_eq:
  assumes "rx_parent (h s) = Some c" "s \<noteq> c" "\<not> standalone (h s)" "n \<noteq> 0"
    and "rx_rwm (h s) + n \<le> rx_swm (h s)"
  obtains rs rc now1 now2 m where
    "ossl_quic_rxfc_on_retire now h s n rtt = (True, h(s := rs, c := rc), now2)"
    "rs = fst (rxfc_on_retire now (h s) n 0 rtt)" "rc = fst (rxfc_on_retire now1 (h c) n m rtt)"
proof -
  obtain rs now1 where 1: "rxfc_on_retire now (h s) n 0 rtt = (rs, now1)" by fastforce
  obtain rc now2 where 2: "rxfc_on_retire now1 (h c) n (cur_window_size rs) rtt = (rc, now2)"
    by fastforce
  from 1 have "rx_parent rs = Some c" "\<not> standalone rs"
    using rxfc_on_retire_simps(4,7) [of now "h s" n 0 rtt] assms by simp_all
  with assms 1 2 have "ossl_quic_rxfc_on_retire now h s n rtt = (True, h(s := rs, c := rc), now2)"
    by (simp add: ossl_quic_rxfc_on_retire_def Let_def not_less)
  with 1 2 show ?thesis by (intro that [of rs rc now2 now1 "cur_window_size rs"]) simp_all
qed

lemma rx_retire_ok:
  assumes conn: "rx_conn h c S" and s: "s \<in> S"
    and n: "unat (rx_rwm (h s)) + unat n \<le> unat (rx_swm (h s))"
  shows "\<exists>h' now'. ossl_quic_rxfc_on_retire now h s n rtt = (True, h', now') \<and> rx_conn h' c S
    \<and> unat (rx_rwm (h' s)) = unat (rx_rwm (h s)) + unat n
    \<and> unat (rx_rwm (h' c)) = unat (rx_rwm (h c)) + unat n
    \<and> (\<forall>p. rx_cwm (h p) \<le> rx_cwm (h' p)
        \<and> (has_cwm_changed (h' p) \<longleftrightarrow> has_cwm_changed (h p) \<or> rx_cwm (h p) < rx_cwm (h' p)))"
proof (cases "n = 0")
  case True
  with conn rx_connD [OF conn s] show ?thesis by (simp add: ossl_quic_rxfc_on_retire_def)
next
  case False
  note d = rx_connD [OF conn s]
  have u: "unat (rx_rwm (h s) + n) = unat (rx_rwm (h s)) + unat n"
    using n unat_bound [of "rx_swm (h s)"] by (intro unat_add_exact) linarith
  then have le: "rx_rwm (h s) + n \<le> rx_swm (h s)" using n by (simp add: word_le_nat_alt)
  obtain rs rc now1 now2 m where
    ret: "ossl_quic_rxfc_on_retire now h s n rtt = (True, h(s := rs, c := rc), now2)"
    and rs: "rs = fst (rxfc_on_retire now (h s) n 0 rtt)"
    and rc: "rc = fst (rxfc_on_retire now1 (h c) n m rtt)"
    by (rule rx_retire_eq [where h = h and s = s, OF d(1-3) False le])
  have fin: "finite S" and cS: "c \<notin> S"
    and sw: "(\<Sum>s \<in> S. unat (rx_swm (h s))) = unat (rx_swm (h c))"
    and rw: "(\<Sum>s \<in> S. unat (rx_rwm (h s))) = unat (rx_rwm (h c))"
    using conn by (auto simp: rx_conn_def)
  let ?h = "h(s := rs, c := rc)"
  have sw': "(\<Sum>x \<in> S. unat (rx_swm (?h x))) = unat (rx_swm rc)"
    using sum_store_upd [OF fin s, of "\<lambda>r. unat (rx_swm r)" h rs] sw
      sum_store_other [OF cS, of "\<lambda>r. unat (rx_swm r)" "h(s := rs)" rc]
    by (simp add: rs rc del: fun_upd_apply)
  have rwsum: "(\<Sum>x \<in> S. unat (rx_rwm (?h x))) = unat (rx_rwm (h c)) + unat n"
    using sum_store_upd [OF fin s, of "\<lambda>r. unat (rx_rwm r)" h rs] rw u
      sum_store_other [OF cS, of "\<lambda>r. unat (rx_rwm r)" "h(s := rs)" rc]
    by (simp add: rs del: fun_upd_apply)
  have "(\<Sum>x \<in> S. unat (rx_rwm (?h x))) \<le> (\<Sum>x \<in> S. unat (rx_swm (?h x)))"
    using conn cS le by (intro sum_mono) (auto simp: rx_conn_def word_le_nat_alt rs)
  then have "unat (rx_rwm (h c)) + unat n \<le> unat (rx_swm (h c))" using rwsum sw' by (simp add: rc)
  then have uc: "unat (rx_rwm (h c) + n) = unat (rx_rwm (h c)) + unat n"
    using unat_bound [of "rx_swm (h c)"] by (intro unat_add_exact) linarith
  have rw': "(\<Sum>x \<in> S. unat (rx_rwm (?h x))) = unat (rx_rwm rc)" using rwsum uc by (simp add: rc)
  have cwm: "rx_cwm (h p) \<le> rx_cwm (?h p) \<and> (has_cwm_changed (?h p) \<longleftrightarrow>
      has_cwm_changed (h p) \<or> rx_cwm (h p) < rx_cwm (?h p))" for p
    using rxfc_on_retire_mono [where r = "h s" and now = now and n = n and m = 0 and rtt = rtt]
      rxfc_on_retire_mono [where r = "h c" and now = now1 and n = n and m = m and rtt = rtt]
    by (simp add: rs rc)
  have "rx_swm (?h p) \<le> rx_cwm (?h p)" if "p \<in> insert c S" for p
  proof -
    have "rx_swm (h p) \<le> rx_cwm (h p)" using conn that unfolding rx_conn_def by blast
    then show ?thesis using cwm [of p] by (auto simp: rs rc)
  qed
  then have "rx_conn ?h c S"
    using conn d sw' rw' le unfolding rx_conn_def by (auto simp: rs rc)
  with ret u uc cwm d(2) show ?thesis by (intro exI [of _ ?h] exI [of _ now2]) (simp add: rs rc)
qed

lemma rx_retire_errors:
  "error_code (fst (snd (ossl_quic_rxfc_on_retire now h s n rtt)) p) = error_code (h p)"
proof -
  obtain rs now1 where 1: "rxfc_on_retire now (h s) n 0 rtt = (rs, now1)" by fastforce
  then have rs: "error_code rs = error_code (h s)"
    using rxfc_on_retire_simps(6) [of now "h s" n 0 rtt] by simp
  let ?h = "h(s := rs)"
  have "error_code (fst (rxfc_on_retire now1 (?h c) n (cur_window_size rs) rtt)) = error_code (?h c)" for c
    by simp
  with 1 rs show ?thesis
    by (auto simp: ossl_quic_rxfc_on_retire_def Let_def split_beta)
qed

section \<open>Accounts of credit\<close>

text \<open>
  What a sender relies on: within the credit it is told, an account lets it consume, books
  exactly what it consumed and never exceeds its limit. A client that asks for the credit
  before each of its sends is then never refused, and stays within the limit for ever.
\<close>

text \<open>Sends clamped to the credit, as \<^verbatim>\<open>txp_generate_stream_frames\<close> makes them: the
  result says whether all were granted and how many bytes were sent.\<close>

fun send_all :: "('st \<Rightarrow> 'i \<Rightarrow> u64) \<Rightarrow> ('st \<Rightarrow> 'i \<Rightarrow> u64 \<Rightarrow> bool \<times> 'st) \<Rightarrow>
    'st \<Rightarrow> ('i \<times> u64) list \<Rightarrow> bool \<times> nat \<times> 'st" where
  "send_all credit consume st [] = (True, 0, st)"
| "send_all credit consume st ((i, n) # sends) =
     (let (ok, st') = consume st i (min n (credit st i));
          (oks, k, st'') = send_all credit consume st' sends
      in (ok \<and> oks, unat (min n (credit st i)) + k, st''))"

locale credit_account =
  fixes inv :: "'st \<Rightarrow> bool"
    and member :: "'st \<Rightarrow> 'i \<Rightarrow> bool"
    and credit :: "'st \<Rightarrow> 'i \<Rightarrow> u64"
    and consume :: "'st \<Rightarrow> 'i \<Rightarrow> u64 \<Rightarrow> bool \<times> 'st"
    and total :: "'st \<Rightarrow> nat"
    and limit :: "'st \<Rightarrow> nat"
  assumes consume_ok: "inv st \<Longrightarrow> member st i \<Longrightarrow> n \<le> credit st i \<Longrightarrow>
      \<exists>st'. consume st i n = (True, st') \<and> inv st' \<and> member st' = member st
        \<and> total st' = total st + unat n \<and> limit st' = limit st"
    and total_le: "inv st \<Longrightarrow> total st \<le> limit st"
begin

lemma send_all_ok:
  assumes "inv st" "\<forall>(i, n) \<in> set sends. member st i"
  shows "\<exists>k st'. send_all credit consume st sends = (True, k, st') \<and> inv st'
    \<and> total st' = total st + k \<and> total st' \<le> limit st"
  using assms
proof (induction sends arbitrary: st)
  case Nil
  then show ?case using total_le by simp
next
  case (Cons x sends)
  obtain i n where x: "x = (i, n)" by fastforce
  obtain st' where st': "consume st i (min n (credit st i)) = (True, st')" "inv st'"
    "member st' = member st" "total st' = total st + unat (min n (credit st i))" "limit st' = limit st"
    using consume_ok [of st i "min n (credit st i)"] Cons.prems x by auto
  from Cons.IH [OF st'(2)] Cons.prems(2) st'(3) x obtain k st'' where
    "send_all credit consume st' sends = (True, k, st'')" "inv st''" "total st'' = total st' + k" "total st'' \<le> limit st'"
    by auto
  with st' x show ?case by simp
qed

end

text \<open>The send controllers of one connection are such an account.\<close>

type_synonym tx_conn_state = "tx_store \<times> nat \<times> nat set"

definition conn_inv :: "tx_conn_state \<Rightarrow> bool" where
  "conn_inv = (\<lambda>(h, c, S). tx_conn h c S)"

definition conn_member :: "tx_conn_state \<Rightarrow> nat \<Rightarrow> bool" where
  "conn_member = (\<lambda>(h, c, S) s. s \<in> S)"

definition conn_credit :: "tx_conn_state \<Rightarrow> nat \<Rightarrow> u64" where
  "conn_credit = (\<lambda>(h, c, S) s. ossl_quic_txfc_get_credit h s 0)"

definition conn_consume :: "tx_conn_state \<Rightarrow> nat \<Rightarrow> u64 \<Rightarrow> bool \<times> tx_conn_state" where
  "conn_consume = (\<lambda>(h, c, S) s n. let (ok, h') = ossl_quic_txfc_consume_credit h s n in (ok, h', c, S))"

definition conn_total :: "tx_conn_state \<Rightarrow> nat" where
  "conn_total = (\<lambda>(h, c, S). \<Sum>s \<in> S. unat (tx_swm (h s)))"

definition conn_limit :: "tx_conn_state \<Rightarrow> nat" where
  "conn_limit = (\<lambda>(h, c, S). unat (tx_cwm (h c)))"

lemmas conn_account_defs = conn_inv_def conn_member_def conn_credit_def conn_consume_def
  conn_total_def conn_limit_def

interpretation txa: credit_account conn_inv conn_member conn_credit conn_consume conn_total conn_limit
proof
  fix st :: tx_conn_state and i n
  obtain h c S where st: "st = (h, c, S)" by (cases st) auto
  assume inv: "conn_inv st" and i: "conn_member st i" and n: "n \<le> conn_credit st i"
  have sums: "tx_conn h c S \<Longrightarrow> conn_total (h, c, S) = unat (tx_swm (h c))" for h
    by (simp add: tx_conn_def conn_total_def)
  obtain h' where h': "ossl_quic_txfc_consume_credit h i n = (True, h')" "tx_conn h' c S"
    "unat (tx_swm (h' c)) = unat (tx_swm (h c)) + unat n" "tx_cwm (h' c) = tx_cwm (h c)"
    using consume_credit_conn [of h c S i n] inv i n st
    by (auto simp: conn_inv_def conn_member_def conn_credit_def)
  with sums [of h] sums [of h'] inv st
  show "\<exists>st'. conn_consume st i n = (True, st') \<and> conn_inv st' \<and> conn_member st' = conn_member st
      \<and> conn_total st' = conn_total st + unat n \<and> conn_limit st' = conn_limit st"
    by (intro exI [of _ "(h', c, S)"]) (auto simp: conn_inv_def conn_consume_def conn_limit_def conn_member_def)
next
  fix st :: tx_conn_state
  assume "conn_inv st"
  then show "conn_total st \<le> conn_limit st"
    by (auto simp: conn_account_defs tx_conn_def word_le_nat_alt split: prod.splits)
qed

section \<open>Reachable states\<close>

text \<open>
  The life of a connection's send controllers: streams are opened, the peer raises limits,
  data within the credit is sent, and the blocked flags are polled.
\<close>

inductive tx_reach :: "nat \<Rightarrow> tx_store \<Rightarrow> nat set \<Rightarrow> bool" for c where
  tx_start: "ossl_quic_txfc_init h c None = (True, h') \<Longrightarrow> tx_reach c h' {}"
| tx_open: "tx_reach c h S \<Longrightarrow> s \<notin> S \<Longrightarrow> s \<noteq> c \<Longrightarrow>
    ossl_quic_txfc_init h s (Some c) = (True, h') \<Longrightarrow> tx_reach c h' (insert s S)"
| tx_bump: "tx_reach c h S \<Longrightarrow> p \<in> insert c S \<Longrightarrow>
    ossl_quic_txfc_bump_cwm h p cwm = (ok, h') \<Longrightarrow> tx_reach c h' S"
| tx_send: "tx_reach c h S \<Longrightarrow> s \<in> S \<Longrightarrow> n \<le> ossl_quic_txfc_get_credit h s 0 \<Longrightarrow>
    ossl_quic_txfc_consume_credit h s n = (ok, h') \<Longrightarrow> tx_reach c h' S"
| tx_poll: "tx_reach c h S \<Longrightarrow> p \<in> insert c S \<Longrightarrow>
    ossl_quic_txfc_has_become_blocked h p clear = (b, h') \<Longrightarrow> tx_reach c h' S"

lemma tx_conn_upd:
  assumes conn: "tx_conn h c S" and p: "p \<in> insert c S"
    and t: "tx_parent t = tx_parent (h p)" "tx_swm t = tx_swm (h p)" "tx_cwm (h p) \<le> tx_cwm t"
  shows "tx_conn (h(p := t)) c S"
proof -
  have "(\<Sum>x \<in> S. unat (tx_swm ((h(p := t)) x))) = (\<Sum>x \<in> S. unat (tx_swm (h x)))"
    using t by (auto intro: sum.cong)
  moreover have "tx_swm (h p) \<le> tx_cwm t" using conn p t(3) unfolding tx_conn_def by fastforce
  ultimately show ?thesis using conn p t by (auto simp: tx_conn_def)
qed

lemma sum_store_fresh:
  fixes f :: "'a \<Rightarrow> nat"
  assumes "finite S" "s \<notin> S" "f r = 0"
  shows "(\<Sum>x \<in> insert s S. f ((h(s := r)) x)) = (\<Sum>x \<in> S. f (h x))"
  using assms sum_store_other [of s S f h r] by simp

lemma tx_reach_conn: "tx_reach c h S \<Longrightarrow> tx_conn h c S"
proof (induction rule: tx_reach.induct)
  case (tx_start h h')
  then show ?case by (auto simp: ossl_quic_txfc_init_def tx_conn_def)
next
  case (tx_open h S s h')
  from tx_open.hyps(4) tx_open.IH obtain t where
    h': "h' = h(s := t)" and t: "tx_parent t = Some c" "tx_swm t = 0" "tx_cwm t = 0"
    by (auto simp: ossl_quic_txfc_init_def tx_conn_def)
  have "finite S" using tx_open.IH by (simp add: tx_conn_def)
  from sum_store_fresh [OF this tx_open.hyps(2), of "\<lambda>t. unat (tx_swm t)" t h] t
  have "(\<Sum>x \<in> insert s S. unat (tx_swm (h' x))) = (\<Sum>x \<in> S. unat (tx_swm (h x)))" by (simp add: h')
  with tx_open.IH tx_open.hyps t show ?case by (simp add: tx_conn_def h')
next
  case (tx_bump h S p cwm ok h')
  then show ?case
    by (auto simp: ossl_quic_txfc_bump_cwm_def not_le intro!: tx_conn_upd split: if_splits)
next
  case (tx_send h S s n ok h')
  then show ?case using consume_credit_conn by fastforce
next
  case (tx_poll h S p clear b h')
  then show ?case
    by (auto simp: ossl_quic_txfc_has_become_blocked_def Let_def intro!: tx_conn_upd split: if_splits)
qed

text \<open>
  The life of the receive controllers while the peer keeps to its limits: streams are opened,
  frames arrive that fit both windows and agree with the final size, the application
  retires received bytes, and flags and errors are polled.
\<close>

definition rx_frame_fits :: "rx_store \<Rightarrow> nat \<Rightarrow> nat \<Rightarrow> u64 \<Rightarrow> bool \<Rightarrow> bool" where
  "rx_frame_fits h c s e is_fin \<longleftrightarrow> \<not> final_size_violation (h s) e is_fin \<and> e \<le> rx_cwm (h s)
     \<and> unat (rx_swm (h c)) + (unat e - unat (rx_hwm (h s))) \<le> unat (rx_cwm (h c))"

inductive rx_reach :: "nat \<Rightarrow> rx_store \<Rightarrow> nat set \<Rightarrow> bool" for c where
  rx_start: "ossl_quic_rxfc_init h c None w m = (True, h') \<Longrightarrow> rx_reach c h' {}"
| rx_open: "rx_reach c h S \<Longrightarrow> s \<notin> S \<Longrightarrow> s \<noteq> c \<Longrightarrow>
    ossl_quic_rxfc_init h s (Some c) w m = (True, h') \<Longrightarrow> rx_reach c h' (insert s S)"
| rx_frame: "rx_reach c h S \<Longrightarrow> s \<in> S \<Longrightarrow> rx_frame_fits h c s e is_fin \<Longrightarrow>
    ossl_quic_rxfc_on_rx_stream_frame h s e is_fin = (ok, h') \<Longrightarrow> rx_reach c h' S"
| rx_retire: "rx_reach c h S \<Longrightarrow> s \<in> S \<Longrightarrow> unat (rx_rwm (h s)) + unat n \<le> unat (rx_swm (h s)) \<Longrightarrow>
    ossl_quic_rxfc_on_retire now h s n rtt = (ok, h', now') \<Longrightarrow> rx_reach c h' S"
| rx_poll_cwm: "rx_reach c h S \<Longrightarrow> p \<in> insert c S \<Longrightarrow>
    ossl_quic_rxfc_has_cwm_changed h p clear = (b, h') \<Longrightarrow> rx_reach c h' S"
| rx_poll_error: "rx_reach c h S \<Longrightarrow> p \<in> insert c S \<Longrightarrow>
    ossl_quic_rxfc_get_error h p clear = (e, h') \<Longrightarrow> rx_reach c h' S"
| rx_set_max: "rx_reach c h S \<Longrightarrow> p \<in> insert c S \<Longrightarrow>
    rx_reach c (ossl_quic_rxfc_set_max_window_size h p m) S"

lemma rx_conn_upd_parent:
  assumes "rx_conn h c S"
    and "rx_parent r = rx_parent (h c)" "rx_swm r = rx_swm (h c)" "rx_rwm r = rx_rwm (h c)" "rx_cwm r = rx_cwm (h c)"
  shows "rx_conn (h(c := r)) c S"
  using assms sum_store_other [of c S "\<lambda>r. unat (rx_swm r)" h r] sum_store_other [of c S "\<lambda>r. unat (rx_rwm r)" h r]
  by (auto simp: rx_conn_def)

lemma rx_reach_conn: "rx_reach c h S \<Longrightarrow> rx_conn h c S \<and> (\<forall>p \<in> insert c S. error_code (h p) = 0)"
proof (induction rule: rx_reach.induct)
  case (rx_start h w m h')
  then show ?case by (auto simp: ossl_quic_rxfc_init_def rx_conn_def)
next
  case (rx_open h S s w m h')
  from rx_open.hyps(4) rx_open.IH obtain r where
    h': "h' = h(s := r)" and r: "rx_parent r = Some c" "rx_swm r = 0" "rx_rwm r = 0" "rx_hwm r = 0"
      "\<not> standalone r" "error_code r = 0"
    by (auto simp: ossl_quic_rxfc_init_def rx_conn_def)
  have fin: "finite S" using rx_open.IH by (simp add: rx_conn_def)
  from rx_open.IH have "(\<Sum>x \<in> S. unat (rx_swm (h x))) = unat (rx_swm (h' c))"
    "(\<Sum>x \<in> S. unat (rx_rwm (h x))) = unat (rx_rwm (h' c))"
    using rx_open.hyps(3) by (simp_all only: rx_conn_def h' fun_upd_other not_False_eq_True simp_thms)
  then have sums: "(\<Sum>x \<in> insert s S. unat (rx_swm (h' x))) = unat (rx_swm (h' c))"
    "(\<Sum>x \<in> insert s S. unat (rx_rwm (h' x))) = unat (rx_rwm (h' c))"
    using sum_store_fresh [OF fin rx_open.hyps(2), of "\<lambda>r. unat (rx_swm r)" r h]
      sum_store_fresh [OF fin rx_open.hyps(2), of "\<lambda>r. unat (rx_rwm r)" r h] r
    by (simp_all only: h' unat_0)
  have "rx_conn h' c (insert s S)"
    unfolding rx_conn_def
    by (intro conjI sums; insert rx_open.IH rx_open.hyps(2,3) fin r; auto simp: rx_conn_def h')
  moreover have "\<forall>p \<in> insert c (insert s S). error_code (h' p) = 0"
    using rx_open.IH r rx_open.hyps(3) by (simp add: h')
  ultimately show ?case by blast
next
  case (rx_frame h S s e is_fin ok h')
  then show ?case
    using rx_frame_accepted [of h c S s e is_fin] by (auto simp: rx_frame_fits_def)
next
  case (rx_retire h S s n now rtt ok h' now')
  then have "rx_conn h' c S" using rx_retire_ok [of h c S s n now rtt] by auto
  moreover have "error_code (h' p) = error_code (h p)" for p
    using rx_retire_errors [where h = h and s = s and n = n and now = now and rtt = rtt] rx_retire.hyps(4) by simp
  ultimately show ?case using rx_retire.IH by auto
next
  case (rx_poll_cwm h S p clear b h')
  then show ?case
    by (auto simp: ossl_quic_rxfc_has_cwm_changed_def Let_def intro!: rx_conn_upd rx_conn_upd_parent split: if_splits)
next
  case (rx_poll_error h S p clear e h')
  then show ?case
    by (auto simp: ossl_quic_rxfc_get_error_def Let_def intro!: rx_conn_upd rx_conn_upd_parent split: if_splits)
next
  case (rx_set_max h S p m)
  then have "rx_conn (ossl_quic_rxfc_set_max_window_size h p m) c S"
    unfolding ossl_quic_rxfc_set_max_window_size_def
    by (auto intro!: rx_conn_upd rx_conn_upd_parent simp del: fun_upd_apply)
  moreover have "error_code (ossl_quic_rxfc_set_max_window_size h p m q) = error_code (h q)" for q
    by (simp add: ossl_quic_rxfc_set_max_window_size_def)
  ultimately show ?case using rx_set_max.IH by simp
qed

section \<open>A connection at work\<close>

text \<open>Connection 0 may send 100 bytes and its stream 1 may send 50, of which 30 are gone.\<close>

definition tx_idle :: txfc where
  "tx_idle = \<lparr>tx_parent = None, tx_swm = 0, tx_cwm = 0, has_become_blocked = False\<rparr>"

definition tx_demo :: tx_store where
  "tx_demo = (\<lambda>_. tx_idle)(0 := tx_idle\<lparr>tx_swm := 30, tx_cwm := 100\<rparr>,
     1 := tx_idle\<lparr>tx_parent := Some 0, tx_swm := 30, tx_cwm := 50\<rparr>)"

lemma tx_demo_reach: "tx_reach 0 tx_demo {1}"
proof -
  let ?h0 = "\<lambda>_. tx_idle"
  let ?h1 = "?h0(0 := tx_idle\<lparr>tx_cwm := 100\<rparr>)"
  let ?h2 = "?h1(1 := tx_idle\<lparr>tx_parent := Some 0\<rparr>)"
  let ?h3 = "?h1(1 := tx_idle\<lparr>tx_parent := Some 0, tx_cwm := 50\<rparr>)"
  have "tx_reach 0 ?h0 {}"
    by (rule tx_start [of ?h0]) (auto simp: ossl_quic_txfc_init_def tx_idle_def)
  then have "tx_reach 0 ?h1 {}"
    by (rule tx_bump [of _ _ _ 0 100 True]) (auto simp: ossl_quic_txfc_bump_cwm_def tx_idle_def)
  then have "tx_reach 0 ?h2 {1}"
    by (rule tx_open [of _ _ _ 1]) (auto simp: ossl_quic_txfc_init_def tx_idle_def)
  then have "tx_reach 0 ?h3 {1}"
    by (rule tx_bump [of _ _ _ 1 50 True]) (auto simp: ossl_quic_txfc_bump_cwm_def tx_idle_def)
  then show ?thesis
    by (rule tx_send [of _ _ _ 1 30 True])
      (auto simp: tx_demo_def tx_idle_def get_credit_eq consume_credit_eq txfc_credit_def
        txfc_take_def min_def fun_upd_twist)
qed

text \<open>The receiving side of the same connection, which has granted the same credit.\<close>

definition rx_idle :: rxfc where
  "rx_idle = \<lparr>rx_cwm = 100, rx_swm = 0, rx_rwm = 0, rx_esrwm = 0, rx_hwm = 0, cur_window_size = 100,
     max_window_size = 1000, epoch_start = 0, rx_parent = None, error_code = 0,
     has_cwm_changed = False, rx_is_fin = False, standalone = False\<rparr>"

definition rx_demo :: rx_store where
  "rx_demo = (\<lambda>_. rx_idle)(0 := rx_idle\<lparr>rx_swm := 30\<rparr>,
     1 := rx_idle\<lparr>rx_parent := Some 0, rx_swm := 30, rx_hwm := 30, rx_cwm := 50, cur_window_size := 50\<rparr>)"

lemma rx_demo_reach: "rx_reach 0 rx_demo {1}"
proof -
  let ?h0 = "\<lambda>_. rx_idle"
  let ?h1 = "?h0(1 := rx_idle\<lparr>rx_parent := Some 0, rx_cwm := 50, cur_window_size := 50\<rparr>)"
  have "rx_reach 0 ?h0 {}"
    by (rule rx_start [of ?h0 _ 100 1000]) (auto simp: ossl_quic_rxfc_init_def rx_idle_def ossl_time_zero_def ossl_ticks2time_def)
  then have "rx_reach 0 ?h1 {1}"
    by (rule rx_open [of _ _ _ 1 50 1000]) (auto simp: ossl_quic_rxfc_init_def rx_idle_def ossl_time_zero_def ossl_ticks2time_def)
  then show ?thesis
    by (rule rx_frame [of _ _ _ 1 30 False True])
      (auto simp: rx_demo_def rx_idle_def rx_frame_fits_def final_size_violation_def Let_def
        ossl_quic_rxfc_on_rx_stream_frame_def on_rx_controlled_bytes_def fun_upd_twist)
qed

section \<open>Properties\<close>

text \<open>C12: However streams are opened, limits raised and data sent within the credit that
  \<^verbatim>\<open>ossl_quic_txfc_get_credit\<close> reports, no send controller ever exceeds its credit
  watermark, the connection has accounted for exactly the bytes its streams sent, and a
  request is granted exactly when it is within the reported credit, with the watermarks of
  both levels respected even when it is refused.\<close>

theorem tx_reach_within_limits:
  assumes "tx_reach c h S"
  shows "(\<forall>p \<in> insert c S. ossl_quic_txfc_get_swm h p \<le> ossl_quic_txfc_get_cwm h p)
    \<and> (\<Sum>s \<in> S. unat (ossl_quic_txfc_get_swm h s)) = unat (ossl_quic_txfc_get_swm h c)
    \<and> (\<forall>s \<in> S. \<forall>n. fst (ossl_quic_txfc_consume_credit h s n) \<longleftrightarrow> n \<le> ossl_quic_txfc_get_credit h s 0)
    \<and> (\<forall>s \<in> S. \<forall>n. \<forall>p \<in> insert c S. tx_swm (snd (ossl_quic_txfc_consume_credit h s n) p) \<le> tx_cwm (h p))"
proof -
  note conn = tx_reach_conn [OF assms]
  have "tx_cwm (snd (ossl_quic_txfc_consume_credit h s n) p) = tx_cwm (h p)" if "s \<in> S" for s n p
    using tx_connD [OF conn that] by (simp add: consume_credit_eq)
  with conn consume_credit_safe [OF conn] show ?thesis
    unfolding ossl_quic_txfc_get_swm_def ossl_quic_txfc_get_cwm_def tx_conn_def by metis
qed

theorem tx_reach_within_limits_witness:
  "tx_reach 0 tx_demo {1} \<and> fst (ossl_quic_txfc_consume_credit tx_demo 1 20)
    \<and> \<not> fst (ossl_quic_txfc_consume_credit tx_demo 1 21)"
proof -
  have "ossl_quic_txfc_get_credit tx_demo 1 0 = 20"
    by (simp add: tx_demo_def tx_idle_def ossl_quic_txfc_get_credit_def
        ossl_quic_txfc_get_credit_local_def Let_def)
  with tx_reach_within_limits [OF tx_demo_reach] tx_demo_reach show ?thesis by simp
qed

text \<open>C15: A sender that clamps each of its sends to the reported credit is never refused,
  sends exactly what it clamped to, and the streams of the connection together never send
  more than the connection's credit watermark allows.\<close>

theorem tx_sends_never_refused:
  assumes "tx_reach c h S" and "\<forall>(s, n) \<in> set sends. s \<in> S"
  shows "\<exists>k h'. send_all conn_credit conn_consume (h, c, S) sends = (True, k, h', c, S)
    \<and> (\<Sum>s \<in> S. unat (tx_swm (h' s))) = (\<Sum>s \<in> S. unat (tx_swm (h s))) + k
    \<and> (\<Sum>s \<in> S. unat (tx_swm (h' s))) \<le> unat (tx_cwm (h c))"
proof -
  have keep: "snd (snd (send_all conn_credit conn_consume (h, c, S) sends)) = (fst (snd (snd
      (send_all conn_credit conn_consume (h, c, S) sends))), c, S)" for h
  proof (induction sends arbitrary: h)
    case (Cons x sends)
    obtain s n where x: "x = (s, n)" by fastforce
    obtain ok h1 where 1: "conn_consume (h, c, S) s (min n (conn_credit (h, c, S) s)) = (ok, h1, c, S)"
      by (fastforce simp: conn_consume_def split_beta)
    show ?case using Cons.IH [of h1] by (simp add: x 1 split_beta)
  qed simp
  from txa.send_all_ok [of "(h, c, S)" sends] tx_reach_conn [OF assms(1)] assms(2)
  obtain k st where k: "send_all conn_credit conn_consume (h, c, S) sends = (True, k, st)"
    "conn_total st = conn_total (h, c, S) + k" "conn_total st \<le> conn_limit (h, c, S)"
    by (auto simp: conn_inv_def conn_member_def)
  moreover obtain h' where "st = (h', c, S)" using keep [of h] k(1) by auto
  ultimately show ?thesis by (simp add: conn_total_def conn_limit_def)
qed

theorem tx_sends_never_refused_witness:
  "tx_reach 0 tx_demo {1} \<and>
   (\<exists>h'. send_all conn_credit conn_consume (tx_demo, 0, {1}) [(1, 15), (1, 15)] = (True, 20, h', 0, {1}))"
proof -
  have "fst (snd (send_all conn_credit conn_consume (tx_demo, 0, {1}) [(1, 15), (1, 15)])) = 20"
    by (simp add: tx_demo_def tx_idle_def conn_credit_def conn_consume_def get_credit_eq
        consume_credit_eq txfc_credit_def txfc_take_def min_def)
  with tx_sends_never_refused [OF tx_demo_reach, of "[(1, 15), (1, 15)]"] tx_demo_reach
  show ?thesis by auto
qed

text \<open>C5: A peer that sends only what its send controllers grant, against watermarks no
  higher than those the receiver advertised, is never blamed: when the two sides agree on
  what was sent so far, the receiver takes the frame for the newly granted bytes without
  raising an error at either level, and both sides agree again afterwards.\<close>

theorem granted_send_is_accepted:
  assumes tx: "tx_reach c ht S" and rx: "rx_reach c hr S" and s: "s \<in> S"
    and lim: "\<forall>p \<in> insert c S. tx_cwm (ht p) \<le> rx_cwm (hr p)"
    and agree: "\<forall>p \<in> insert c S. tx_swm (ht p) = rx_swm (hr p)"
    and open_s: "\<not> rx_is_fin (hr s)" and n: "n \<le> ossl_quic_txfc_get_credit ht s 0"
  shows "\<exists>ht' hr'. ossl_quic_txfc_consume_credit ht s n = (True, ht')
    \<and> ossl_quic_rxfc_on_rx_stream_frame hr s (tx_swm (ht' s)) is_fin = (True, hr')
    \<and> (\<forall>p \<in> insert c S. error_code (hr' p) = 0)
    \<and> (\<forall>p \<in> insert c S. tx_cwm (ht' p) \<le> rx_cwm (hr' p))
    \<and> (\<forall>p \<in> insert c S. tx_swm (ht' p) = rx_swm (hr' p))"
proof -
  note t = tx_reach_conn [OF tx] and r = rx_reach_conn [OF rx]
  from r have rc: "rx_conn hr c S" by simp
  note td = tx_connD [OF t s] and rd = rx_connD [OF rc s]
  obtain ht' where ht': "ossl_quic_txfc_consume_credit ht s n = (True, ht')" "tx_conn ht' c S"
    "unat (tx_swm (ht' s)) = unat (tx_swm (ht s)) + unat n"
    "unat (tx_swm (ht' c)) = unat (tx_swm (ht c)) + unat n" "\<And>p. tx_cwm (ht' p) = tx_cwm (ht p)"
    using consume_credit_conn [OF t s n] by blast
  have others: "ht' p = ht p" if "p \<noteq> s" "p \<noteq> c" for p
    using ht'(1) that td by (auto simp: consume_credit_eq)
  have hwm: "rx_hwm (hr s) = tx_swm (ht s)" using agree s rd(4) by simp
  have up: "tx_swm (ht' s) \<le> tx_cwm (ht s)" "tx_swm (ht' c) \<le> tx_cwm (ht c)"
    using ht'(2,5) s by (auto simp: tx_conn_def)
  have fit: "tx_swm (ht' s) \<le> rx_cwm (hr s)" "tx_swm (ht' c) \<le> rx_cwm (hr c)"
    using up lim s by (auto intro: order_trans)
  have le: "\<not> tx_swm (ht' s) < rx_hwm (hr s)" using ht'(3) hwm by (simp add: word_less_nat_alt)
  then have nv: "\<not> final_size_violation (hr s) (tx_swm (ht' s)) is_fin"
    using open_s by (simp add: final_size_violation_def)
  have cn: "unat (tx_swm (ht' s)) - unat (rx_hwm (hr s)) + unat (rx_swm (hr c)) \<le> unat (rx_cwm (hr c))"
    using ht'(3,4) fit(2) hwm agree by (simp add: word_le_nat_alt)
  obtain hr' where hr': "ossl_quic_rxfc_on_rx_stream_frame hr s (tx_swm (ht' s)) is_fin = (True, hr')"
    "rx_conn hr' c S" "\<And>p. error_code (hr' p) = error_code (hr p)"
    "rx_hwm (hr' s) = max (rx_hwm (hr s)) (tx_swm (ht' s))" "\<And>p. rx_cwm (hr' p) = rx_cwm (hr p)"
    "\<And>p. p \<noteq> s \<Longrightarrow> p \<noteq> c \<Longrightarrow> hr' p = hr p"
    using rx_frame_accepted [OF rc s nv fit(1) cn] by blast
  have each: "tx_swm (ht' p) = rx_swm (hr' p)" if "p \<in> S" for p
  proof (cases "p = s")
    case True
    then show ?thesis using hr'(4) rx_connD(4) [OF hr'(2) s] le by (simp add: max_def not_less)
  next
    case False
    with that t have "p \<noteq> c" by (auto simp: tx_conn_def)
    with False that agree show ?thesis using others [of p] hr'(6) [of p] by simp
  qed
  then have "(\<Sum>p \<in> S. unat (tx_swm (ht' p))) = (\<Sum>p \<in> S. unat (rx_swm (hr' p)))"
    by (intro sum.cong) simp_all
  moreover have "(\<Sum>p \<in> S. unat (tx_swm (ht' p))) = unat (tx_swm (ht' c))"
    using ht'(2) unfolding tx_conn_def by blast
  moreover have "(\<Sum>p \<in> S. unat (rx_swm (hr' p))) = unat (rx_swm (hr' c))"
    using hr'(2) unfolding rx_conn_def by blast
  ultimately have "tx_swm (ht' c) = rx_swm (hr' c)" by (simp add: word_unat_eq_iff)
  with each ht'(1,5) hr'(1,3,5) r lim show ?thesis by auto
qed

theorem granted_send_is_accepted_witness:
  "\<exists>ht' hr'. ossl_quic_txfc_consume_credit tx_demo 1 20 = (True, ht')
    \<and> ossl_quic_rxfc_on_rx_stream_frame rx_demo 1 (tx_swm (ht' 1)) True = (True, hr')
    \<and> error_code (hr' 0) = 0 \<and> error_code (hr' 1) = 0"
proof -
  have "(20 :: u64) \<le> ossl_quic_txfc_get_credit tx_demo 1 0"
    by (simp add: tx_demo_def tx_idle_def get_credit_eq txfc_credit_def)
  then show ?thesis
    using granted_send_is_accepted [OF tx_demo_reach rx_demo_reach, of 1 20 True]
    by (fastforce simp: tx_demo_def tx_idle_def rx_demo_def rx_idle_def)
qed

text \<open>C9: The receiver detects exactly the violations of its peer: on a frame that contradicts
  the final size the stream raises FINAL_SIZE_ERROR; a frame that ends beyond the stream's
  window raises FLOW_CONTROL_ERROR on the stream; one that brings the connection's total
  beyond its window raises it on the connection; and no other frame raises an error.\<close>

theorem rx_frame_error_exact:
  assumes "rx_reach c h S" and "s \<in> S"
  shows "fst (ossl_quic_rxfc_on_rx_stream_frame h s e is_fin)
    \<and> error_code (snd (ossl_quic_rxfc_on_rx_stream_frame h s e is_fin) s) =
      (if final_size_violation (h s) e is_fin then OSSL_QUIC_ERR_FINAL_SIZE_ERROR
       else if e > rx_cwm (h s) then OSSL_QUIC_ERR_FLOW_CONTROL_ERROR else 0)
    \<and> error_code (snd (ossl_quic_rxfc_on_rx_stream_frame h s e is_fin) c) =
      (if \<not> final_size_violation (h s) e is_fin
          \<and> unat (rx_swm (h c)) + (unat e - unat (rx_hwm (h s))) > unat (rx_cwm (h c))
       then OSSL_QUIC_ERR_FLOW_CONTROL_ERROR else 0)"
proof -
  from rx_reach_conn [OF assms(1)] assms(2)
  have c: "rx_conn h c S" "error_code (h s) = 0" "error_code (h c) = 0" by auto
  have "fst (ossl_quic_rxfc_on_rx_stream_frame h s e is_fin)"
    using rx_connD [OF c(1) assms(2)] by (simp add: ossl_quic_rxfc_on_rx_stream_frame_def Let_def split_beta)
  with rx_frame_errors [OF c(1) assms(2) c(2,3), of e is_fin] show ?thesis by blast
qed

theorem rx_frame_error_exact_witness:
  "rx_reach 0 rx_demo {1}
   \<and> error_code (snd (ossl_quic_rxfc_on_rx_stream_frame rx_demo 1 51 False) 1) = OSSL_QUIC_ERR_FLOW_CONTROL_ERROR
   \<and> error_code (snd (ossl_quic_rxfc_on_rx_stream_frame rx_demo 1 29 True) 1) = OSSL_QUIC_ERR_FINAL_SIZE_ERROR"
  using rx_frame_error_exact [OF rx_demo_reach, of 1 51 False]
    rx_frame_error_exact [OF rx_demo_reach, of 1 29 True] rx_demo_reach
  by (simp add: rx_demo_def rx_idle_def final_size_violation_def)

text \<open>C14: While the peer keeps to its limits, what is consumed never exceeds what was
  received, which never exceeds the credit granted; retiring bytes that were received
  always succeeds, is booked at both levels, never takes back credit, and sets the flag
  for a window update exactly when the credit watermark moved.\<close>

theorem rx_retire_keeps_credit:
  assumes "rx_reach c h S" and "s \<in> S"
    and "unat (rx_rwm (h s)) + unat n \<le> unat (rx_swm (h s))"
  shows "\<exists>h' now'. ossl_quic_rxfc_on_retire now h s n rtt = (True, h', now')
    \<and> (\<forall>p \<in> insert c S. rx_rwm (h' p) \<le> rx_swm (h' p) \<and> rx_swm (h' p) \<le> rx_cwm (h' p))
    \<and> unat (rx_rwm (h' s)) = unat (rx_rwm (h s)) + unat n
    \<and> unat (rx_rwm (h' c)) = unat (rx_rwm (h c)) + unat n
    \<and> (\<forall>p. rx_cwm (h p) \<le> rx_cwm (h' p)
        \<and> (has_cwm_changed (h' p) \<longleftrightarrow> has_cwm_changed (h p) \<or> rx_cwm (h p) < rx_cwm (h' p)))"
proof -
  have c: "rx_conn h c S" using rx_reach_conn [OF assms(1)] by simp
  have bounds: "\<forall>p \<in> insert c S. rx_rwm (h' p) \<le> rx_swm (h' p) \<and> rx_swm (h' p) \<le> rx_cwm (h' p)"
    if "rx_conn h' c S" for h'
    using rx_conn_rwm_le [OF that] that unfolding rx_conn_def by blast
  from rx_retire_ok [OF c assms(2,3), of now rtt] bounds show ?thesis by blast
qed

theorem rx_retire_keeps_credit_witness:
  "\<exists>h' now'. ossl_quic_rxfc_on_retire (sconst 5) rx_demo 1 30 7 = (True, h', now')
    \<and> unat (rx_rwm (h' 1)) = 30 \<and> unat (rx_rwm (h' 0)) = 30"
  using rx_retire_keeps_credit [OF rx_demo_reach, of 1 30 "sconst 5" 7]
  by (fastforce simp: rx_demo_def rx_idle_def)

text \<open>C21: Whatever the clock reads and whatever the round-trip time, retiring bytes either
  leaves a receive controller's credit watermark alone or sets it to at most the maximum
  window size beyond the bytes consumed.\<close>

theorem rx_window_bounded:
  "rx_cwm (fst (rxfc_on_retire now r n m rtt)) = rx_cwm r
   \<or> (\<exists>w \<le> max_window_size r. rx_cwm (fst (rxfc_on_retire now r n m rtt)) = rx_rwm r + n + w)"
proof -
  obtain r1 now1 where e: "rxfc_start_epoch now r = (r1, now1)" by fastforce
  with rxfc_start_epoch_simps [of now r] have "rx_cwm r1 = rx_cwm r" "rx_rwm r1 = rx_rwm r"
    "max_window_size r1 = max_window_size r" by simp_all
  with e show ?thesis
    using rxfc_update_cwm_limit [of now1 "r1\<lparr>rx_rwm := rx_rwm r1 + n\<rparr>" m rtt]
      rxfc_update_cwm_limit [of now "r\<lparr>rx_rwm := rx_rwm r + n\<rparr>" m rtt]
    by (simp add: rxfc_on_retire_eq)
qed

end
