(* ===== verification/RingBuf.thy ===== *)
theory RingBuf
  imports SafeMath
begin

text \<open>
  The ring buffer of \<^verbatim>\<open>include/internal/ring_buf.h\<close>, which holds the bytes of a stream
  between two logical offsets. Offsets are 64-bit words; sizes (\<^verbatim>\<open>size_t\<close>) are natural numbers. A pointer into the
  buffer is the memory from there to the end of the buffer. \<^verbatim>\<open>OPENSSL_malloc\<close> is
  a parameter that gives fresh memory of a size, with any contents, or fails.
\<close>

section \<open>Model\<close>

record ring_buf =
  rb_start :: "u8 list"
  rb_alloc :: nat
  head_offset :: u64
  ctail_offset :: u64

definition MAX_OFFSET :: u64 where
  "MAX_OFFSET = push_bit 62 1"

definition ring_buf_init :: ring_buf where
  "ring_buf_init = \<lparr>rb_start = [], rb_alloc = 0, head_offset = 0, ctail_offset = 0\<rparr>"

definition ring_buf_destroy :: "ring_buf \<Rightarrow> ring_buf" where
  "ring_buf_destroy r = r\<lparr>rb_start := [], rb_alloc := 0\<rparr>"

definition ring_buf_used :: "ring_buf \<Rightarrow> nat" where
  "ring_buf_used r = unat (head_offset r - ctail_offset r)"

definition ring_buf_avail :: "ring_buf \<Rightarrow> nat" where
  "ring_buf_avail r = rb_alloc r - ring_buf_used r"

primrec write_at_loop :: "nat \<Rightarrow> ring_buf \<Rightarrow> u64 \<Rightarrow> u8 list \<Rightarrow> nat \<Rightarrow> ring_buf" where
  "write_at_loop 0 r logical_offset buf buf_len = r"
| "write_at_loop (Suc i) r logical_offset buf buf_len =
     (if buf_len = 0 then r
      else
        let idx = unat logical_offset mod rb_alloc r;
            l = rb_alloc r - idx;
            l = (if buf_len < l then buf_len else l);
            r = r\<lparr>rb_start := overwrite (rb_start r) idx (take l buf)\<rparr>;
            r = (if head_offset r < logical_offset + of_nat l then r\<lparr>head_offset := logical_offset + of_nat l\<rparr> else r)
        in write_at_loop i r (logical_offset + of_nat l) (drop l buf) (buf_len - l))"

definition ring_buf_write_at :: "ring_buf \<Rightarrow> u64 \<Rightarrow> u8 list \<Rightarrow> nat \<Rightarrow> bool \<times> ring_buf" where
  "ring_buf_write_at r logical_offset buf buf_len =
     (let avail = ring_buf_avail r;
          (end, err) = safe_add logical_offset (of_nat buf_len) False;
          (limit, err) = safe_add (head_offset r) (of_nat avail) err;
          (end', err) = safe_add (head_offset r) (of_nat buf_len) err
      in if logical_offset < ctail_offset r \<or> end > limit \<or> end' > MAX_OFFSET \<or> err then (False, r)
         else (True, write_at_loop 2 r logical_offset buf buf_len))"

text \<open>The loop of \<open>ring_buf_push\<close> ends because every round but the last copies at least one byte.\<close>

function ring_buf_push :: "ring_buf \<Rightarrow> u8 list \<Rightarrow> nat \<Rightarrow> nat \<times> ring_buf" where
  "ring_buf_push r buf buf_len =
     (let avail = ring_buf_avail r;
          buf_len = (if buf_len > avail then avail else buf_len);
          buf_len = (if buf_len > unat (MAX_OFFSET - head_offset r) then unat (MAX_OFFSET - head_offset r) else buf_len)
      in if buf_len = 0 then (0, r)
         else
           let idx = unat (head_offset r) mod rb_alloc r;
               l = rb_alloc r - idx;
               l = (if buf_len < l then buf_len else l);
               (pushed, r) = ring_buf_push (r\<lparr>rb_start := overwrite (rb_start r) idx (take l buf), head_offset := head_offset r + of_nat l\<rparr>)
                               (drop l buf) (buf_len - l)
           in (l + pushed, r))"
  by pat_completeness auto

termination
proof (relation "measure (\<lambda>(r, buf, n). n)", goal_cases)
  case (2 r buf n avail n1 n2 idx l l2)
  have n: "n2 \<le> n" "n2 \<le> rb_alloc r" "n2 \<noteq> 0" using 2(1-4) by (auto simp: ring_buf_avail_def split: if_splits)
  then have "idx < rb_alloc r" using 2(5) by simp
  then have "0 < l2" using 2(6,7) n(3) by (simp split: if_splits)
  then show ?case using n by simp
qed simp

declare ring_buf_push.simps [simp del]

definition ring_buf_get_ptr :: "ring_buf \<Rightarrow> u64 \<Rightarrow> (u8 list \<times> nat) option" where
  "ring_buf_get_ptr r logical_offset =
     (if logical_offset \<ge> head_offset r \<or> logical_offset < ctail_offset r then None
      else
        let idx = unat logical_offset mod rb_alloc r
        in Some (drop idx (rb_start r), rb_alloc r - idx))"

text \<open>The pointer is \<open>None\<close> where the code sets it to null; the result is \<open>None\<close> where it returns 0.\<close>

definition ring_buf_get_buf_at :: "ring_buf \<Rightarrow> u64 \<Rightarrow> (u8 list option \<times> nat) option" where
  "ring_buf_get_buf_at r logical_offset =
     (if logical_offset > head_offset r \<or> logical_offset < ctail_offset r then None
      else if rb_alloc r = 0 then Some (None, 0)
      else
        let idx = unat logical_offset mod rb_alloc r;
            l = unat (head_offset r - logical_offset);
            l = (if l > rb_alloc r - idx then rb_alloc r - idx else l)
        in Some (Some (drop idx (rb_start r)), l))"

definition cleanse_range :: "ring_buf \<Rightarrow> u64 \<Rightarrow> ring_buf" where
  "cleanse_range r end =
     (let idx = unat (ctail_offset r) mod rb_alloc r;
          cleanse_end = (if end + 1 > head_offset r then head_offset r else end + 1);
          l = unat (cleanse_end - ctail_offset r);
          (r, l, idx) = (if l > rb_alloc r - idx
                         then (r\<lparr>rb_start := overwrite (rb_start r) idx (replicate (rb_alloc r - idx) 0)\<rparr>, l - (rb_alloc r - idx), 0)
                         else (r, l, idx))
      in if l > 0 then r\<lparr>rb_start := overwrite (rb_start r) idx (replicate l 0)\<rparr> else r)"

definition ring_buf_cpop_range :: "ring_buf \<Rightarrow> u64 \<Rightarrow> u64 \<Rightarrow> bool \<Rightarrow> ring_buf" where
  "ring_buf_cpop_range r start end cleanse =
     (if start > ctail_offset r \<or> end \<ge> MAX_OFFSET then r
      else
        let r = (if cleanse \<and> rb_alloc r > 0 \<and> end > ctail_offset r then cleanse_range r end else r);
            r = r\<lparr>ctail_offset := end + 1\<rparr>
        in if head_offset r < ctail_offset r then r\<lparr>head_offset := ctail_offset r\<rparr> else r)"

text \<open>
  The loop that copies the contents of one buffer to another; \<open>None\<close> where it does not end,
  \<open>Some None\<close> where the function frees the new buffer and fails.
\<close>

partial_function (option) resize_loop :: "ring_buf \<Rightarrow> ring_buf \<Rightarrow> nat \<Rightarrow> ring_buf option option" where
  "resize_loop r rnew copied =
     (case ring_buf_get_buf_at r (ctail_offset r + of_nat copied) of
        None \<Rightarrow> Some None
      | Some (src, src_len) \<Rightarrow>
          if src_len = 0 then Some (Some rnew)
          else
            let (pushed, rnew) = ring_buf_push rnew (case src of None \<Rightarrow> [] | Some s \<Rightarrow> s) src_len
            in if pushed \<noteq> src_len then Some None else resize_loop r rnew (copied + src_len))"

declare resize_loop.simps [code]

definition ring_buf_resize :: "(nat \<Rightarrow> u8 list option) \<Rightarrow> ring_buf \<Rightarrow> nat \<Rightarrow> (bool \<times> ring_buf) option" where
  "ring_buf_resize malloc r num_bytes =
     (if num_bytes = rb_alloc r then Some (True, r)
      else if num_bytes < ring_buf_used r then Some (False, r)
      else
        case malloc num_bytes of None \<Rightarrow> Some (False, r)
        | Some mem \<Rightarrow>
            let off = head_offset r - of_nat (ring_buf_used r)
            in case resize_loop r \<lparr>rb_start = mem, rb_alloc = num_bytes, head_offset = off, ctail_offset = off\<rparr> 0 of
                 None \<Rightarrow> None
               | Some None \<Rightarrow> Some (False, r)
               | Some (Some rnew) \<Rightarrow> Some (True, rnew\<lparr>ctail_offset := ctail_offset r\<rparr>))"

section \<open>Contents of a ring buffer\<close>

text \<open>
  The invariant, the byte kept for a logical offset, and the contents: the bytes between the two
  offsets.
\<close>

definition rb_inv :: "ring_buf \<Rightarrow> bool" where
  "rb_inv r \<longleftrightarrow> length (rb_start r) = rb_alloc r \<and> rb_alloc r \<le> SIZE_MAX \<and> unat (ctail_offset r) \<le> unat (head_offset r)
     \<and> unat (head_offset r) \<le> unat (ctail_offset r) + rb_alloc r \<and> unat (head_offset r) \<le> 2 ^ 62"

definition rb_byte :: "ring_buf \<Rightarrow> nat \<Rightarrow> u8" where
  "rb_byte r i = rb_start r ! (i mod rb_alloc r)"

definition rb_view :: "ring_buf \<Rightarrow> nat \<rightharpoonup> u8" where
  "rb_view r i = (if unat (ctail_offset r) \<le> i \<and> i < unat (head_offset r) then Some (rb_byte r i) else None)"

lemma mod_window: "x < y \<Longrightarrow> y < x + a \<Longrightarrow> x mod a \<noteq> y mod (a :: nat)"
proof
  assume "x < y" "y < x + a" "x mod a = y mod a"
  then have "a dvd y - x" by (metis mod_eq_dvd_iff_nat less_imp_le)
  then show False using \<open>x < y\<close> \<open>y < x + a\<close> by (auto dest: dvd_imp_le)
qed

lemma mod_add_within: "i mod a + k < a \<Longrightarrow> (i + k) mod a = i mod a + (k :: nat)"
  by (metis mod_add_left_eq mod_less)

lemma overwrite_byte:
  assumes "length mem = a" "0 < a" "length bs \<le> a - i mod a" "j < i + a" "i + length bs \<le> j + a"
  shows "overwrite mem (i mod a) bs ! (j mod a) = (if i \<le> j \<and> j < i + length bs then bs ! (j - i) else mem ! (j mod a))"
proof (cases "i \<le> j \<and> j < i + length bs")
  case True
  then obtain k where k: "j = i + k" "k < length bs" by (metis le_Suc_ex nat_add_left_cancel_less)
  then have "i mod a + k < a" using assms(2,3) mod_less_divisor [of a i] by linarith
  then have "j mod a = i mod a + k" unfolding k(1) by (rule mod_add_within)
  then show ?thesis using k assms(1,2) by (simp add: overwrite_def nth_append less_imp_le)
next
  case False
  have "j mod a \<noteq> i mod a + k" if "k < length bs" for k
  proof
    assume e: "j mod a = i mod a + k"
    have "i mod a + k < a" using that assms(2,3) mod_less_divisor [of a i] by linarith
    then have "(i + k) mod a = j mod a" unfolding e by (rule mod_add_within)
    moreover have "i + k \<noteq> j" using False that by auto
    ultimately show False using mod_window [of "i + k" j a] mod_window [of j "i + k" a] that assms(4,5) by (cases "i + k < j") auto
  qed
  then have "j mod a < i mod a \<or> i mod a + length bs \<le> j mod a"
    by (metis le_Suc_ex nat_add_left_cancel_less not_le)
  moreover have "j mod a < a" using assms(2) by simp
  ultimately show ?thesis using assms(1) False less_imp_le [OF mod_less_divisor [OF assms(2), of i]] by (auto simp: overwrite_def nth_append)
qed

text \<open>Copying a chunk that does not wrap around, seen from a window of logical offsets no longer than the buffer.\<close>

lemma chunk_byte:
  assumes "length (rb_start r) = rb_alloc r" "length bs \<le> rb_alloc r - i mod rb_alloc r" "0 < length bs"
    "rb_start r' = overwrite (rb_start r) (i mod rb_alloc r) bs" "rb_alloc r' = rb_alloc r"
    "c \<le> i" "i + length bs \<le> c + rb_alloc r" "c \<le> j" "j < c + rb_alloc r"
  shows "rb_byte r' j = (if i \<le> j \<and> j < i + length bs then bs ! (j - i) else rb_byte r j)" "length (rb_start r') = rb_alloc r"
proof -
  have a: "0 < rb_alloc r" using assms(2,3) by linarith
  show "rb_byte r' j = (if i \<le> j \<and> j < i + length bs then bs ! (j - i) else rb_byte r j)"
    unfolding rb_byte_def assms(4,5) by (rule overwrite_byte [OF assms(1) a assms(2)]) (use assms(6-9) in linarith)+
  show "length (rb_start r') = rb_alloc r"
    using length_overwrite [of "i mod rb_alloc r" bs "rb_start r"] assms(1,2,4) mod_less_divisor [OF a, of i] by simp
qed

lemma unat_offset: "unat (x :: u64) + n \<le> 2 ^ 63 \<Longrightarrow> unat (x + of_nat n) = unat x + n"
  by (simp add: unat_add_exact unat_of_nat_u64)

lemma write_at_loop_correct:
  assumes "length (rb_start r) = rb_alloc r" "n = 0 \<or> n \<le> (rb_alloc r - unat off mod rb_alloc r) + (k - 1) * rb_alloc r \<and> 0 < k"
    "n \<le> length buf" "c \<le> unat off" "unat off + n \<le> c + rb_alloc r" "unat off + n \<le> 2 ^ 63" "0 < rb_alloc r"
  shows "(\<forall>j. c \<le> j \<longrightarrow> j < c + rb_alloc r \<longrightarrow>
      rb_byte (write_at_loop k r off buf n) j = (if unat off \<le> j \<and> j < unat off + n then buf ! (j - unat off) else rb_byte r j))
    \<and> length (rb_start (write_at_loop k r off buf n)) = rb_alloc r \<and> rb_alloc (write_at_loop k r off buf n) = rb_alloc r
    \<and> ctail_offset (write_at_loop k r off buf n) = ctail_offset r
    \<and> unat (head_offset (write_at_loop k r off buf n)) = (if n = 0 then unat (head_offset r) else max (unat (head_offset r)) (unat off + n))"
  using assms
proof (induction k arbitrary: r off buf n)
  case 0
  then show ?case by auto
next
  case (Suc k)
  show ?case
  proof (cases "n = 0")
    case True
    then show ?thesis using Suc.prems by auto
  next
    case False
    let ?a = "rb_alloc r" and ?idx = "unat off mod rb_alloc r"
    define l where "l = (if n < ?a - ?idx then n else ?a - ?idx)"
    define r1 where "r1 = r\<lparr>rb_start := overwrite (rb_start r) ?idx (take l buf)\<rparr>"
    define r2 where "r2 = (if head_offset r1 < off + of_nat l then r1\<lparr>head_offset := off + of_nat l\<rparr> else r1)"
    have l: "0 < l" "l \<le> n" "l \<le> ?a - ?idx" using False Suc.prems(7) mod_less_divisor [OF Suc.prems(7), of "unat off"] by (auto simp: l_def)
    have step: "write_at_loop (Suc k) r off buf n = write_at_loop k r2 (off + of_nat l) (drop l buf) (n - l)"
      using False by (simp add: l_def [symmetric] r1_def r2_def Let_def)
    have off: "unat (off + of_nat l) = unat off + l" using Suc.prems(6) l(2) by (intro unat_offset) simp
    have r2: "rb_start r2 = overwrite (rb_start r) ?idx (take l buf)" "rb_alloc r2 = ?a" "ctail_offset r2 = ctail_offset r"
      "unat (head_offset r2) = max (unat (head_offset r)) (unat off + l)"
      using off by (auto simp: r2_def r1_def word_less_nat_alt max_def)
    have lt: "length (take l buf) = l" using l Suc.prems(3) by simp
    note ch = chunk_byte [OF Suc.prems(1) _ _ r2(1,2) Suc.prems(4), unfolded lt, OF l(3,1)]
    have w: "unat off + l \<le> c + ?a" using Suc.prems(5) l(2) by simp
    have nx: "n - l = 0 \<or> n - l \<le> (?a - unat (off + of_nat l) mod ?a) + (k - 1) * ?a \<and> 0 < k"
    proof (cases "n < ?a - ?idx")
      case False
      then have la: "l = ?a - ?idx" by (simp add: l_def)
      have "(unat off + l) mod ?a = 0" using mod_less_divisor [OF Suc.prems(7), of "unat off"]
        by (metis la add_diff_cancel_left' le_add_diff_inverse less_imp_le mod_add_left_eq mod_self)
      then show ?thesis using Suc.prems(2) la off by (cases k) (auto simp: algebra_simps)
    qed (simp add: l_def)
    have "length (rb_start r2) = rb_alloc r2" using ch(2) [OF w, of c] Suc.prems(7) r2(2) by simp
    note IH = Suc.IH [of r2 "n - l" "off + of_nat l" "drop l buf", unfolded r2(2,3,4) off, OF this [unfolded r2(2)] nx [unfolded off]]
    have IH': "(\<forall>j. c \<le> j \<longrightarrow> j < c + ?a \<longrightarrow> rb_byte (write_at_loop k r2 (off + of_nat l) (drop l buf) (n - l)) j =
        (if unat off + l \<le> j \<and> j < unat off + l + (n - l) then drop l buf ! (j - (unat off + l)) else rb_byte r2 j))"
      "length (rb_start (write_at_loop k r2 (off + of_nat l) (drop l buf) (n - l))) = ?a"
      "rb_alloc (write_at_loop k r2 (off + of_nat l) (drop l buf) (n - l)) = ?a"
      "ctail_offset (write_at_loop k r2 (off + of_nat l) (drop l buf) (n - l)) = ctail_offset r"
      "unat (head_offset (write_at_loop k r2 (off + of_nat l) (drop l buf) (n - l)))
        = (if n - l = 0 then max (unat (head_offset r)) (unat off + l) else max (max (unat (head_offset r)) (unat off + l)) (unat off + l + (n - l)))"
      using IH Suc.prems l by simp_all
    show ?thesis unfolding step using IH' ch(1) [OF w] l Suc.prems(3) False by (auto simp: nth_append)
  qed
qed


lemma rb_inv_window: "rb_inv r \<Longrightarrow> unat (ctail_offset r) \<le> unat (head_offset r)"
  "rb_inv r \<Longrightarrow> unat (head_offset r) \<le> unat (ctail_offset r) + rb_alloc r" "rb_inv r \<Longrightarrow> unat (head_offset r) \<le> 4611686018427387904"
  "rb_inv r \<Longrightarrow> length (rb_start r) = rb_alloc r" "rb_inv r \<Longrightarrow> rb_alloc r \<le> SIZE_MAX"
  by (simp_all add: rb_inv_def)

lemma ring_buf_used_eq: "rb_inv r \<Longrightarrow> ring_buf_used r = unat (head_offset r) - unat (ctail_offset r)"
  by (simp add: ring_buf_used_def rb_inv_def unat_sub_exact word_le_nat_alt)

lemma unat_MAX_OFFSET [simp]: "unat MAX_OFFSET = 4611686018427387904"
  by (simp add: MAX_OFFSET_def)

lemma write_at_guard:
  assumes "rb_inv r" "n \<le> SIZE_MAX" "fst (ring_buf_write_at r off buf n)"
  shows "unat (ctail_offset r) \<le> unat off" "unat off + n \<le> unat (ctail_offset r) + rb_alloc r"
    "ring_buf_write_at r off buf n = (True, write_at_loop 2 r off buf n)"
proof -
  let ?av = "ring_buf_avail r"
  note w = rb_inv_window [OF assms(1)]
  have av: "?av + unat (head_offset r) = unat (ctail_offset r) + rb_alloc r" "?av \<le> SIZE_MAX"
    using w by (simp_all add: ring_buf_avail_def ring_buf_used_eq [OF assms(1)])
  have u: "unat (of_nat n :: u64) = n" "unat (of_nat ?av :: u64) = ?av" using assms(2) av(2) by (simp_all add: unat_of_nat_u64)
  have g: "\<not> off < ctail_offset r" "\<not> off + of_nat n > head_offset r + of_nat ?av" "unat off + n \<le> SIZE_MAX" "unat (head_offset r) + ?av \<le> SIZE_MAX"
    using assms(3) by (auto simp: ring_buf_write_at_def Let_def safe_add_def builtin_add_overflow_def u split: if_splits)
  show "ring_buf_write_at r off buf n = (True, write_at_loop 2 r off buf n)"
    using assms(3) by (auto simp: ring_buf_write_at_def Let_def safe_add_def split: if_splits)
  show "unat (ctail_offset r) \<le> unat off" using g(1) by (simp add: word_less_nat_alt not_less)
  have "unat (off + of_nat n) = unat off + n" "unat (head_offset r + of_nat ?av) = unat (head_offset r) + ?av"
    using g(3,4) u by (simp_all add: unat_add_exact)
  then show "unat off + n \<le> unat (ctail_offset r) + rb_alloc r"
    using g(2) av(1) by (simp add: word_less_nat_alt not_less)
qed

lemma write_at_failed: "ring_buf_write_at r off buf n = (False, r') \<Longrightarrow> r' = r"
  by (auto simp: ring_buf_write_at_def Let_def safe_add_def split: if_splits)

lemma write_at_correct:
  assumes inv: "rb_inv r" and w: "ring_buf_write_at r off buf n = (True, r')" and n: "n \<le> length buf" "unat off + n \<le> 2 ^ 62"
  shows "rb_inv r'" "rb_alloc r' = rb_alloc r" "ctail_offset r' = ctail_offset r"
    "unat (head_offset r') = (if n = 0 then unat (head_offset r) else max (unat (head_offset r)) (unat off + n))"
    "unat off \<le> j \<Longrightarrow> j < unat off + n \<Longrightarrow> rb_view r' j = Some (buf ! (j - unat off))"
    "\<not> (unat off \<le> j \<and> j < unat off + n) \<Longrightarrow> j < unat (head_offset r) \<Longrightarrow> rb_view r' j = rb_view r j"
proof -
  note g = write_at_guard [OF inv, of n off buf]
  have n': "n \<le> SIZE_MAX" using n(2) by simp
  have c: "unat (ctail_offset r) \<le> unat off" "unat off + n \<le> unat (ctail_offset r) + rb_alloc r" "r' = write_at_loop 2 r off buf n"
    using g n' w by simp_all
  note i = rb_inv_window [OF inv]
  have all: "rb_inv r' \<and> rb_alloc r' = rb_alloc r \<and> ctail_offset r' = ctail_offset r
    \<and> unat (head_offset r') = (if n = 0 then unat (head_offset r) else max (unat (head_offset r)) (unat off + n))
    \<and> (\<forall>j. unat (ctail_offset r) \<le> j \<longrightarrow> j < unat (ctail_offset r) + rb_alloc r \<longrightarrow>
         rb_byte r' j = (if unat off \<le> j \<and> j < unat off + n then buf ! (j - unat off) else rb_byte r j))"
  proof (cases "rb_alloc r = 0")
    case True
    then have "n = 0" using c by simp
    then show ?thesis using c(3) inv by (auto simp: numeral_2_eq_2)
  next
    case False
    have e: "n = 0 \<or> n \<le> (rb_alloc r - unat off mod rb_alloc r) + (2 - 1) * rb_alloc r \<and> 0 < (2 :: nat)" using c by simp
    have b: "unat off + n \<le> 2 ^ 63" using n(2) by simp
    note wl = write_at_loop_correct [OF i(4) e n(1) c(1,2) b, folded c(3)]
    then show ?thesis using False i c n(2) by (auto simp: rb_inv_def)
  qed
  then show "rb_inv r'" "rb_alloc r' = rb_alloc r" "ctail_offset r' = ctail_offset r"
    "unat (head_offset r') = (if n = 0 then unat (head_offset r) else max (unat (head_offset r)) (unat off + n))" by simp_all
  show "unat off \<le> j \<Longrightarrow> j < unat off + n \<Longrightarrow> rb_view r' j = Some (buf ! (j - unat off))"
    using all c(1,2) by (auto simp: rb_view_def)
  show "\<not> (unat off \<le> j \<and> j < unat off + n) \<Longrightarrow> j < unat (head_offset r) \<Longrightarrow> rb_view r' j = rb_view r j"
    using all c(1,2) i(2) by (auto simp: rb_view_def)
qed

lemma contiguous_byte:
  assumes "length (rb_start r) = rb_alloc r" "k < rb_alloc r - i mod rb_alloc r"
  shows "drop (i mod rb_alloc r) (rb_start r) ! k = rb_byte r (i + k)"
proof -
  have "i mod rb_alloc r + k < rb_alloc r" using assms(2) by simp
  then show ?thesis using assms(1) by (simp add: rb_byte_def mod_add_within)
qed

lemma get_ptr_correct:
  assumes inv: "rb_inv r"
  shows "ring_buf_get_ptr r off = None \<longleftrightarrow> rb_view r (unat off) = None"
    "ring_buf_get_ptr r off = Some (mem, len) \<Longrightarrow> length mem = len \<and> 0 < len \<and> len = rb_alloc r - unat off mod rb_alloc r
      \<and> (\<forall>k < len. unat off + k < unat (head_offset r) \<longrightarrow> rb_view r (unat off + k) = Some (mem ! k))"
proof -
  note w = rb_inv_window [OF inv]
  show "ring_buf_get_ptr r off = None \<longleftrightarrow> rb_view r (unat off) = None"
    by (auto simp: ring_buf_get_ptr_def rb_view_def Let_def word_le_nat_alt word_less_nat_alt)
  assume "ring_buf_get_ptr r off = Some (mem, len)"
  then have g: "unat (ctail_offset r) \<le> unat off" "unat off < unat (head_offset r)"
    "mem = drop (unat off mod rb_alloc r) (rb_start r)" "len = rb_alloc r - unat off mod rb_alloc r"
    by (auto simp: ring_buf_get_ptr_def Let_def word_le_nat_alt word_less_nat_alt split: if_splits)
  have a: "0 < rb_alloc r" using g(1,2) w(2) by linarith
  show "length mem = len \<and> 0 < len \<and> len = rb_alloc r - unat off mod rb_alloc r
      \<and> (\<forall>k < len. unat off + k < unat (head_offset r) \<longrightarrow> rb_view r (unat off + k) = Some (mem ! k))"
    using g w(4) a contiguous_byte [OF w(4)] by (auto simp: rb_view_def)
qed

lemma get_buf_at_correct:
  assumes inv: "rb_inv r"
  shows "ring_buf_get_buf_at r off = None \<longleftrightarrow> \<not> (unat (ctail_offset r) \<le> unat off \<and> unat off \<le> unat (head_offset r))"
    "ring_buf_get_buf_at r off = Some (src, len) \<Longrightarrow> (len = 0 \<longleftrightarrow> off = head_offset r) \<and> unat off + len \<le> unat (head_offset r)
      \<and> (\<forall>k < len. rb_view r (unat off + k) = Some (the src ! k)) \<and> (len \<noteq> 0 \<longrightarrow> src \<noteq> None \<and> len \<le> length (the src))
      \<and> (unat off + len < unat (head_offset r) \<longrightarrow> (unat off + len) mod rb_alloc r = 0)"
proof -
  note w = rb_inv_window [OF inv]
  show "ring_buf_get_buf_at r off = None \<longleftrightarrow> \<not> (unat (ctail_offset r) \<le> unat off \<and> unat off \<le> unat (head_offset r))"
    by (auto simp: ring_buf_get_buf_at_def Let_def word_le_nat_alt word_less_nat_alt)
  assume g: "ring_buf_get_buf_at r off = Some (src, len)"
  then have o: "unat (ctail_offset r) \<le> unat off" "unat off \<le> unat (head_offset r)"
    by (auto simp: ring_buf_get_buf_at_def Let_def word_le_nat_alt word_less_nat_alt split: if_splits)
  have eq: "off = head_offset r \<longleftrightarrow> unat off = unat (head_offset r)" by (simp add: word_unat_eq_iff)
  show "(len = 0 \<longleftrightarrow> off = head_offset r) \<and> unat off + len \<le> unat (head_offset r)
      \<and> (\<forall>k < len. rb_view r (unat off + k) = Some (the src ! k)) \<and> (len \<noteq> 0 \<longrightarrow> src \<noteq> None \<and> len \<le> length (the src))
      \<and> (unat off + len < unat (head_offset r) \<longrightarrow> (unat off + len) mod rb_alloc r = 0)"
  proof (cases "rb_alloc r = 0")
    case True
    then have "len = 0" using g by (auto simp: ring_buf_get_buf_at_def split: if_splits)
    then show ?thesis using True o w(2) eq by auto
  next
    case False
    let ?i = "unat off mod rb_alloc r" and ?n = "unat (head_offset r) - unat off"
    have n: "unat (head_offset r - off) = ?n" using o(2) by (simp add: unat_sub_exact word_le_nat_alt)
    have s: "src = Some (drop ?i (rb_start r))" "len = (if ?n > rb_alloc r - ?i then rb_alloc r - ?i else ?n)"
      using g o False by (auto simp: ring_buf_get_buf_at_def Let_def n split: if_splits)
    have i: "?i < rb_alloc r" using False by simp
    have m: "(unat off + (rb_alloc r - ?i)) mod rb_alloc r = 0"
      using i by (metis add_diff_cancel_left' le_add_diff_inverse less_imp_le mod_add_left_eq mod_self)
    have "len \<le> rb_alloc r - ?i" "len \<le> ?n" "len \<noteq> 0 \<longleftrightarrow> ?n \<noteq> 0" "unat off + len < unat (head_offset r) \<longrightarrow> len = rb_alloc r - ?i"
      using s(2) i by auto
    then show ?thesis using s(1) contiguous_byte [OF w(4)] w(4) o m eq by (auto simp: rb_view_def)
  qed
qed


lemma push_correct:
  assumes "rb_inv r" "n \<le> length buf" "ring_buf_push r buf n = (pushed, r')"
  shows "pushed = min n (min (rb_alloc r - (unat (head_offset r) - unat (ctail_offset r))) (4611686018427387904 - unat (head_offset r)))
    \<and> rb_inv r' \<and> rb_alloc r' = rb_alloc r \<and> ctail_offset r' = ctail_offset r \<and> unat (head_offset r') = unat (head_offset r) + pushed
    \<and> (\<forall>j. unat (ctail_offset r) \<le> j \<longrightarrow> j < unat (ctail_offset r) + rb_alloc r \<longrightarrow>
         rb_byte r' j = (if unat (head_offset r) \<le> j \<and> j < unat (head_offset r) + pushed then buf ! (j - unat (head_offset r)) else rb_byte r j))"
  using assms
proof (induction n arbitrary: r buf pushed r' rule: less_induct)
  case (less n)
  let ?h = "unat (head_offset r)" and ?c = "unat (ctail_offset r)" and ?a = "rb_alloc r"
  note w = rb_inv_window [OF less(2)]
  define m where "m = min n (min (?a - (?h - ?c)) (4611686018427387904 - ?h))"
  have room: "unat (MAX_OFFSET - head_offset r) = 4611686018427387904 - ?h"
    using w(3) by (simp add: unat_sub_exact word_le_nat_alt)
  have m: "(let b = if n > ring_buf_avail r then ring_buf_avail r else n
      in if b > unat (MAX_OFFSET - head_offset r) then unat (MAX_OFFSET - head_offset r) else b) = m"
    unfolding room by (simp add: m_def ring_buf_avail_def ring_buf_used_eq [OF less(2)] min_def Let_def)
  show ?case
  proof (cases "m = 0")
    case True
    then have "pushed = 0" "r' = r" using less(4) unfolding ring_buf_push.simps [of r buf n] m [unfolded Let_def] Let_def by simp_all
    then show ?thesis using True less(2) unfolding m_def by auto
  next
    case False
    let ?idx = "?h mod ?a"
    define l where "l = (if m < ?a - ?idx then m else ?a - ?idx)"
    define r1 where "r1 = r\<lparr>rb_start := overwrite (rb_start r) ?idx (take l buf), head_offset := head_offset r + of_nat l\<rparr>"
    obtain pushed1 where p: "ring_buf_push r1 (drop l buf) (m - l) = (pushed1, r')" "pushed = l + pushed1"
      using less(4) False unfolding ring_buf_push.simps [of r buf n] m [unfolded Let_def] Let_def
      by (auto simp: r1_def l_def split: prod.splits)
    have ma: "m \<le> ?a - (?h - ?c)" "m \<le> 4611686018427387904 - ?h" "m \<le> n" by (simp_all add: m_def)
    then have a: "0 < ?a" using False by linarith
    then have l: "0 < l" "l \<le> m" "l \<le> ?a - ?idx" using False mod_less_divisor [OF a, of ?h] by (auto simp: l_def)
    have h1: "unat (head_offset r + of_nat l) = ?h + l" using w(3) l(2) ma(2) by (intro unat_offset) simp
    have r1: "rb_start r1 = overwrite (rb_start r) ?idx (take l buf)" "rb_alloc r1 = ?a" "ctail_offset r1 = ctail_offset r" "unat (head_offset r1) = ?h + l"
      using h1 by (simp_all add: r1_def)
    have lt: "length (take l buf) = l" using l ma(3) less(3) by simp
    have hc: "?h + l \<le> ?c + ?a" using l(2) ma(1) w(1,2) by linarith
    note ch = chunk_byte [OF w(4) _ _ r1(1,2) w(1), unfolded lt, OF l(3,1) hc]
    have inv1: "rb_inv r1" using w ch(2) [of ?c] r1 hc a ma(2) l(2) by (simp add: rb_inv_def)
    have len: "m - l \<le> length (drop l buf)" using ma(3) less(3) by simp
    have IH: "pushed1 = min (m - l) (min (?a - (?h + l - ?c)) (4611686018427387904 - (?h + l))) \<and> rb_inv r' \<and> rb_alloc r' = ?a
      \<and> ctail_offset r' = ctail_offset r \<and> unat (head_offset r') = ?h + l + pushed1
      \<and> (\<forall>j. ?c \<le> j \<longrightarrow> j < ?c + ?a \<longrightarrow>
         rb_byte r' j = (if ?h + l \<le> j \<and> j < ?h + l + pushed1 then drop l buf ! (j - (?h + l)) else rb_byte r1 j))"
      using less(1) [OF _ inv1 len p(1), unfolded r1] l ma(3) by simp
    have "m - l \<le> ?a - (?h + l - ?c)" "m - l \<le> 4611686018427387904 - (?h + l)" using ma l(2) w(1) by linarith+
    then have "pushed1 = m - l" using IH by simp
    then show ?thesis using IH p(2) l ch(1) less(3) ma(3) unfolding m_def [symmetric] by auto
  qed
qed


lemma mod_wrap: "0 < a \<Longrightarrow> (i + (a - i mod a)) mod a = (0 :: nat)"
  by (metis le_add_diff_inverse less_imp_le mod_add_left_eq mod_less_divisor mod_self)

lemma cleanse_keeps:
  assumes inv: "rb_inv r" and a: "0 < rb_alloc r" and le: "unat (ctail_offset r) \<le> unat end" "unat end < 2 ^ 62"
  shows "rb_alloc (cleanse_range r end) = rb_alloc r" "head_offset (cleanse_range r end) = head_offset r"
    "ctail_offset (cleanse_range r end) = ctail_offset r" "length (rb_start (cleanse_range r end)) = rb_alloc r"
    "unat end < j \<Longrightarrow> j < unat (head_offset r) \<Longrightarrow> rb_byte (cleanse_range r end) j = rb_byte r j"
proof -
  let ?c = "unat (ctail_offset r)" and ?h = "unat (head_offset r)" and ?a = "rb_alloc r"
  let ?idx = "?c mod ?a"
  note w = rb_inv_window [OF inv]
  define ce where "ce = (if end + 1 > head_offset r then head_offset r else end + 1)"
  define l where "l = unat (ce - ctail_offset r)"
  have e: "unat (end + 1) = unat end + 1" using le(2) by (simp add: unat_add_exact)
  have ce: "unat ce = min ?h (unat end + 1)" using e by (auto simp: ce_def word_less_nat_alt)
  have l: "l = unat ce - ?c" using ce le(1) w(1) by (simp add: l_def unat_sub_exact word_le_nat_alt)
  define r1 where "r1 = (if l > ?a - ?idx then r\<lparr>rb_start := overwrite (rb_start r) ?idx (replicate (?a - ?idx) 0)\<rparr> else r)"
  define l1 where "l1 = (if l > ?a - ?idx then l - (?a - ?idx) else l)"
  define c1 where "c1 = (if l > ?a - ?idx then ?c + (?a - ?idx) else ?c)"
  have i: "?idx < ?a" using a by simp
  have cr: "cleanse_range r end = (if l1 > 0 then r1\<lparr>rb_start := overwrite (rb_start r1) (c1 mod ?a) (replicate l1 0)\<rparr> else r1)"
    unfolding cleanse_range_def Let_def ce_def [symmetric] l_def [symmetric] by (simp add: r1_def l1_def c1_def mod_wrap [OF a])
  have lc: "?c + l \<le> ?c + ?a" using l ce w(2) by simp
  have r1: "rb_alloc r1 = ?a" "head_offset r1 = head_offset r" "ctail_offset r1 = ctail_offset r" by (simp_all add: r1_def)
  have b1: "length (rb_start r1) = ?a \<and> (\<forall>j. unat end < j \<longrightarrow> j < ?h \<longrightarrow> rb_byte r1 j = rb_byte r j)"
  proof (cases "l > ?a - ?idx")
    case True
    have "rb_start r1 = overwrite (rb_start r) ?idx (replicate (?a - ?idx) 0)" using True by (simp add: r1_def)
    note ch = chunk_byte [OF w(4) _ _ this r1(1), of ?c, simplified, OF i]
    then show ?thesis using ch(2) [of ?c] ch(1) True l ce w(2) a i by auto
  qed (use w(4) in \<open>simp add: r1_def\<close>)
  show "rb_alloc (cleanse_range r end) = ?a" "head_offset (cleanse_range r end) = head_offset r" "ctail_offset (cleanse_range r end) = ctail_offset r"
    using r1 by (simp_all add: cr)
  have b2: "length (rb_start (cleanse_range r end)) = ?a \<and> (\<forall>j. unat end < j \<longrightarrow> j < ?h \<longrightarrow> rb_byte (cleanse_range r end) j = rb_byte r1 j)"
  proof (cases "l1 > 0")
    case True
    have st: "rb_start (cleanse_range r end) = overwrite (rb_start r1) (c1 mod rb_alloc r1) (replicate l1 0)" "rb_alloc (cleanse_range r end) = rb_alloc r1"
      using True r1 by (simp_all add: cr)
    have "l1 \<le> ?a - c1 mod ?a" "?c \<le> c1" "c1 + l1 \<le> ?c + ?a" "c1 + l1 = ?c + l"
    proof -
      have la: "l \<le> ?a" using lc by simp
      have "l1 \<le> ?a - c1 mod ?a \<and> ?c \<le> c1 \<and> c1 + l1 \<le> ?c + ?a \<and> c1 + l1 = ?c + l"
      proof (cases "l > ?a - ?idx")
        case True
        then have "c1 mod ?a = 0" "l1 = l - (?a - ?idx)" "c1 = ?c + (?a - ?idx)" by (simp_all only: c1_def l1_def mod_wrap [OF a] if_True)
        then show ?thesis using la i True by linarith
      next
        case False
        then have "c1 = ?c" "l1 = l" by (simp_all only: c1_def l1_def if_False)
        then show ?thesis using la False by simp
      qed
      then show "l1 \<le> ?a - c1 mod ?a" "?c \<le> c1" "c1 + l1 \<le> ?c + ?a" "c1 + l1 = ?c + l" by simp_all
    qed
    then show ?thesis using chunk_byte [OF _ _ _ st, of ?c] b1 r1 True a l ce w(2) by auto
  qed (use b1 in \<open>simp add: cr\<close>)
  then show "length (rb_start (cleanse_range r end)) = ?a"
    "unat end < j \<Longrightarrow> j < unat (head_offset r) \<Longrightarrow> rb_byte (cleanse_range r end) j = rb_byte r j" using b1 by auto
qed

lemma cpop_correct:
  assumes inv: "rb_inv r" and e: "unat (ctail_offset r) \<le> unat end + 1" and c: "start \<le> ctail_offset r" "unat end < 2 ^ 62"
  shows "rb_inv (ring_buf_cpop_range r start end cleanse)" "rb_alloc (ring_buf_cpop_range r start end cleanse) = rb_alloc r"
    "unat (ctail_offset (ring_buf_cpop_range r start end cleanse)) = unat end + 1"
    "unat (head_offset (ring_buf_cpop_range r start end cleanse)) = max (unat (head_offset r)) (unat end + 1)"
    "rb_view (ring_buf_cpop_range r start end cleanse) j = (if unat end < j then rb_view r j else None)"
proof -
  note w = rb_inv_window [OF inv]
  define r1 where "r1 = (if cleanse \<and> rb_alloc r > 0 \<and> end > ctail_offset r then cleanse_range r end else r)"
  have r1: "rb_alloc r1 = rb_alloc r" "head_offset r1 = head_offset r" "ctail_offset r1 = ctail_offset r" "length (rb_start r1) = rb_alloc r"
    "unat end < j \<Longrightarrow> j < unat (head_offset r) \<Longrightarrow> rb_byte r1 j = rb_byte r j" for j
    using cleanse_keeps [OF inv _ _ c(2)] w(4) by (auto simp: r1_def word_less_nat_alt)
  have g: "\<not> (start > ctail_offset r \<or> end \<ge> MAX_OFFSET)" using c by (simp add: not_le word_less_nat_alt not_less word_le_nat_alt)
  have u: "unat (end + 1) = unat end + 1" using c(2) by (simp add: unat_add_exact)
  define r' where "r' = ring_buf_cpop_range r start end cleanse"
  have r': "r' = (if head_offset r < end + 1 then r1\<lparr>ctail_offset := end + 1, head_offset := end + 1\<rparr> else r1\<lparr>ctail_offset := end + 1\<rparr>)"
    unfolding r'_def ring_buf_cpop_range_def if_not_P [OF g] Let_def r1_def [symmetric] using r1 by simp
  show "rb_inv (ring_buf_cpop_range r start end cleanse)" "rb_alloc (ring_buf_cpop_range r start end cleanse) = rb_alloc r"
    "unat (ctail_offset (ring_buf_cpop_range r start end cleanse)) = unat end + 1"
    "unat (head_offset (ring_buf_cpop_range r start end cleanse)) = max (unat (head_offset r)) (unat end + 1)"
    unfolding r'_def [symmetric] using w e c(2) r1 by (auto simp: r' rb_inv_def u word_less_nat_alt)
  show "rb_view (ring_buf_cpop_range r start end cleanse) j = (if unat end < j then rb_view r j else None)"
    unfolding r'_def [symmetric] using r1 e by (auto simp: r' rb_view_def rb_byte_def u word_less_nat_alt)
qed

lemma resize_loop_correct:
  assumes inv: "rb_inv r" and new: "rb_inv rnew" "unat (head_offset r) - unat (ctail_offset r) \<le> rb_alloc rnew"
      "ctail_offset rnew = ctail_offset r" "unat (head_offset rnew) = unat (ctail_offset r) + copied"
    and le: "unat (ctail_offset r) + copied \<le> unat (head_offset r)"
    and view: "\<forall>j < unat (ctail_offset r) + copied. rb_view rnew j = rb_view r j"
  shows "\<exists>r'. resize_loop r rnew copied = Some (Some r') \<and> rb_inv r' \<and> rb_alloc r' = rb_alloc rnew \<and> ctail_offset r' = ctail_offset r
    \<and> head_offset r' = head_offset r \<and> rb_view r' = rb_view r"
  using new le view
proof (induction "unat (head_offset r) - (unat (ctail_offset r) + copied)" arbitrary: rnew copied rule: less_induct)
  case less
  let ?c = "unat (ctail_offset r)" and ?h = "unat (head_offset r)"
  note w = rb_inv_window [OF inv]
  let ?off = "ctail_offset r + of_nat copied"
  have off: "unat ?off = ?c + copied" using less.prems(5) w(3) by (intro unat_offset) simp
  have "ring_buf_get_buf_at r ?off \<noteq> None" using get_buf_at_correct(1) [OF inv, of ?off] off less.prems(5) by simp
  then obtain src len where g: "ring_buf_get_buf_at r ?off = Some (src, len)" by auto
  note b = get_buf_at_correct(2) [OF inv g, unfolded off]
  show ?case
  proof (cases "len = 0")
    case True
    then have h: "?off = head_offset r" "?h = ?c + copied" using b off by auto
    have "head_offset rnew = head_offset r" using less.prems(4) h by (simp add: word_unat_eq_iff)
    moreover have "rb_view rnew = rb_view r"
    proof
      fix j
      show "rb_view rnew j = rb_view r j" using less.prems(4,6) h(2) by (cases "j < ?c + copied") (auto simp: rb_view_def)
    qed
    ultimately show ?thesis using True less.prems by (subst resize_loop.simps) (simp add: g)
  next
    case False
    then obtain bs where bs: "src = Some bs" "len \<le> length bs" "\<forall>k < len. rb_view r (?c + copied + k) = Some (bs ! k)" using b by auto
    obtain pushed r1 where p: "ring_buf_push rnew bs len = (pushed, r1)" by fastforce
    note pc = push_correct [OF less.prems(1) bs(2) p, unfolded less.prems(3,4)]
    have len: "?c + copied + len \<le> ?h" using b by simp
    have "len \<le> rb_alloc rnew - copied" "len \<le> 4611686018427387904 - (?c + copied)" using len less.prems(2) w(3) by linarith+
    then have pl: "pushed = len" using pc by simp
    have v: "\<forall>j < ?c + (copied + len). rb_view r1 j = rb_view r j"
    proof (intro allI impI)
      fix j
      assume j: "j < ?c + (copied + len)"
      have "rb_byte r1 j = (if ?c + copied \<le> j then bs ! (j - (?c + copied)) else rb_byte rnew j)" if "?c \<le> j"
        using pc pl that j len less.prems(2) by auto
      then show "rb_view r1 j = rb_view r j"
        using less.prems(3,4,6) bs(3) j pc pl len
        by (cases "j < ?c + copied") (auto simp: rb_view_def dest: spec [of _ j] spec [of _ "j - (?c + copied)"])
    qed
    have "?h - (?c + (copied + len)) < ?h - (?c + copied)" using len False by simp
    note IH = less.hyps [OF this, of r1]
    then have "\<exists>r'. resize_loop r r1 (copied + len) = Some (Some r') \<and> rb_inv r' \<and> rb_alloc r' = rb_alloc rnew \<and> ctail_offset r' = ctail_offset r
        \<and> head_offset r' = head_offset r \<and> rb_view r' = rb_view r"
      using pc pl less.prems(2) len v by simp
    moreover have "resize_loop r rnew copied = resize_loop r r1 (copied + len)"
      using False pl by (subst resize_loop.simps) (simp add: g bs(1) p)
    ultimately show ?thesis by simp
  qed
qed


lemma resize_correct:
  assumes inv: "rb_inv r" and malloc: "\<And>k mem. malloc k = Some mem \<Longrightarrow> length mem = k" and n: "n \<le> SIZE_MAX"
  shows "\<exists>r'. ring_buf_resize malloc r n = Some (n = rb_alloc r \<or> ring_buf_used r \<le> n \<and> malloc n \<noteq> None, r')
    \<and> rb_inv r' \<and> rb_view r' = rb_view r \<and> head_offset r' = head_offset r \<and> ctail_offset r' = ctail_offset r
    \<and> rb_alloc r' = (if n = rb_alloc r \<or> ring_buf_used r \<le> n \<and> malloc n \<noteq> None then n else rb_alloc r)"
proof (cases "n = rb_alloc r \<or> n < ring_buf_used r \<or> malloc n = None")
  case True
  then show ?thesis using inv by (auto simp: ring_buf_resize_def Let_def split: option.splits)
next
  case False
  then obtain mem where m: "malloc n = Some mem" by auto
  note w = rb_inv_window [OF inv]
  let ?new = "\<lparr>rb_start = mem, rb_alloc = n, head_offset = ctail_offset r, ctail_offset = ctail_offset r\<rparr>"
  have used: "head_offset r - of_nat (ring_buf_used r) = ctail_offset r" by (simp add: ring_buf_used_def)
  have "rb_inv ?new" using w n malloc [OF m] by (simp add: rb_inv_def)
  then obtain r' where r': "resize_loop r ?new 0 = Some (Some r')" "rb_inv r'" "rb_alloc r' = n" "ctail_offset r' = ctail_offset r"
      "head_offset r' = head_offset r" "rb_view r' = rb_view r"
    using resize_loop_correct [OF inv, of ?new 0] False w(1) by (auto simp: ring_buf_used_eq [OF inv] rb_view_def)
  have "r'\<lparr>ctail_offset := ctail_offset r\<rparr> = r'" using r'(4) by (cases r') simp
  then have "ring_buf_resize malloc r n = Some (True, r')"
    unfolding ring_buf_resize_def using False m r'(1) by (simp add: Let_def used)
  then show ?thesis using False r'(2-6) by (intro exI [of _ r']) auto
qed

section \<open>Properties\<close>

text \<open>C13: Resizing a ring buffer always returns: the loop that copies the contents chunk by chunk ends,
  for every state of the buffer and every new size. It succeeds exactly if the size is unchanged or has room for what is
  stored and memory can be had, and in every case the offsets and every byte
  stored are as before, wherever the contents wrap around in the old and the new buffer.
\<close>

theorem ring_buf_resize_total:
  assumes "rb_inv r" "\<forall>k mem. malloc k = Some mem \<longrightarrow> length mem = k" "n \<le> SIZE_MAX"
  shows "\<exists>r'. ring_buf_resize malloc r n = Some (n = rb_alloc r \<or> ring_buf_used r \<le> n \<and> malloc n \<noteq> None, r')
    \<and> rb_inv r' \<and> rb_view r' = rb_view r \<and> head_offset r' = head_offset r \<and> ctail_offset r' = ctail_offset r
    \<and> rb_alloc r' = (if n = rb_alloc r \<or> ring_buf_used r \<le> n \<and> malloc n \<noteq> None then n else rb_alloc r)"
  using resize_correct [OF assms(1) _ assms(3), of malloc] assms(2) by blast

theorem ring_buf_resize_total_witness:
  "let r = \<lparr>rb_start = [5, 6, 3, 4], rb_alloc = 4, head_offset = 10, ctail_offset = 6\<rparr> in
    rb_inv r \<and> (\<exists>r'. ring_buf_resize (\<lambda>k. Some (replicate k 0)) r 5 = Some (True, r') \<and> rb_alloc r' = 5 \<and> rb_view r' 9 = Some 6)"
proof -
  let ?r = "\<lparr>rb_start = [5, 6, 3, 4], rb_alloc = 4, head_offset = 10, ctail_offset = 6\<rparr> :: ring_buf"
  have "rb_inv ?r" by (simp add: rb_inv_def)
  moreover have "ring_buf_used ?r = 4" "rb_view ?r 9 = Some 6" by (simp_all add: ring_buf_used_def rb_view_def rb_byte_def)
  ultimately show ?thesis using ring_buf_resize_total [of ?r "\<lambda>k. Some (replicate k 0)" 5] by auto
qed

end
