(* ===== verification/UintSet.thy ===== *)
theory UintSet
  imports Prelude
begin

text \<open>
  The integer sets of \<^verbatim>\<open>ssl/quic/uint_set.c\<close>: a set of 64-bit integers kept as an
  ascending doubly linked list of inclusive ranges. The list is a HOL list of ranges; the
  backward walks of the code carry the part of the list at and before the current item in
  reverse order (so that \<open>prev\<close> is the next list cell) and the part after it in order. The
  outcome of \<^verbatim>\<open>OPENSSL_malloc\<close>, which each operation calls at most once, is the
  parameter \<open>alloc\<close>. A failed \<^verbatim>\<open>assert\<close> or a null pointer access is the value
  \<open>None\<close>.
\<close>

section \<open>Model\<close>

record uint_range =
  rstart :: u64
  rend :: u64

type_synonym uint_set = "uint_range list"

definition ossl_uint_set_init :: uint_set where
  "ossl_uint_set_init = []"

definition u64_min :: "u64 \<Rightarrow> u64 \<Rightarrow> u64" where
  "u64_min x y = (if x < y then x else y)"

definition u64_max :: "u64 \<Rightarrow> u64 \<Rightarrow> u64" where
  "u64_max x y = (if x > y then x else y)"

definition uint_range_overlaps :: "uint_range \<Rightarrow> uint_range \<Rightarrow> bool" where
  "uint_range_overlaps a b \<longleftrightarrow> u64_min (rend a) (rend b) \<ge> u64_max (rstart a) (rstart b)"

definition create_set_item :: "bool \<Rightarrow> u64 \<Rightarrow> u64 \<Rightarrow> uint_range option" where
  "create_set_item alloc start end =
     (if alloc then Some \<lparr>rstart = start, rend = end\<rparr> else None)"

text \<open>Possible merge of \<open>x\<close> and its predecessor, the head of the reversed prefix.\<close>

fun uint_set_merge_adjacent ::
  "uint_range list \<Rightarrow> uint_range \<Rightarrow> uint_range list \<times> uint_range" where
  "uint_set_merge_adjacent [] x = ([], x)"
| "uint_set_merge_adjacent (xprev # bs) x =
     (if rstart x - 1 \<noteq> rend xprev then (xprev # bs, x)
      else (bs, x\<lparr>rstart := rstart xprev\<rparr>))"

text \<open>The inner loop that looks for the earliest overlapping range.\<close>

fun earliest_overlap ::
  "uint_range \<Rightarrow> uint_range \<Rightarrow> uint_range list \<Rightarrow> uint_range \<times> uint_range list" where
  "earliest_overlap rng z [] = (z, [])"
| "earliest_overlap rng z (zprev # bs) =
     (if uint_range_overlaps zprev rng then earliest_overlap rng zprev bs
      else (z, zprev # bs))"

fun insert_walk ::
  "bool \<Rightarrow> uint_range \<Rightarrow> uint_range list \<Rightarrow> uint_range list \<Rightarrow> bool \<times> uint_set" where
  "insert_walk alloc rng [] after = (True, after)"
| "insert_walk alloc rng (z # bs) after =
     (if rstart z \<le> rstart rng \<and> rend z \<ge> rend rng then (True, rev bs @ z # after)
      else if uint_range_overlaps z rng then
        let ovend_end = u64_max (rend rng) (rend z);
            (e, bs') = earliest_overlap rng z bs;
            ovend = \<lparr>rstart = u64_min (rstart rng) (rstart e), rend = ovend_end\<rparr>
        in (True, rev bs' @ ovend # after)
      else if rend rng < rstart z
          \<and> (case bs of [] \<Rightarrow> True | zprev # _ \<Rightarrow> rstart rng > rend zprev) then
        (if rstart z = rend rng + 1 then
           let (bs', z') = uint_set_merge_adjacent bs (z\<lparr>rstart := rstart rng\<rparr>)
           in (True, rev bs' @ z' # after)
         else
           case bs of
             zprev # ps \<Rightarrow>
               if rend zprev + 1 = rstart rng then
                 let (bs', z') = uint_set_merge_adjacent (zprev\<lparr>rend := rend rng\<rparr> # ps) z
                 in (True, rev bs' @ z' # after)
               else
                 (case create_set_item alloc (rstart rng) (rend rng) of
                    None \<Rightarrow> (False, rev bs @ z # after)
                  | Some x \<Rightarrow> (True, rev bs @ x # z # after))
           | [] \<Rightarrow>
               (case create_set_item alloc (rstart rng) (rend rng) of
                  None \<Rightarrow> (False, rev bs @ z # after)
                | Some x \<Rightarrow> (True, rev bs @ x # z # after)))
      else insert_walk alloc rng bs (z # after))"

definition ossl_uint_set_insert :: "bool \<Rightarrow> uint_set \<Rightarrow> uint_range \<Rightarrow> bool \<times> uint_set" where
  "ossl_uint_set_insert alloc s rng =
     (if \<not> rstart rng \<le> rend rng then (False, s)
      else if s = [] then
        (case create_set_item alloc (rstart rng) (rend rng) of
           None \<Rightarrow> (False, s)
         | Some x \<Rightarrow> (True, [x]))
      else
        let z = last s in
        if rstart rng > rend z then
          (if rend z + 1 = rstart rng then (True, butlast s @ [z\<lparr>rend := rend rng\<rparr>])
           else
             case create_set_item alloc (rstart rng) (rend rng) of
               None \<Rightarrow> (False, s)
             | Some x \<Rightarrow> (True, s @ [x]))
        else
          let f = hd s in
          if rstart rng \<le> rstart f \<and> rend rng \<ge> rend z then
            (True, [f\<lparr>rstart := rstart rng, rend := rend rng\<rparr>])
          else if rend rng < rstart f then insert_walk alloc rng [f] (tl s)
          else insert_walk alloc rng (rev s) [])"

fun remove_walk ::
  "bool \<Rightarrow> uint_range \<Rightarrow> uint_range list \<Rightarrow> uint_range list \<Rightarrow> uint_set option" where
  "remove_walk alloc rng [] after = Some after"
| "remove_walk alloc rng (z # bs) after =
     (if rstart rng > rend z then Some (rev bs @ z # after)
      else if rstart rng \<le> rstart z \<and> rend rng \<ge> rend z then
        remove_walk alloc rng bs after
      else if rstart rng \<le> rstart z \<and> rend rng \<ge> rstart z then
        (if rend rng < rend z then
           remove_walk alloc rng bs (z\<lparr>rstart := rend rng + 1\<rparr> # after)
         else None)
      else if rend rng \<ge> rend z then
        (if rstart rng > rstart z \<and> rstart rng > 0 then
           Some (rev bs @ z\<lparr>rend := rstart rng - 1\<rparr> # after)
         else None)
      else if rstart rng > rstart z \<and> rend rng < rend z then
        (case create_set_item alloc (rend rng + 1) (rend z) of
           None \<Rightarrow> None
         | Some y \<Rightarrow> Some (rev bs @ z\<lparr>rend := rstart rng - 1\<rparr> # y # after))
      else if \<not> uint_range_overlaps z rng then remove_walk alloc rng bs (z # after)
      else None)"

definition ossl_uint_set_remove ::
  "bool \<Rightarrow> uint_set \<Rightarrow> uint_range \<Rightarrow> (bool \<times> uint_set) option" where
  "ossl_uint_set_remove alloc s rng =
     (if \<not> rstart rng \<le> rend rng then Some (False, s)
      else map_option (Pair True) (remove_walk alloc rng (rev s) []))"

fun query_walk :: "uint_range list \<Rightarrow> u64 \<Rightarrow> bool" where
  "query_walk [] v = False"
| "query_walk (x # bs) v =
     (if rstart x \<le> v \<and> rend x \<ge> v then True
      else if rend x < v then False
      else query_walk bs v)"

definition ossl_uint_set_query :: "uint_set \<Rightarrow> u64 \<Rightarrow> bool" where
  "ossl_uint_set_query s v = (if s = [] then False else query_walk (rev s) v)"

section \<open>Abstraction and invariants\<close>

text \<open>
  The set of integers a list of ranges stands for; the representation invariant (no empty
  range, ascending, no overlap); and the stronger documented invariant that no two
  neighbouring ranges border one another.
\<close>

definition range_set :: "uint_range \<Rightarrow> u64 set" where
  "range_set r = {rstart r..rend r}"

definition uset :: "uint_set \<Rightarrow> u64 set" where
  "uset s = (\<Union>x \<in> set s. range_set x)"

definition uset_inv :: "uint_set \<Rightarrow> bool" where
  "uset_inv s \<longleftrightarrow>
     (\<forall>x \<in> set s. rstart x \<le> rend x) \<and> sorted_wrt (\<lambda>a b. rend a < rstart b) s"

definition uset_separated :: "uint_set \<Rightarrow> bool" where
  "uset_separated s \<longleftrightarrow> sorted_wrt (\<lambda>a b. rend a + 1 \<noteq> rstart b) s"

section \<open>Lemmas\<close>

lemma u64_min_max [simp]: "u64_min x y = min x y" "u64_max x y = max x y"
  by (auto simp: u64_min_def u64_max_def min_def max_def)

lemma create_set_item_simps [simp]:
  "create_set_item True a b = Some \<lparr>rstart = a, rend = b\<rparr>"
  "create_set_item False a b = None"
  by (simp_all add: create_set_item_def)

lemma overlaps_iff:
  "uint_range_overlaps a b \<longleftrightarrow> max (rstart a) (rstart b) \<le> min (rend a) (rend b)"
  by (simp add: uint_range_overlaps_def)

lemma uset_Nil [simp]: "uset [] = {}" and
  uset_Cons [simp]: "uset (x # xs) = range_set x \<union> uset xs" and
  uset_append [simp]: "uset (xs @ ys) = uset xs \<union> uset ys" and
  uset_rev [simp]: "uset (rev xs) = uset xs"
  by (auto simp: uset_def)

lemma uset_inv_Nil [simp]: "uset_inv []"
  by (simp add: uset_inv_def)

lemma uset_inv_Cons [simp]:
  "uset_inv (x # xs) \<longleftrightarrow>
     rstart x \<le> rend x \<and> (\<forall>y \<in> set xs. rend x < rstart y) \<and> uset_inv xs"
  by (auto simp: uset_inv_def)

lemma uset_inv_append [simp]:
  "uset_inv (xs @ ys) \<longleftrightarrow>
     uset_inv xs \<and> uset_inv ys \<and> (\<forall>x \<in> set xs. \<forall>y \<in> set ys. rend x < rstart y)"
  by (auto simp: uset_inv_def sorted_wrt_append)

lemma range_set_iff [simp]: "v \<in> range_set r \<longleftrightarrow> rstart r \<le> v \<and> v \<le> rend r"
  by (simp add: range_set_def)

lemma earliest_overlap_split:
  assumes "earliest_overlap r z bs = (e, bs')" "uint_range_overlaps z r"
  shows "\<exists>ov. bs = ov @ bs' \<and> (\<forall>x \<in> set (z # ov). uint_range_overlaps x r)
     \<and> e = last (z # ov) \<and> (\<forall>p ps. bs' = p # ps \<longrightarrow> \<not> uint_range_overlaps p r)"
  using assms
proof (induction r z bs arbitrary: e bs' rule: earliest_overlap.induct)
  case (1 r z)
  then show ?case by simp
next
  case (2 r z p bs)
  show ?case
  proof (cases "uint_range_overlaps p r")
    case True
    with 2 obtain ov where "bs = ov @ bs'" "\<forall>x \<in> set (p # ov). uint_range_overlaps x r"
      "e = last (p # ov)" "\<forall>q ps. bs' = q # ps \<longrightarrow> \<not> uint_range_overlaps q r"
      by auto
    with 2(3) show ?thesis by (intro exI [of _ "p # ov"]) auto
  next
    case False
    with 2 show ?thesis by auto
  qed
qed

lemma overlap_bounds:
  assumes "uset_inv (rev (z # ov))" "x \<in> set (z # ov)"
  shows "rstart (last (z # ov)) \<le> rstart x" and "rend x \<le> rend z"
proof -
  show "rend x \<le> rend z"
    using assms by fastforce
  show "rstart (last (z # ov)) \<le> rstart x"
  proof (cases ov rule: rev_cases)
    case Nil
    with assms show ?thesis by simp
  next
    case (snoc ys y)
    with assms show ?thesis by fastforce
  qed
qed

lemma overlap_merge:
  assumes inv: "uset_inv (rev (z # ov))" and r: "rstart r \<le> rend r"
    and ovl: "\<forall>x \<in> set (z # ov). uint_range_overlaps x r"
  defines "e \<equiv> last (z # ov)"
  shows "{min (rstart r) (rstart e)..max (rend r) (rend z)} =
     range_set z \<union> uset ov \<union> range_set r" (is "?L = ?R")
proof
  have e: "e \<in> set (z # ov)" unfolding e_def by (rule last_in_set) simp
  have eo: "rstart e \<le> rend r" "rstart r \<le> rend e"
    and zo: "rstart z \<le> rend r" "rstart r \<le> rend z"
    using ovl e by (auto simp: overlaps_iff)
  have "range_set e \<subseteq> range_set z \<union> uset ov" using e by (auto simp: uset_def)
  moreover have "?L \<subseteq> range_set e \<union> range_set r \<union> range_set z"
    using eo zo by (auto simp: min_le_iff_disj le_max_iff_disj)
  ultimately show "?L \<subseteq> ?R" by blast
  show "?R \<subseteq> ?L"
  proof
    fix v assume "v \<in> ?R"
    then consider x where "x \<in> set (z # ov)" "v \<in> range_set x" | "v \<in> range_set r"
      by (auto simp: uset_def)
    then show "v \<in> ?L"
    proof cases
      case (1 x)
      with overlap_bounds [OF inv 1(1)] show ?thesis
        unfolding e_def by (auto simp: min_le_iff_disj le_max_iff_disj)
    qed (auto simp: min_le_iff_disj le_max_iff_disj)
  qed
qed

lemma merge_adjacent_correct:
  assumes "uset_inv (rev bs @ x # after)"
    and "uint_set_merge_adjacent bs x = (bs', x')"
  shows "uset_inv (rev bs' @ x' # after)"
    and "uset (rev bs' @ x' # after) = uset (rev bs @ x # after)"
proof -
  have "uset_inv (rev bs' @ x' # after) \<and> uset (rev bs' @ x' # after) = uset (rev bs @ x # after)"
  proof (cases bs)
    case Nil
    with assms show ?thesis by auto
  next
    case (Cons p ps)
    show ?thesis
    proof (cases "rstart x - 1 = rend p")
      case False
      with assms Cons show ?thesis by auto
    next
      case True
      then have x: "rstart x = rend p + 1" by (simp add: algebra_simps)
      have le: "rstart p \<le> rend p" "rend p < rend x" "rend p < rstart x" using assms(1) Cons by auto
      have "range_set p \<union> range_set x = {rstart p..rend x}"
        unfolding range_set_def x by (rule word_interval_join) (use le in auto)
      with True assms Cons le show ?thesis by (auto simp: range_set_def)
    qed
  qed
  then show "uset_inv (rev bs' @ x' # after)"
    and "uset (rev bs' @ x' # after) = uset (rev bs @ x # after)" by auto
qed

text \<open>
  The walk of \<^verbatim>\<open>ossl_uint_set_insert\<close>. The loop is entered, and continued, only
  with a current item \<open>z\<close> for which \<open>start \<le> z->range.end\<close>, and everything after
  \<open>z\<close> lies after the new range; under that condition it always ends by one of its
  \<^verbatim>\<open>break\<close>s or its \<^verbatim>\<open>return\<close>, with the range added.
\<close>

lemma insert_walk_correct:
  assumes "uset_inv (rev zs @ after)" "rstart r \<le> rend r"
    "zs \<noteq> []" "rstart r \<le> rend (hd zs)" "\<forall>x \<in> set after. rend r < rstart x"
  shows "\<exists>s'. insert_walk True r zs after = (True, s') \<and> uset_inv s'
     \<and> uset s' = uset (rev zs @ after) \<union> range_set r"
  using assms
proof (induction zs arbitrary: after)
  case Nil
  then show ?case by simp
next
  case (Cons z bs)
  note r = \<open>rstart r \<le> rend r\<close>
  have inv_bs: "uset_inv (rev bs)" and inv_after: "uset_inv after"
    and z: "rstart z \<le> rend z" "rstart r \<le> rend z"
    and bz: "\<forall>x \<in> set bs. rend x < rstart z" and za: "\<forall>y \<in> set after. rend z < rstart y"
    and ba: "\<forall>x \<in> set bs. \<forall>y \<in> set after. rend x < rstart y"
    and ra: "\<forall>y \<in> set after. rend r < rstart y"
    using Cons.prems by auto
  have novl: "rend r < rstart z" if "\<not> uint_range_overlaps z r"
    using that z r by (auto simp: overlaps_iff)
  consider (dwarf) "rstart z \<le> rstart r" "rend z \<ge> rend r"
    | (ovl) "\<not> (rstart z \<le> rstart r \<and> rend z \<ge> rend r)" "uint_range_overlaps z r"
    | (gap) "\<not> uint_range_overlaps z r" "\<not> (rstart z \<le> rstart r \<and> rend z \<ge> rend r)"
        "rend r < rstart z" "\<forall>p ps. bs = p # ps \<longrightarrow> rend p < rstart r"
    | (more) p ps where "\<not> uint_range_overlaps z r"
        "\<not> (rstart z \<le> rstart r \<and> rend z \<ge> rend r)"
        "rend r < rstart z" "bs = p # ps" "rstart r \<le> rend p"
    using novl
    by (cases "rstart z \<le> rstart r \<and> rend z \<ge> rend r"; cases "uint_range_overlaps z r";
        cases bs; cases "rend (hd bs) < rstart r") auto
  then show ?case
  proof cases
    case dwarf
    have "range_set r \<subseteq> range_set z" using dwarf by auto
    then have "uset (rev (z # bs) @ after) \<union> range_set r = uset (rev bs @ z # after)" by auto
    moreover have "insert_walk True r (z # bs) after = (True, rev bs @ z # after)"
      using dwarf by simp
    moreover have "uset_inv (rev bs @ z # after)" using Cons.prems(1) by simp
    ultimately show ?thesis by metis
  next
    case ovl
    obtain e bs' where e: "earliest_overlap r z bs = (e, bs')" by fastforce
    from earliest_overlap_split [OF e ovl(2)] obtain ov where
      ov: "bs = ov @ bs'" "\<forall>x \<in> set (z # ov). uint_range_overlaps x r" "e = last (z # ov)"
      and nov: "\<And>p ps. bs' = p # ps \<Longrightarrow> \<not> uint_range_overlaps p r" by blast
    have inv_ov: "uset_inv (rev (z # ov))" using Cons.prems(1) ov(1) by auto
    note merged = overlap_merge [OF inv_ov r ov(2), folded ov(3)]
    let ?o = "\<lparr>rstart = min (rstart r) (rstart e), rend = max (rend r) (rend z)\<rparr>"
    have res: "insert_walk True r (z # bs) after = (True, rev bs' @ ?o # after)"
      using ovl e by auto
    have e_in: "e \<in> set (z # ov)" unfolding ov(3) by (rule last_in_set) simp
    have e_le: "rstart e \<le> rend r" using ov(2) e_in by (auto simp: overlaps_iff)
    have before: "\<forall>x \<in> set bs'. rend x < rstart r"
    proof (cases bs')
      case (Cons p ps)
      have "rend p < rstart e"
        using Cons.prems(1) ov(1) e_in Cons by auto
      moreover have "rstart p \<le> rend p" using inv_bs ov(1) Cons by auto
      ultimately have "rend p < rstart r"
        using nov [OF Cons] e_le by (auto simp: overlaps_iff not_le)
      moreover have "\<forall>x \<in> set ps. rend x < rstart p" using inv_bs ov(1) Cons by auto
      ultimately show ?thesis using Cons \<open>rstart p \<le> rend p\<close> by auto
    qed simp
    have "\<forall>x \<in> set bs'. rend x < rstart e"
      using Cons.prems(1) ov(1) e_in by auto
    with before inv_bs inv_after za ra ba r ov(1)
    have "uset_inv (rev bs' @ ?o # after)" by (auto simp: min_le_iff_disj le_max_iff_disj)
    moreover have "range_set ?o = range_set z \<union> uset ov \<union> range_set r"
      using merged by (simp add: range_set_def)
    then have "uset (rev bs' @ ?o # after) = uset (rev (z # bs) @ after) \<union> range_set r"
      using ov(1) by auto
    ultimately show ?thesis using res by blast
  next
    case gap
    have before: "\<forall>x \<in> set bs. rend x < rstart r"
      using gap(4) inv_bs by (cases bs) fastforce+
    show ?thesis
    proof (cases "rstart z = rend r + 1")
      case True
      let ?z = "z\<lparr>rstart := rstart r\<rparr>"
      obtain bs' z' where m: "uint_set_merge_adjacent bs ?z = (bs', z')" by fastforce
      have inv: "uset_inv (rev bs @ ?z # after)" using Cons.prems before r gap(3) by auto
      have "range_set ?z = range_set r \<union> range_set z"
        using word_interval_join [of "rstart r" "rend r" "rend z"] r gap(3) z(1) True
        by (simp add: range_set_def)
      then have "uset (rev bs @ ?z # after) = uset (rev (z # bs) @ after) \<union> range_set r"
        by auto
      moreover have "insert_walk True r (z # bs) after = (True, rev bs' @ z' # after)"
        using gap True m by (cases bs) auto
      ultimately show ?thesis using merge_adjacent_correct [OF inv m] by metis
    next
      case False
      note new = this
      show ?thesis
      proof (cases "\<exists>p ps. bs = p # ps \<and> rend p + 1 = rstart r")
        case True
        then obtain p ps where p: "bs = p # ps" "rend p + 1 = rstart r" by blast
        let ?p = "p\<lparr>rend := rend r\<rparr>"
        obtain bs' z' where m: "uint_set_merge_adjacent (?p # ps) z = (bs', z')" by fastforce
        have inv: "uset_inv (rev (?p # ps) @ z # after)"
          using Cons.prems p before r gap(3) ra by auto
        have "rend p < rend r" using p before r by auto
        then have "range_set ?p = range_set p \<union> range_set r"
          using word_interval_join [of "rstart p" "rend p" "rend r"] p inv_bs
          by (simp add: range_set_def)
        then have "uset (rev (?p # ps) @ z # after) = uset (rev (z # bs) @ after) \<union> range_set r"
          using p(1) by auto
        moreover have "insert_walk True r (z # bs) after = (True, rev bs' @ z' # after)"
          using gap new p m by (auto simp del: uint_set_merge_adjacent.simps)
        ultimately show ?thesis using merge_adjacent_correct [OF inv m] by metis
      next
        case False
        have "insert_walk True r (z # bs) after = (True, rev bs @ \<lparr>rstart = rstart r, rend = rend r\<rparr> # z # after)"
          using gap new False by (cases bs) auto
        moreover have "uset_inv (rev bs @ \<lparr>rstart = rstart r, rend = rend r\<rparr> # z # after)"
          using Cons.prems gap(3) before by auto
        moreover have "uset (rev bs @ \<lparr>rstart = rstart r, rend = rend r\<rparr> # z # after)
            = uset (rev (z # bs) @ after) \<union> range_set r" by (auto simp: range_set_def)
        ultimately show ?thesis by metis
      qed
    qed
  next
    case more
    have "\<exists>s'. insert_walk True r bs (z # after) = (True, s') \<and> uset_inv s'
        \<and> uset s' = uset (rev bs @ z # after) \<union> range_set r"
      by (rule Cons.IH) (use Cons.prems more in \<open>auto simp del: insert_walk.simps\<close>)
    moreover have "insert_walk True r (z # bs) after = insert_walk True r bs (z # after)"
      by (subst insert_walk.simps(2)) (use more in \<open>auto simp del: insert_walk.simps\<close>)
    ultimately show ?thesis by (simp del: insert_walk.simps)
  qed
qed

declare insert_walk.simps [simp del]

lemma insert_empty_range:
  "\<not> rstart r \<le> rend r \<Longrightarrow> ossl_uint_set_insert alloc s r = (False, s)"
  by (simp add: ossl_uint_set_insert_def)

lemma hd_last_bounds:
  assumes "uset_inv s" "x \<in> set s"
  shows "rstart (hd s) \<le> rstart x" and "rend x \<le> rend (last s)"
proof -
  from assms have ne: "s \<noteq> []" by auto
  then have "set s = set (last s # rev (butlast s))"
    by (metis append_butlast_last_id list.set(2) rev.simps(2) rev_rev_ident set_rev)
  moreover from ne have "last (last s # rev (butlast s)) = hd s"
    by (metis append_butlast_last_id hd_rev last_rev list.distinct(1) rev.simps(2) rev_rev_ident)
  moreover from ne have "rev (last s # rev (butlast s)) = s" by simp
  ultimately show "rstart (hd s) \<le> rstart x" and "rend x \<le> rend (last s)"
    using overlap_bounds [of "last s" "rev (butlast s)" x] assms by metis+
qed

lemma uset_subset_hull: "uset_inv s \<Longrightarrow> uset s \<subseteq> {rstart (hd s)..rend (last s)}"
proof
  fix v assume inv: "uset_inv s" and "v \<in> uset s"
  then obtain x where x: "x \<in> set s" "rstart x \<le> v" "v \<le> rend x" by (auto simp: uset_def)
  with hd_last_bounds [OF inv x(1)] show "v \<in> {rstart (hd s)..rend (last s)}" by auto
qed

lemma insert_branches:
  assumes "s \<noteq> []" "rstart r \<le> rend r"
  shows "rend (last s) < rstart r \<Longrightarrow> rend (last s) + 1 = rstart r \<Longrightarrow>
      ossl_uint_set_insert True s r = (True, butlast s @ [last s\<lparr>rend := rend r\<rparr>])"
    and "rend (last s) < rstart r \<Longrightarrow> rend (last s) + 1 \<noteq> rstart r \<Longrightarrow>
      ossl_uint_set_insert True s r = (True, s @ [\<lparr>rstart = rstart r, rend = rend r\<rparr>])"
    and "rstart r \<le> rend (last s) \<Longrightarrow> rstart r \<le> rstart (hd s) \<and> rend (last s) \<le> rend r \<Longrightarrow>
      ossl_uint_set_insert True s r = (True, [(hd s)\<lparr>rstart := rstart r, rend := rend r\<rparr>])"
    and "rstart r \<le> rend (last s) \<Longrightarrow> \<not> (rstart r \<le> rstart (hd s) \<and> rend (last s) \<le> rend r) \<Longrightarrow>
      rend r < rstart (hd s) \<Longrightarrow>
      ossl_uint_set_insert True s r = insert_walk True r [hd s] (tl s)"
    and "rstart r \<le> rend (last s) \<Longrightarrow> \<not> (rstart r \<le> rstart (hd s) \<and> rend (last s) \<le> rend r) \<Longrightarrow>
      \<not> rend r < rstart (hd s) \<Longrightarrow>
      ossl_uint_set_insert True s r = insert_walk True r (rev s) []"
  using assms by (simp_all only: ossl_uint_set_insert_def Let_def if_True if_False if_not_P
      not_less simp_thms create_set_item_simps option.case)

lemma insert_correct:
  assumes inv: "uset_inv s" and r: "rstart r \<le> rend r"
  shows "\<exists>s'. ossl_uint_set_insert True s r = (True, s') \<and> uset_inv s'
     \<and> uset s' = uset s \<union> range_set r"
proof (cases "s = []")
  case True
  with r show ?thesis by (auto simp: ossl_uint_set_insert_def range_set_def)
next
  case ne: False
  let ?z = "last s" and ?f = "hd s"
  have s: "s = butlast s @ [?z]" using ne by simp
  have z: "rstart ?z \<le> rend ?z" and f: "rstart ?f \<le> rend ?f"
    using inv ne by (auto simp: uset_inv_def)
  consider (app) "rstart r > rend ?z"
    | (dwarf) "rstart r \<le> rend ?z" "rstart r \<le> rstart ?f" "rend r \<ge> rend ?z"
    | (front) "rstart r \<le> rend ?z" "\<not> (rstart r \<le> rstart ?f \<and> rend r \<ge> rend ?z)"
        "rend r < rstart ?f"
    | (walk) "rstart r \<le> rend ?z" "\<not> (rstart r \<le> rstart ?f \<and> rend r \<ge> rend ?z)"
        "\<not> rend r < rstart ?f" by force
  then show ?thesis
  proof cases
    case app
    have lt: "\<forall>x \<in> set s. rend x < rstart r"
      using hd_last_bounds(2) [OF inv] app by (auto intro: le_less_trans)
    show ?thesis
    proof (cases "rend ?z + 1 = rstart r")
      case True
      let ?z' = "?z\<lparr>rend := rend r\<rparr>"
      have "rend ?z < rend r" using app r by simp
      then have "range_set ?z' = range_set ?z \<union> range_set r"
        using word_interval_join [of "rstart ?z" "rend ?z" "rend r"] z True
        by (simp add: range_set_def)
      moreover have "uset s = uset (butlast s) \<union> range_set ?z"
        using arg_cong [OF s, of uset] by (simp only: uset_append uset_Cons uset_Nil Un_empty_right)
      ultimately have "uset (butlast s @ [?z']) = uset s \<union> range_set r" by auto
      moreover have "uset_inv (butlast s @ [?z'])"
      proof -
        have "uset_inv (butlast s @ [?z])" using inv ne by simp
        then show ?thesis using z r app by auto
      qed
      moreover have "ossl_uint_set_insert True s r = (True, butlast s @ [?z'])"
        using insert_branches(1) [OF ne r] app True by simp
      ultimately show ?thesis by blast
    next
      case False
      then have "ossl_uint_set_insert True s r = (True, s @ [\<lparr>rstart = rstart r, rend = rend r\<rparr>])"
        using insert_branches(2) [OF ne r] app by simp
      with inv lt r show ?thesis by (auto simp: range_set_def)
    qed
  next
    case dwarf
    let ?f' = "?f\<lparr>rstart := rstart r, rend := rend r\<rparr>"
    have "ossl_uint_set_insert True s r = (True, [?f'])"
      using insert_branches(3) [OF ne r] dwarf by simp
    moreover have "uset s \<subseteq> range_set r" using uset_subset_hull [OF inv] dwarf by (fastforce simp: range_set_def)
    moreover have "range_set ?f' = range_set r" by (simp add: range_set_def)
    ultimately show ?thesis using r by auto
  next
    case front
    have "ossl_uint_set_insert True s r = insert_walk True r [?f] (tl s)"
      using insert_branches(4) [OF ne r] front by blast
    moreover have "\<exists>s'. insert_walk True r [?f] (tl s) = (True, s') \<and> uset_inv s'
        \<and> uset s' = uset (rev [?f] @ tl s) \<union> range_set r"
    proof (rule insert_walk_correct)
      show "\<forall>x \<in> set (tl s). rend r < rstart x"
      proof
        fix x assume "x \<in> set (tl s)"
        with ne have "x \<in> set s" by (simp add: list.set_sel)
        from hd_last_bounds(1) [OF inv this] front(3) show "rend r < rstart x" by simp
      qed
      show "rstart r \<le> rend (hd [?f])" using r front(3) f by auto
    qed (use inv ne r in auto)
    moreover have "rev [?f] @ tl s = s" using ne by simp
    ultimately show ?thesis by metis
  next
    case walk
    have "ossl_uint_set_insert True s r = insert_walk True r (rev s) []"
      using insert_branches(5) [OF ne r] walk by blast
    moreover have "\<exists>s'. insert_walk True r (rev s) [] = (True, s') \<and> uset_inv s'
        \<and> uset s' = uset (rev (rev s) @ []) \<union> range_set r"
      by (rule insert_walk_correct) (use inv ne r walk in \<open>auto simp: hd_rev\<close>)
    ultimately show ?thesis by simp
  qed
qed

lemma remove_walk_correct:
  assumes "uset_inv (rev zs @ after)" "rstart r \<le> rend r" "\<forall>x \<in> set after. rend r < rstart x"
  shows "\<exists>s'. remove_walk True r zs after = Some s' \<and> uset_inv s'
     \<and> uset s' = uset (rev zs @ after) - range_set r"
  using assms
proof (induction zs arbitrary: after)
  case Nil
  have "range_set x \<inter> range_set r = {}" if "x \<in> set after" for x
    using Nil.prems(3) that by fastforce
  then have "uset after \<inter> range_set r = {}" by (auto simp: uset_def)
  with Nil show ?case by auto
next
  case (Cons z bs)
  note r = \<open>rstart r \<le> rend r\<close>
  have inv_bs: "uset_inv (rev bs)" and inv_after: "uset_inv after"
    and z: "rstart z \<le> rend z"
    and bz: "\<forall>x \<in> set bs. rend x < rstart z" and za: "\<forall>y \<in> set after. rend z < rstart y"
    and ba: "\<forall>x \<in> set bs. \<forall>y \<in> set after. rend x < rstart y"
    and ra: "\<forall>y \<in> set after. rend r < rstart y"
    using Cons.prems by auto
  have after_r: "uset after - range_set r = uset after"
    using ra by (fastforce simp: uset_def)
  have before_r: "uset bs - range_set r = uset bs" if "rstart z \<le> rstart r \<or> rend z < rstart r"
    using bz z that by (fastforce simp: uset_def)
  consider (past) "rend z < rstart r"
    | (cover) "rstart r \<le> rstart z" "rend z \<le> rend r"
    | (low) "rstart r \<le> rstart z" "rstart z \<le> rend r" "rend r < rend z"
    | (high) "rstart z < rstart r" "rstart r \<le> rend z" "rend z \<le> rend r"
    | (inside) "rstart z < rstart r" "rend r < rend z"
    | (out) "rend r < rstart z" using r z by force
  then show ?case
  proof cases
    case past
    then have "range_set z - range_set r = range_set z" by auto
    moreover have "uset bs - range_set r = uset bs" by (rule before_r) (use past in auto)
    moreover have "remove_walk True r (z # bs) after = Some (rev bs @ z # after)"
      using past by simp
    ultimately show ?thesis using Cons.prems(1) after_r
      by (intro exI [of _ "rev bs @ z # after"]) (simp del: remove_walk.simps add: Un_Diff)
  next
    case cover
    have "\<exists>s'. remove_walk True r bs after = Some s' \<and> uset_inv s'
        \<and> uset s' = uset (rev bs @ after) - range_set r"
      by (rule Cons.IH) (use Cons.prems in auto)
    moreover have "range_set z \<subseteq> range_set r" using cover by auto
    then have "uset (rev (z # bs) @ after) - range_set r = uset (rev bs @ after) - range_set r"
      by auto
    moreover have "remove_walk True r (z # bs) after = remove_walk True r bs after"
      using cover z by auto
    ultimately show ?thesis by metis
  next
    case low
    let ?z = "z\<lparr>rstart := rend r + 1\<rparr>"
    note plus1 = word_plus1_le_iff [OF low(3)]
    have "\<exists>s'. remove_walk True r bs (?z # after) = Some s' \<and> uset_inv s'
        \<and> uset s' = uset (rev bs @ ?z # after) - range_set r"
    proof (rule Cons.IH)
      have "rend x < rend r + 1" if "x \<in> set bs" for x
        using bz low(2) that plus1 [of "rend r + 1"] by fastforce
      then show "uset_inv (rev bs @ ?z # after)"
        using Cons.prems(1) low by (auto simp: plus1)
      show "\<forall>x \<in> set (?z # after). rend r < rstart x"
        using ra plus1 [of "rend r + 1"] by auto
    qed (rule r)
    moreover have "range_set ?z - range_set r = range_set z - range_set r"
      by (rule set_eqI) (use low in \<open>auto simp: plus1\<close>)
    then have "uset (rev bs @ ?z # after) - range_set r = uset (rev (z # bs) @ after) - range_set r"
      by (auto simp: Un_Diff)
    moreover have "remove_walk True r (z # bs) after = remove_walk True r bs (?z # after)"
      using low z by auto
    ultimately show ?thesis by simp
  next
    case high
    let ?z = "z\<lparr>rend := rstart r - 1\<rparr>"
    note minus1 = word_le_minus1_iff [OF high(1)]
    have "range_set ?z = range_set z - range_set r"
      by (rule set_eqI) (use high in \<open>auto simp: minus1\<close>)
    moreover have "uset_inv (rev bs @ ?z # after)"
    proof -
      have "rstart r - 1 < rstart y" if "y \<in> set after" for y
        using za high(2) that minus1 [of "rstart r - 1"] by fastforce
      with Cons.prems(1) high show ?thesis by (auto simp: minus1)
    qed
    moreover have "remove_walk True r (z # bs) after = Some (rev bs @ ?z # after)"
      using high by (auto simp: word_gt_0)
    moreover have "uset bs - range_set r = uset bs" by (rule before_r) (use high in auto)
    ultimately show ?thesis using after_r
      by (intro exI [of _ "rev bs @ ?z # after"]) (simp del: remove_walk.simps add: Un_Diff)
  next
    case inside
    let ?z = "z\<lparr>rend := rstart r - 1\<rparr>" and ?y = "\<lparr>rstart = rend r + 1, rend = rend z\<rparr>"
    note minus1 = word_le_minus1_iff [OF inside(1)] and plus1 = word_plus1_le_iff [OF inside(2)]
    have "range_set ?z \<union> range_set ?y = range_set z - range_set r"
      by (rule set_eqI) (use inside r in \<open>auto simp: minus1 plus1\<close>)
    moreover have "uset_inv (rev bs @ ?z # ?y # after)"
    proof -
      have sep: "rstart r - 1 < rend r + 1"
        using minus1 [of "rstart r - 1"] plus1 [of "rend r + 1"] r by auto
      have "rstart r - 1 < rstart y" if "y \<in> set after" for y
        using za inside that minus1 [of "rstart r - 1"] r by fastforce
      moreover have "rend x < rend r + 1" if "x \<in> set bs" for x
        using bz that inside r plus1 [of "rend r + 1"] by fastforce
      ultimately show ?thesis using Cons.prems(1) inside sep by (auto simp: minus1 plus1)
    qed
    moreover have "remove_walk True r (z # bs) after = Some (rev bs @ ?z # ?y # after)"
      using inside r z by auto
    moreover have "uset bs - range_set r = uset bs" by (rule before_r) (use inside in auto)
    ultimately show ?thesis using after_r
      by (intro exI [of _ "rev bs @ ?z # ?y # after"])
         (simp del: remove_walk.simps add: Un_Diff, blast)
  next
    case out
    have "\<exists>s'. remove_walk True r bs (z # after) = Some s' \<and> uset_inv s'
        \<and> uset s' = uset (rev bs @ z # after) - range_set r"
      by (rule Cons.IH) (use Cons.prems out in auto)
    moreover have "rend r < rend z" "\<not> rend z < rstart r" "\<not> rend z \<le> rend r"
      "\<not> rstart z \<le> rend r" "\<not> rstart z < rstart r" "\<not> uint_range_overlaps z r"
      using out z r by (auto simp: overlaps_iff)
    then have "remove_walk True r (z # bs) after = remove_walk True r bs (z # after)"
      by simp
    ultimately show ?thesis by simp
  qed
qed

lemma remove_correct:
  assumes "uset_inv s" "rstart r \<le> rend r"
  shows "\<exists>s'. ossl_uint_set_remove True s r = Some (True, s') \<and> uset_inv s'
     \<and> uset s' = uset s - range_set r"
proof -
  from assms obtain s' where "remove_walk True r (rev s) [] = Some s'" "uset_inv s'"
    "uset s' = uset s - range_set r"
    using remove_walk_correct [of "rev s" "[]" r] by auto
  with assms(2) show ?thesis by (simp add: ossl_uint_set_remove_def)
qed

lemma remove_empty_range:
  "\<not> rstart r \<le> rend r \<Longrightarrow> ossl_uint_set_remove alloc s r = Some (False, s)"
  by (simp add: ossl_uint_set_remove_def)

lemma query_walk_correct: "uset_inv (rev zs) \<Longrightarrow> query_walk zs v \<longleftrightarrow> v \<in> uset zs"
proof (induction zs)
  case (Cons x bs)
  have "v \<notin> range_set y" if "rend x < v" "y \<in> set bs" for y
    using Cons.prems that by fastforce
  then have "rend x < v \<Longrightarrow> v \<notin> uset bs" by (auto simp: uset_def)
  with Cons show ?case by auto
qed simp

lemma query_correct: "uset_inv s \<Longrightarrow> ossl_uint_set_query s v \<longleftrightarrow> v \<in> uset s"
  using query_walk_correct [of "rev s" v] by (simp add: ossl_uint_set_query_def)

section \<open>Allocation failure\<close>

text \<open>
  A failed allocation makes \<^verbatim>\<open>ossl_uint_set_insert\<close> return 0 with the set as it
  was; an insertion that needs no new item does not notice.
\<close>

lemma insert_walk_alloc:
  "insert_walk False r zs after = (False, rev zs @ after)
   \<or> insert_walk False r zs after = insert_walk True r zs after"
  by (induction zs arbitrary: after) (auto simp: insert_walk.simps Let_def split: list.splits prod.splits)

lemma insert_alloc_failure:
  "ossl_uint_set_insert False s r = (False, s)
   \<or> ossl_uint_set_insert False s r = ossl_uint_set_insert True s r"
  using insert_walk_alloc [of r "[hd s]" "tl s"] insert_walk_alloc [of r "rev s" "[]"]
  by (auto simp: ossl_uint_set_insert_def Let_def)

text \<open>A range touches another if they overlap or border each other.\<close>

definition touches :: "uint_range \<Rightarrow> uint_range \<Rightarrow> bool" where
  "touches r x \<longleftrightarrow> unat (rstart r) \<le> unat (rend x) + 1 \<and> unat (rstart x) \<le> unat (rend r) + 1"

lemma insert_walk_no_memory:
  assumes "uset_inv (rev zs)" "rstart r \<le> rend r" "zs \<noteq> []" "rstart r \<le> rend (hd zs)"
  shows "fst (insert_walk False r zs after) \<longleftrightarrow> (\<exists>x \<in> set zs. touches r x)"
  using assms
proof (induction zs arbitrary: after)
  case (Cons z bs)
  have z: "rstart z \<le> rend z" "rstart r \<le> rend z" and bs: "uset_inv (rev bs)" "\<forall>x \<in> set bs. rend x < rstart z" using Cons.prems by auto
  show ?case
  proof (cases "uint_range_overlaps z r")
    case True
    then have "rstart z \<le> rend r" "rstart r \<le> rend z" by (auto simp: overlaps_iff)
    then have "touches r z" by (simp add: touches_def word_le_nat_alt)
    then show ?thesis using True by (auto simp: insert_walk.simps Let_def split: prod.splits)
  next
    case False
    then have lt: "rend r < rstart z" using z Cons.prems(2) by (auto simp: overlaps_iff)
    then have z_touch: "touches r z \<longleftrightarrow> rstart z = rend r + 1"
      using z(2) unat_Suc_less [OF lt] by (auto simp: touches_def word_le_nat_alt word_less_nat_alt word_unat_eq_iff)
    have inside: "\<not> (rstart z \<le> rstart r \<and> rend z \<ge> rend r)" using lt Cons.prems(2) by auto
    show ?thesis
    proof (cases bs)
      case Nil
      then show ?thesis using False lt inside z_touch by (simp add: insert_walk.simps)
    next
      case (Cons p ps)
      have p: "rstart p \<le> rend p" "rend p < rstart z" "\<forall>x \<in> set ps. rend x < rstart p" using bs Cons by auto
      show ?thesis
      proof (cases "rstart r > rend p")
        case True
        have p_touch: "touches r p \<longleftrightarrow> rend p + 1 = rstart r"
          using p(1) True Cons.prems(2) unat_Suc_less [OF True] by (auto simp: touches_def word_le_nat_alt word_less_nat_alt word_unat_eq_iff)
        have "\<not> touches r x" if "x \<in> set ps" for x
          using p(1,3) that True by (fastforce simp: touches_def word_le_nat_alt word_less_nat_alt)
        then have "(\<exists>x \<in> set (z # bs). touches r x) \<longleftrightarrow> rstart z = rend r + 1 \<or> rend p + 1 = rstart r" using z_touch p_touch Cons by auto
        then show ?thesis using False lt inside True Cons by (auto simp: insert_walk.simps Let_def split: prod.splits)
      next
        case after: False
        then have "touches r p" if "touches r z"
          using that z_touch p unat_Suc_less [OF lt] by (simp add: touches_def word_le_nat_alt word_less_nat_alt)
        then have "(\<exists>x \<in> set (z # bs). touches r x) \<longleftrightarrow> (\<exists>x \<in> set bs. touches r x)" using Cons by auto
        moreover have "insert_walk False r (z # bs) after' = insert_walk False r bs (z # after')" for after'
          unfolding insert_walk.simps(2) [of False r z bs] using False lt inside after Cons by auto
        ultimately show ?thesis using Cons.IH [OF bs(1) Cons.prems(2), of "z # after"] after Cons by simp
      qed
    qed
  qed
qed simp

lemma insert_no_memory:
  assumes "uset_inv s"
  shows "fst (ossl_uint_set_insert False s r) \<longleftrightarrow> rstart r \<le> rend r \<and> (\<exists>x \<in> set s. touches r x)"
proof (cases "rstart r \<le> rend r \<and> s \<noteq> []")
  case False
  then show ?thesis by (auto simp: ossl_uint_set_insert_def Let_def)
next
  case True
  then have r: "rstart r \<le> rend r" and s: "s \<noteq> []" by simp_all
  let ?z = "last s" and ?f = "hd s"
  have z: "?z \<in> set s" "rstart ?z \<le> rend ?z" and f: "?f \<in> set s" "rstart ?f \<le> rend ?f" using s assms by (auto simp: uset_inv_def)
  have tl: "\<forall>x \<in> set (tl s). rend ?f < rstart x" and fs: "s = ?f # tl s" using s assms by (cases s; auto)+
  show ?thesis
  proof (cases "rstart r > rend ?z")
    case True
    have t: "touches r ?z \<longleftrightarrow> rend ?z + 1 = rstart r"
      using z(2) True r unat_Suc_less [OF True] by (auto simp: touches_def word_le_nat_alt word_less_nat_alt word_unat_eq_iff)
    have "rend x < rend ?z" if "x \<in> set s" "x \<noteq> ?z" for x
    proof -
      obtain ys z where ys: "s = ys @ [z]" using s by (metis append_butlast_last_id)
      then have "x \<in> set ys" using that by auto
      then have "rend x < rstart ?z" using assms ys by simp
      then show ?thesis using z(2) by simp
    qed
    then have "\<not> touches r x" if "x \<in> set s" "x \<noteq> ?z" for x
      using that True by (fastforce simp: touches_def word_le_nat_alt word_less_nat_alt)
    then have "(\<exists>x \<in> set s. touches r x) \<longleftrightarrow> rend ?z + 1 = rstart r" using t z(1) by blast
    then show ?thesis using r s True by (simp add: ossl_uint_set_insert_def Let_def)
  next
    case zr: False
    show ?thesis
    proof (cases "rstart r \<le> rstart ?f \<and> rend r \<ge> rend ?z")
      case True
      then have "touches r ?z" using zr z(2) by (simp add: touches_def word_le_nat_alt word_less_nat_alt)
      then show ?thesis using r s zr True z(1) by (auto simp: ossl_uint_set_insert_def Let_def)
    next
      case cov: False
      show ?thesis
      proof (cases "rend r < rstart ?f")
        case True
        have "\<not> touches r x" if "x \<in> set (tl s)" for x
          using tl that True f(2) by (fastforce simp: touches_def word_le_nat_alt word_less_nat_alt)
        then have "(\<exists>x \<in> set s. touches r x) \<longleftrightarrow> touches r ?f" using fs by (metis set_ConsD list.set_intros(1))
        moreover have "rstart r \<le> rend ?f" using r True f(2) by simp
        ultimately show ?thesis using r s zr cov True f(2) insert_walk_no_memory [of "[?f]" r "tl s"] by (simp add: ossl_uint_set_insert_def Let_def)
      next
        case False
        then show ?thesis using r s zr cov insert_walk_no_memory [of "rev s" r "[]"] assms by (auto simp: ossl_uint_set_insert_def Let_def hd_rev)
      qed
    qed
  qed
qed

lemma remove_walk_no_memory:
  assumes "uset_inv (rev zs)" "rstart r \<le> rend r"
  shows "(remove_walk False r zs after = None \<longleftrightarrow> (\<exists>x \<in> set zs. rstart x < rstart r \<and> rend r < rend x))
    \<and> (remove_walk False r zs after \<noteq> None \<longrightarrow> remove_walk False r zs after = remove_walk True r zs after)"
  using assms
proof (induction zs arbitrary: after)
  case (Cons z bs)
  have z: "rstart z \<le> rend z" and bs: "uset_inv (rev bs)" "\<forall>x \<in> set bs. rend x < rstart z" using Cons.prems by auto
  note IH = Cons.IH [OF bs(1) Cons.prems(2)]
  have none: "\<not> (\<exists>x \<in> set bs. rstart x < rstart r \<and> rend r < rend x)" if "rstart z \<le> rend r"
    using that bs(2) by fastforce
  consider "rend z < rstart r" | "rstart r \<le> rstart z" "rend z \<le> rend r" | "rstart r \<le> rstart z" "rstart z \<le> rend r" "rend r < rend z"
    | "rstart z < rstart r" "rstart r \<le> rend z" "rend z \<le> rend r" | "rstart z < rstart r" "rend r < rend z" | "rend r < rstart z"
    using z Cons.prems(2) by (meson not_le order_trans)
  then show ?case
  proof cases
    case 1
    then have "rstart z \<le> rend r" "\<not> rend r < rend z" using z Cons.prems(2) by auto
    with 1 show ?thesis using none by simp
  next
    case 2
    then have "\<not> rend z < rstart r" "\<not> rstart z < rstart r" using z by auto
    with 2 show ?thesis using IH [of after] by (simp del: not_None_eq)
  next
    case 3
    then have "\<not> rend z < rstart r" "\<not> rstart z < rstart r" "\<not> rend z \<le> rend r" using z by auto
    with 3 show ?thesis using IH [of "z\<lparr>rstart := rend r + 1\<rparr> # after"] by (simp del: not_None_eq)
  next
    case 4
    then have "0 < rstart r" by (simp add: word_less_nat_alt)
    moreover have "\<not> rend z < rstart r" "\<not> rstart r \<le> rstart z" "\<not> rend r < rend z" "rstart z \<le> rend r" using 4 by auto
    ultimately show ?thesis using 4 none by simp
  next
    case 5
    then have "\<not> rend z < rstart r" "\<not> rstart r \<le> rstart z" "\<not> rend z \<le> rend r" using Cons.prems(2) by auto
    with 5 show ?thesis by simp
  next
    case 6
    then have "\<not> uint_range_overlaps z r" "\<not> rend z < rstart r" "\<not> rend z \<le> rend r" "\<not> rstart z \<le> rend r" "\<not> rstart z < rstart r"
      using z Cons.prems(2) by (auto simp: overlaps_iff)
    then show ?thesis using IH [of "z # after"] by auto
  qed
qed simp

section \<open>Bordering ranges\<close>

lemma uset_separated_simps [simp]:
  "uset_separated []"
  "uset_separated (x # xs) \<longleftrightarrow> (\<forall>y \<in> set xs. rend x + 1 \<noteq> rstart y) \<and> uset_separated xs"
  "uset_separated (xs @ ys) \<longleftrightarrow> uset_separated xs \<and> uset_separated ys
     \<and> (\<forall>x \<in> set xs. \<forall>y \<in> set ys. rend x + 1 \<noteq> rstart y)"
  by (auto simp: uset_separated_def sorted_wrt_append)

lemma word_plus1_neq: "(a :: 'a::len word) < b \<Longrightarrow> b < c \<Longrightarrow> a + 1 \<noteq> c"
  using word_plus1_le_iff [of a b b] by auto

lemma merge_adjacent_separated:
  assumes "uset_inv (rev bs @ x # after)" "uset_separated (rev bs)" "uset_separated (x # after)"
    and ba: "\<forall>p \<in> set bs. \<forall>y \<in> set after. rend p + 1 \<noteq> rstart y"
    and "uint_set_merge_adjacent bs x = (bs', x')"
  shows "uset_separated (rev bs' @ x' # after)"
proof (cases bs)
  case Nil
  with assms show ?thesis by auto
next
  case (Cons p ps)
  show ?thesis
  proof (cases "rstart x - 1 = rend p")
    case True
    with assms Cons show ?thesis by auto
  next
    case False
    have "rend q + 1 \<noteq> rstart x" if "q \<in> set ps" for q
      using assms(1) Cons that by (intro word_plus1_neq [of _ "rstart p"]) auto
    moreover from False have "rend p + 1 \<noteq> rstart x" by (auto simp: algebra_simps)
    ultimately show ?thesis using False assms Cons by auto
  qed
qed

lemma insert_walk_separated:
  assumes "uset_inv (rev zs @ after)" "uset_separated (rev zs @ after)" "rstart r = rend r"
    "\<forall>x \<in> set after. rend r < rstart x" "insert_walk True r zs after = (ok, s')"
    "zs \<noteq> [] \<Longrightarrow> rstart r \<le> rend (hd zs)"
  shows "uset_separated s'"
  using assms
proof (induction zs arbitrary: after)
  case Nil
  then show ?case by (simp add: insert_walk.simps)
next
  case (Cons z bs)
  note r = \<open>rstart r = rend r\<close>
  have inv: "uset_inv (rev bs)" "rstart z \<le> rend z" "\<forall>x \<in> set bs. rend x < rstart z"
    "\<forall>y \<in> set after. rend z < rstart y"
    and sep: "uset_separated (rev bs)" "uset_separated after"
      "\<forall>x \<in> set bs. rend x + 1 \<noteq> rstart z" "\<forall>y \<in> set after. rend z + 1 \<noteq> rstart y"
      "\<forall>x \<in> set bs. \<forall>y \<in> set after. rend x + 1 \<noteq> rstart y"
    using Cons.prems(1,2) by auto
  consider (dwarf) "rstart z \<le> rstart r" "rend r \<le> rend z"
    | (out) "\<not> (rstart z \<le> rstart r \<and> rend z \<ge> rend r)" "\<not> uint_range_overlaps z r"
    using r by (auto simp: overlaps_iff)
  then show ?case
  proof cases
    case dwarf
    with Cons.prems show ?thesis by (auto simp: insert_walk.simps)
  next
    case out
    have before: "rend r < rstart z" using out(2) Cons.prems(6) r by (auto simp: overlaps_iff)
    show ?thesis
    proof (cases "rend r < rstart z \<and> (case bs of [] \<Rightarrow> True | p # _ \<Rightarrow> rend p < rstart r)")
      case False
      then have "insert_walk True r bs (z # after) = (ok, s')"
        using Cons.prems(5) out by (auto simp: insert_walk.simps(2))
      moreover have "bs \<noteq> [] \<and> rstart r \<le> rend (hd bs)" using False before by (auto split: list.splits)
      ultimately show ?thesis using Cons.IH [of "z # after"] Cons.prems before by auto
    next
      case True
      then have prev: "\<forall>p ps. bs = p # ps \<longrightarrow> rend p < rstart r" by auto
      have lt: "\<forall>p \<in> set bs. rend p < rstart r" using prev inv(1) by (cases bs) fastforce+
      have far: "rend r + 1 \<noteq> rstart y" if "y \<in> set after" for y
        using before inv(2,4) that by (intro word_plus1_neq [of _ "rstart z"]) auto
      show ?thesis
      proof (cases "rstart z = rend r + 1")
        case touch: True
        let ?z = "z\<lparr>rstart := rstart r\<rparr>"
        obtain bs' z' where m: "uint_set_merge_adjacent bs ?z = (bs', z')" by fastforce
        have "s' = rev bs' @ z' # after"
          using Cons.prems(5) out True touch m
          by (auto simp: insert_walk.simps(2) simp del: uint_set_merge_adjacent.simps)
        moreover have "uset_separated (rev bs' @ z' # after)"
          by (rule merge_adjacent_separated [OF _ _ _ _ m]) (use Cons.prems(1) inv sep lt before r in auto)
        ultimately show ?thesis by simp
      next
        case ntouch: False
        show ?thesis
        proof (cases "\<exists>p ps. bs = p # ps \<and> rend p + 1 = rstart r")
          case ext: True
          then obtain p ps where p: "bs = p # ps" "rend p + 1 = rstart r" by blast
          let ?p = "p\<lparr>rend := rend r\<rparr>"
          obtain bs' z' where m: "uint_set_merge_adjacent (?p # ps) z = (bs', z')" by fastforce
          have "s' = rev bs' @ z' # after"
            using Cons.prems(5) out True ntouch p m
            by (auto simp: insert_walk.simps(2) simp del: uint_set_merge_adjacent.simps)
          moreover have "uset_separated (rev bs' @ z' # after)"
            by (rule merge_adjacent_separated [OF _ _ _ _ m])
               (use Cons.prems(1) inv sep lt before r p far in auto)
          ultimately show ?thesis by simp
        next
          case next_to: False
          have "s' = rev bs @ \<lparr>rstart = rstart r, rend = rend r\<rparr> # z # after"
            using Cons.prems(5) out True ntouch next_to
            by (cases bs) (auto simp add: insert_walk.simps(2))
          moreover have "rend q + 1 \<noteq> rstart r" if "q \<in> set bs" for q
          proof (cases bs)
            case (Cons p ps)
            show ?thesis
            proof (cases "q = p")
              case False
              then have "rend q < rstart p" "rstart p \<le> rend p" "rend p < rstart r"
                using inv(1) lt that Cons by auto
              then show ?thesis by (intro word_plus1_neq [of _ "rstart p"]) auto
            qed (use next_to Cons in auto)
          qed (use that in simp)
          ultimately show ?thesis using sep far ntouch by auto
        qed
      qed
    qed
  qed
qed

lemma insert_single_separated:
  assumes inv: "uset_inv s" and sep: "uset_separated s" and r: "rstart r = rend r"
    and ins: "ossl_uint_set_insert True s r = (ok, s')"
  shows "uset_separated s'"
proof (cases "s = []")
  case True
  with ins r show ?thesis by (auto simp: ossl_uint_set_insert_def)
next
  case ne: False
  have rle: "rstart r \<le> rend r" using r by simp
  let ?z = "last s" and ?f = "hd s"
  have "uset_separated (butlast s @ [?z])" "uset_inv (butlast s @ [?z])" using sep inv ne by simp_all
  then have bl: "uset_separated (butlast s)" "\<forall>x \<in> set (butlast s). rend x < rstart ?z"
    "\<forall>x \<in> set (butlast s). rend x + 1 \<noteq> rstart ?z" "rstart ?z \<le> rend ?z" by (simp_all only: uset_separated_simps uset_inv_append) auto
  consider (app) "rstart r > rend ?z" "rend ?z + 1 = rstart r"
    | (app2) "rstart r > rend ?z" "rend ?z + 1 \<noteq> rstart r"
    | (dwarf) "rstart r \<le> rend ?z" "rstart r \<le> rstart ?f" "rend r \<ge> rend ?z"
    | (front) "rstart r \<le> rend ?z" "\<not> (rstart r \<le> rstart ?f \<and> rend r \<ge> rend ?z)"
        "rend r < rstart ?f"
    | (walk) "rstart r \<le> rend ?z" "\<not> (rstart r \<le> rstart ?f \<and> rend r \<ge> rend ?z)"
        "\<not> rend r < rstart ?f" by force
  then show ?thesis
  proof cases
    case app
    then have "s' = butlast s @ [?z\<lparr>rend := rend r\<rparr>]"
      using ins insert_branches(1) [OF ne rle] by simp
    with bl show ?thesis by simp
  next
    case app2
    then have s': "s' = s @ [\<lparr>rstart = rstart r, rend = rend r\<rparr>]"
      using ins insert_branches(2) [OF ne rle] by simp
    have "rend x + 1 \<noteq> rstart r" if "x \<in> set s" for x
    proof (cases "x = ?z")
      case False
      with that have "x \<in> set (butlast s)"
        by (metis append_butlast_last_id in_set_butlastD ne rotate1.simps(2) set_ConsD set_rotate1)
      with bl app2 show ?thesis by (intro word_plus1_neq [of _ "rstart ?z"]) auto
    qed (use app2 in simp)
    with sep show ?thesis by (simp add: s')
  next
    case dwarf
    then show ?thesis using ins insert_branches(3) [OF ne rle] by auto
  next
    case front
    then have "insert_walk True r [?f] (tl s) = (ok, s')"
      using ins insert_branches(4) [OF ne rle] by metis
    moreover have eq: "rev [?f] @ tl s = s" using ne by simp
    moreover have "\<forall>x \<in> set (tl s). rend r < rstart x"
    proof
      fix x assume "x \<in> set (tl s)"
      with ne have "x \<in> set s" by (simp add: list.set_sel)
      from hd_last_bounds(1) [OF inv this] front(3) show "rend r < rstart x" by simp
    qed
    moreover have "rstart r \<le> rend ?f" using front(3) r inv ne by (cases s) auto
    ultimately show ?thesis
      by (intro insert_walk_separated [of "[?f]" "tl s" r ok s']) (use inv sep r in \<open>simp_all only: eq list.sel\<close>)
  next
    case walk
    then have "insert_walk True r (rev s) [] = (ok, s')"
      using ins insert_branches(5) [OF ne rle] by metis
    then show ?thesis
      by (intro insert_walk_separated [of "rev s" "[]" r ok s']) (use inv sep r walk ne in \<open>simp_all add: hd_rev\<close>)
  qed
qed

section \<open>Interface\<close>

text \<open>
  What the users of an integer set rely on (acknowledgement ranges, the ranges of a stream
  that are sent or acknowledged): insertion is union, removal is difference, a query is
  membership, and the operations keep the set usable. A run of operations is a list of
  calls; \<open>set_run_spec\<close> is the same run on mathematical sets.
\<close>

datatype set_op = Insert uint_range | Remove uint_range

fun set_run ::
  "('s \<Rightarrow> uint_range \<Rightarrow> bool \<times> 's) \<Rightarrow> ('s \<Rightarrow> uint_range \<Rightarrow> (bool \<times> 's) option) \<Rightarrow>
   's \<Rightarrow> set_op list \<Rightarrow> 's option" where
  "set_run ins rem s [] = Some s"
| "set_run ins rem s (Insert r # ops) = set_run ins rem (snd (ins s r)) ops"
| "set_run ins rem s (Remove r # ops) =
     (case rem s r of None \<Rightarrow> None | Some (_, s') \<Rightarrow> set_run ins rem s' ops)"

fun set_run_spec :: "u64 set \<Rightarrow> set_op list \<Rightarrow> u64 set" where
  "set_run_spec A [] = A"
| "set_run_spec A (Insert r # ops) = set_run_spec (A \<union> {rstart r..rend r}) ops"
| "set_run_spec A (Remove r # ops) = set_run_spec (A - {rstart r..rend r}) ops"

locale integer_set =
  fixes abs :: "'s \<Rightarrow> u64 set" and inv :: "'s \<Rightarrow> bool" and empty :: 's
    and ins :: "'s \<Rightarrow> uint_range \<Rightarrow> bool \<times> 's"
    and rem :: "'s \<Rightarrow> uint_range \<Rightarrow> (bool \<times> 's) option"
    and query :: "'s \<Rightarrow> u64 \<Rightarrow> bool"
  assumes abs_empty: "abs empty = {}" and inv_empty: "inv empty"
    and ins_ok: "inv s \<Longrightarrow> rstart r \<le> rend r \<Longrightarrow>
      \<exists>s'. ins s r = (True, s') \<and> inv s' \<and> abs s' = abs s \<union> range_set r"
    and ins_bad: "\<not> rstart r \<le> rend r \<Longrightarrow> ins s r = (False, s)"
    and rem_ok: "inv s \<Longrightarrow> rstart r \<le> rend r \<Longrightarrow>
      \<exists>s'. rem s r = Some (True, s') \<and> inv s' \<and> abs s' = abs s - range_set r"
    and rem_bad: "\<not> rstart r \<le> rend r \<Longrightarrow> rem s r = Some (False, s)"
    and query_ok: "inv s \<Longrightarrow> query s v \<longleftrightarrow> v \<in> abs s"
begin

lemma ins_total:
  assumes "inv s"
  shows "inv (snd (ins s r))" and "abs (snd (ins s r)) = abs s \<union> {rstart r..rend r}"
proof -
  have "inv (snd (ins s r)) \<and> abs (snd (ins s r)) = abs s \<union> {rstart r..rend r}"
  proof (cases "rstart r \<le> rend r")
    case True
    from ins_ok [OF assms this] obtain s' where
      "ins s r = (True, s')" "inv s'" "abs s' = abs s \<union> range_set r" by blast
    then show ?thesis by (simp add: range_set_def)
  next
    case False
    with ins_bad [OF this, of s] assms show ?thesis by simp
  qed
  then show "inv (snd (ins s r))" and "abs (snd (ins s r)) = abs s \<union> {rstart r..rend r}"
    by simp_all
qed

lemma rem_total:
  assumes "inv s"
  shows "\<exists>ok s'. rem s r = Some (ok, s') \<and> inv s' \<and> abs s' = abs s - {rstart r..rend r}"
proof (cases "rstart r \<le> rend r")
  case True
  from rem_ok [OF assms this] show ?thesis unfolding range_set_def by blast
next
  case False
  with rem_bad [OF this, of s] assms show ?thesis by auto
qed

lemma query_ins: "inv s \<Longrightarrow> query (snd (ins s r)) v \<longleftrightarrow> query s v \<or> v \<in> {rstart r..rend r}"
  by (simp add: query_ok ins_total)

lemma run_refines:
  "inv s \<Longrightarrow> \<exists>s'. set_run ins rem s ops = Some s' \<and> inv s'
     \<and> abs s' = set_run_spec (abs s) ops \<and> (\<forall>v. query s' v \<longleftrightarrow> v \<in> set_run_spec (abs s) ops)"
proof (induction ops arbitrary: s)
  case Nil
  then show ?case by (simp add: query_ok)
next
  case (Cons op ops)
  show ?case
  proof (cases op)
    case (Insert r)
    with Cons.IH [OF ins_total(1) [OF Cons.prems]] ins_total(2) [OF Cons.prems] show ?thesis by simp
  next
    case (Remove r)
    from rem_total [OF Cons.prems] obtain ok s1 where
      "rem s r = Some (ok, s1)" "inv s1" "abs s1 = abs s - {rstart r..rend r}" by blast
    with Cons.IH [of s1] Remove show ?thesis by simp
  qed
qed

end

interpretation us: integer_set uset uset_inv ossl_uint_set_init
  "ossl_uint_set_insert True" "ossl_uint_set_remove True" ossl_uint_set_query
  by unfold_locales
    (simp_all add: ossl_uint_set_init_def insert_correct insert_empty_range remove_correct
      remove_empty_range query_correct)

section \<open>Properties\<close>

text \<open>C6: Any sequence of range insertions and removals, started on an empty set, runs to the end
  without an assertion failure and yields a well-formed list of ranges that represents
  exactly the set obtained by the corresponding unions and differences; a query answers
  membership in it. Ranges with \<open>start > end\<close> are rejected and change nothing.
\<close>

theorem uint_set_refines_sets:
  "\<exists>s. set_run (ossl_uint_set_insert True) (ossl_uint_set_remove True) ossl_uint_set_init ops = Some s
     \<and> uset_inv s \<and> uset s = set_run_spec {} ops
     \<and> (\<forall>v. ossl_uint_set_query s v \<longleftrightarrow> v \<in> set_run_spec {} ops)"
  using us.run_refines [OF us.inv_empty, of ops] by (simp add: us.abs_empty)

text \<open>Inserting a single integer (as packet number tracking does) keeps the documented
  invariant that no two ranges of the list border one another.
\<close>

theorem uint_set_single_insert_separated:
  assumes "uset_inv s" "uset_separated s" "rstart r = rend r"
  shows "uset_separated (snd (ossl_uint_set_insert True s r))"
  using insert_single_separated [OF assms] by (metis prod.collapse)

theorem uint_set_single_insert_separated_witness:
  "uset_separated (snd (ossl_uint_set_insert True
      [\<lparr>rstart = 1, rend = 4\<rparr>, \<lparr>rstart = 6, rend = 9\<rparr>] \<lparr>rstart = 5, rend = 5\<rparr>))
   \<and> uset (snd (ossl_uint_set_insert True
      [\<lparr>rstart = 1, rend = 4\<rparr>, \<lparr>rstart = 6, rend = 9\<rparr>] \<lparr>rstart = 5, rend = 5\<rparr>)) = {1..9}"
proof -
  let ?s = "[\<lparr>rstart = 1, rend = 4\<rparr>, \<lparr>rstart = 6, rend = 9\<rparr>] :: uint_range list"
  let ?r = "\<lparr>rstart = 5, rend = 5\<rparr> :: uint_range"
  have "uset_inv ?s" "uset_separated ?s" by simp_all
  from uint_set_single_insert_separated [OF this, of ?r]
  have "uset_separated (snd (ossl_uint_set_insert True ?s ?r))" by simp
  moreover have "ossl_uint_set_insert True ?s ?r = (True, [\<lparr>rstart = 1, rend = 9\<rparr>])"
    by (simp add: ossl_uint_set_insert_def insert_walk.simps uint_range_overlaps_def)
  ultimately show ?thesis by (simp add: range_set_def)
qed

text \<open>Inserting a range of several integers can break that documented invariant: the branch
  for an overlap with an existing range does not merge the result with a neighbour that it
  comes to touch. The set represented stays right; the list has one item too many.
\<close>

theorem uint_set_insert_leaves_bordering_ranges:
  "let s = [\<lparr>rstart = 0, rend = 4\<rparr>, \<lparr>rstart = 10, rend = 20\<rparr>]; r = \<lparr>rstart = 5, rend = 12\<rparr>
   in uset_inv s \<and> uset_separated s
     \<and> ossl_uint_set_insert True s r
         = (True, [\<lparr>rstart = 0, rend = 4\<rparr>, \<lparr>rstart = 5, rend = 20\<rparr>])
     \<and> \<not> uset_separated (snd (ossl_uint_set_insert True s r))"
  by (simp add: ossl_uint_set_insert_def insert_walk.simps uint_range_overlaps_def)

text \<open>C31: The sets without memory, for every set and every range. An insertion succeeds exactly if the range overlaps or borders a range of
  the set, and then it does what it does with memory; otherwise it returns 0 and leaves the set as it was. A removal
  dereferences the null pointer that the allocation gave it exactly if it would have to split a range of the set; otherwise it does
  what it does with memory.
\<close>

theorem uint_set_out_of_memory:
  assumes "uset_inv s"
  shows "(fst (ossl_uint_set_insert False s r) \<longleftrightarrow> rstart r \<le> rend r \<and> (\<exists>x \<in> set s. touches r x))
    \<and> ossl_uint_set_insert False s r \<in> {(False, s), ossl_uint_set_insert True s r}
    \<and> (ossl_uint_set_remove False s r = None \<longleftrightarrow> rstart r \<le> rend r \<and> (\<exists>x \<in> set s. rstart x < rstart r \<and> rend r < rend x))
    \<and> ossl_uint_set_remove False s r \<in> {None, ossl_uint_set_remove True s r}"
proof -
  have "ossl_uint_set_remove False s r = None \<longleftrightarrow> rstart r \<le> rend r \<and> (\<exists>x \<in> set s. rstart x < rstart r \<and> rend r < rend x)"
    "ossl_uint_set_remove False s r \<in> {None, ossl_uint_set_remove True s r}"
    using remove_walk_no_memory [of "rev s" r "[]"] assms by (auto simp: ossl_uint_set_remove_def)
  then show ?thesis using insert_no_memory [OF assms] insert_alloc_failure [of s r] by blast
qed

theorem uint_set_out_of_memory_witness:
  "uset_inv [\<lparr>rstart = 2, rend = 9\<rparr>] \<and> ossl_uint_set_remove False [\<lparr>rstart = 2, rend = 9\<rparr>] \<lparr>rstart = 4, rend = 5\<rparr> = None
   \<and> fst (ossl_uint_set_insert False [\<lparr>rstart = 2, rend = 9\<rparr>] \<lparr>rstart = 10, rend = 12\<rparr>)
   \<and> \<not> fst (ossl_uint_set_insert False [\<lparr>rstart = 2, rend = 9\<rparr>] \<lparr>rstart = 11, rend = 12\<rparr>)"
proof -
  have "uset_inv [\<lparr>rstart = 2, rend = 9\<rparr>]" by simp
  with uint_set_out_of_memory [OF this, of "\<lparr>rstart = 4, rend = 5\<rparr>"] uint_set_out_of_memory [OF this, of "\<lparr>rstart = 10, rend = 12\<rparr>"]
    uint_set_out_of_memory [OF this, of "\<lparr>rstart = 11, rend = 12\<rparr>"]
  show ?thesis by (simp add: touches_def)
qed

end
