(* ===== verification/SfList.thy ===== *)
theory SfList
  imports UintSet
begin

text \<open>
  The list of stream frames of \<^verbatim>\<open>ssl/quic/quic_sf_list.c\<close>, which reassembles the data of a stream. The
  doubly linked list is a HOL list, its head first; an iterator is a position in it. The data of a frame is the memory of
  the packet from there on, \<open>None\<close> once it was moved to the side storage. The reference counts of the
  packets, fields of the packets in the code, are kept with the list; packets are numbers. A frame
  is allocated at most once by a call, with the outcome \<open>alloc\<close>. Cleansing of released packet memory is not modelled:
  no function of the list or of the stream reads it again, but an application may that still uses a record whose frame an insertion has released.
\<close>

section \<open>Model\<close>

record STREAM_FRAME =
  sf_range :: uint_range
  sf_pkt :: "nat option"
  sf_data :: "u8 list option"

record SFRAME_LIST =
  frames :: "STREAM_FRAME list"
  fl_fin :: bool
  num_frames :: nat
  fl_offset :: u64
  head_locked :: bool
  fl_cleanse :: bool
  pkt_refs :: "nat \<Rightarrow> nat"

abbreviation "sf_start sf \<equiv> rstart (sf_range sf)"
abbreviation "sf_end sf \<equiv> rend (sf_range sf)"

definition ossl_qrx_pkt_release :: "(nat \<Rightarrow> nat) \<Rightarrow> nat option \<Rightarrow> nat \<Rightarrow> nat" where
  "ossl_qrx_pkt_release refs pkt = (case pkt of None \<Rightarrow> refs | Some p \<Rightarrow> refs(p := refs p - 1))"

definition ossl_qrx_pkt_up_ref :: "(nat \<Rightarrow> nat) \<Rightarrow> nat \<Rightarrow> nat \<Rightarrow> nat" where
  "ossl_qrx_pkt_up_ref refs p = refs(p := refs p + 1)"

definition stream_frame_free :: "SFRAME_LIST \<Rightarrow> STREAM_FRAME \<Rightarrow> SFRAME_LIST" where
  "stream_frame_free fl sf = fl\<lparr>pkt_refs := ossl_qrx_pkt_release (pkt_refs fl) (sf_pkt sf)\<rparr>"

definition stream_frame_new ::
  "bool \<Rightarrow> SFRAME_LIST \<Rightarrow> uint_range \<Rightarrow> nat option \<Rightarrow> u8 list option \<Rightarrow> (STREAM_FRAME \<times> SFRAME_LIST) option" where
  "stream_frame_new alloc fl rng pkt data =
     (if \<not> alloc then None
      else
        let fl = (case pkt of None \<Rightarrow> fl | Some p \<Rightarrow> fl\<lparr>pkt_refs := ossl_qrx_pkt_up_ref (pkt_refs fl) p\<rparr>)
        in Some (\<lparr>sf_range = rng, sf_pkt = pkt, sf_data = data\<rparr>, fl))"

definition ossl_sframe_list_init :: "(nat \<Rightarrow> nat) \<Rightarrow> SFRAME_LIST" where
  "ossl_sframe_list_init refs =
     \<lparr>frames = [], fl_fin = False, num_frames = 0, fl_offset = 0, head_locked = False, fl_cleanse = False, pkt_refs = refs\<rparr>"

definition ossl_sframe_list_destroy :: "SFRAME_LIST \<Rightarrow> SFRAME_LIST" where
  "ossl_sframe_list_destroy fl = fold (\<lambda>sf fl. stream_frame_free fl sf) (frames fl) fl"

definition append_frame :: "bool \<Rightarrow> SFRAME_LIST \<Rightarrow> uint_range \<Rightarrow> nat option \<Rightarrow> u8 list option \<Rightarrow> bool \<times> SFRAME_LIST" where
  "append_frame alloc fl rng pkt data =
     (case stream_frame_new alloc fl rng pkt data of
        None \<Rightarrow> (False, fl)
      | Some (new_frame, fl) \<Rightarrow> (True, fl\<lparr>frames := frames fl @ [new_frame], num_frames := num_frames fl + 1\<rparr>))"

text \<open>The exit of \<open>ossl_sframe_list_insert\<close>, and the loop that drops the frames the new one covers.\<close>

definition insert_end :: "bool \<Rightarrow> SFRAME_LIST \<Rightarrow> bool \<times> SFRAME_LIST" where
  "insert_end fin fl = (True, fl\<lparr>fl_fin := fin \<or> fl_fin fl\<rparr>)"

definition drop_frame :: "STREAM_FRAME \<Rightarrow> SFRAME_LIST \<Rightarrow> SFRAME_LIST" where
  "drop_frame sf fl = stream_frame_free (fl\<lparr>num_frames := num_frames fl - 1\<rparr>) sf"

definition ossl_sframe_list_insert ::
  "bool \<Rightarrow> SFRAME_LIST \<Rightarrow> uint_range \<Rightarrow> nat option \<Rightarrow> u8 list option \<Rightarrow> bool \<Rightarrow> bool \<times> SFRAME_LIST" where
  "ossl_sframe_list_insert alloc fl rng pkt data fin =
     (if fl_offset fl \<ge> rend rng then insert_end fin fl
      else if frames fl = [] then
        (case stream_frame_new alloc fl rng pkt data of
           None \<Rightarrow> (False, fl)
         | Some (new_frame, fl) \<Rightarrow> insert_end fin (fl\<lparr>frames := [new_frame], num_frames := num_frames fl + 1\<rparr>))
      else if sf_start (last (frames fl)) < rstart rng then
        if sf_end (last (frames fl)) \<ge> rend rng then insert_end fin fl
        else
          let (ok, fl) = append_frame alloc fl rng pkt data
          in if \<not> ok then (False, fl) else insert_end fin fl
      else
        let prevs = takeWhile (\<lambda>sf. sf_start sf < rstart rng) (frames fl);
            rest = dropWhile (\<lambda>sf. sf_start sf < rstart rng) (frames fl)
        in if rest = [] then (False, fl)
        else if prevs \<noteq> [] \<and> sf_end (last prevs) \<ge> rend rng then insert_end fin fl
        else
          case stream_frame_new alloc fl rng pkt data of
            None \<Rightarrow> (False, fl)
          | Some (new_frame, fl) \<Rightarrow>
              let covered = takeWhile (\<lambda>sf. sf_end sf \<le> rend rng) rest;
                  rest = dropWhile (\<lambda>sf. sf_end sf \<le> rend rng) rest;
                  fl = fold drop_frame covered (fl\<lparr>frames := prevs @ rest\<rparr>)
              in if rest \<noteq> [] \<and> prevs \<noteq> [] \<and> sf_start (hd rest) \<le> sf_end (last prevs) then
                   insert_end fin (stream_frame_free fl new_frame)
                 else
                   insert_end fin (fl\<lparr>frames := prevs @ new_frame # rest, num_frames := num_frames fl + 1\<rparr>))"

text \<open>The outcome of a call that peeks: the result, range, data, end of stream and the new iterator.\<close>

record peeked =
  pk_ok :: bool
  pk_range :: uint_range
  pk_data :: "u8 list option"
  pk_fin :: bool
  pk_iter :: "nat option"

definition ossl_sframe_list_peek :: "SFRAME_LIST \<Rightarrow> nat option \<Rightarrow> peeked" where
  "ossl_sframe_list_peek fl iter =
     (let (start, i) = (case iter of None \<Rightarrow> (fl_offset fl, 0) | Some k \<Rightarrow> (sf_end (frames fl ! k), k + 1));
          n = length (frames fl)
      in if i \<ge> n \<or> sf_start (frames fl ! i) > start \<or> \<not> start < sf_end (frames fl ! i) then
           \<lparr>pk_ok = False, pk_range = \<lparr>rstart = start, rend = start\<rparr>, pk_data = None,
            pk_fin = (if i \<ge> n then fl_fin fl else False), pk_iter = None\<rparr>
         else
           let sf = frames fl ! i
           in \<lparr>pk_ok = True, pk_range = \<lparr>rstart = start, rend = sf_end sf\<rparr>,
               pk_data = map_option (drop (unat (start - sf_start sf))) (sf_data sf),
               pk_fin = (if i + 1 \<ge> n then fl_fin fl else False), pk_iter = Some i\<rparr>)"

definition ossl_sframe_list_drop_frames :: "SFRAME_LIST \<Rightarrow> u64 \<Rightarrow> bool \<times> SFRAME_LIST" where
  "ossl_sframe_list_drop_frames fl limit =
     (if \<not> limit \<ge> fl_offset fl \<or> \<not> (frames fl = [] \<or> limit \<le> sf_end (last (frames fl)))
         \<or> \<not> (frames fl \<noteq> [] \<or> limit = fl_offset fl) then (False, fl)
      else
        let fl = fl\<lparr>fl_offset := limit\<rparr>;
            dropped = takeWhile (\<lambda>sf. sf_end sf \<le> limit) (frames fl);
            rest = dropWhile (\<lambda>sf. sf_end sf \<le> limit) (frames fl);
            fl = fold drop_frame dropped fl
        in (True, fl\<lparr>frames := rest, head_locked := False\<rparr>))"

text \<open>\<open>None\<close> where the outputs are not written.\<close>

definition ossl_sframe_list_lock_head :: "SFRAME_LIST \<Rightarrow> peeked option \<times> SFRAME_LIST" where
  "ossl_sframe_list_lock_head fl =
     (if head_locked fl then (None, fl)
      else
        let r = ossl_sframe_list_peek fl None
        in (Some r, if pk_ok r then fl\<lparr>head_locked := True\<rparr> else fl))"

definition ossl_sframe_list_is_head_locked :: "SFRAME_LIST \<Rightarrow> bool" where
  "ossl_sframe_list_is_head_locked fl = head_locked fl"

text \<open>
  Moving data to the side storage, which is changed by a callback. The loop carries the frames it has passed in reverse order,
  so that \<open>prev_frame\<close> is the first of them, the frames ahead, and the storage.
\<close>

fun move_loop ::
  "(u64 \<Rightarrow> u8 list \<Rightarrow> nat \<Rightarrow> 's \<Rightarrow> bool \<times> 's) \<Rightarrow> STREAM_FRAME list \<Rightarrow> u64 \<Rightarrow> STREAM_FRAME list \<Rightarrow> SFRAME_LIST \<Rightarrow> 's
    \<Rightarrow> bool \<times> STREAM_FRAME list \<times> SFRAME_LIST \<times> 's" where
  "move_loop write_at passed limit [] fl s = (True, rev passed, fl, s)"
| "move_loop write_at passed limit (sf # rest) fl s =
     (let limit = (if limit < sf_start sf then sf_start sf else limit);
          (ok, sf', fl, s) =
            (case sf_data sf of
               None \<Rightarrow> (True, sf, fl, s)
             | Some data \<Rightarrow>
                 let data = (if limit > sf_start sf then drop (unat (limit - sf_start sf)) data else data);
                     (ok, s) = write_at limit data (unat (sf_end sf - limit)) s
                 in if \<not> ok then (False, sf, fl, s)
                    else (True, sf\<lparr>sf_data := None, sf_pkt := None\<rparr>,
                          fl\<lparr>pkt_refs := ossl_qrx_pkt_release (pkt_refs fl) (sf_pkt sf)\<rparr>, s))
      in if \<not> ok then (False, rev passed @ sf # rest, fl, s)
         else
           case passed of
             prev_frame # passed' \<Rightarrow>
               if sf_end prev_frame \<ge> sf_start sf' then
                 move_loop write_at (prev_frame\<lparr>sf_range := (sf_range prev_frame)\<lparr>rend := sf_end sf'\<rparr>\<rparr> # passed') (sf_end sf') rest
                   (stream_frame_free (fl\<lparr>num_frames := num_frames fl - 1\<rparr>) sf') s
               else move_loop write_at (sf' # passed) (sf_end sf') rest fl s
           | [] \<Rightarrow> move_loop write_at [sf'] (sf_end sf') rest fl s)"

definition ossl_sframe_list_move_data ::
  "(u64 \<Rightarrow> u8 list \<Rightarrow> nat \<Rightarrow> 's \<Rightarrow> bool \<times> 's) \<Rightarrow> SFRAME_LIST \<Rightarrow> 's \<Rightarrow> bool \<times> SFRAME_LIST \<times> 's" where
  "ossl_sframe_list_move_data write_at fl s =
     (if frames fl = [] then (True, fl, s)
      else
        let (kept, moving) = (if head_locked fl then ([hd (frames fl)], tl (frames fl)) else ([], frames fl));
            (ok, fs, fl, s) = move_loop write_at [] (fl_offset fl) moving fl s
        in (ok, fl\<lparr>frames := kept @ fs\<rparr>, s))"

section \<open>What the list holds\<close>

text \<open>The invariant, and the logical offsets of the bytes received and not yet dropped.\<close>

definition sf_before :: "STREAM_FRAME \<Rightarrow> STREAM_FRAME \<Rightarrow> bool" where
  "sf_before x y \<longleftrightarrow> sf_start x \<le> sf_start y \<and> sf_end x < sf_end y"

definition fl_inv :: "SFRAME_LIST \<Rightarrow> bool" where
  "fl_inv fl \<longleftrightarrow> sorted_wrt sf_before (frames fl) \<and> num_frames fl = length (frames fl)
     \<and> (\<forall>sf \<in> set (frames fl). sf_start sf \<le> sf_end sf \<and> fl_offset fl < sf_end sf)"

definition sf_span :: "STREAM_FRAME \<Rightarrow> u64 set" where
  "sf_span sf = {sf_start sf..<sf_end sf}"

definition received :: "SFRAME_LIST \<Rightarrow> u64 set" where
  "received fl = (\<Union>sf \<in> set (frames fl). sf_span sf) \<inter> {fl_offset fl..}"

text \<open>The end of the stream as far as it is known, whether or not the bytes before it have come.\<close>

definition fl_end :: "SFRAME_LIST \<Rightarrow> u64" where
  "fl_end fl = Max (insert (fl_offset fl) (sf_end ` set (frames fl)))"

lemma fl_end_le: "fl_end fl \<le> v \<longleftrightarrow> fl_offset fl \<le> v \<and> (\<forall>x \<in> set (frames fl). sf_end x \<le> v)"
  by (simp add: fl_end_def)

lemma fl_end_ge: "fl_offset fl \<le> fl_end fl" "x \<in> set (frames fl) \<Longrightarrow> sf_end x \<le> fl_end fl"
  using fl_end_le [of fl "fl_end fl"] by simp_all


section \<open>Insertion\<close>

lemma drop_frames_simps [simp]:
  "frames (fold drop_frame ds fl) = frames fl" "fl_fin (fold drop_frame ds fl) = fl_fin fl"
  "fl_offset (fold drop_frame ds fl) = fl_offset fl" "head_locked (fold drop_frame ds fl) = head_locked fl"
  "fl_cleanse (fold drop_frame ds fl) = fl_cleanse fl" "num_frames (fold drop_frame ds fl) = num_frames fl - length ds"
  by (induction ds arbitrary: fl) (simp_all add: drop_frame_def stream_frame_free_def)

lemma frame_free_simps [simp]:
  "frames (stream_frame_free fl sf) = frames fl" "fl_fin (stream_frame_free fl sf) = fl_fin fl"
  "fl_offset (stream_frame_free fl sf) = fl_offset fl" "head_locked (stream_frame_free fl sf) = head_locked fl"
  "fl_cleanse (stream_frame_free fl sf) = fl_cleanse fl" "num_frames (stream_frame_free fl sf) = num_frames fl"
  by (simp_all add: stream_frame_free_def)

lemma stream_frame_new_eq:
  "stream_frame_new alloc fl rng pkt data = (if alloc then Some (\<lparr>sf_range = rng, sf_pkt = pkt, sf_data = data\<rparr>,
     fl\<lparr>pkt_refs := (case pkt of None \<Rightarrow> pkt_refs fl | Some p \<Rightarrow> ossl_qrx_pkt_up_ref (pkt_refs fl) p)\<rparr>) else None)"
  by (cases pkt) (simp_all add: stream_frame_new_def)

lemma last_end: "sorted_wrt sf_before xs \<Longrightarrow> x \<in> set xs \<Longrightarrow> sf_end x \<le> sf_end (last xs)"
  by (induction xs) (auto simp: sf_before_def less_imp_le)

lemma last_start: "sorted_wrt sf_before xs \<Longrightarrow> x \<in> set xs \<Longrightarrow> sf_start x \<le> sf_start (last xs)"
  by (induction xs) (auto simp: sf_before_def)

lemma hd_start: "sorted_wrt sf_before xs \<Longrightarrow> x \<in> set xs \<Longrightarrow> sf_start (hd xs) \<le> sf_start x"
  by (cases xs) (auto simp: sf_before_def)

lemma dropWhile_start:
  assumes "sorted_wrt sf_before xs" "x \<in> set (dropWhile (\<lambda>sf. sf_start sf < v) xs)"
  shows "v \<le> sf_start x"
  using assms by (induction xs) (auto simp: sf_before_def split: if_splits)

lemma dropWhile_end:
  assumes "sorted_wrt sf_before xs" "x \<in> set (dropWhile (\<lambda>sf. sf_end sf \<le> v) xs)"
  shows "v < sf_end x"
  using assms by (induction xs) (auto simp: sf_before_def not_le split: if_splits)

lemma insert_frame_lists:
  assumes sorted: "sorted_wrt sf_before (bs @ cs @ rs)"
    and b: "\<forall>x \<in> set bs. sf_start x < sf_start new" "bs \<noteq> [] \<longrightarrow> sf_end (last bs) < sf_end new"
    and c: "\<forall>x \<in> set cs. sf_start new \<le> sf_start x \<and> sf_end x \<le> sf_end new"
    and r: "\<forall>x \<in> set rs. sf_start new \<le> sf_start x \<and> sf_end new < sf_end x"
  shows "sorted_wrt sf_before (bs @ new # rs)" "sorted_wrt sf_before (bs @ rs)"
    "(\<Union>x \<in> set (bs @ new # rs). sf_span x) = (\<Union>x \<in> set (bs @ cs @ rs). sf_span x) \<union> sf_span new"
    "rs \<noteq> [] \<and> bs \<noteq> [] \<and> sf_start (hd rs) \<le> sf_end (last bs) \<Longrightarrow>
      (\<Union>x \<in> set (bs @ rs). sf_span x) = (\<Union>x \<in> set (bs @ cs @ rs). sf_span x) \<union> sf_span new"
proof -
  have be: "sf_end x < sf_end new" if "x \<in> set bs" for x
    using b(2) last_end [of bs x] sorted that by (cases "bs = []") (auto simp: sorted_wrt_append dest: le_less_trans)
  show "sorted_wrt sf_before (bs @ new # rs)" "sorted_wrt sf_before (bs @ rs)"
    using sorted b(1) r be by (auto simp: sorted_wrt_append sf_before_def less_imp_le)
  have cn: "(\<Union>x \<in> set cs. sf_span x) \<subseteq> sf_span new" using c by (fastforce simp: sf_span_def)
  then show "(\<Union>x \<in> set (bs @ new # rs). sf_span x) = (\<Union>x \<in> set (bs @ cs @ rs). sf_span x) \<union> sf_span new" by auto
  assume g: "rs \<noteq> [] \<and> bs \<noteq> [] \<and> sf_start (hd rs) \<le> sf_end (last bs)"
  then have "sf_start (last bs) < sf_start new" "sf_end new < sf_end (hd rs)" "sf_start (hd rs) \<le> sf_end (last bs)" using b(1) r by simp_all
  then have "sf_span new \<subseteq> sf_span (last bs) \<union> sf_span (hd rs)"
    by (auto simp: sf_span_def not_less)
  also have "\<dots> \<subseteq> (\<Union>x \<in> set (bs @ rs). sf_span x)" using g by auto
  finally show "(\<Union>x \<in> set (bs @ rs). sf_span x) = (\<Union>x \<in> set (bs @ cs @ rs). sf_span x) \<union> sf_span new" using cn by auto
qed


text \<open>What an insertion that returns \<open>ok\<close> did.\<close>

definition inserted :: "bool \<Rightarrow> SFRAME_LIST \<Rightarrow> STREAM_FRAME \<Rightarrow> bool \<Rightarrow> bool \<times> SFRAME_LIST \<Rightarrow> bool" where
  "inserted alloc fl new fin = (\<lambda>(ok, fl').
     fl_inv fl' \<and> fl_offset fl' = fl_offset fl \<and> head_locked fl' = head_locked fl \<and> fl_cleanse fl' = fl_cleanse fl
   \<and> set (frames fl') \<subseteq> insert new (set (frames fl)) \<and> (alloc \<longrightarrow> ok) \<and> (\<not> ok \<longrightarrow> fl' = fl)
   \<and> (ok \<longrightarrow> received fl' = received fl \<union> {max (fl_offset fl) (sf_start new)..<sf_end new} \<and> (fl_fin fl' \<longleftrightarrow> fin \<or> fl_fin fl)
       \<and> fl_end fl' = max (fl_end fl) (sf_end new)))"

lemma span_from: "sf_span new \<inter> {v..} = {max v (sf_start new)..<sf_end new}"
  by (auto simp: sf_span_def)

lemma inserted_changed:
  assumes "fl_inv fl" "sf_start new \<le> sf_end new" "fl_offset fl < sf_end new"
    and "fl_fin fl' \<longleftrightarrow> fin \<or> fl_fin fl" "fl_offset fl' = fl_offset fl" "head_locked fl' = head_locked fl" "fl_cleanse fl' = fl_cleanse fl"
    and "sorted_wrt sf_before (frames fl')" "num_frames fl' = length (frames fl')" "set (frames fl') \<subseteq> insert new (set (frames fl))"
    and u: "(\<Union>x \<in> set (frames fl'). sf_span x) = (\<Union>x \<in> set (frames fl). sf_span x) \<union> sf_span new"
    and e: "\<forall>v. (\<forall>x \<in> set (frames fl'). sf_end x \<le> v) \<longleftrightarrow> (\<forall>x \<in> set (frames fl). sf_end x \<le> v) \<and> sf_end new \<le> v"
  shows "inserted alloc fl new fin (True, fl')"
proof -
  have "fl_end fl' \<le> v \<longleftrightarrow> max (fl_end fl) (sf_end new) \<le> v" for v
    using e assms(5) by (simp add: fl_end_le)
  then have "fl_end fl' = max (fl_end fl) (sf_end new)" by (meson order.antisym order.refl)
  moreover
  have "\<forall>sf \<in> set (frames fl'). sf_start sf \<le> sf_end sf \<and> fl_offset fl' < sf_end sf"
    using assms(1-3,5,10) unfolding fl_inv_def by auto
  moreover have "received fl' = received fl \<union> {max (fl_offset fl) (sf_start new)..<sf_end new}"
    unfolding received_def assms(5) u span_from [symmetric] by blast
  ultimately show ?thesis using assms by (simp add: fl_inv_def inserted_def)
qed

lemma inserted_covered:
  assumes "fl_inv fl" "sf_span new \<inter> {fl_offset fl..} \<subseteq> received fl" "sf_end new \<le> fl_end fl"
  shows "inserted alloc fl new fin (insert_end fin fl)"
  using assms unfolding span_from by (auto simp: inserted_def insert_end_def fl_inv_def received_def fl_end_def)

lemma inserted_failed: "fl_inv fl \<Longrightarrow> \<not> alloc \<Longrightarrow> inserted alloc fl new fin (False, fl)"
  by (auto simp: inserted_def)

lemma inserted_at_end:
  assumes inv: "fl_inv fl" and rng: "rstart rng \<le> rend rng" "fl_offset fl < rend rng"
    and last: "frames fl \<noteq> []" "sf_start (last (frames fl)) < rstart rng"
  shows "inserted alloc fl \<lparr>sf_range = rng, sf_pkt = pkt, sf_data = data\<rparr> fin (ossl_sframe_list_insert alloc fl rng pkt data fin)"
proof (cases "sf_end (last (frames fl)) \<ge> rend rng")
  let ?new = "\<lparr>sf_range = rng, sf_pkt = pkt, sf_data = data\<rparr>"
  case True
  have "sf_span ?new \<subseteq> sf_span (last (frames fl))" "last (frames fl) \<in> set (frames fl)" using last True by (auto simp: sf_span_def)
  then have "inserted alloc fl ?new fin (insert_end fin fl)" using True order.trans [OF _ fl_end_ge(2)]
    by (intro inserted_covered [OF inv]) (auto simp: received_def)
  then show ?thesis using less_le_not_le [THEN iffD1, THEN conjunct2, OF rng(2)] last True by (simp add: ossl_sframe_list_insert_def)
next
  let ?new = "\<lparr>sf_range = rng, sf_pkt = pkt, sf_data = data\<rparr>"
  case False
  have sorted: "sorted_wrt sf_before (frames fl)" using inv by (simp add: fl_inv_def)
  have "sf_before x ?new" if "x \<in> set (frames fl)" for x
  proof -
    have "sf_start x \<le> rstart rng" using last_start [OF sorted that] last(2) by order
    moreover have "sf_end x < rend rng" using last_end [OF sorted that] False by order
    ultimately show ?thesis by (simp add: sf_before_def)
  qed
  then have "sorted_wrt sf_before (frames fl @ [?new])" using sorted by (simp add: sorted_wrt_append)
  then have "inserted alloc fl ?new fin (insert_end fin (fl\<lparr>pkt_refs := refs, frames := frames fl @ [?new], num_frames := num_frames fl + 1\<rparr>))" for refs
    unfolding insert_end_def using inv rng by (intro inserted_changed) (auto simp: fl_inv_def)
  then show ?thesis using less_le_not_le [THEN iffD1, THEN conjunct2, OF rng(2)] last False inserted_failed [OF inv]
    by (cases alloc) (simp_all add: ossl_sframe_list_insert_def append_frame_def stream_frame_new_eq)
qed

lemma inserted_between:
  assumes inv: "fl_inv fl" and rng: "rstart rng \<le> rend rng" "fl_offset fl < rend rng"
    and last: "frames fl \<noteq> []" "\<not> sf_start (last (frames fl)) < rstart rng"
  shows "inserted alloc fl \<lparr>sf_range = rng, sf_pkt = pkt, sf_data = data\<rparr> fin (ossl_sframe_list_insert alloc fl rng pkt data fin)"
proof -
  let ?new = "\<lparr>sf_range = rng, sf_pkt = pkt, sf_data = data\<rparr>"
  define bs where "bs = takeWhile (\<lambda>sf. sf_start sf < rstart rng) (frames fl)"
  define rest where "rest = dropWhile (\<lambda>sf. sf_start sf < rstart rng) (frames fl)"
  define cs where "cs = takeWhile (\<lambda>sf. sf_end sf \<le> rend rng) rest"
  define rs where "rs = dropWhile (\<lambda>sf. sf_end sf \<le> rend rng) rest"
  note names = bs_def [symmetric] rest_def [symmetric] cs_def [symmetric] rs_def [symmetric]
  have split: "frames fl = bs @ cs @ rs" by (simp add: bs_def cs_def rs_def rest_def)
  have rest: "rest \<noteq> []" using last unfolding rest_def by (auto simp: dropWhile_eq_Nil_conv)
  have sorted: "sorted_wrt sf_before (frames fl)" "sorted_wrt sf_before rest"
    using inv split by (simp_all add: fl_inv_def cs_def rs_def sorted_wrt_append)
  have b: "\<forall>x \<in> set bs. sf_start x < sf_start ?new" by (auto simp: bs_def dest: set_takeWhileD)
  have st: "\<forall>x \<in> set rest. rstart rng \<le> sf_start x" using dropWhile_start [OF sorted(1)] by (auto simp: rest_def)
  have c: "\<forall>x \<in> set cs. sf_start ?new \<le> sf_start x \<and> sf_end x \<le> sf_end ?new" using st by (auto simp: cs_def dest: set_takeWhileD)
  have r: "\<forall>x \<in> set rs. sf_start ?new \<le> sf_start x \<and> sf_end ?new < sf_end x"
    using st dropWhile_end [OF sorted(2)] by (auto simp: rs_def dest: set_dropWhileD)
  have n: "num_frames fl = length bs + length cs + length rs" using inv split by (simp add: fl_inv_def)
  show ?thesis
  proof (cases "bs \<noteq> [] \<and> sf_end (List.last bs) \<ge> rend rng")
    case True
    have "sf_span ?new \<subseteq> sf_span (List.last bs)" "List.last bs \<in> set (frames fl)" using b True split by (auto simp: sf_span_def less_imp_le)
    then have "inserted alloc fl ?new fin (insert_end fin fl)" using True order.trans [OF _ fl_end_ge(2)]
      by (intro inserted_covered [OF inv]) (auto simp: received_def)
    then show ?thesis using less_le_not_le [THEN iffD1, THEN conjunct2, OF rng(2)] last True rest by (simp add: ossl_sframe_list_insert_def names)
  next
    case False
    then have "bs \<noteq> [] \<longrightarrow> sf_end (List.last bs) < sf_end ?new" by auto
    note L = insert_frame_lists [OF sorted(1) [unfolded split] b this c r]
    let ?gap = "\<not> (rs \<noteq> [] \<and> bs \<noteq> [] \<and> sf_start (hd rs) \<le> sf_end (List.last bs))"
    let ?fl = "\<lambda>refs. fold drop_frame cs (fl\<lparr>pkt_refs := refs, frames := bs @ rs\<rparr>)"
    have ce: "sf_end x \<le> v" if "x \<in> set cs" "sf_end ?new \<le> v" for x v using c that order.trans by blast
    have re: "sf_end ?new \<le> v" if "x \<in> set rs" "sf_end x \<le> v" for x v using r that less_imp_le order.trans by blast
    have e': "\<forall>v. (\<forall>x \<in> set (bs @ ?new # rs). sf_end x \<le> v) \<longleftrightarrow> (\<forall>x \<in> set (frames fl). sf_end x \<le> v) \<and> sf_end ?new \<le> v"
      unfolding split using ce by (simp add: ball_Un) blast
    have e: "\<forall>v. (\<forall>x \<in> set (bs @ rs). sf_end x \<le> v) \<longleftrightarrow> (\<forall>x \<in> set (frames fl). sf_end x \<le> v) \<and> sf_end ?new \<le> v" if "rs \<noteq> []"
      unfolding split using ce re [OF hd_in_set [OF that]] hd_in_set [OF that] by (simp add: ball_Un) blast
    have 1: "inserted alloc fl ?new fin (insert_end fin (stream_frame_free (?fl refs) ?new))" if "\<not> ?gap" for refs
      unfolding insert_end_def using inv rng n split L(2) L(4) that by (intro inserted_changed) (use e in \<open>simp_all, auto\<close>)
    have 2: "inserted alloc fl ?new fin (insert_end fin ((?fl refs)\<lparr>frames := bs @ ?new # rs, num_frames := num_frames (?fl refs) + 1\<rparr>))" for refs
      unfolding insert_end_def using inv rng n split L(1,3) by (intro inserted_changed) (use e' in \<open>simp_all, auto\<close>)
    show ?thesis
      using less_le_not_le [THEN iffD1, THEN conjunct2, OF rng(2)] last False rest 1 2 inserted_failed [OF inv]
      by (auto simp: ossl_sframe_list_insert_def names stream_frame_new_eq Let_def)
  qed
qed

lemma insert_outcome:
  assumes "fl_inv fl" "rstart rng \<le> rend rng"
  shows "inserted alloc fl \<lparr>sf_range = rng, sf_pkt = pkt, sf_data = data\<rparr> fin (ossl_sframe_list_insert alloc fl rng pkt data fin)"
proof -
  consider "fl_offset fl \<ge> rend rng" | "fl_offset fl < rend rng" "frames fl = []"
    | "fl_offset fl < rend rng" "frames fl \<noteq> []" "sf_start (last (frames fl)) < rstart rng"
    | "fl_offset fl < rend rng" "frames fl \<noteq> []" "\<not> sf_start (last (frames fl)) < rstart rng" by fastforce
  then show ?thesis
  proof cases
    case 1
    then have "inserted alloc fl \<lparr>sf_range = rng, sf_pkt = pkt, sf_data = data\<rparr> fin (insert_end fin fl)"
      by (intro inserted_covered [OF assms(1)]) (auto simp: sf_span_def intro: order.trans [OF _ fl_end_ge(1)])
    then show ?thesis using 1 by (simp add: ossl_sframe_list_insert_def)
  next
    case 2
    then have "inserted alloc fl \<lparr>sf_range = rng, sf_pkt = pkt, sf_data = data\<rparr> fin
        (insert_end fin (fl\<lparr>pkt_refs := refs, frames := [\<lparr>sf_range = rng, sf_pkt = pkt, sf_data = data\<rparr>], num_frames := num_frames fl + 1\<rparr>))" for refs
      unfolding insert_end_def using assms by (intro inserted_changed) (auto simp: fl_inv_def)
    then show ?thesis using 2(2) less_le_not_le [THEN iffD1, THEN conjunct2, OF 2(1)] inserted_failed [OF assms(1)]
      by (cases alloc) (simp_all add: ossl_sframe_list_insert_def stream_frame_new_eq)
  qed (use assms inserted_at_end inserted_between in blast)+
qed


section \<open>Dropping and peeking\<close>

lemma drop_frames_correct:
  assumes inv: "fl_inv fl" and lim: "fl_offset fl \<le> limit" "if frames fl = [] then limit = fl_offset fl else limit \<le> sf_end (last (frames fl))"
  obtains fl' where "ossl_sframe_list_drop_frames fl limit = (True, fl')" "fl_inv fl'" "fl_offset fl' = limit"
    "frames fl' = dropWhile (\<lambda>sf. sf_end sf \<le> limit) (frames fl)" "received fl' = received fl \<inter> {limit..}" "fl_fin fl' = fl_fin fl"
    "\<not> head_locked fl'" "fl_cleanse fl' = fl_cleanse fl"
proof -
  define rest where "rest = dropWhile (\<lambda>sf. sf_end sf \<le> limit) (frames fl)"
  define out where "out = takeWhile (\<lambda>sf. sf_end sf \<le> limit) (frames fl)"
  let ?fl = "(fold drop_frame out (fl\<lparr>fl_offset := limit\<rparr>))\<lparr>frames := rest, head_locked := False\<rparr>"
  have split: "frames fl = out @ rest" by (simp add: out_def rest_def)
  have "sorted_wrt sf_before (frames fl)" using inv by (simp add: fl_inv_def)
  then have r: "\<forall>x \<in> set rest. limit < sf_end x" using dropWhile_end by (auto simp: rest_def)
  have o: "\<forall>x \<in> set out. sf_end x \<le> limit" by (auto simp: out_def dest: set_takeWhileD)
  have "fl_inv ?fl" using inv r by (auto simp: fl_inv_def split sorted_wrt_append)
  moreover have "received ?fl = received fl \<inter> {limit..}"
    using o lim(1) by (fastforce simp: received_def split sf_span_def)
  moreover have "ossl_sframe_list_drop_frames fl limit = (True, ?fl)"
    using lim by (auto simp: ossl_sframe_list_drop_frames_def Let_def rest_def out_def split: if_splits)
  ultimately show thesis by (intro that [of ?fl]) (simp_all add: rest_def)
qed

text \<open>The end of the data that can be read without a gap, and what it is.\<close>

fun contig_end :: "u64 \<Rightarrow> STREAM_FRAME list \<Rightarrow> u64" where
  "contig_end start [] = start"
| "contig_end start (sf # fs) = (if sf_start sf > start then start else contig_end (sf_end sf) fs)"

lemma contig_end_bounds:
  assumes "sorted_wrt sf_before fs" "\<forall>sf \<in> set fs. start < sf_end sf"
  shows "start \<le> contig_end start fs" "fs \<noteq> [] \<Longrightarrow> contig_end start fs \<le> sf_end (last fs)"
    "{start..<contig_end start fs} \<subseteq> (\<Union>sf \<in> set fs. sf_span sf)" "contig_end start fs \<notin> (\<Union>sf \<in> set fs. sf_span sf)"
  using assms
proof (induction start fs rule: contig_end.induct)
  case (2 start sf fs)
  {
    case 1
    then show ?case using 2(1) by (auto simp: sf_before_def intro: order.trans less_imp_le)
  next
    case 2
    then show ?case using "2.IH"(2) less_imp_le by (cases "fs = []") (auto simp: sf_before_def)
  next
    case 3
    show ?case
    proof (cases "start < sf_start sf")
      case False
      have "{start..<contig_end start (sf # fs)} \<subseteq> sf_span sf \<union> {sf_end sf..<contig_end (sf_end sf) fs}"
        using False by (auto simp: sf_span_def)
      then show ?thesis using False "2.IH"(3) 3 by (auto simp: sf_before_def)
    qed simp
  next
    case 4
    show ?case
    proof (cases "start < sf_start sf")
      case True
      then show ?thesis using 4 by (force simp: sf_before_def sf_span_def)
    next
      case False
      have "sf_end sf \<le> contig_end (sf_end sf) fs" "contig_end (sf_end sf) fs \<notin> (\<Union>sf \<in> set fs. sf_span sf)"
        using False "2.IH"(1,4) 4 by (auto simp: sf_before_def)
      then show ?thesis using False by (auto simp: sf_span_def)
    qed
  }
qed simp_all

lemma contig_end_received:
  assumes "fl_inv fl"
  shows "{fl_offset fl..<contig_end (fl_offset fl) (frames fl)} \<subseteq> received fl" "contig_end (fl_offset fl) (frames fl) \<notin> received fl"
    "fl_offset fl \<le> contig_end (fl_offset fl) (frames fl)"
  using contig_end_bounds [of "frames fl" "fl_offset fl"] assms by (auto simp: fl_inv_def received_def)


lemma fl_end_last: "fl_inv fl \<Longrightarrow> fl_end fl = (if frames fl = [] then fl_offset fl else sf_end (last (frames fl)))"
proof (cases "frames fl = []")
  case False
  assume inv: "fl_inv fl"
  have "fl_end fl \<le> sf_end (last (frames fl))"
    using inv last_end [of "frames fl"] False by (auto simp: fl_end_le fl_inv_def less_imp_le)
  then show ?thesis using fl_end_ge(2) [of "last (frames fl)" fl] False by simp
qed (simp add: fl_end_def)

lemma contig_end_le: "fl_inv fl \<Longrightarrow> contig_end (fl_offset fl) (frames fl) \<le> fl_end fl"
  using contig_end_bounds(2) [of "frames fl" "fl_offset fl"] by (auto simp: fl_end_last fl_inv_def)


section \<open>Data of the frames and the side storage\<close>

text \<open>
  A frame holds bytes of the stream \<open>f\<close>: from the offset \<open>off\<close> on they are in the packet or, once moved, in
  the side storage \<open>st\<close>. Stream offsets stay below the limit of the protocol.
\<close>

definition sf_holds :: "(nat \<Rightarrow> u8) \<Rightarrow> (nat \<rightharpoonup> u8) \<Rightarrow> u64 \<Rightarrow> STREAM_FRAME \<Rightarrow> bool" where
  "sf_holds f st off sf \<longleftrightarrow> unat (sf_end sf) \<le> 2 ^ 62 \<and>
     (case sf_data sf of
        Some d \<Rightarrow> unat (sf_end sf) \<le> unat (sf_start sf) + length d
          \<and> (\<forall>j. unat (sf_start sf) \<le> j \<longrightarrow> j < unat (sf_end sf) \<longrightarrow> d ! (j - unat (sf_start sf)) = f j)
      | None \<Rightarrow> \<forall>j. unat off \<le> j \<longrightarrow> unat (sf_start sf) \<le> j \<longrightarrow> j < unat (sf_end sf) \<longrightarrow> st j = Some (f j))"

definition frames_ok :: "(nat \<Rightarrow> u8) \<Rightarrow> (nat \<rightharpoonup> u8) \<Rightarrow> u64 \<Rightarrow> STREAM_FRAME list \<Rightarrow> bool" where
  "frames_ok f st off xs \<longleftrightarrow> sorted_wrt sf_before xs \<and> (\<forall>x \<in> set xs. sf_holds f st off x \<and> sf_start x \<le> sf_end x \<and> off < sf_end x)"

lemma sf_holds_mono: "sf_holds f st off sf \<Longrightarrow> \<forall>j. st j = Some (f j) \<longrightarrow> st' j = Some (f j) \<Longrightarrow> off \<le> off' \<Longrightarrow> sf_holds f st' off' sf"
  by (auto simp: sf_holds_def word_le_nat_alt split: option.splits)

lemma frames_ok_mono: "frames_ok f st off xs \<Longrightarrow> \<forall>j. st j = Some (f j) \<longrightarrow> st' j = Some (f j) \<Longrightarrow> frames_ok f st' off xs"
  using sf_holds_mono by (fastforce simp: frames_ok_def)

text \<open>Only the frames, their number and the reference counts may differ.\<close>

definition same_list :: "SFRAME_LIST \<Rightarrow> SFRAME_LIST \<Rightarrow> bool" where
  "same_list fl fl' \<longleftrightarrow> fl_fin fl' = fl_fin fl \<and> fl_offset fl' = fl_offset fl \<and> head_locked fl' = head_locked fl \<and> fl_cleanse fl' = fl_cleanse fl"

text \<open>
  What the list relies on: a call to the callback that succeeds stores the bytes and loses none that was stored, and
  one that fails changes nothing. \<open>low\<close> is the part of the storage that calls leave alone.
\<close>

locale side_storage =
  fixes write_at :: "u64 \<Rightarrow> u8 list \<Rightarrow> nat \<Rightarrow> 's \<Rightarrow> bool \<times> 's"
    and storage_inv :: "'s \<Rightarrow> bool" and stored :: "'s \<Rightarrow> nat \<rightharpoonup> u8" and low :: "'s \<Rightarrow> 'l"
  assumes write_ok: "storage_inv s \<Longrightarrow> write_at off d n s = (True, s') \<Longrightarrow> n \<le> length d \<Longrightarrow> unat off + n \<le> 2 ^ 62 \<Longrightarrow>
      storage_inv s' \<and> low s' = low s \<and> (\<forall>j. unat off \<le> j \<longrightarrow> j < unat off + n \<longrightarrow> stored s' j = Some (d ! (j - unat off)))
      \<and> (\<forall>j. \<not> (unat off \<le> j \<and> j < unat off + n) \<longrightarrow> stored s j \<noteq> None \<longrightarrow> stored s' j = stored s j)"
    and write_failed: "write_at off d n s = (False, s') \<Longrightarrow> s' = s"
begin

lemma move_frame:
  assumes "storage_inv s" "sf_holds f (stored s) off sf" "sf_data sf = Some d" "sf_start sf \<le> limit" "limit \<le> sf_end sf"
    and "write_at limit (drop (unat (limit - sf_start sf)) d) (unat (sf_end sf - limit)) s = (True, s')"
  shows "storage_inv s' \<and> low s' = low s \<and> (\<forall>j. stored s j = Some (f j) \<longrightarrow> stored s' j = Some (f j))
    \<and> (\<forall>j. unat limit \<le> j \<longrightarrow> j < unat (sf_end sf) \<longrightarrow> stored s' j = Some (f j))"
proof -
  let ?s = "unat (sf_start sf)" and ?l = "unat limit" and ?e = "unat (sf_end sf)"
  have h: "?e \<le> 2 ^ 62" "?e \<le> ?s + length d" "\<forall>j. ?s \<le> j \<longrightarrow> j < ?e \<longrightarrow> d ! (j - ?s) = f j"
    using assms(2,3) by (auto simp: sf_holds_def)
  have u: "unat (limit - sf_start sf) = ?l - ?s" "unat (sf_end sf - limit) = ?e - ?l" "?s \<le> ?l" "?l \<le> ?e"
    using assms(4,5) by (simp_all add: unat_sub_exact word_le_nat_alt)
  have w: "storage_inv s' \<and> low s' = low s \<and> (\<forall>j. ?l \<le> j \<longrightarrow> j < ?l + (?e - ?l) \<longrightarrow> stored s' j = Some (drop (?l - ?s) d ! (j - ?l)))
      \<and> (\<forall>j. \<not> (?l \<le> j \<and> j < ?l + (?e - ?l)) \<longrightarrow> stored s j \<noteq> None \<longrightarrow> stored s' j = stored s j)"
    using write_ok [OF assms(1,6) [unfolded u]] h u by simp
  have "stored s' j = Some (f j)" if "?l \<le> j" "j < ?e" for j
    using w that h(2) u h(3) [rule_format, of j] by (simp add: nth_drop)
  then show ?thesis using w u by (metis le_add_diff_inverse option.distinct(1))
qed

lemma move_step:
  assumes "storage_inv s" "sf_holds f (stored s) off sf" "sf_start sf \<le> lim" "lim \<le> sf_end sf"
    and cov: "\<forall>j. unat off \<le> j \<longrightarrow> unat (sf_start sf) \<le> j \<longrightarrow> j < unat lim \<longrightarrow> stored s j = Some (f j)"
    and r: "(case sf_data sf of
               None \<Rightarrow> (True, sf, fl, s)
             | Some data \<Rightarrow>
                 let data = (if lim > sf_start sf then drop (unat (lim - sf_start sf)) data else data);
                     (ok, s) = write_at lim data (unat (sf_end sf - lim)) s
                 in if \<not> ok then (False, sf, fl, s)
                    else (True, sf\<lparr>sf_data := None, sf_pkt := None\<rparr>,
                          fl\<lparr>pkt_refs := ossl_qrx_pkt_release (pkt_refs fl) (sf_pkt sf)\<rparr>, s)) = (ok, sf', fl1, s1)"
  shows "\<not> ok \<Longrightarrow> s1 = s \<and> fl1 = fl"
    "ok \<Longrightarrow> storage_inv s1 \<and> low s1 = low s \<and> (\<forall>j. stored s j = Some (f j) \<longrightarrow> stored s1 j = Some (f j))
      \<and> sf_range sf' = sf_range sf \<and> sf_data sf' = None \<and> sf_holds f (stored s1) off sf' \<and> same_list fl fl1 \<and> num_frames fl1 = num_frames fl"
proof -
  have "(\<not> ok \<longrightarrow> s1 = s \<and> fl1 = fl) \<and> (ok \<longrightarrow> storage_inv s1 \<and> low s1 = low s \<and> (\<forall>j. stored s j = Some (f j) \<longrightarrow> stored s1 j = Some (f j))
      \<and> sf_range sf' = sf_range sf \<and> sf_data sf' = None \<and> sf_holds f (stored s1) off sf' \<and> same_list fl fl1 \<and> num_frames fl1 = num_frames fl)"
  proof (cases "sf_data sf")
    case None
    then show ?thesis using r assms(1,2) by (auto simp: same_list_def)
  next
    case (Some d)
    let ?d = "drop (unat (lim - sf_start sf)) d"
    have d: "(if lim > sf_start sf then ?d else d) = ?d" using assms(3) by (auto simp: not_less)
    obtain k s2 where w: "write_at lim ?d (unat (sf_end sf - lim)) s = (k, s2)" by fastforce
    show ?thesis
    proof (cases k)
      case True
      then have "write_at lim ?d (unat (sf_end sf - lim)) s = (True, s2)" using w by simp
      note m = move_frame [OF assms(1,2) Some assms(3,4) this]
      have "stored s2 j = Some (f j)" if "unat off \<le> j" "unat (sf_start sf) \<le> j" "j < unat (sf_end sf)" for j
        using m cov that by (cases "j < unat lim") auto
      then show ?thesis using r m assms(2) unfolding Some option.case d w Let_def by (auto simp: True sf_holds_def same_list_def)
    next
      case False
      then have "write_at lim ?d (unat (sf_end sf - lim)) s = (False, s2)" using w by simp
      from write_failed [OF this] show ?thesis using r False unfolding Some option.case d w Let_def by auto
    qed
  qed
  then show "\<not> ok \<Longrightarrow> s1 = s \<and> fl1 = fl"
    "ok \<Longrightarrow> storage_inv s1 \<and> low s1 = low s \<and> (\<forall>j. stored s j = Some (f j) \<longrightarrow> stored s1 j = Some (f j))
      \<and> sf_range sf' = sf_range sf \<and> sf_data sf' = None \<and> sf_holds f (stored s1) off sf' \<and> same_list fl fl1 \<and> num_frames fl1 = num_frames fl" by blast+
qed

text \<open>Merging a frame into the one in front of it.\<close>

lemma merge_frames:
  assumes "frames_ok f st off (rev (p # ps) @ sf # rest)" "sf_data p = None" "sf_data sf = None" "sf_end p \<ge> sf_start sf"
    and m: "m = p\<lparr>sf_range := (sf_range p)\<lparr>rend := sf_end sf\<rparr>\<rparr>"
  shows "frames_ok f st off (rev (m # ps) @ rest)" "sf_span m = sf_span p \<union> sf_span sf" "sf_data m = None"
proof -
  have b: "sf_start p \<le> sf_start sf" "sf_end p < sf_end sf" "sf_start sf \<le> sf_end sf" using assms(1) by (auto simp: frames_ok_def sorted_wrt_append sf_before_def)
  show "sf_span m = sf_span p \<union> sf_span sf" using b assms(4) by (auto simp: m sf_span_def)
  show d: "sf_data m = None" using assms(2) by (simp add: m)
  have h: "sf_holds f st off p" "sf_holds f st off sf" "off < sf_end sf" using assms(1) by (auto simp: frames_ok_def)
  have "sf_holds f st off m" unfolding sf_holds_def d option.case
  proof (intro conjI allI impI)
    show "unat (sf_end m) \<le> 2 ^ 62" using h(2) by (simp add: m sf_holds_def)
    fix j
    assume j: "unat off \<le> j" "unat (sf_start m) \<le> j" "j < unat (sf_end m)"
    show "st j = Some (f j)"
    proof (cases "j < unat (sf_end p)")
      case True
      then show ?thesis using h(1) j assms(2) by (simp add: sf_holds_def m)
    next
      case False
      then have "unat (sf_start sf) \<le> j" using assms(4) by (simp add: word_le_nat_alt)
      then show ?thesis using h(2) j assms(3) by (simp add: sf_holds_def m)
    qed
  qed
  moreover have "sf_start m \<le> sf_end m" "sf_end m = sf_end sf" "sf_start m = sf_start p" using b by (auto simp: m)
  ultimately show "frames_ok f st off (rev (m # ps) @ rest)"
    using assms(1) h(3) b by (auto simp: frames_ok_def sorted_wrt_append sf_before_def intro: order.trans less_trans)
qed

lemma move_loop_correct:
  assumes "move_loop write_at passed limit rest fl s = (ok, fs, fl', s')" "storage_inv s"
    and "frames_ok f (stored s) off (rev passed @ rest)" "\<forall>x \<in> set passed. sf_data x = None"
    and "limit = (case passed of [] \<Rightarrow> off | x # _ \<Rightarrow> sf_end x)" "length passed + length rest \<le> num_frames fl"
  shows "storage_inv s' \<and> low s' = low s \<and> (\<forall>j. stored s j = Some (f j) \<longrightarrow> stored s' j = Some (f j)) \<and> frames_ok f (stored s') off fs
    \<and> (\<Union>x \<in> set fs. sf_span x) = (\<Union>x \<in> set (rev passed @ rest). sf_span x)
    \<and> num_frames fl' + (length passed + length rest) = num_frames fl + length fs
    \<and> (\<forall>x \<in> set fs. \<exists>y \<in> set (rev passed @ rest). \<exists>z \<in> set (rev passed @ rest). sf_start x = sf_start y \<and> sf_end x = sf_end z) \<and> (rev passed @ rest \<noteq> [] \<longrightarrow> fs \<noteq> [] \<and> sf_end (last fs) = sf_end (last (rev passed @ rest)))
    \<and> same_list fl fl'"
  using assms
proof (induction rest arbitrary: passed limit fl s)
  case Nil
  then show ?case by (auto simp: same_list_def)
next
  case (Cons sf rest)
  define lim where "lim = (if limit < sf_start sf then sf_start sf else limit)"
  have sf: "sf_holds f (stored s) off sf" "sf_start sf \<le> sf_end sf" "off < sf_end sf"
    and pre: "\<forall>x \<in> set passed. sf_before x sf \<and> sf_holds f (stored s) off x" using Cons.prems(3) by (auto simp: frames_ok_def sorted_wrt_append)
  have lim: "sf_start sf \<le> lim" "lim \<le> sf_end sf"
    using sf(2,3) pre Cons.prems(5) by (auto simp: lim_def sf_before_def not_less less_imp_le split: list.splits)
  have cov: "\<forall>j. unat off \<le> j \<longrightarrow> unat (sf_start sf) \<le> j \<longrightarrow> j < unat lim \<longrightarrow> stored s j = Some (f j)"
  proof (intro allI impI)
    fix j
    assume j: "unat off \<le> j" "unat (sf_start sf) \<le> j" "j < unat lim"
    have "\<not> limit < sf_start sf" using j by (auto simp: lim_def split: if_splits)
    then have l: "lim = limit" by (simp add: lim_def)
    then obtain x xs where x: "passed = x # xs" "limit = sf_end x" using Cons.prems(5) j by (cases passed) auto
    then have "sf_start x \<le> sf_start sf" "sf_holds f (stored s) off x" "sf_data x = None" using pre Cons.prems(4) by (auto simp: sf_before_def)
    then show "stored s j = Some (f j)" using j l x by (auto simp: sf_holds_def word_le_nat_alt)
  qed
  obtain k sf' fl1 s1 where r: "(case sf_data sf of
               None \<Rightarrow> (True, sf, fl, s)
             | Some data \<Rightarrow>
                 let data = (if lim > sf_start sf then drop (unat (lim - sf_start sf)) data else data);
                     (ok, s) = write_at lim data (unat (sf_end sf - lim)) s
                 in if \<not> ok then (False, sf, fl, s)
                    else (True, sf\<lparr>sf_data := None, sf_pkt := None\<rparr>,
                          fl\<lparr>pkt_refs := ossl_qrx_pkt_release (pkt_refs fl) (sf_pkt sf)\<rparr>, s)) = (k, sf', fl1, s1)"
    using prod_cases4 by blast
  note st = move_step [OF Cons.prems(2) sf(1) lim cov r]
  have step: "move_loop write_at passed limit (sf # rest) fl s =
      (if \<not> k then (False, rev passed @ sf # rest, fl1, s1)
       else case passed of
             prev_frame # passed' \<Rightarrow>
               if sf_end prev_frame \<ge> sf_start sf' then
                 move_loop write_at (prev_frame\<lparr>sf_range := (sf_range prev_frame)\<lparr>rend := sf_end sf'\<rparr>\<rparr> # passed') (sf_end sf') rest
                   (stream_frame_free (fl1\<lparr>num_frames := num_frames fl1 - 1\<rparr>) sf') s1
               else move_loop write_at (sf' # passed) (sf_end sf') rest fl1 s1
           | [] \<Rightarrow> move_loop write_at [sf'] (sf_end sf') rest fl1 s1)"
    unfolding move_loop.simps lim_def [symmetric] Let_def r [unfolded Let_def] by simp
  show ?case
  proof (cases k)
    case False
    then show ?thesis using Cons.prems(1) [unfolded step] Cons.prems(2-6) st(1) by (auto simp: same_list_def)
  next
    case True
    note m = st(2) [OF True]
    have fo: "frames_ok f (stored s1) off (rev (sf' # passed) @ rest)"
      using frames_ok_mono [OF Cons.prems(3), of "stored s1"] m by (auto simp: frames_ok_def sorted_wrt_append sf_before_def)
    show ?thesis
    proof (cases "passed \<noteq> [] \<and> sf_end (hd passed) \<ge> sf_start sf'")
      case merge: True
      then obtain p ps where p: "passed = p # ps" by (cases passed) auto
      let ?m = "p\<lparr>sf_range := (sf_range p)\<lparr>rend := sf_end sf'\<rparr>\<rparr>"
      have "frames_ok f (stored s1) off (rev (p # ps) @ sf' # rest)" "sf_data p = None" "sf_data sf' = None" "sf_end p \<ge> sf_start sf'"
        using fo merge p m Cons.prems(4) by simp_all
      note mf = merge_frames [OF this refl]
      let ?fl = "stream_frame_free (fl1\<lparr>num_frames := num_frames fl1 - 1\<rparr>) sf'"
      have "move_loop write_at (?m # ps) (sf_end sf') rest ?fl s1 = (ok, fs, fl', s')"
        using Cons.prems(1) [unfolded step] True merge p by simp
      note IH = Cons.IH [OF this _ mf(1)]
      have "storage_inv s' \<and> low s' = low s1 \<and> (\<forall>j. stored s1 j = Some (f j) \<longrightarrow> stored s' j = Some (f j)) \<and> frames_ok f (stored s') off fs
        \<and> (\<Union>x \<in> set fs. sf_span x) = (\<Union>x \<in> set (rev (?m # ps) @ rest). sf_span x)
        \<and> num_frames fl' + (length (?m # ps) + length rest) = num_frames ?fl + length fs
        \<and> (\<forall>x \<in> set fs. \<exists>y \<in> set (rev (?m # ps) @ rest). \<exists>z \<in> set (rev (?m # ps) @ rest). sf_start x = sf_start y \<and> sf_end x = sf_end z) \<and> (rev (?m # ps) @ rest \<noteq> [] \<longrightarrow> fs \<noteq> [] \<and> sf_end (last fs) = sf_end (last (rev (?m # ps) @ rest)))
        \<and> same_list ?fl fl'"
        by (rule IH) (use m mf(3) Cons.prems(4,6) p in auto)
      moreover have "sf_span sf' = sf_span sf" using m by (simp add: sf_span_def)
      ultimately show ?thesis using m mf(2) p Cons.prems(6) by (intro conjI) (auto simp: same_list_def hd_append split: if_splits)
    next
      case False
      then have "move_loop write_at passed limit (sf # rest) fl s = move_loop write_at (sf' # passed) (sf_end sf') rest fl1 s1"
        unfolding step using True by (auto split: list.splits)
      then have "move_loop write_at (sf' # passed) (sf_end sf') rest fl1 s1 = (ok, fs, fl', s')" using Cons.prems(1) by simp
      note IH = Cons.IH [OF this _ fo]
      have sp: "sf_span sf' = sf_span sf" "sf_range sf' = sf_range sf" using m by (simp_all add: sf_span_def)
      have res: "storage_inv s' \<and> low s' = low s1 \<and> (\<forall>j. stored s1 j = Some (f j) \<longrightarrow> stored s' j = Some (f j)) \<and> frames_ok f (stored s') off fs
        \<and> (\<Union>x \<in> set fs. sf_span x) = (\<Union>x \<in> set (rev (sf' # passed) @ rest). sf_span x)
        \<and> num_frames fl' + (length (sf' # passed) + length rest) = num_frames fl1 + length fs
        \<and> (\<forall>x \<in> set fs. \<exists>y \<in> set (rev (sf' # passed) @ rest). \<exists>z \<in> set (rev (sf' # passed) @ rest). sf_start x = sf_start y \<and> sf_end x = sf_end z) \<and> (rev (sf' # passed) @ rest \<noteq> [] \<longrightarrow> fs \<noteq> [] \<and> sf_end (last fs) = sf_end (last (rev (sf' # passed) @ rest)))
        \<and> same_list fl1 fl'"
        by (rule IH) (use m Cons.prems(4,6) in auto)
      then show ?thesis using m sp by (intro conjI) (auto simp: same_list_def hd_append split: if_splits)
    qed
  qed
qed

lemma move_data_correct:
  assumes inv: "storage_inv s" "fl_inv fl" "frames_ok f (stored s) (fl_offset fl) (frames fl)"
    and m: "ossl_sframe_list_move_data write_at fl s = (ok, fl', s')"
  shows "storage_inv s'" "low s' = low s" "fl_inv fl'" "frames_ok f (stored s') (fl_offset fl) (frames fl')" "received fl' = received fl"
    "same_list fl fl'" "(frames fl' = [] \<longleftrightarrow> frames fl = []) \<and> (frames fl \<noteq> [] \<longrightarrow> sf_end (last (frames fl')) = sf_end (last (frames fl)))"
proof -
  have "storage_inv s' \<and> low s' = low s \<and> fl_inv fl' \<and> frames_ok f (stored s') (fl_offset fl) (frames fl') \<and> received fl' = received fl
    \<and> same_list fl fl' \<and> (frames fl' = [] \<longleftrightarrow> frames fl = []) \<and> (frames fl \<noteq> [] \<longrightarrow> sf_end (last (frames fl')) = sf_end (last (frames fl)))"
  proof (cases "frames fl = []")
    case True
    then show ?thesis using m inv by (auto simp: ossl_sframe_list_move_data_def same_list_def)
  next
    case False
    define kept where "kept = (if head_locked fl then [hd (frames fl)] else [])"
    define moving where "moving = (if head_locked fl then tl (frames fl) else frames fl)"
    have split: "frames fl = kept @ moving" using False by (simp add: kept_def moving_def)
    obtain fs fl1 where l: "move_loop write_at [] (fl_offset fl) moving fl s = (ok, fs, fl1, s')" and fl': "fl' = fl1\<lparr>frames := kept @ fs\<rparr>"
      using m False by (auto simp: ossl_sframe_list_move_data_def kept_def moving_def split: prod.splits if_splits)
    have n: "length [] + length moving \<le> num_frames fl" using inv(2) split by (simp add: fl_inv_def)
    have fo: "frames_ok f (stored s) (fl_offset fl) (rev [] @ moving)" using inv(3) split by (auto simp: frames_ok_def sorted_wrt_append)
    note r = move_loop_correct [OF l inv(1) fo _ _ n, simplified]
    have kb: "sf_before x y" if xy: "x \<in> set kept" "y \<in> set fs" for x y
    proof -
      obtain u v where "u \<in> set moving" "v \<in> set moving" "sf_start y = sf_start u" "sf_end y = sf_end v" using r xy(2) by blast
      moreover have "sf_before x u" "sf_before x v" using inv(3) xy(1) calculation unfolding split frames_ok_def sorted_wrt_append by blast+
      ultimately show ?thesis by (simp add: sf_before_def)
    qed
    have fo': "frames_ok f (stored s') (fl_offset fl) (kept @ fs)"
      using frames_ok_mono [OF inv(3), of "stored s'"] r kb unfolding split by (auto simp: frames_ok_def sorted_wrt_append)
    have "num_frames fl1 = length (kept @ fs)" using r inv(2) unfolding fl_inv_def split by simp
    then have "fl_inv fl'" using fo' r by (auto simp: fl_inv_def frames_ok_def fl' same_list_def)
    moreover have "received fl' = received fl" using r by (auto simp: received_def fl' split same_list_def)
    moreover have "fs = [] \<longleftrightarrow> moving = []" using r by (cases "moving = []"; cases fs) auto
    then have "(kept @ fs = [] \<longleftrightarrow> kept @ moving = []) \<and> (kept @ moving \<noteq> [] \<longrightarrow> sf_end (last (kept @ fs)) = sf_end (last (kept @ moving)))"
      using r by (cases "moving = []") auto
    ultimately show ?thesis using r fo' unfolding split by (auto simp: fl' same_list_def)
  qed
  then show "storage_inv s'" "low s' = low s" "fl_inv fl'" "frames_ok f (stored s') (fl_offset fl) (frames fl')" "received fl' = received fl"
    "same_list fl fl'" "(frames fl' = [] \<longleftrightarrow> frames fl = []) \<and> (frames fl \<noteq> [] \<longrightarrow> sf_end (last (frames fl')) = sf_end (last (frames fl)))"
    by blast+
qed

end


section \<open>Properties\<close>

lemma takeWhile_filter_sorted:
  assumes "sorted_wrt sf_before fs"
  shows "takeWhile (\<lambda>sf. sf_end sf \<le> e) fs = filter (\<lambda>sf. sf_end sf \<le> e) fs" "dropWhile (\<lambda>sf. sf_end sf \<le> e) fs = filter (\<lambda>sf. e < sf_end sf) fs"
  using assms by (induction fs) (fastforce simp: sf_before_def intro!: filter_False [symmetric] filter_True [symmetric])+

lemma drop_frames_refs:
  "frames (fold drop_frame fs fl) = frames fl \<and> head_locked (fold drop_frame fs fl) = head_locked fl
   \<and> pkt_refs (fold drop_frame fs fl) p = pkt_refs fl p - length (filter (\<lambda>sf. sf_pkt sf = Some p) fs)"
  by (induction fs arbitrary: fl) (auto simp: drop_frame_def stream_frame_free_def ossl_qrx_pkt_release_def split: option.splits)

text \<open>C27: A locked head is not protected from insertion. The list locks its head while the application
  uses the data of the frame in place, but whatever list has its head locked, \<^verbatim>\<open>ossl_sframe_list_insert\<close> of a range that covers the
  head puts the new frame in its place and releases the references of the covered frames, the head's among them, while the
  list still says that its head is locked. So where the head held the last reference to its packet and the new frame is from another one, none is left.
\<close>

theorem locked_head_released:
  assumes "fl_inv fl" "head_locked fl" "frames fl = sf # fs" "sf_pkt sf = Some p"
    "rstart rng \<le> sf_start sf" "sf_end sf \<le> rend rng"
  shows "\<exists>fl'. ossl_sframe_list_insert True fl rng pkt data fin = (True, fl') \<and> head_locked fl'
    \<and> frames fl' = \<lparr>sf_range = rng, sf_pkt = pkt, sf_data = data\<rparr> # filter (\<lambda>x. rend rng < sf_end x) fs
    \<and> pkt_refs fl' p = pkt_refs fl p + (if pkt = Some p then 1 else 0) - length (filter (\<lambda>x. sf_end x \<le> rend rng \<and> sf_pkt x = Some p) (sf # fs))"
proof -
  have i: "fl_offset fl < sf_end sf" "sorted_wrt sf_before (sf # fs)" using assms(1,3) by (auto simp: fl_inv_def)
  have off: "\<not> fl_offset fl \<ge> rend rng" using i(1) assms(6) by simp
  have "sf_start sf \<le> sf_start (last (sf # fs))" using i(2) by (auto simp: sf_before_def)
  then have l: "\<not> sf_start (last (sf # fs)) < rstart rng" and h: "\<not> sf_start sf < rstart rng" using assms(5) by auto
  let ?new = "\<lparr>sf_range = rng, sf_pkt = pkt, sf_data = data\<rparr>" and ?cov = "filter (\<lambda>sf. sf_end sf \<le> rend rng) (sf # fs)"
  define fl1 where "fl1 = (case pkt of None \<Rightarrow> fl | Some q \<Rightarrow> fl\<lparr>pkt_refs := ossl_qrx_pkt_up_ref (pkt_refs fl) q\<rparr>)"
  have fl1: "head_locked fl1" "pkt_refs fl1 p = pkt_refs fl p + (if pkt = Some p then 1 else 0)"
    using assms(2) by (auto simp: fl1_def ossl_qrx_pkt_up_ref_def split: option.splits)
  have new: "stream_frame_new True fl rng pkt data = Some (?new, fl1)" by (simp add: stream_frame_new_def fl1_def)
  define fl2 where "fl2 = fold drop_frame ?cov (fl1\<lparr>frames := filter (\<lambda>x. rend rng < sf_end x) (sf # fs)\<rparr>)"
  have "ossl_sframe_list_insert True fl rng pkt data fin
    = insert_end fin (fl2\<lparr>frames := ?new # filter (\<lambda>x. rend rng < sf_end x) (sf # fs), num_frames := num_frames fl2 + 1\<rparr>)"
    unfolding ossl_sframe_list_insert_def assms(3) new using off l h takeWhile_filter_sorted [OF i(2), of "rend rng"]
    by (simp add: Let_def fl2_def)
  moreover have "filter (\<lambda>x. rend rng < sf_end x) (sf # fs) = filter (\<lambda>x. rend rng < sf_end x) fs" using assms(6) by simp
  moreover have "head_locked fl2" "pkt_refs fl2 p = pkt_refs fl1 p - length (filter (\<lambda>x. sf_end x \<le> rend rng \<and> sf_pkt x = Some p) (sf # fs))"
    using drop_frames_refs [of ?cov "fl1\<lparr>frames := filter (\<lambda>x. rend rng < sf_end x) (sf # fs)\<rparr>" p] fl1(1) unfolding fl2_def filter_filter by simp_all
  ultimately show ?thesis unfolding insert_end_def fl1(2) by simp
qed


theorem locked_head_released_witness:
  "\<exists>fl r fl1 fl2. fl_inv fl \<and> ossl_sframe_list_lock_head fl = (Some r, fl1) \<and> pk_ok r \<and> pk_data r = Some [7, 8] \<and> pkt_refs fl1 1 = 1
     \<and> ossl_sframe_list_insert True fl1 \<lparr>rstart = 0, rend = 3\<rparr> (Some 2) (Some [7, 8, 9]) False = (True, fl2) \<and> head_locked fl2 \<and> pkt_refs fl2 1 = 0"
proof -
  let ?sf = "\<lparr>sf_range = \<lparr>rstart = 0, rend = 2\<rparr>, sf_pkt = Some 1, sf_data = Some [7, 8]\<rparr>"
  let ?fl = "\<lparr>frames = [?sf], fl_fin = False, num_frames = 1, fl_offset = 0, head_locked = False, fl_cleanse = False, pkt_refs = (\<lambda>_. 1)\<rparr>"
  let ?r = "ossl_sframe_list_peek ?fl None" and ?fl1 = "?fl\<lparr>head_locked := True\<rparr>"
  have r: "pk_ok ?r" "pk_data ?r = Some [7, 8]" by (simp_all add: ossl_sframe_list_peek_def)
  then have l: "ossl_sframe_list_lock_head ?fl = (Some ?r, ?fl1)" by (simp add: ossl_sframe_list_lock_head_def Let_def)
  have "fl_inv ?fl" "fl_inv ?fl1" by (simp_all add: fl_inv_def)
  moreover from locked_head_released [OF this(2), of ?sf "[]" 1 "\<lparr>rstart = 0, rend = 3\<rparr>" "Some 2" "Some [7, 8, 9]" False]
  obtain fl2 where "ossl_sframe_list_insert True ?fl1 \<lparr>rstart = 0, rend = 3\<rparr> (Some 2) (Some [7, 8, 9]) False = (True, fl2)"
    "head_locked fl2" "pkt_refs fl2 1 = 0" by auto
  ultimately show ?thesis using r l by (intro exI [of _ ?fl] exI [of _ ?r] exI [of _ ?fl1] exI [of _ fl2]) simp
qed

text \<open>
  The header promises that no frame of the list is covered by another. A frame inserted in front of a longer one that starts
  at the same offset stays in the list.
\<close>

lemma covered_frame_kept:
  "map sf_range (frames (snd (ossl_sframe_list_insert True (snd (ossl_sframe_list_insert True (ossl_sframe_list_init (\<lambda>_. 1))
     \<lparr>rstart = 0, rend = 3\<rparr> None (Some [7, 8, 9]) False)) \<lparr>rstart = 0, rend = 2\<rparr> None (Some [7, 8]) False)))
   = [\<lparr>rstart = 0, rend = 2\<rparr>, \<lparr>rstart = 0, rend = 3\<rparr>]"
  by (simp add: ossl_sframe_list_insert_def ossl_sframe_list_init_def stream_frame_new_def insert_end_def drop_frame_def Let_def)

end
