(* ===== verification/StatM.thy ===== *)
theory StatM
  imports SafeMath
begin

text \<open>
  The round trip time estimator of \<^verbatim>\<open>ssl/quic/quic_statm.c\<close>. Times are 64-bit words with the
  saturating arithmetic of the clock type.
\<close>

section \<open>Model\<close>

record OSSL_STATM =
  smoothed_rtt :: ossl_time
  latest_rtt :: ossl_time
  min_rtt :: ossl_time
  rtt_variance :: ossl_time
  have_first_sample :: bool

record OSSL_RTT_INFO =
  ri_smoothed_rtt :: ossl_time
  ri_latest_rtt :: ossl_time
  ri_rtt_variance :: ossl_time
  ri_min_rtt :: ossl_time

definition ossl_statm_update_rtt :: "OSSL_STATM \<Rightarrow> ossl_time \<Rightarrow> ossl_time \<Rightarrow> OSSL_STATM" where
  "ossl_statm_update_rtt statm ack_delay override_latest_rtt =
     (let (latest, statm) = (if ossl_time_is_zero override_latest_rtt then (latest_rtt statm, statm)
                             else (override_latest_rtt, statm\<lparr>latest_rtt := override_latest_rtt\<rparr>))
      in if \<not> have_first_sample statm then
           statm\<lparr>min_rtt := latest, smoothed_rtt := latest, rtt_variance := ossl_time_divide latest 2, have_first_sample := True\<rparr>
         else
           let statm = (if ossl_time_compare latest (min_rtt statm) < 0 then statm\<lparr>min_rtt := latest\<rparr> else statm);
               adjusted = (if ossl_time_compare latest (ossl_time_add (min_rtt statm) ack_delay) \<ge> 0
                           then ossl_time_subtract latest ack_delay else latest);
               statm = statm\<lparr>rtt_variance := ossl_time_divide (ossl_time_add (ossl_time_multiply (rtt_variance statm) 3)
                         (ossl_time_abs_difference (smoothed_rtt statm) adjusted)) 4\<rparr>
           in statm\<lparr>smoothed_rtt := ossl_time_divide (ossl_time_add (ossl_time_multiply (smoothed_rtt statm) 7) adjusted) 8\<rparr>)"

definition ossl_ms2time :: "u64 \<Rightarrow> ossl_time" where
  "ossl_ms2time ms = ossl_ticks2time (ms * OSSL_TIME_MS)"

definition K_INITIAL_RTT :: ossl_time where
  "K_INITIAL_RTT = ossl_ms2time 333"

definition ossl_statm_init :: OSSL_STATM where
  "ossl_statm_init = \<lparr>smoothed_rtt = K_INITIAL_RTT, latest_rtt = ossl_time_zero, min_rtt = ossl_time_infinite,
     rtt_variance = ossl_time_divide K_INITIAL_RTT 2, have_first_sample = False\<rparr>"

definition ossl_statm_get_rtt_info :: "OSSL_STATM \<Rightarrow> OSSL_RTT_INFO" where
  "ossl_statm_get_rtt_info statm = \<lparr>ri_smoothed_rtt = smoothed_rtt statm, ri_latest_rtt = latest_rtt statm,
     ri_rtt_variance = rtt_variance statm, ri_min_rtt = min_rtt statm\<rparr>"

section \<open>The estimates\<close>

lemma abs_difference: "unat (ossl_time_abs_difference a b) = (unat a - unat b) + (unat b - unat a)"
  by (simp add: ossl_time_abs_difference_def ossl_time_subtract_saturates word_less_nat_alt)

text \<open>The estimates lie between the least sample and a bound on all of them.\<close>

definition statm_ok :: "nat \<Rightarrow> nat \<Rightarrow> OSSL_STATM \<Rightarrow> bool" where
  "statm_ok m b s \<longleftrightarrow> have_first_sample s \<and> unat (min_rtt s) = m \<and> m \<le> unat (smoothed_rtt s) \<and> unat (smoothed_rtt s) \<le> b \<and> unat (rtt_variance s) \<le> b"

lemma first_sample:
  assumes "\<not> have_first_sample s" "0 < unat r" "unat r \<le> b"
  shows "statm_ok (unat r) b (ossl_statm_update_rtt s d r) \<and> latest_rtt (ossl_statm_update_rtt s d r) = r"
proof -
  have "r \<noteq> 0" using assms(2) by auto
  then show ?thesis using assms by (simp add: ossl_statm_update_rtt_def statm_ok_def ossl_time_divide_eq)
qed

lemma next_sample:
  assumes ok: "statm_ok m b s" and r: "0 < unat r" "unat r \<le> b" and b: "b < 2 ^ 61"
  shows "statm_ok (min m (unat r)) b (ossl_statm_update_rtt s d r) \<and> latest_rtt (ossl_statm_update_rtt s d r) = r"
proof -
  have "r \<noteq> 0" using r(1) by auto
  define mn where "mn = (if r < min_rtt s then r else min_rtt s)"
  define a where "a = (if ossl_time_compare r (ossl_time_add mn d) \<ge> 0 then ossl_time_subtract r d else r)"
  have mn: "unat mn = min m (unat r)" using ok by (auto simp: mn_def statm_ok_def word_less_nat_alt)
  have a: "unat mn \<le> unat a" "unat a \<le> b"
    using mn r b by (auto simp: a_def ossl_time_compare_def word_less_nat_alt ossl_time_subtract_saturates ossl_time_add_saturates split: if_splits)
  let ?s = "ossl_statm_update_rtt s d r"
  have u: "have_first_sample ?s" "min_rtt ?s = mn" "latest_rtt ?s = r"
    "rtt_variance ?s = ossl_time_divide (ossl_time_add (ossl_time_multiply (rtt_variance s) 3) (ossl_time_abs_difference (smoothed_rtt s) a)) 4"
    "smoothed_rtt ?s = ossl_time_divide (ossl_time_add (ossl_time_multiply (smoothed_rtt s) 7) a) 8"
    using ok \<open>r \<noteq> 0\<close> by (auto simp: ossl_statm_update_rtt_def statm_ok_def Let_def mn_def a_def)
  have s: "m \<le> unat (smoothed_rtt s)" "unat (smoothed_rtt s) \<le> b" "unat (rtt_variance s) \<le> b" using ok by (simp_all add: statm_ok_def)
  have "unat (smoothed_rtt ?s) = (unat (smoothed_rtt s) * 7 + unat a) div 8"
    unfolding u(5) using s(2) a(2) b by (simp add: ossl_time_divide_eq ossl_time_add_saturates ossl_time_multiply_saturates)
  moreover have "unat (rtt_variance ?s) = (unat (rtt_variance s) * 3 + ((unat (smoothed_rtt s) - unat a) + (unat a - unat (smoothed_rtt s)))) div 4"
    unfolding u(4) using s(2,3) a(2) b by (simp add: ossl_time_divide_eq ossl_time_add_saturates ossl_time_multiply_saturates abs_difference)
  ultimately show ?thesis using u(1-3) mn a s by (simp add: statm_ok_def) linarith
qed

lemma statm_samples:
  assumes "\<forall>(d, r) \<in> set xs. 0 < unat r \<and> unat r \<le> b" "b < 2 ^ 61" "statm_ok m b s"
  shows "\<exists>m'. m' = Min (insert m ((\<lambda>(d, r). unat r) ` set xs)) \<and> statm_ok m' b (fold (\<lambda>(d, r) s. ossl_statm_update_rtt s d r) xs s)"
  using assms
proof (induction xs arbitrary: m s)
  case (Cons x xs)
  obtain d r where x: "x = (d, r)" by fastforce
  have "statm_ok (min m (unat r)) b (ossl_statm_update_rtt s d r)" using next_sample [OF Cons.prems(3), of r d] Cons.prems(1,2) x by simp
  then have "statm_ok (Min (insert (min m (unat r)) ((\<lambda>(d, r). unat r) ` set xs))) b (fold (\<lambda>(d, r) s. ossl_statm_update_rtt s d r) xs (ossl_statm_update_rtt s d r))"
    using Cons.IH Cons.prems(1,2) by simp
  moreover have "Min (insert m (insert (unat r) ((\<lambda>(d, r). unat r) ` set xs))) = Min (insert (min m (unat r)) ((\<lambda>(d, r). unat r) ` set xs))"
    by (cases "xs = []") (simp_all add: Min_insert min.assoc)
  ultimately show ?case by (simp add: x)
qed simp

text \<open>C22: The round trip time estimates stay within what was measured. After any sequence of samples, the minimum is
  the least sample, the smoothed time lies between the least and the greatest sample, and the variance does not exceed the greatest,
  whatever acknowledgement delays the peer reports, and the arithmetic never saturates (samples are below \<open>2\<^sup>6\<^sup>1\<close> nanoseconds, 73 years).
\<close>

theorem statm_within_samples:
  assumes "xs \<noteq> []" "\<forall>(d, r) \<in> set xs. 0 < unat r" "Max ((\<lambda>(d, r). unat r) ` set xs) < 2 ^ 61"
  shows "let s = fold (\<lambda>(d, r) s. ossl_statm_update_rtt s d r) xs ossl_statm_init;
             least = Min ((\<lambda>(d, r). unat r) ` set xs); greatest = Max ((\<lambda>(d, r). unat r) ` set xs)
         in unat (min_rtt s) = least \<and> least \<le> unat (smoothed_rtt s) \<and> unat (smoothed_rtt s) \<le> greatest \<and> unat (rtt_variance s) \<le> greatest"
proof -
  obtain d r ys where xs: "xs = (d, r) # ys" using assms(1) by (metis list.exhaust prod.exhaust)
  let ?b = "Max ((\<lambda>(d, r). unat r) ` set xs)"
  have le: "\<forall>(d, r) \<in> set xs. 0 < unat r \<and> unat r \<le> ?b" using assms(2) by (fastforce intro: Max_ge)
  then have "statm_ok (unat r) ?b (ossl_statm_update_rtt ossl_statm_init d r)"
    using first_sample [of ossl_statm_init r ?b d] xs by (simp add: ossl_statm_init_def)
  from statm_samples [OF _ assms(3) this, of ys] le show ?thesis by (auto simp: xs statm_ok_def Let_def)
qed

theorem statm_within_samples_witness:
  "let s = fold (\<lambda>(d, r) s. ossl_statm_update_rtt s d r) [(0, 40000000), (25000000, 70000000)] ossl_statm_init
   in unat (min_rtt s) = 40000000 \<and> unat (smoothed_rtt s) \<le> 70000000"
  using statm_within_samples [of "[(0, 40000000), (25000000, 70000000)]"] by (simp add: Let_def)

end
