(* ===== verification/RStream.thy ===== *)
theory RStream
  imports FlowControl RingBuf SfList StatM
begin

text \<open>
  The receiving part of a stream, \<^verbatim>\<open>ssl/quic/quic_rstream.c\<close>: frames of the stream are queued in any order,
  and the application reads the bytes in order, by copying or in place. Data can be moved from packets to a ring buffer.
  The flow controller is one of a store of controllers, the clock a stream of readings, as in the theory of flow control; the outputs of
  a function are \<open>None\<close> where it returns 0.
\<close>

section \<open>Model\<close>

record QUIC_RSTREAM =
  rs_fl :: SFRAME_LIST
  rs_rxfc :: "nat option"
  rs_statm :: "OSSL_STATM option"
  rs_head_range :: uint_range
  rs_rbuf :: ring_buf

definition ossl_quic_rstream_new ::
  "bool \<Rightarrow> (nat \<Rightarrow> u8 list option) \<Rightarrow> (nat \<Rightarrow> nat) \<Rightarrow> nat option \<Rightarrow> OSSL_STATM option \<Rightarrow> nat \<Rightarrow> QUIC_RSTREAM option option" where
  "ossl_quic_rstream_new alloc malloc refs rxfc statm rbuf_size =
     (if \<not> alloc then Some None
      else
        case ring_buf_resize malloc ring_buf_init rbuf_size of
          None \<Rightarrow> None
        | Some (ok, rbuf) \<Rightarrow>
            Some (if \<not> ok then None
                  else Some \<lparr>rs_fl = ossl_sframe_list_init refs, rs_rxfc = rxfc, rs_statm = statm,
                             rs_head_range = \<lparr>rstart = 0, rend = 0\<rparr>, rs_rbuf = rbuf\<rparr>))"

definition ossl_quic_rstream_free :: "QUIC_RSTREAM \<Rightarrow> QUIC_RSTREAM" where
  "ossl_quic_rstream_free qrs = qrs\<lparr>rs_fl := ossl_sframe_list_destroy (rs_fl qrs), rs_rbuf := ring_buf_destroy (rs_rbuf qrs)\<rparr>"

definition ossl_quic_rstream_queue_data ::
  "bool \<Rightarrow> QUIC_RSTREAM \<Rightarrow> nat option \<Rightarrow> u64 \<Rightarrow> u8 list option \<Rightarrow> u64 \<Rightarrow> bool \<Rightarrow> bool \<times> QUIC_RSTREAM" where
  "ossl_quic_rstream_queue_data alloc qrs pkt offset data data_len fin =
     (if (data = None \<and> data_len \<noteq> 0) \<or> (data_len = 0 \<and> \<not> fin) then (False, qrs)
      else
        let (ok, fl) = ossl_sframe_list_insert alloc (rs_fl qrs) \<lparr>rstart = offset, rend = offset + data_len\<rparr> pkt data fin
        in (ok, qrs\<lparr>rs_fl := fl\<rparr>))"

text \<open>The bytes of a frame, from the packet or from the ring buffer, where they may wrap around.\<close>

definition read_chunk :: "ring_buf \<Rightarrow> u64 \<Rightarrow> u8 list option \<Rightarrow> nat \<Rightarrow> u8 list option" where
  "read_chunk rbuf start data l =
     (case data of
        Some d \<Rightarrow> Some (take l d)
      | None \<Rightarrow>
          case ring_buf_get_ptr rbuf start of
            None \<Rightarrow> None
          | Some (d, max_len) \<Rightarrow>
              if max_len < l then
                case ring_buf_get_ptr rbuf (start + of_nat max_len) of
                  None \<Rightarrow> None
                | Some (d2, max_len2) \<Rightarrow>
                    if \<not> max_len2 > l - max_len then None else Some (take max_len d @ take (l - max_len) d2)
              else Some (take l d))"

lemma peek_iter: "pk_ok (ossl_sframe_list_peek fl iter) \<Longrightarrow> pk_iter (ossl_sframe_list_peek fl iter) = Some (case iter of None \<Rightarrow> 0 | Some k \<Rightarrow> k + 1)
    \<and> (case iter of None \<Rightarrow> 0 | Some k \<Rightarrow> k + 1) < length (frames fl)"
  by (cases iter) (simp_all add: ossl_sframe_list_peek_def Let_def split: if_splits)

function read_loop :: "QUIC_RSTREAM \<Rightarrow> nat option \<Rightarrow> nat \<Rightarrow> u8 list \<Rightarrow> u64 \<Rightarrow> (u8 list \<times> u64 \<times> bool) option" where
  "read_loop qrs iter sz buf offset =
     (let pk = ossl_sframe_list_peek (rs_fl qrs) iter; fin = pk_fin pk
      in if \<not> pk_ok pk then Some (buf, offset, fin)
         else
           let l = unat (rend (pk_range pk) - rstart (pk_range pk));
               (l, fin) = (if l > sz then (sz, False) else (l, fin));
               offset = rstart (pk_range pk) + of_nat l
           in if l = 0 then Some (buf, offset, fin)
              else
                case read_chunk (rs_rbuf qrs) (rstart (pk_range pk)) (pk_data pk) l of
                  None \<Rightarrow> None
                | Some bs \<Rightarrow>
                    if sz - l = 0 then Some (buf @ bs, offset, fin)
                    else read_loop qrs (pk_iter pk) (sz - l) (buf @ bs) offset)"
  by pat_completeness auto

termination
  by (relation "measure (\<lambda>(qrs, iter, _). length (frames (rs_fl qrs)) - (case iter of None \<Rightarrow> 0 | Some k \<Rightarrow> k + 1))")
    (auto dest!: peek_iter split: option.splits)

declare read_loop.simps [simp del]

definition read_internal :: "QUIC_RSTREAM \<Rightarrow> nat \<Rightarrow> bool \<Rightarrow> (u8 list \<times> bool) option \<times> QUIC_RSTREAM" where
  "read_internal qrs sz dropping =
     (case read_loop qrs None sz [] 0 of
        None \<Rightarrow> (None, qrs)
      | Some (buf, offset, fin) \<Rightarrow>
          if dropping \<and> offset \<noteq> 0 then
            let (ret, fl) = ossl_sframe_list_drop_frames (rs_fl qrs) offset;
                qrs = qrs\<lparr>rs_fl := fl\<rparr>;
                qrs = qrs\<lparr>rs_rbuf := ring_buf_cpop_range (rs_rbuf qrs) 0 (offset - 1) (fl_cleanse (rs_fl qrs))\<rparr>
            in (if ret then Some (buf, fin) else None, qrs)
          else (Some (buf, fin), qrs))"

definition get_rtt :: "QUIC_RSTREAM \<Rightarrow> ossl_time" where
  "get_rtt qrs = (case rs_statm qrs of
       Some statm \<Rightarrow> ri_smoothed_rtt (ossl_statm_get_rtt_info statm)
     | None \<Rightarrow> ossl_time_zero)"

definition ossl_quic_rstream_read ::
  "clock \<Rightarrow> rx_store \<Rightarrow> QUIC_RSTREAM \<Rightarrow> nat \<Rightarrow> (u8 list \<times> bool) option \<times> QUIC_RSTREAM \<times> rx_store \<times> clock" where
  "ossl_quic_rstream_read now h qrs sz =
     (let rtt = get_rtt qrs
      in case read_internal qrs sz True of
           (None, qrs) \<Rightarrow> (None, qrs, h, now)
         | (Some (buf, fin), qrs) \<Rightarrow>
             (case rs_rxfc qrs of
                None \<Rightarrow> (Some (buf, fin), qrs, h, now)
              | Some p \<Rightarrow>
                  let (ok, h, now) = ossl_quic_rxfc_on_retire now h p (of_nat (length buf)) rtt
                  in (if ok then Some (buf, fin) else None, qrs, h, now)))"

definition ossl_quic_rstream_peek :: "QUIC_RSTREAM \<Rightarrow> nat \<Rightarrow> (u8 list \<times> bool) option \<times> QUIC_RSTREAM" where
  "ossl_quic_rstream_peek qrs sz = read_internal qrs sz False"

function avail_loop :: "SFRAME_LIST \<Rightarrow> nat option \<Rightarrow> u64 \<Rightarrow> u64 \<times> bool" where
  "avail_loop fl iter avail =
     (let pk = ossl_sframe_list_peek fl iter
      in if \<not> pk_ok pk then (avail, pk_fin pk)
         else avail_loop fl (pk_iter pk) (avail + (rend (pk_range pk) - rstart (pk_range pk))))"
  by pat_completeness auto

termination
  by (relation "measure (\<lambda>(fl, iter, _). length (frames fl) - (case iter of None \<Rightarrow> 0 | Some k \<Rightarrow> k + 1))")
    (auto dest!: peek_iter split: option.splits)

declare avail_loop.simps [simp del]

definition ossl_quic_rstream_available :: "QUIC_RSTREAM \<Rightarrow> nat \<times> bool" where
  "ossl_quic_rstream_available qrs = (let (avail, fin) = avail_loop (rs_fl qrs) None 0 in (unat avail, fin))"

text \<open>The record, its length and the end of stream flag, which is not written where the head was locked.\<close>

definition ossl_quic_rstream_get_record ::
  "QUIC_RSTREAM \<Rightarrow> (u8 list option \<times> nat \<times> bool option) option \<times> QUIC_RSTREAM" where
  "ossl_quic_rstream_get_record qrs =
     (case ossl_sframe_list_lock_head (rs_fl qrs) of
        (None, fl) \<Rightarrow> (Some (None, 0, None), qrs\<lparr>rs_fl := fl\<rparr>)
      | (Some pk, fl) \<Rightarrow>
          let qrs = qrs\<lparr>rs_fl := fl, rs_head_range := pk_range pk\<rparr>
          in if \<not> pk_ok pk then (Some (None, 0, Some (pk_fin pk)), qrs)
             else
               let (ok, qrs) =
                 (if rend (rs_head_range qrs) = rstart (rs_head_range qrs) then
                    if \<not> pk_fin pk then (False, qrs)
                    else
                      let (ok, fl) = ossl_sframe_list_drop_frames (rs_fl qrs) (rend (rs_head_range qrs))
                      in (ok, qrs\<lparr>rs_fl := fl\<rparr>)
                  else (True, qrs));
                   rec_len = unat (rend (rs_head_range qrs) - rstart (rs_head_range qrs))
               in if \<not> ok then (None, qrs)
                  else if pk_data pk = None \<and> rec_len \<noteq> 0 then
                    case ring_buf_get_ptr (rs_rbuf qrs) (rstart (rs_head_range qrs)) of
                      None \<Rightarrow> (None, qrs)
                    | Some (recd, max_len) \<Rightarrow>
                        if max_len < rec_len then
                          (Some (Some recd, max_len, Some (pk_fin pk)),
                           qrs\<lparr>rs_head_range := (rs_head_range qrs)\<lparr>rend := rstart (rs_head_range qrs) + of_nat max_len\<rparr>\<rparr>)
                        else (Some (Some recd, rec_len, Some (pk_fin pk)), qrs)
                  else (Some (pk_data pk, rec_len, Some (pk_fin pk)), qrs))"

definition ossl_quic_rstream_release_record ::
  "clock \<Rightarrow> rx_store \<Rightarrow> QUIC_RSTREAM \<Rightarrow> nat \<Rightarrow> bool \<times> QUIC_RSTREAM \<times> rx_store \<times> clock" where
  "ossl_quic_rstream_release_record now h qrs read_len =
     (if \<not> ossl_sframe_list_is_head_locked (rs_fl qrs) then (False, qrs, h, now)
      else if read_len > unat (rend (rs_head_range qrs) - rstart (rs_head_range qrs)) \<and> read_len \<noteq> SIZE_MAX then (False, qrs, h, now)
      else
        let offset = (if read_len > unat (rend (rs_head_range qrs) - rstart (rs_head_range qrs)) then rend (rs_head_range qrs)
                      else rstart (rs_head_range qrs) + of_nat read_len);
            (ok, fl) = ossl_sframe_list_drop_frames (rs_fl qrs) offset;
            qrs = qrs\<lparr>rs_fl := fl\<rparr>
        in if \<not> ok then (False, qrs, h, now)
           else
             let qrs = (if offset > 0
                        then qrs\<lparr>rs_rbuf := ring_buf_cpop_range (rs_rbuf qrs) 0 (offset - 1) (fl_cleanse (rs_fl qrs))\<rparr> else qrs)
             in case rs_rxfc qrs of
                  None \<Rightarrow> (True, qrs, h, now)
                | Some p \<Rightarrow>
                    let (ok, h, now) = ossl_quic_rxfc_on_retire now h p offset (get_rtt qrs)
                    in (ok, qrs, h, now))"

definition write_at_ring_buf_cb :: "u64 \<Rightarrow> u8 list \<Rightarrow> nat \<Rightarrow> ring_buf \<Rightarrow> bool \<times> ring_buf" where
  "write_at_ring_buf_cb logical_offset buf buf_len rbuf = ring_buf_write_at rbuf logical_offset buf buf_len"

definition ossl_quic_rstream_move_to_rbuf :: "QUIC_RSTREAM \<Rightarrow> bool \<times> QUIC_RSTREAM" where
  "ossl_quic_rstream_move_to_rbuf qrs =
     (if ring_buf_avail (rs_rbuf qrs) = 0 then (False, qrs)
      else
        let (ok, fl, rbuf) = ossl_sframe_list_move_data write_at_ring_buf_cb (rs_fl qrs) (rs_rbuf qrs)
        in (ok, qrs\<lparr>rs_fl := fl, rs_rbuf := rbuf\<rparr>))"

definition ossl_quic_rstream_resize_rbuf :: "(nat \<Rightarrow> u8 list option) \<Rightarrow> QUIC_RSTREAM \<Rightarrow> nat \<Rightarrow> (bool \<times> QUIC_RSTREAM) option" where
  "ossl_quic_rstream_resize_rbuf malloc qrs rbuf_size =
     (if ossl_sframe_list_is_head_locked (rs_fl qrs) then Some (False, qrs)
      else map_option (\<lambda>(ok, rbuf). (ok, qrs\<lparr>rs_rbuf := rbuf\<rparr>)) (ring_buf_resize malloc (rs_rbuf qrs) rbuf_size))"

definition ossl_quic_rstream_set_cleanse :: "QUIC_RSTREAM \<Rightarrow> bool \<Rightarrow> QUIC_RSTREAM" where
  "ossl_quic_rstream_set_cleanse qrs cleanse = qrs\<lparr>rs_fl := (rs_fl qrs)\<lparr>fl_cleanse := cleanse\<rparr>\<rparr>"


section \<open>Reading\<close>

text \<open>Where an iterator of the frame list stands: the offset reached and the frames ahead.\<close>

definition cursor_next :: "nat option \<Rightarrow> nat" where
  "cursor_next iter = (case iter of None \<Rightarrow> 0 | Some k \<Rightarrow> k + 1)"

definition cursor_start :: "SFRAME_LIST \<Rightarrow> nat option \<Rightarrow> u64" where
  "cursor_start fl iter = (case iter of None \<Rightarrow> fl_offset fl | Some k \<Rightarrow> sf_end (frames fl ! k))"

definition cursor_rest :: "SFRAME_LIST \<Rightarrow> nat option \<Rightarrow> STREAM_FRAME list" where
  "cursor_rest fl iter = drop (cursor_next iter) (frames fl)"

lemma cursor_None [simp]: "cursor_start fl None = fl_offset fl" "cursor_rest fl None = frames fl"
  by (simp_all add: cursor_start_def cursor_rest_def cursor_next_def)

lemma cursor_step:
  assumes "cursor_rest fl iter = sf # fs"
  shows "cursor_start fl (Some (cursor_next iter)) = sf_end sf" "cursor_rest fl (Some (cursor_next iter)) = fs"
    "frames fl ! cursor_next iter = sf" "cursor_next iter < length (frames fl)" "cursor_next iter + 1 < length (frames fl) \<longleftrightarrow> fs \<noteq> []"
proof -
  have lt: "cursor_next iter < length (frames fl)" using assms by (metis cursor_rest_def drop_all list.distinct(1) not_less)
  have "frames fl ! cursor_next iter = sf" "drop (Suc (cursor_next iter)) (frames fl) = fs"
    using assms lt by (simp_all add: cursor_rest_def flip: Cons_nth_drop_Suc)
  then show "cursor_start fl (Some (cursor_next iter)) = sf_end sf" "cursor_rest fl (Some (cursor_next iter)) = fs"
    "frames fl ! cursor_next iter = sf" "cursor_next iter < length (frames fl)" "cursor_next iter + 1 < length (frames fl) \<longleftrightarrow> fs \<noteq> []"
    using lt by (auto simp: cursor_start_def cursor_rest_def cursor_next_def)
qed

lemma peek_end: "cursor_rest fl iter = [] \<Longrightarrow> \<not> pk_ok (ossl_sframe_list_peek fl iter) \<and> pk_fin (ossl_sframe_list_peek fl iter) = fl_fin fl"
  by (cases iter) (simp_all add: ossl_sframe_list_peek_def cursor_rest_def cursor_next_def)

lemma peek_frame:
  assumes "cursor_rest fl iter = sf # fs" "cursor_start fl iter < sf_end sf"
  shows "ossl_sframe_list_peek fl iter =
    (if cursor_start fl iter < sf_start sf
     then \<lparr>pk_ok = False, pk_range = \<lparr>rstart = cursor_start fl iter, rend = cursor_start fl iter\<rparr>, pk_data = None, pk_fin = False, pk_iter = None\<rparr>
     else \<lparr>pk_ok = True, pk_range = \<lparr>rstart = cursor_start fl iter, rend = sf_end sf\<rparr>,
           pk_data = map_option (drop (unat (cursor_start fl iter - sf_start sf))) (sf_data sf), pk_fin = (fs = [] \<and> fl_fin fl),
           pk_iter = Some (cursor_next iter)\<rparr>)"
proof -
  have *: "(case iter of None \<Rightarrow> (fl_offset fl, 0) | Some k \<Rightarrow> (sf_end (frames fl ! k), k + 1)) = (cursor_start fl iter, cursor_next iter)"
    by (cases iter) (simp_all add: cursor_start_def cursor_next_def)
  show ?thesis
    unfolding ossl_sframe_list_peek_def * using cursor_step [OF assms(1)] assms(2) by (auto simp: Let_def)
qed

text \<open>A frame, from an offset inside it on, is read as the bytes of the stream.\<close>

lemma map_upt_eqI: "length xs = n \<Longrightarrow> (\<And>k. k < n \<Longrightarrow> xs ! k = f (i + k)) \<Longrightarrow> xs = map f [i..<i + n]"
  by (auto intro: nth_equalityI)

lemma read_chunk_ring:
  assumes inv: "rb_inv r" and l: "0 < l" "\<forall>j. unat start \<le> j \<longrightarrow> j < unat start + l \<longrightarrow> rb_view r j = Some (f j)"
  shows "read_chunk r start None l = Some (map f [unat start..<unat start + l])"
proof -
  note w = rb_inv_window [OF inv]
  let ?a = "rb_alloc r"
  let ?idx = "unat start mod ?a"
  have in_window: "unat (ctail_offset r) \<le> j \<and> j < unat (head_offset r)" if "unat start \<le> j" "j < unat start + l" for j
    using l(2) that by (metis option.distinct(1) rb_view_def)
  have ends: "unat (ctail_offset r) \<le> unat start" "unat start + l \<le> unat (head_offset r)"
    using in_window [of "unat start"] in_window [of "unat start + (l - 1)"] l(1) by linarith+
  have a: "0 < ?a" "l \<le> ?a" using ends l(1) w(2) by linarith+
  obtain d len where p: "ring_buf_get_ptr r start = Some (d, len)"
    using get_ptr_correct(1) [OF inv, of start] l by (metis add_diff_cancel_left' not_None_eq prod.exhaust le_refl less_add_same_cancel1)
  note d = get_ptr_correct(2) [OF inv p]
  have dn: "d ! k = f (unat start + k)" if "k < len" "k < l" for k
    using d that ends(2) l(2) [rule_format, of "unat start + k"] by auto
  show ?thesis
  proof (cases "len < l")
    case False
    then have "take l d = map f [unat start..<unat start + l]" using d dn by (intro map_upt_eqI) auto
    then show ?thesis using False p by (simp add: read_chunk_def)
  next
    case True
    have u: "unat (start + of_nat len) = unat start + len" using ends(2) w(3) True by (intro unat_offset) simp
    have z: "(unat start + len) mod ?a = 0" using d a(1) mod_wrap by simp
    obtain d2 len2 where p2: "ring_buf_get_ptr r (start + of_nat len) = Some (d2, len2)"
      using get_ptr_correct(1) [OF inv, of "start + of_nat len"] l(2) [rule_format, of "unat start + len"] True unfolding u
      by (metis le_add1 nat_add_left_cancel_less not_None_eq prod.exhaust)
    note d2 = get_ptr_correct(2) [OF inv p2, unfolded u z]
    have "?idx < ?a" using a(1) by simp
    then have lt: "l - len < len2" using d d2 a(2) True by linarith
    have "(d @ take (l - len) d2) ! k = f (unat start + k)" if "k < l" for k
    proof (cases "k < len")
      case True
      then show ?thesis using d dn that by (simp add: nth_append)
    next
      case False
      then have "rb_view r (unat start + k) = Some (d2 ! (k - len))"
        using d2 [THEN conjunct2, THEN conjunct2, THEN conjunct2, rule_format, of "k - len"] that lt ends(2) by simp
      then show ?thesis using False d that lt d2 l(2) [rule_format, of "unat start + k"] by (simp add: nth_append)
    qed
    moreover have "length (d @ take (l - len) d2) = l" using d [THEN conjunct1] d2 [THEN conjunct1] lt True by simp
    ultimately have "d @ take (l - len) d2 = map f [unat start..<unat start + l]" by (intro map_upt_eqI)
    then show ?thesis using True p p2 lt d by (simp add: read_chunk_def)
  qed
qed

lemma read_chunk_frame:
  assumes inv: "rb_inv r" and sf: "sf_holds f (rb_view r) off sf" and le: "off \<le> start" "sf_start sf \<le> start" "unat start + l \<le> unat (sf_end sf)" "0 < l"
  shows "read_chunk r start (map_option (drop (unat (start - sf_start sf))) (sf_data sf)) l = Some (map f [unat start..<unat start + l])"
proof (cases "sf_data sf")
  case None
  then show ?thesis using sf le by (auto simp: sf_holds_def word_le_nat_alt intro: read_chunk_ring [OF inv])
next
  case (Some d)
  have u: "unat (start - sf_start sf) = unat start - unat (sf_start sf)" "unat (sf_start sf) \<le> unat start"
    using le(2) by (simp_all add: unat_sub_exact word_le_nat_alt)
  have h: "unat (sf_end sf) \<le> unat (sf_start sf) + length d"
    "\<forall>j. unat (sf_start sf) \<le> j \<longrightarrow> j < unat (sf_end sf) \<longrightarrow> d ! (j - unat (sf_start sf)) = f j" using sf Some by (simp_all add: sf_holds_def)
  have "take l (drop (unat start - unat (sf_start sf)) d) = map f [unat start..<unat start + l]"
  proof (rule map_upt_eqI)
    show "length (take l (drop (unat start - unat (sf_start sf)) d)) = l" using h(1) u le by simp
    show "take l (drop (unat start - unat (sf_start sf)) d) ! k = f (unat start + k)" if "k < l" for k
      using h(1) h(2) [rule_format, of "unat start + k"] u le that by simp
  qed
  then show ?thesis using Some u by (simp add: read_chunk_def)
qed


text \<open>
  From a position of the iterator on, the loop copies what is contiguous up to the size of the buffer, and reports the
  end of the stream where that is known and reached.
\<close>

lemma read_loop_correct:
  assumes rb: "rb_inv (rs_rbuf qrs)" and ok: "frames_ok f (rb_view (rs_rbuf qrs)) (fl_offset (rs_fl qrs)) (cursor_rest (rs_fl qrs) iter)"
    and start: "cursor_start (rs_fl qrs) iter = start" "cursor_rest (rs_fl qrs) iter = rest"
      "fl_offset (rs_fl qrs) \<le> start" "\<forall>sf \<in> set rest. start < sf_end sf"
    and ce: "ce = unat (contig_end start rest)"
  shows "\<exists>fin. read_loop qrs iter sz buf offset =
      Some (buf @ map f [unat start..<unat start + min sz (ce - unat start)],
            if ce = unat start then offset else start + of_nat (min sz (ce - unat start)), fin)
    \<and> (fin \<longleftrightarrow> fl_fin (rs_fl qrs) \<and> (rest = [] \<or> unat start + min sz (ce - unat start) = unat (sf_end (last rest))))"
  using ok start ce
proof (induction "length rest" arbitrary: iter sz buf offset start rest ce rule: less_induct)
  case less
  let ?fl = "rs_fl qrs" and ?loop = "read_loop qrs iter sz buf offset"
  show ?case
  proof (cases rest)
    case Nil
    then show ?thesis using less.prems peek_end [of ?fl iter] by (subst read_loop.simps) simp
  next
    case (Cons sf fs)
    have sorted: "sorted_wrt sf_before (sf # fs)" and sf: "sf_holds f (rb_view (rs_rbuf qrs)) (fl_offset ?fl) sf"
      using less.prems(1,3) Cons by (simp_all add: frames_ok_def)
    have lt: "unat start < unat (sf_end sf)" using less.prems(5) Cons by (simp add: word_less_nat_alt)
    have later: "\<forall>x \<in> set fs. sf_end sf < sf_end x" using sorted by (simp add: sf_before_def)
    have last: "unat (sf_end sf) < unat (sf_end (last fs))" if "fs \<noteq> []" using later that by (simp add: word_less_nat_alt)
    have last': "unat (sf_end sf) \<le> unat (sf_end (last rest))" using last Cons by (cases "fs = []") (simp_all add: less_imp_le)
    note peek = peek_frame [of ?fl iter sf fs, unfolded less.prems(2,3), OF Cons, OF word_less_nat_alt [THEN iffD2, OF lt]]
    show ?thesis
    proof (cases "start < sf_start sf")
      case True
      then have "ce = unat start" using less.prems(6) Cons by simp
      moreover have "?loop = Some (buf, offset, False)" using True peek by (subst read_loop.simps) simp
      ultimately show ?thesis using Cons lt last' by auto
    next
      case False
      define ce1 where "ce1 = unat (contig_end (sf_end sf) fs)"
      have ce1: "ce = ce1" using less.prems(6) Cons False by (simp add: ce1_def)
      have ce_ge: "unat (sf_end sf) \<le> ce1"
        using contig_end_bounds(1) [of fs "sf_end sf"] sorted later by (simp add: ce1_def word_le_nat_alt)
      have chunk: "read_chunk (rs_rbuf qrs) start (map_option (drop (unat (start - sf_start sf))) (sf_data sf)) l = Some (map f [unat start..<unat start + l])"
        if "0 < l" "unat start + l \<le> unat (sf_end sf)" for l
        using that False less.prems(4) by (intro read_chunk_frame [OF rb sf]) auto
      have ul: "unat (sf_end sf - start) = unat (sf_end sf) - unat start" using lt by (simp add: unat_sub_exact word_le_nat_alt)
      have step: "?loop = (let l = min sz (unat (sf_end sf) - unat start); fin = (\<not> unat (sf_end sf) - unat start > sz \<and> fs = [] \<and> fl_fin ?fl)
          in if sz = 0 then Some (buf, start + of_nat l, fin)
             else if sz = l then Some (buf @ map f [unat start..<unat start + l], start + of_nat l, fin)
             else read_loop qrs (Some (cursor_next iter)) (sz - l) (buf @ map f [unat start..<unat start + l]) (start + of_nat l))"
        using False lt chunk [of sz] chunk [of "unat (sf_end sf) - unat start"]
        by (subst read_loop.simps) (auto simp: peek ul Let_def min_def)
      show ?thesis
      proof (cases "sz \<le> unat (sf_end sf) - unat start")
        case True
        then have m: "min sz (unat (sf_end sf) - unat start) = sz" "min sz (ce - unat start) = sz" "ce \<noteq> unat start" using ce1 ce_ge lt by auto
        have "?loop = Some (buf @ map f [unat start..<unat start + sz], start + of_nat sz, \<not> unat (sf_end sf) - unat start > sz \<and> fs = [] \<and> fl_fin ?fl)"
          unfolding step m(1) by (simp add: Let_def)
        moreover have "unat start + sz = unat (sf_end (last rest)) \<longleftrightarrow> \<not> unat (sf_end sf) - unat start > sz \<and> fs = []"
          using True lt last Cons by (cases "fs = []") auto
        ultimately show ?thesis using m Cons by auto
      next
        case gt: False
        define l where "l = unat (sf_end sf) - unat start"
        have "start + of_nat (unat (sf_end sf - start)) = sf_end sf" by simp
        then have e: "start + of_nat l = sf_end sf" "unat start + l = unat (sf_end sf)" "0 < l" "l < sz"
          using lt gt unfolding l_def ul by simp_all
        let ?buf = "buf @ map f [unat start..<unat (sf_end sf)]"
        have loop: "?loop = read_loop qrs (Some (cursor_next iter)) (sz - l) ?buf (sf_end sf)"
          unfolding step using e by (simp add: Let_def min_def flip: l_def)
        note c = cursor_step [of ?fl iter sf fs, unfolded less.prems(3), OF Cons]
        have f: "frames_ok f (rb_view (rs_rbuf qrs)) (fl_offset ?fl) fs" using less.prems(1,3) Cons by (simp add: frames_ok_def)
        have o: "fl_offset ?fl \<le> sf_end sf" using less.prems(4) lt by (simp add: word_le_nat_alt)
        obtain fin where r: "read_loop qrs (Some (cursor_next iter)) (sz - l) ?buf (sf_end sf) =
            Some (?buf @ map f [unat (sf_end sf)..<unat (sf_end sf) + min (sz - l) (ce1 - unat (sf_end sf))],
              if ce1 = unat (sf_end sf) then sf_end sf else sf_end sf + of_nat (min (sz - l) (ce1 - unat (sf_end sf))), fin)"
            "fin \<longleftrightarrow> fl_fin ?fl \<and> (fs = [] \<or> unat (sf_end sf) + min (sz - l) (ce1 - unat (sf_end sf)) = unat (sf_end (last fs)))"
          using less.hyps [of fs "Some (cursor_next iter)" "sf_end sf" ce1 "sz - l" ?buf "sf_end sf"] c f o later ce1_def Cons by auto
        define n where "n = min (sz - l) (ce1 - unat (sf_end sf))"
        have n: "min sz (ce - unat start) = l + n" using ce1 ce_ge e(2-4) unfolding n_def by linarith
        have "start + of_nat (l + n) = sf_end sf + of_nat n" by (simp flip: e(1))
        moreover have "map f [unat start..<unat (sf_end sf)] @ map f [unat (sf_end sf)..<unat (sf_end sf) + n] = map f [unat start..<unat start + (l + n)]"
          using upt_add_eq_append [OF less_imp_le [OF lt], of n] e(2) by (metis add.assoc map_append)
        moreover have "ce1 = unat (sf_end sf) \<longrightarrow> n = 0" by (simp add: n_def)
        moreover have "fs = [] \<longrightarrow> n = 0" by (simp add: n_def ce1_def)
        moreover have "ce \<noteq> unat start" using ce1 ce_ge lt by simp
        ultimately show ?thesis unfolding loop r(1) n using r(2) Cons e(2) ce1 by (auto simp: n_def [symmetric] add.assoc [symmetric])
      qed
    qed
  qed
qed



section \<open>Invariant\<close>

text \<open>The stream received so far agrees with \<open>f\<close>, whether its bytes are in packets or in the ring buffer.\<close>

definition rs_inv :: "(nat \<Rightarrow> u8) \<Rightarrow> QUIC_RSTREAM \<Rightarrow> bool" where
  "rs_inv f qrs \<longleftrightarrow> rb_inv (rs_rbuf qrs) \<and> fl_inv (rs_fl qrs) \<and> frames_ok f (rb_view (rs_rbuf qrs)) (fl_offset (rs_fl qrs)) (frames (rs_fl qrs))
     \<and> ctail_offset (rs_rbuf qrs) \<le> fl_offset (rs_fl qrs) \<and> unat (fl_offset (rs_fl qrs)) \<le> 2 ^ 62"

lemma rs_inv_end: "rs_inv f qrs \<Longrightarrow> unat (fl_end (rs_fl qrs)) \<le> 2 ^ 62"
  by (auto simp: rs_inv_def fl_end_last frames_ok_def sf_holds_def)

text \<open>Data up to an offset is given up, in the list and in the ring buffer.\<close>

lemma advance_correct:
  assumes inv: "rs_inv f qrs" and lim: "fl_offset (rs_fl qrs) \<le> limit" "limit \<le> fl_end (rs_fl qrs)"
  obtains fl' where "ossl_sframe_list_drop_frames (rs_fl qrs) limit = (True, fl')" "fl_offset fl' = limit" "fl_fin fl' = fl_fin (rs_fl qrs)"
    "fl_end fl' = fl_end (rs_fl qrs)" "received fl' = received (rs_fl qrs) \<inter> {limit..}" "\<not> head_locked fl'"
    "limit \<noteq> 0 \<Longrightarrow> rs_inv f (qrs\<lparr>rs_fl := fl', rs_rbuf := ring_buf_cpop_range (rs_rbuf qrs) 0 (limit - 1) (fl_cleanse fl')\<rparr>)"
    "limit = 0 \<Longrightarrow> rs_inv f (qrs\<lparr>rs_fl := fl'\<rparr>)"
proof -
  let ?fl = "rs_fl qrs" and ?r = "rs_rbuf qrs"
  have i: "rb_inv ?r" "fl_inv ?fl" "frames_ok f (rb_view ?r) (fl_offset ?fl) (frames ?fl)" "ctail_offset ?r \<le> fl_offset ?fl"
    using inv by (simp_all add: rs_inv_def)
  have le: "unat limit \<le> 2 ^ 62" using lim(2) rs_inv_end [OF inv] by (simp add: word_le_nat_alt)
  have "if frames ?fl = [] then limit = fl_offset ?fl else limit \<le> sf_end (last (frames ?fl))"
    using lim i(2) by (auto simp: fl_end_last)
  from drop_frames_correct [OF i(2) lim(1) this] obtain fl' where d: "ossl_sframe_list_drop_frames ?fl limit = (True, fl')" "fl_inv fl'"
    "fl_offset fl' = limit" "frames fl' = dropWhile (\<lambda>sf. sf_end sf \<le> limit) (frames ?fl)" "received fl' = received ?fl \<inter> {limit..}"
    "fl_fin fl' = fl_fin ?fl" "\<not> head_locked fl'" by metis
  have sub: "set (frames fl') \<subseteq> set (frames ?fl)" unfolding d(4) by (auto dest: set_dropWhileD)
  have "fl_end fl' \<le> v \<longleftrightarrow> fl_end ?fl \<le> v" for v
  proof
    assume "fl_end ?fl \<le> v"
    moreover have "limit \<le> v" using lim(2) calculation by order
    ultimately show "fl_end fl' \<le> v" using d(3) sub by (auto simp: fl_end_le)
  next
    assume v: "fl_end fl' \<le> v"
    have "sf_end x \<le> v" if "x \<in> set (frames ?fl)" for x
    proof (cases "x \<in> set (frames fl')")
      case False
      then have "x \<in> set (takeWhile (\<lambda>sf. sf_end sf \<le> limit) (frames ?fl))" using that unfolding d(4) by (metis Un_iff set_append takeWhile_dropWhile_id)
      then show ?thesis using v d(3) by (auto simp: fl_end_le dest!: set_takeWhileD)
    qed (use v fl_end_le in blast)
    then show "fl_end ?fl \<le> v" using v lim(1) d(3) by (auto simp: fl_end_le)
  qed
  then have e: "fl_end fl' = fl_end ?fl" by (meson order.antisym order.refl)
  have holds: "frames_ok f st limit (frames fl')" if "\<forall>j \<ge> unat limit. st j = rb_view ?r j" for st
  proof -
    have "sf_holds f st limit x" if "sf_holds f (rb_view ?r) (fl_offset ?fl) x" for x
      using that lim(1) \<open>\<forall>j \<ge> unat limit. st j = rb_view ?r j\<close> by (auto simp: sf_holds_def word_le_nat_alt split: option.splits)
    then show ?thesis using i(3) d(2,3) sub by (auto simp: frames_ok_def fl_inv_def)
  qed
  have "rs_inv f (qrs\<lparr>rs_fl := fl', rs_rbuf := ring_buf_cpop_range ?r 0 (limit - 1) (fl_cleanse fl')\<rparr>)" if "limit \<noteq> 0"
  proof -
    have l: "unat (limit - 1) = unat limit - 1" "0 < unat limit" using that by (simp_all add: unat_minus_one unat_gt_0)
    have c: "unat (ctail_offset ?r) \<le> unat (limit - 1) + 1" "unat (limit - 1) < 2 ^ 62"
      using i(4) lim(1) l le by (simp_all add: word_le_nat_alt)
    have z: "0 \<le> ctail_offset ?r" by simp
    note p = cpop_correct [OF i(1) c(1) z c(2), where cleanse = "fl_cleanse fl'"]
    have "frames_ok f (rb_view (ring_buf_cpop_range ?r 0 (limit - 1) (fl_cleanse fl'))) limit (frames fl')"
      using p(5) l by (intro holds) auto
    then show ?thesis using p(1,3) d(2,3) l le by (simp add: rs_inv_def word_le_nat_alt)
  qed
  moreover have "rs_inv f (qrs\<lparr>rs_fl := fl'\<rparr>)" if "limit = 0"
    using i d(2,3) lim(1) that holds [of "rb_view ?r"] le by (simp add: rs_inv_def)
  ultimately show thesis using d e that by blast
qed

text \<open>A read or a peek returns the longest run of bytes that follows what was read before, up to the size of the buffer.\<close>

lemma read_internal_correct:
  assumes inv: "rs_inv f qrs"
    and off_def: "off = unat (fl_offset (rs_fl qrs))"
    and n_def: "n = min sz (unat (contig_end (fl_offset (rs_fl qrs)) (frames (rs_fl qrs))) - off)"
  shows "\<exists>qrs'. read_internal qrs sz dropping = (Some (map f [off..<off + n], fl_fin (rs_fl qrs) \<and> off + n = unat (fl_end (rs_fl qrs))), qrs')
    \<and> rs_inv f qrs' \<and> rs_rxfc qrs' = rs_rxfc qrs \<and> fl_fin (rs_fl qrs') = fl_fin (rs_fl qrs) \<and> fl_end (rs_fl qrs') = fl_end (rs_fl qrs)
    \<and> (if dropping then unat (fl_offset (rs_fl qrs')) = off + n \<and> received (rs_fl qrs') = {x \<in> received (rs_fl qrs). off + n \<le> unat x}
       else qrs' = qrs) \<and> (head_locked (rs_fl qrs') \<longrightarrow> qrs' = qrs)"
proof -
  let ?fl = "rs_fl qrs"
  let ?ce = "contig_end (fl_offset ?fl) (frames ?fl)"
  have i: "rb_inv (rs_rbuf qrs)" "fl_inv ?fl" "frames_ok f (rb_view (rs_rbuf qrs)) (fl_offset ?fl) (frames ?fl)"
    using inv by (simp_all add: rs_inv_def)
  have after: "\<forall>sf \<in> set (frames ?fl). fl_offset ?fl < sf_end sf" using i(2) by (simp add: fl_inv_def)
  have ce: "off \<le> unat ?ce" "unat ?ce \<le> unat (fl_end ?fl)"
    using contig_end_received(3) [OF i(2)] contig_end_le [OF i(2)] by (simp_all add: off_def word_le_nat_alt)
  define limit where "limit = fl_offset ?fl + of_nat n"
  have le: "off + n \<le> unat ?ce" using ce by (simp add: n_def)
  have ul: "unat limit = off + n" using le ce rs_inv_end [OF inv] unfolding limit_def off_def by (intro unat_offset) simp
  from read_loop_correct [of qrs f None "fl_offset ?fl" "frames ?fl" "unat ?ce" sz "[]" 0] i after obtain fin where
    r: "read_loop qrs None sz [] 0 = Some (map f [off..<off + n], if unat ?ce = off then 0 else limit, fin)"
      "fin \<longleftrightarrow> fl_fin ?fl \<and> (frames ?fl = [] \<or> off + n = unat (sf_end (last (frames ?fl))))"
    unfolding cursor_None limit_def n_def off_def by auto
  have fin: "fin \<longleftrightarrow> fl_fin ?fl \<and> off + n = unat (fl_end ?fl)"
    using r(2) i(2) by (auto simp: fl_end_last off_def n_def)
  have lim: "fl_offset ?fl \<le> limit" "limit \<le> fl_end ?fl" using ul le ce by (simp_all add: word_le_nat_alt off_def)
  have same: "received ?fl = {x \<in> received ?fl. off \<le> unat x}" by (auto simp: received_def word_le_nat_alt off_def)
  show ?thesis
  proof (cases "dropping \<and> unat ?ce \<noteq> off \<and> limit \<noteq> 0")
    case True
    obtain fl' where a: "ossl_sframe_list_drop_frames ?fl limit = (True, fl')" "fl_offset fl' = limit" "fl_fin fl' = fl_fin ?fl"
        "fl_end fl' = fl_end ?fl" "received fl' = received ?fl \<inter> {limit..}" "\<not> head_locked fl'"
        "rs_inv f (qrs\<lparr>rs_fl := fl', rs_rbuf := ring_buf_cpop_range (rs_rbuf qrs) 0 (limit - 1) (fl_cleanse fl')\<rparr>)"
      using advance_correct [OF inv lim] True by metis
    moreover have "received ?fl \<inter> {limit..} = {x \<in> received ?fl. off + n \<le> unat x}" using ul by (auto simp: word_le_nat_alt)
    ultimately show ?thesis using True r(1) fin ul by (simp add: read_internal_def Let_def)
  next
    case False
    have "n = 0" if "unat ?ce = off" using that by (simp add: n_def)
    moreover have "n = 0 \<and> off = 0" if "limit = 0" using ul that by simp
    ultimately have "dropping \<Longrightarrow> n = 0" using False by blast
    then show ?thesis using False r(1) fin inv same by (auto simp: read_internal_def off_def)
  qed
qed


lemma avail_loop_correct:
  assumes "sorted_wrt sf_before rest" "\<forall>sf \<in> set rest. start < sf_end sf" "cursor_start fl iter = start" "cursor_rest fl iter = rest"
  shows "avail_loop fl iter avail = (avail + (contig_end start rest - start), fl_fin fl \<and> (rest = [] \<or> contig_end start rest = sf_end (last rest)))"
  using assms
proof (induction rest arbitrary: start iter avail)
  case Nil
  then show ?case using peek_end [of fl iter] by (subst avail_loop.simps) simp
next
  case (Cons sf fs)
  have lt: "start < sf_end sf" and later: "\<forall>x \<in> set fs. sf_end sf < sf_end x" using Cons.prems(1,2) by (simp_all add: sf_before_def)
  note peek = peek_frame [of fl iter sf fs, unfolded Cons.prems(3,4), OF refl lt]
  show ?case
  proof (cases "start < sf_start sf")
    case True
    have "start \<noteq> sf_end (last (sf # fs))" using Cons.prems(2) last_in_set [of "sf # fs"] by blast
    then show ?thesis using True peek by (subst avail_loop.simps) simp
  next
    case False
    have "contig_end (sf_end sf) fs = sf_end (last (sf # fs)) \<longleftrightarrow> fs = [] \<or> contig_end (sf_end sf) fs = sf_end (last fs)" by auto
    then show ?thesis
      using False peek Cons.IH [OF _ later cursor_step(1,2) [OF Cons.prems(4)]] Cons.prems(1)
      by (subst avail_loop.simps) simp
  qed
qed

lemma available_correct:
  assumes inv: "rs_inv f qrs"
  defines "ce \<equiv> unat (contig_end (fl_offset (rs_fl qrs)) (frames (rs_fl qrs)))"
  shows "ossl_quic_rstream_available qrs = (ce - unat (fl_offset (rs_fl qrs)), fl_fin (rs_fl qrs) \<and> ce = unat (fl_end (rs_fl qrs)))"
proof -
  let ?fl = "rs_fl qrs"
  have i: "fl_inv ?fl" using inv by (simp add: rs_inv_def)
  have "avail_loop ?fl None 0 = (contig_end (fl_offset ?fl) (frames ?fl) - fl_offset ?fl,
      fl_fin ?fl \<and> (frames ?fl = [] \<or> contig_end (fl_offset ?fl) (frames ?fl) = sf_end (last (frames ?fl))))"
    using avail_loop_correct [of "frames ?fl" "fl_offset ?fl" ?fl None 0] i by (simp add: fl_inv_def)
  then show ?thesis
    using contig_end_received(3) [OF i] i unfolding ce_def
    by (auto simp: ossl_quic_rstream_available_def fl_end_last unat_sub_exact word_unat_eq_iff)
qed


section \<open>The other operations\<close>

text \<open>The ring buffer is a side storage of the frame list.\<close>

interpretation ring: side_storage write_at_ring_buf_cb rb_inv rb_view ctail_offset
proof (unfold_locales, goal_cases)
  case (1 s off d n s')
  note w = write_at_correct [OF 1(1) 1(2) [unfolded write_at_ring_buf_cb_def] 1(3,4)]
  have "j < unat (head_offset s)" if "rb_view s j \<noteq> None" for j using that by (auto simp: rb_view_def split: if_splits)
  then show ?case using w by blast
next
  case (2 off d n s s')
  then show ?case by (simp add: write_at_ring_buf_cb_def write_at_failed)
qed

lemma new_correct:
  assumes "ossl_quic_rstream_new alloc malloc refs rxfc statm n = Some (Some qrs)" "\<forall>k mem. malloc k = Some mem \<longrightarrow> length mem = k" "n \<le> SIZE_MAX"
  shows "rs_inv f qrs" "rs_fl qrs = ossl_sframe_list_init refs"
proof -
  have "rb_inv ring_buf_init" by (simp add: rb_inv_def ring_buf_init_def)
  from resize_correct [OF this _ assms(3), of malloc] assms(2) obtain r where
    "ring_buf_resize malloc ring_buf_init n = Some (n = rb_alloc ring_buf_init \<or> ring_buf_used ring_buf_init \<le> n \<and> malloc n \<noteq> None, r)"
    "rb_inv r" "ctail_offset r = ctail_offset ring_buf_init" by blast
  moreover from this have "rs_fl qrs = ossl_sframe_list_init refs" "rs_rbuf qrs = r"
    using assms(1) by (auto simp: ossl_quic_rstream_new_def split: if_splits)
  ultimately show "rs_inv f qrs" "rs_fl qrs = ossl_sframe_list_init refs"
    by (simp_all add: rs_inv_def ossl_sframe_list_init_def fl_inv_def frames_ok_def ring_buf_init_def)
qed

text \<open>A frame that carries bytes of the stream \<open>f\<close>.\<close>

definition carries :: "(nat \<Rightarrow> u8) \<Rightarrow> u64 \<Rightarrow> u8 list option \<Rightarrow> u64 \<Rightarrow> bool" where
  "carries f offset data data_len \<longleftrightarrow> unat offset + unat data_len \<le> 2 ^ 62
     \<and> (case data of None \<Rightarrow> True | Some d \<Rightarrow> unat data_len \<le> length d \<and> (\<forall>k < unat data_len. d ! k = f (unat offset + k)))"

lemma queue_data_correct:
  assumes inv: "rs_inv f qrs" and d: "carries f offset data data_len"
    and q: "ossl_quic_rstream_queue_data alloc qrs pkt offset data data_len fin = (ok, qrs')"
  shows "rs_inv f qrs'" "rs_rxfc qrs' = rs_rxfc qrs" "rs_head_range qrs' = rs_head_range qrs" "fl_offset (rs_fl qrs') = fl_offset (rs_fl qrs)"
    "head_locked (rs_fl qrs') = head_locked (rs_fl qrs)" "\<not> ok \<Longrightarrow> qrs' = qrs"
    "ok \<Longrightarrow> received (rs_fl qrs') = received (rs_fl qrs) \<union> {max (fl_offset (rs_fl qrs)) offset..<offset + data_len}"
    "ok \<Longrightarrow> fl_fin (rs_fl qrs') \<longleftrightarrow> fl_fin (rs_fl qrs) \<or> fin" "ok \<Longrightarrow> fl_end (rs_fl qrs') = max (fl_end (rs_fl qrs)) (offset + data_len)"
proof -
  let ?fl = "rs_fl qrs" and ?rng = "\<lparr>rstart = offset, rend = offset + data_len\<rparr>"
  let ?new = "\<lparr>sf_range = ?rng, sf_pkt = pkt, sf_data = data\<rparr>"
  let ?err = "(data = None \<and> data_len \<noteq> 0) \<or> (data_len = 0 \<and> \<not> fin)"
  have u: "unat (offset + data_len) = unat offset + unat data_len" using d by (simp add: carries_def unat_add_exact)
  have i: "fl_inv ?fl" "frames_ok f (rb_view (rs_rbuf qrs)) (fl_offset ?fl) (frames ?fl)" using inv by (simp_all add: rs_inv_def)
  have "rs_inv f qrs' \<and> rs_rxfc qrs' = rs_rxfc qrs \<and> rs_head_range qrs' = rs_head_range qrs \<and> fl_offset (rs_fl qrs') = fl_offset ?fl
    \<and> head_locked (rs_fl qrs') = head_locked ?fl \<and> (\<not> ok \<longrightarrow> qrs' = qrs)
    \<and> (ok \<longrightarrow> received (rs_fl qrs') = received ?fl \<union> {max (fl_offset ?fl) offset..<offset + data_len}
      \<and> (fl_fin (rs_fl qrs') \<longleftrightarrow> fl_fin ?fl \<or> fin) \<and> fl_end (rs_fl qrs') = max (fl_end ?fl) (offset + data_len))"
  proof (cases ?err)
    case True
    then show ?thesis using q inv by (auto simp: ossl_quic_rstream_queue_data_def)
  next
    case False
    obtain fl' where fl': "ossl_sframe_list_insert alloc ?fl ?rng pkt data fin = (ok, fl')" "qrs' = qrs\<lparr>rs_fl := fl'\<rparr>"
      using q False by (auto simp: ossl_quic_rstream_queue_data_def split: prod.splits)
    have "inserted alloc ?fl ?new fin (ok, fl')"
      using insert_outcome [of ?fl ?rng alloc pkt data fin] i(1) u by (simp add: fl'(1) word_le_nat_alt)
    then have o: "fl_inv fl'" "fl_offset fl' = fl_offset ?fl" "head_locked fl' = head_locked ?fl"
        "set (frames fl') \<subseteq> insert ?new (set (frames ?fl))" "\<not> ok \<longrightarrow> fl' = ?fl"
        "ok \<longrightarrow> received fl' = received ?fl \<union> {max (fl_offset ?fl) offset..<offset + data_len}"
        "ok \<longrightarrow> (fl_fin fl' \<longleftrightarrow> fin \<or> fl_fin ?fl) \<and> fl_end fl' = max (fl_end ?fl) (offset + data_len)"
      by (simp_all add: inserted_def)
    have "sf_holds f (rb_view (rs_rbuf qrs)) (fl_offset ?fl) ?new"
      using d u False by (auto simp: carries_def sf_holds_def split: option.splits)
    then have "frames_ok f (rb_view (rs_rbuf qrs)) (fl_offset fl') (frames fl')"
      using o(1,2,4) i(2) by (auto simp: frames_ok_def fl_inv_def)
    then show ?thesis using o inv fl'(2) by (auto simp: rs_inv_def)
  qed
  then show "rs_inv f qrs'" "rs_rxfc qrs' = rs_rxfc qrs" "rs_head_range qrs' = rs_head_range qrs" "fl_offset (rs_fl qrs') = fl_offset (rs_fl qrs)"
    "head_locked (rs_fl qrs') = head_locked (rs_fl qrs)" "\<not> ok \<Longrightarrow> qrs' = qrs"
    "ok \<Longrightarrow> received (rs_fl qrs') = received (rs_fl qrs) \<union> {max (fl_offset (rs_fl qrs)) offset..<offset + data_len}"
    "ok \<Longrightarrow> fl_fin (rs_fl qrs') \<longleftrightarrow> fl_fin (rs_fl qrs) \<or> fin" "ok \<Longrightarrow> fl_end (rs_fl qrs') = max (fl_end (rs_fl qrs)) (offset + data_len)"
    by blast+
qed


text \<open>Operations that change where the bytes are, not which there are.\<close>

definition rs_same :: "QUIC_RSTREAM \<Rightarrow> QUIC_RSTREAM \<Rightarrow> bool" where
  "rs_same qrs qrs' \<longleftrightarrow> rs_rxfc qrs' = rs_rxfc qrs \<and> fl_fin (rs_fl qrs') = fl_fin (rs_fl qrs) \<and> fl_offset (rs_fl qrs') = fl_offset (rs_fl qrs)
     \<and> received (rs_fl qrs') = received (rs_fl qrs) \<and> fl_end (rs_fl qrs') = fl_end (rs_fl qrs)"

lemma move_to_rbuf_correct:
  assumes "rs_inv f qrs" "ossl_quic_rstream_move_to_rbuf qrs = (ok, qrs')"
  shows "rs_inv f qrs' \<and> rs_same qrs qrs' \<and> rs_head_range qrs' = rs_head_range qrs \<and> head_locked (rs_fl qrs') = head_locked (rs_fl qrs)"
proof (cases "ring_buf_avail (rs_rbuf qrs) = 0")
  case True
  then show ?thesis using assms by (simp add: ossl_quic_rstream_move_to_rbuf_def rs_same_def)
next
  case False
  let ?fl = "rs_fl qrs"
  have i: "rb_inv (rs_rbuf qrs)" "fl_inv ?fl" "frames_ok f (rb_view (rs_rbuf qrs)) (fl_offset ?fl) (frames ?fl)" using assms(1) by (simp_all add: rs_inv_def)
  obtain fl' r' where m: "ossl_sframe_list_move_data write_at_ring_buf_cb ?fl (rs_rbuf qrs) = (ok, fl', r')" "qrs' = qrs\<lparr>rs_fl := fl', rs_rbuf := r'\<rparr>"
    using assms(2) False by (auto simp: ossl_quic_rstream_move_to_rbuf_def split: prod.splits)
  note d = ring.move_data_correct [OF i m(1)]
  have "fl_end fl' = fl_end ?fl" using d(3,6,7) i(2) by (auto simp: fl_end_last same_list_def)
  then show ?thesis using d assms(1) m(2) by (simp add: rs_inv_def rs_same_def same_list_def)
qed

lemma resize_rbuf_correct:
  assumes "rs_inv f qrs" "\<forall>k mem. malloc k = Some mem \<longrightarrow> length mem = k" "n \<le> SIZE_MAX"
  shows "\<exists>ok qrs'. ossl_quic_rstream_resize_rbuf malloc qrs n = Some (ok, qrs') \<and> rs_inv f qrs' \<and> rs_fl qrs' = rs_fl qrs
    \<and> rs_rxfc qrs' = rs_rxfc qrs \<and> rs_head_range qrs' = rs_head_range qrs"
proof (cases "ossl_sframe_list_is_head_locked (rs_fl qrs)")
  case False
  have "rb_inv (rs_rbuf qrs)" using assms(1) by (simp add: rs_inv_def)
  from resize_correct [OF this _ assms(3), of malloc] assms(2) obtain ok r where
    "ring_buf_resize malloc (rs_rbuf qrs) n = Some (ok, r)" "rb_inv r" "rb_view r = rb_view (rs_rbuf qrs)" "ctail_offset r = ctail_offset (rs_rbuf qrs)" by blast
  then show ?thesis using False assms(1) by (simp add: ossl_quic_rstream_resize_rbuf_def rs_inv_def)
qed (use assms(1) in \<open>auto simp: ossl_quic_rstream_resize_rbuf_def\<close>)

lemma set_cleanse_correct:
  assumes "rs_inv f qrs"
  shows "rs_inv f (ossl_quic_rstream_set_cleanse qrs c) \<and> rs_same qrs (ossl_quic_rstream_set_cleanse qrs c)"
  using assms by (simp add: ossl_quic_rstream_set_cleanse_def rs_inv_def rs_same_def fl_inv_def received_def fl_end_def)

text \<open>A record given out in place holds the next bytes of the stream, which stay until it is released.\<close>

definition rs_pending :: "(nat \<Rightarrow> u8) \<Rightarrow> QUIC_RSTREAM \<Rightarrow> u8 list \<Rightarrow> bool" where
  "rs_pending f qrs pend \<longleftrightarrow> (head_locked (rs_fl qrs) \<longrightarrow> rstart (rs_head_range qrs) = fl_offset (rs_fl qrs)
     \<and> rstart (rs_head_range qrs) \<le> rend (rs_head_range qrs) \<and> {rstart (rs_head_range qrs)..<rend (rs_head_range qrs)} \<subseteq> received (rs_fl qrs)
     \<and> pend = map f [unat (rstart (rs_head_range qrs))..<unat (rend (rs_head_range qrs))])"

lemma head_chunk:
  assumes inv: "rs_inv f qrs" and fr: "frames (rs_fl qrs) = sf # fs" "sf_start sf \<le> fl_offset (rs_fl qrs)"
    and l: "0 < l" "unat (fl_offset (rs_fl qrs)) + l \<le> unat (sf_end sf)"
    and q: "rs_fl qrs' = rs_fl qrs\<lparr>head_locked := True\<rparr>" "rs_rbuf qrs' = rs_rbuf qrs"
      "rstart (rs_head_range qrs') = fl_offset (rs_fl qrs)" "unat (rend (rs_head_range qrs')) = unat (fl_offset (rs_fl qrs)) + l" "rs_rxfc qrs' = rs_rxfc qrs"
    and d: "take l d = map f [unat (fl_offset (rs_fl qrs))..<unat (fl_offset (rs_fl qrs)) + l]"
  shows "rs_inv f qrs' \<and> rs_same qrs qrs' \<and> rs_pending f qrs' (take l d)"
proof -
  have "{fl_offset (rs_fl qrs)..<rend (rs_head_range qrs')} \<subseteq> sf_span sf \<inter> {fl_offset (rs_fl qrs)..}"
    using fr(2) l(2) q(4) by (auto simp: sf_span_def word_le_nat_alt word_less_nat_alt)
  then have "{fl_offset (rs_fl qrs)..<rend (rs_head_range qrs')} \<subseteq> received (rs_fl qrs)" using fr(1) by (auto simp: received_def)
  then show ?thesis
    using inv q d by (simp add: rs_inv_def rs_same_def rs_pending_def fl_inv_def received_def fl_end_def word_le_nat_alt)
qed

lemma get_record_correct:
  assumes inv: "rs_inv f qrs" and pend: "rs_pending f qrs pend"
  shows "\<exists>recd len fin qrs'. ossl_quic_rstream_get_record qrs = (Some (recd, len, fin), qrs') \<and> rs_inv f qrs' \<and> rs_same qrs qrs'
    \<and> rs_pending f qrs' (case recd of None \<Rightarrow> pend | Some d \<Rightarrow> take len d)"
proof (cases "head_locked (rs_fl qrs)")
  case True
  then show ?thesis using assms by (simp add: ossl_quic_rstream_get_record_def ossl_sframe_list_lock_head_def rs_same_def)
next
  case unlocked: False
  let ?fl = "rs_fl qrs" and ?pk = "ossl_sframe_list_peek (rs_fl qrs) None"
  have i: "rb_inv (rs_rbuf qrs)" "fl_inv ?fl" "frames_ok f (rb_view (rs_rbuf qrs)) (fl_offset ?fl) (frames ?fl)" using inv by (simp_all add: rs_inv_def)
  show ?thesis
  proof (cases "pk_ok ?pk")
    case False
    then show ?thesis using inv unlocked
      by (simp add: ossl_quic_rstream_get_record_def ossl_sframe_list_lock_head_def Let_def rs_same_def rs_inv_def rs_pending_def)
  next
    case True
    then obtain sf fs where fr: "frames ?fl = sf # fs" using peek_end [of ?fl None] by (cases "frames ?fl") auto
    have lt: "fl_offset ?fl < sf_end sf" using i(2) fr by (simp add: fl_inv_def)
    note peek = peek_frame [of ?fl None sf fs, unfolded cursor_None, OF fr lt]
    have st: "sf_start sf \<le> fl_offset ?fl" using True peek by (simp split: if_splits)
    have pk: "?pk = \<lparr>pk_ok = True, pk_range = \<lparr>rstart = fl_offset ?fl, rend = sf_end sf\<rparr>,
        pk_data = map_option (drop (unat (fl_offset ?fl - sf_start sf))) (sf_data sf), pk_fin = (fs = [] \<and> fl_fin ?fl), pk_iter = Some (cursor_next None)\<rparr>"
      using True peek by (simp split: if_splits)
    define len where "len = unat (sf_end sf) - unat (fl_offset ?fl)"
    have len: "unat (sf_end sf - fl_offset ?fl) = len" "0 < len" "unat (fl_offset ?fl) + len = unat (sf_end sf)"
      using lt by (simp_all add: len_def unat_sub_exact word_less_nat_alt less_imp_le)
    have sf: "sf_holds f (rb_view (rs_rbuf qrs)) (fl_offset ?fl) sf" using i(3) fr by (simp add: frames_ok_def)
    note chunk = read_chunk_frame [OF i(1) sf order.refl st]
    note rec = ossl_quic_rstream_get_record_def ossl_sframe_list_lock_head_def
    show ?thesis
    proof (cases "sf_data sf")
      case (Some d)
      let ?d = "drop (unat (fl_offset ?fl - sf_start sf)) d"
      have d: "take len ?d = map f [unat (fl_offset ?fl)..<unat (fl_offset ?fl) + len]"
        using chunk [of len] Some len by (simp add: read_chunk_def)
      let ?qrs = "qrs\<lparr>rs_fl := ?fl\<lparr>head_locked := True\<rparr>, rs_head_range := \<lparr>rstart = fl_offset ?fl, rend = sf_end sf\<rparr>\<rparr>"
      have "ossl_quic_rstream_get_record qrs = (Some (Some ?d, len, Some (fs = [] \<and> fl_fin ?fl)), ?qrs)"
        using unlocked pk len Some lt by (auto simp: rec Let_def)
      then show ?thesis using head_chunk [OF inv fr st len(2) _ _ _ _ _ _ d, of ?qrs] len by simp
    next
      case None
      have "rb_view (rs_rbuf qrs) (unat (fl_offset ?fl)) = Some (f (unat (fl_offset ?fl)))"
        using sf None st len by (simp add: sf_holds_def word_le_nat_alt)
      then obtain d m where p: "ring_buf_get_ptr (rs_rbuf qrs) (fl_offset ?fl) = Some (d, m)"
        using get_ptr_correct(1) [OF i(1), of "fl_offset ?fl"] by fastforce
      note g = get_ptr_correct(2) [OF i(1) p]
      define l where "l = min len m"
      have l: "0 < l" "unat (fl_offset ?fl) + l \<le> unat (sf_end sf)" "l \<le> m"
        using len(2,3) g [THEN conjunct2, THEN conjunct1] unfolding l_def by linarith+
      then have d: "take l d = map f [unat (fl_offset ?fl)..<unat (fl_offset ?fl) + l]"
        using chunk [of l] None p by (simp add: read_chunk_def)
      have ul: "unat (fl_offset ?fl + of_nat l) = unat (fl_offset ?fl) + l"
        using l(2) sf by (intro unat_offset) (simp add: sf_holds_def)
      have e: "fl_offset ?fl + of_nat len = sf_end sf" using len(1) by (metis add_diff_cancel_left' diff_add_cancel add.commute of_nat_unat ucast_id)
      let ?qrs = "qrs\<lparr>rs_fl := ?fl\<lparr>head_locked := True\<rparr>, rs_head_range := \<lparr>rstart = fl_offset ?fl, rend = fl_offset ?fl + of_nat l\<rparr>\<rparr>"
      have "ossl_quic_rstream_get_record qrs = (Some (Some d, l, Some (fs = [] \<and> fl_fin ?fl)), ?qrs)"
        using unlocked pk len None lt p e by (auto simp: rec Let_def l_def min_def)
      then show ?thesis using head_chunk [OF inv fr st l(1,2) _ _ _ _ _ d, of ?qrs] ul by simp
    qed
  qed
qed

lemma pending_end:
  assumes "rs_inv f qrs" "rs_pending f qrs pend" "head_locked (rs_fl qrs)"
  shows "rend (rs_head_range qrs) \<le> fl_end (rs_fl qrs)"
proof (cases "rstart (rs_head_range qrs) < rend (rs_head_range qrs)")
  case True
  let ?e = "rend (rs_head_range qrs)"
  have "?e \<noteq> 0" using True by (metis not_less word_zero_le)
  then have "?e - 1 \<in> {rstart (rs_head_range qrs)..<?e}" using True by (simp add: word_le_nat_alt word_less_nat_alt unat_minus_one)
  then obtain sf where sf: "sf \<in> set (frames (rs_fl qrs))" "?e - 1 < sf_end sf" using assms(2,3) by (auto simp: rs_pending_def received_def sf_span_def)
  then have "?e \<le> sf_end sf" using \<open>?e \<noteq> 0\<close> by (simp add: word_le_nat_alt word_less_nat_alt unat_minus_one)
  then show ?thesis using fl_end_ge(2) [OF sf(1)] by order
next
  case False
  then show ?thesis using assms(2,3) fl_end_ge(1) [of "rs_fl qrs"] by (auto simp: rs_pending_def)
qed

lemma release_record_correct:
  assumes inv: "rs_inv f qrs" and pend: "rs_pending f qrs pend" and n: "read_len \<le> SIZE_MAX"
    and r: "ossl_quic_rstream_release_record now h qrs read_len = (True, qrs', h', now')"
  shows "rs_inv f qrs'" "\<not> head_locked (rs_fl qrs')" "fl_fin (rs_fl qrs') = fl_fin (rs_fl qrs)" "fl_end (rs_fl qrs') = fl_end (rs_fl qrs)"
    "unat (fl_offset (rs_fl qrs')) = unat (fl_offset (rs_fl qrs)) + length (take read_len pend)"
    "received (rs_fl qrs') = {x \<in> received (rs_fl qrs). unat (fl_offset (rs_fl qrs')) \<le> unat x}"
    "take read_len pend = map f [unat (fl_offset (rs_fl qrs))..<unat (fl_offset (rs_fl qrs'))]"
proof -
  let ?fl = "rs_fl qrs" and ?hr = "rs_head_range qrs"
  have lk: "head_locked ?fl" using r by (auto simp: ossl_quic_rstream_release_record_def ossl_sframe_list_is_head_locked_def split: if_splits)
  have p: "rstart ?hr = fl_offset ?fl" "fl_offset ?fl \<le> rend ?hr" "pend = map f [unat (fl_offset ?fl)..<unat (rend ?hr)]"
    using pend lk by (auto simp: rs_pending_def)
  have u: "unat (rend ?hr - fl_offset ?fl) = unat (rend ?hr) - unat (fl_offset ?fl)" using p(2) by (simp add: unat_sub_exact)
  have e: "rend ?hr \<le> fl_end ?fl" by (rule pending_end [OF inv pend lk])
  have e': "unat (rend ?hr) \<le> 2 ^ 62" "unat (fl_offset ?fl) \<le> unat (rend ?hr)" using e p(2) rs_inv_end [OF inv] by (simp_all add: word_le_nat_alt)
  define m where "m = min read_len (unat (rend ?hr) - unat (fl_offset ?fl))"
  define limit where "limit = (if read_len > unat (rend ?hr) - unat (fl_offset ?fl) then rend ?hr else fl_offset ?fl + of_nat read_len)"
  have "unat (fl_offset ?fl + of_nat read_len) = unat (fl_offset ?fl) + read_len" if "read_len \<le> unat (rend ?hr) - unat (fl_offset ?fl)"
    using that e' by (intro unat_offset) simp
  then have ul: "unat limit = unat (fl_offset ?fl) + m" using e'(2) by (auto simp: limit_def m_def)
  have lim: "fl_offset ?fl \<le> limit" "limit \<le> fl_end ?fl" using ul e e'(2) by (auto simp: word_le_nat_alt m_def)
  obtain fl' where a: "ossl_sframe_list_drop_frames ?fl limit = (True, fl')" "fl_offset fl' = limit" "fl_fin fl' = fl_fin ?fl"
    "fl_end fl' = fl_end ?fl" "received fl' = received ?fl \<inter> {limit..}" "\<not> head_locked fl'"
    "limit \<noteq> 0 \<Longrightarrow> rs_inv f (qrs\<lparr>rs_fl := fl', rs_rbuf := ring_buf_cpop_range (rs_rbuf qrs) 0 (limit - 1) (fl_cleanse fl')\<rparr>)"
    "limit = 0 \<Longrightarrow> rs_inv f (qrs\<lparr>rs_fl := fl'\<rparr>)"
    using advance_correct [OF inv lim] by metis
  have q: "qrs' = (if limit \<noteq> 0 then qrs\<lparr>rs_fl := fl', rs_rbuf := ring_buf_cpop_range (rs_rbuf qrs) 0 (limit - 1) (fl_cleanse fl')\<rparr> else qrs\<lparr>rs_fl := fl'\<rparr>)"
    using r a(1) lk unfolding ossl_quic_rstream_release_record_def p(1) u limit_def [symmetric]
    by (auto simp: Let_def ossl_sframe_list_is_head_locked_def word_gt_0 split: if_splits option.splits prod.splits)
  then have fl: "rs_fl qrs' = fl'" by simp
  show "rs_inv f qrs'" using a(7,8) q by (cases "limit = 0") simp_all
  show "\<not> head_locked (rs_fl qrs')" "fl_fin (rs_fl qrs') = fl_fin ?fl" "fl_end (rs_fl qrs') = fl_end ?fl" using a fl by simp_all
  show "unat (fl_offset (rs_fl qrs')) = unat (fl_offset ?fl) + length (take read_len pend)" using a(2) fl ul p(3) by (simp add: m_def min.commute)
  show "received (rs_fl qrs') = {x \<in> received ?fl. unat (fl_offset (rs_fl qrs')) \<le> unat x}" unfolding fl a(2,5) by (auto simp: word_le_nat_alt)
  show "take read_len pend = map f [unat (fl_offset ?fl)..<unat (fl_offset (rs_fl qrs'))]"
    unfolding fl a(2) ul p(3) m_def using e'(2)
    by (cases "read_len \<le> unat (rend ?hr) - unat (fl_offset ?fl)") (simp_all add: take_map)
qed



section \<open>Reassembly\<close>

text \<open>
  The calls of the application that succeed, with the bytes it has been given and the record it holds, and those that rearrange the storage.
\<close>

inductive rs_use :: "QUIC_RSTREAM \<Rightarrow> u8 list \<Rightarrow> u8 list \<Rightarrow> QUIC_RSTREAM \<Rightarrow> u8 list \<Rightarrow> u8 list \<Rightarrow> bool" where
  rs_read: "ossl_quic_rstream_read now h qrs sz = (Some (buf, fin), qrs', h', now') \<Longrightarrow> rs_use qrs out pend qrs' (out @ buf) pend"
| rs_peek: "ossl_quic_rstream_peek qrs sz = (res, qrs') \<Longrightarrow> rs_use qrs out pend qrs' out pend"
| rs_get: "ossl_quic_rstream_get_record qrs = (Some (recd, len, fin), qrs') \<Longrightarrow>
    rs_use qrs out pend qrs' out (case recd of None \<Rightarrow> pend | Some d \<Rightarrow> take len d)"
| rs_release: "read_len \<le> SIZE_MAX \<Longrightarrow> ossl_quic_rstream_release_record now h qrs read_len = (True, qrs', h', now') \<Longrightarrow>
    rs_use qrs out pend qrs' (out @ take read_len pend) pend"
| rs_move: "ossl_quic_rstream_move_to_rbuf qrs = (ok, qrs') \<Longrightarrow> rs_use qrs out pend qrs' out pend"
| rs_resize: "\<forall>k mem. malloc k = Some mem \<longrightarrow> length mem = k \<Longrightarrow> n \<le> SIZE_MAX \<Longrightarrow>
    ossl_quic_rstream_resize_rbuf malloc qrs n = Some (ok, qrs') \<Longrightarrow> rs_use qrs out pend qrs' out pend"
| rs_cleanse: "rs_use qrs out pend (ossl_quic_rstream_set_cleanse qrs c) out pend"

text \<open>
  The streams that calls of the interface can lead to, where the frames carry bytes of the stream \<open>f\<close>: with the
  bytes given to the application, the record it holds, the offsets received, the end of the stream as far as known and whether it is final.
\<close>

inductive rs_reach :: "(nat \<Rightarrow> u8) \<Rightarrow> QUIC_RSTREAM \<Rightarrow> u8 list \<Rightarrow> u8 list \<Rightarrow> nat set \<Rightarrow> nat \<Rightarrow> bool \<Rightarrow> bool" for f where
  rs_new: "ossl_quic_rstream_new alloc malloc refs rxfc statm n = Some (Some qrs) \<Longrightarrow> \<forall>k mem. malloc k = Some mem \<longrightarrow> length mem = k \<Longrightarrow>
    n \<le> SIZE_MAX \<Longrightarrow> rs_reach f qrs [] [] {} 0 False"
| rs_queue: "rs_reach f qrs out pend S E fn \<Longrightarrow> carries f offset data data_len \<Longrightarrow>
    ossl_quic_rstream_queue_data alloc qrs pkt offset data data_len fin = (True, qrs') \<Longrightarrow>
    rs_reach f qrs' out pend (S \<union> {unat offset..<unat offset + unat data_len}) (max E (unat offset + unat data_len)) (fn \<or> fin)"
| rs_queue_failed: "rs_reach f qrs out pend S E fn \<Longrightarrow> carries f offset data data_len \<Longrightarrow>
    ossl_quic_rstream_queue_data alloc qrs pkt offset data data_len fin = (False, qrs') \<Longrightarrow> rs_reach f qrs' out pend S E fn"
| rs_used: "rs_reach f qrs out pend S E fn \<Longrightarrow> rs_use qrs out pend qrs' out' pend' \<Longrightarrow> rs_reach f qrs' out' pend' S E fn"

definition rs_state :: "(nat \<Rightarrow> u8) \<Rightarrow> QUIC_RSTREAM \<Rightarrow> u8 list \<Rightarrow> u8 list \<Rightarrow> nat set \<Rightarrow> nat \<Rightarrow> bool \<Rightarrow> bool" where
  "rs_state f qrs out pend S E fn \<longleftrightarrow> rs_inv f qrs \<and> rs_pending f qrs pend \<and> out = map f [0..<unat (fl_offset (rs_fl qrs))]
     \<and> (\<forall>x. x \<in> received (rs_fl qrs) \<longleftrightarrow> unat x \<in> S \<and> unat (fl_offset (rs_fl qrs)) \<le> unat x)
     \<and> fl_fin (rs_fl qrs) = fn \<and> unat (fl_end (rs_fl qrs)) = E"

lemma rs_state_same:
  "rs_state f qrs out pend S E fn \<Longrightarrow> rs_inv f qrs' \<Longrightarrow> rs_same qrs qrs' \<Longrightarrow> rs_pending f qrs' pend' \<Longrightarrow> rs_state f qrs' out pend' S E fn"
  by (simp add: rs_state_def rs_same_def)

lemma rs_pending_same:
  "rs_pending f qrs pend \<Longrightarrow> rs_same qrs qrs' \<Longrightarrow> rs_head_range qrs' = rs_head_range qrs \<Longrightarrow> head_locked (rs_fl qrs') = head_locked (rs_fl qrs) \<Longrightarrow>
    rs_pending f qrs' pend"
  unfolding rs_pending_def rs_same_def by metis

lemma rs_state_advance:
  assumes "rs_state f qrs out pend S E fn" "rs_inv f qrs'" "rs_pending f qrs' pend" "fl_fin (rs_fl qrs') = fl_fin (rs_fl qrs)" "fl_end (rs_fl qrs') = fl_end (rs_fl qrs)"
    "unat (fl_offset (rs_fl qrs)) \<le> unat (fl_offset (rs_fl qrs'))" "received (rs_fl qrs') = {x \<in> received (rs_fl qrs). unat (fl_offset (rs_fl qrs')) \<le> unat x}"
    "buf = map f [unat (fl_offset (rs_fl qrs))..<unat (fl_offset (rs_fl qrs'))]"
  shows "rs_state f qrs' (out @ buf) pend S E fn"
proof -
  have "map f [0..<unat (fl_offset (rs_fl qrs))] @ buf = map f [0..<unat (fl_offset (rs_fl qrs'))]"
    unfolding assms(8) using assms(6) upt_add_eq_append [of 0 "unat (fl_offset (rs_fl qrs))"] by (metis le0 le_add_diff_inverse map_append)
  moreover have rec: "x \<in> received (rs_fl qrs) \<longleftrightarrow> unat x \<in> S \<and> unat (fl_offset (rs_fl qrs)) \<le> unat x" for x using assms(1) by (simp add: rs_state_def)
  have "x \<in> received (rs_fl qrs') \<longleftrightarrow> unat x \<in> S \<and> unat (fl_offset (rs_fl qrs')) \<le> unat x" for x
    unfolding assms(7) using assms(6) by (simp add: rec) linarith
  ultimately show ?thesis using assms(1-5) by (simp add: rs_state_def)
qed

lemma rs_use_state:
  "rs_use qrs out pend qrs' out' pend' \<Longrightarrow> rs_state f qrs out pend S E fn \<Longrightarrow> rs_state f qrs' out' pend' S E fn"
proof (induction rule: rs_use.induct)
  case (rs_read now h qrs sz buf fin qrs' h' now' out pend)
  have st: "rs_inv f qrs" "rs_pending f qrs pend" using rs_read.prems by (simp_all add: rs_state_def)
  let ?n = "min sz (unat (contig_end (fl_offset (rs_fl qrs)) (frames (rs_fl qrs))) - unat (fl_offset (rs_fl qrs)))"
  from read_internal_correct [OF st(1) refl refl, of sz True] obtain q fin' where
    q: "read_internal qrs sz True = (Some (map f [unat (fl_offset (rs_fl qrs))..<unat (fl_offset (rs_fl qrs)) + ?n], fin'), q)" "rs_inv f q"
      "fl_fin (rs_fl q) = fl_fin (rs_fl qrs)" "fl_end (rs_fl q) = fl_end (rs_fl qrs)" "unat (fl_offset (rs_fl q)) = unat (fl_offset (rs_fl qrs)) + ?n"
      "received (rs_fl q) = {x \<in> received (rs_fl qrs). unat (fl_offset (rs_fl qrs)) + ?n \<le> unat x}" "head_locked (rs_fl q) \<longrightarrow> q = qrs" by auto
  have "qrs' = q \<and> buf = map f [unat (fl_offset (rs_fl qrs))..<unat (fl_offset (rs_fl qrs)) + ?n]"
    using rs_read.hyps unfolding ossl_quic_rstream_read_def q(1) Let_def
    by (cases "rs_rxfc q") (simp_all split: prod.splits if_splits)
  moreover have "rs_pending f q pend" using q(7) st(2) unfolding rs_pending_def by metis
  ultimately have "rs_inv f qrs'" "rs_pending f qrs' pend" "fl_fin (rs_fl qrs') = fl_fin (rs_fl qrs)" "fl_end (rs_fl qrs') = fl_end (rs_fl qrs)"
      "unat (fl_offset (rs_fl qrs)) \<le> unat (fl_offset (rs_fl qrs'))" "received (rs_fl qrs') = {x \<in> received (rs_fl qrs). unat (fl_offset (rs_fl qrs')) \<le> unat x}"
      "buf = map f [unat (fl_offset (rs_fl qrs))..<unat (fl_offset (rs_fl qrs'))]"
    using q(2-6) by simp_all
  then show ?case by (rule rs_state_advance [OF rs_read.prems])
next
  case (rs_peek qrs sz res qrs' out pend)
  have "rs_inv f qrs" using rs_peek.prems by (simp add: rs_state_def)
  then have "qrs' = qrs" using read_internal_correct [OF _ refl refl, of f qrs sz False] rs_peek.hyps by (auto simp: ossl_quic_rstream_peek_def)
  then show ?case using rs_peek.prems by simp
next
  case (rs_get qrs recd len fin qrs' out pend)
  then have "rs_inv f qrs" "rs_pending f qrs pend" by (simp_all add: rs_state_def)
  then show ?case using get_record_correct [of f qrs pend] rs_get rs_state_same by fastforce
next
  case (rs_release read_len now h qrs qrs' h' now' out pend)
  have st: "rs_inv f qrs" "rs_pending f qrs pend" using rs_release.prems by (simp_all add: rs_state_def)
  note r = release_record_correct [OF st rs_release.hyps]
  have "rs_pending f qrs' pend" using r(2) by (simp add: rs_pending_def)
  then show ?case using r by (intro rs_state_advance [OF rs_release.prems]) simp_all
next
  case (rs_move qrs ok qrs' out pend)
  then have "rs_inv f qrs" "rs_pending f qrs pend" by (simp_all add: rs_state_def)
  then show ?case using move_to_rbuf_correct [of f qrs ok qrs'] rs_move rs_state_same rs_pending_same by blast
next
  case (rs_resize malloc n qrs ok qrs' out pend)
  have st: "rs_inv f qrs" "rs_pending f qrs pend" using rs_resize.prems by (simp_all add: rs_state_def)
  have "rs_inv f qrs' \<and> rs_same qrs qrs' \<and> rs_pending f qrs' pend"
    using resize_rbuf_correct [OF st(1) rs_resize.hyps(1,2)] rs_resize.hyps(3) st(2) by (auto simp: rs_same_def rs_pending_def)
  then show ?case using rs_resize.prems rs_state_same by blast
next
  case (rs_cleanse qrs out pend c)
  then have st: "rs_inv f qrs" "rs_pending f qrs pend" by (simp_all add: rs_state_def)
  have "rs_pending f (ossl_quic_rstream_set_cleanse qrs c) pend" 
    using rs_pending_same [OF st(2) set_cleanse_correct [OF st(1), THEN conjunct2]] by (simp add: ossl_quic_rstream_set_cleanse_def)
  then show ?case using set_cleanse_correct [OF st(1)] rs_cleanse.prems rs_state_same by blast
qed


lemma rs_reach_state: "rs_reach f qrs out pend S E fn \<Longrightarrow> rs_state f qrs out pend S E fn"
proof (induction rule: rs_reach.induct)
  case (rs_new alloc malloc refs rxfc statm n qrs)
  show ?case using new_correct [OF rs_new] by (simp add: rs_state_def rs_pending_def ossl_sframe_list_init_def received_def fl_end_def)
next
  case (rs_queue qrs out pend S E fn offset data data_len alloc pkt fin qrs')
  have st: "rs_inv f qrs" "rs_pending f qrs pend" using rs_queue.IH by (simp_all add: rs_state_def)
  note q = queue_data_correct [OF st(1) rs_queue.hyps(2,3)]
  have u: "unat (offset + data_len) = unat offset + unat data_len" using rs_queue.hyps(2) by (simp add: carries_def unat_add_exact)
  have "rs_pending f qrs' pend" using st(2) q(3,4,5) q(7) [OF TrueI] unfolding rs_pending_def by (metis le_supI1)
  moreover have "x \<in> received (rs_fl qrs') \<longleftrightarrow> unat x \<in> S \<union> {unat offset..<unat offset + unat data_len} \<and> unat (fl_offset (rs_fl qrs')) \<le> unat x" for x
    using rs_queue.IH q(4) q(7) [OF TrueI] by (auto simp: rs_state_def word_le_nat_alt word_less_nat_alt u max_def)
  moreover have "unat (fl_end (rs_fl qrs')) = max E (unat offset + unat data_len)"
    using rs_queue.IH q(9) [OF TrueI] u by (simp add: rs_state_def max_def word_le_nat_alt)
  ultimately show ?case using rs_queue.IH q(1,4) q(8) [OF TrueI] by (simp add: rs_state_def)
next
  case (rs_queue_failed qrs out pend S E fn offset data data_len alloc pkt fin qrs')
  then show ?case using queue_data_correct(6) [OF _ rs_queue_failed.hyps(2,3)] by (simp add: rs_state_def)
next
  case (rs_used qrs out pend S E fn qrs' out' pend')
  show ?case by (rule rs_use_state [OF rs_used.hyps(2) rs_used.IH])
qed

lemma rs_reach_reads:
  assumes "rs_reach f qrs out pend S E fn"
  shows "out = map f [0..<length out] \<and>
    (\<exists>a. ossl_quic_rstream_available qrs = (a, fn \<and> length out + a = E) \<and> (\<forall>k < a. length out + k \<in> S) \<and> length out + a \<notin> S
      \<and> length out + a \<le> E \<and> fst (ossl_quic_rstream_peek qrs sz) = Some (map f [length out..<length out + min sz a], fn \<and> length out + min sz a = E))"
proof -
  have st: "rs_inv f qrs" "out = map f [0..<unat (fl_offset (rs_fl qrs))]" "fl_fin (rs_fl qrs) = fn" "unat (fl_end (rs_fl qrs)) = E"
    "\<forall>x. x \<in> received (rs_fl qrs) \<longleftrightarrow> unat x \<in> S \<and> unat (fl_offset (rs_fl qrs)) \<le> unat x"
    using rs_reach_state [OF assms] by (simp_all add: rs_state_def)
  let ?off = "fl_offset (rs_fl qrs)"
  let ?ce = "contig_end ?off (frames (rs_fl qrs))"
  have i: "fl_inv (rs_fl qrs)" using st(1) by (simp add: rs_inv_def)
  note ce = contig_end_received [OF i]
  have top: "unat ?ce \<le> 2 ^ 62" using contig_end_le [OF i] rs_inv_end [OF st(1)] by (simp add: word_le_nat_alt)
  have le: "unat ?off \<le> unat ?ce" using ce(3) by (simp add: word_le_nat_alt)
  have len: "length out = unat ?off" by (simp add: st(2))
  have "unat ?off + k \<in> S" if "k < unat ?ce - unat ?off" for k
  proof -
    have lt: "unat ?off + k < unat ?ce" using that by simp
    then have u: "unat (of_nat (unat ?off + k) :: u64) = unat ?off + k" using top by (intro unat_of_nat_u64) simp
    then have "of_nat (unat ?off + k) \<in> {?off..<?ce}" using lt by (simp add: word_le_nat_alt word_less_nat_alt del: of_nat_add)
    then show ?thesis using ce(1) st(5) u by auto
  qed
  moreover have "unat ?ce \<notin> S" using ce(2) st(5) le by blast
  moreover have "unat ?ce \<le> E" using contig_end_le [OF i] st(4) by (simp add: word_le_nat_alt)
  moreover note available_correct [OF st(1)]
  moreover from read_internal_correct [OF st(1) refl refl, of sz False]
  have "fst (ossl_quic_rstream_peek qrs sz) = Some (map f [unat ?off..<unat ?off + min sz (unat ?ce - unat ?off)], fn \<and> unat ?off + min sz (unat ?ce - unat ?off) = E)"
    by (auto simp: ossl_quic_rstream_peek_def st(3,4))
  moreover have "out = map f [0..<length out]" unfolding len by (rule st(2))
  ultimately show ?thesis unfolding len using le st(3,4) by (intro conjI exI [of _ "unat ?ce - unat ?off"]) simp_all
qed

text \<open>C3: reassembly of a received stream. Whatever the order in which frames of a stream come, however they overlap, and whether they
  stay in packets or are moved to the ring buffer, the bytes given to the application by calls that succeed, copied or in place, are the stream from its start;
  what is available next is exactly the run of received bytes that follows, up to the first one missing; a peek returns the first bytes
  of that run; and the end of the stream is reported exactly where it is known and reached.
\<close>

theorem rstream_reassembles:
  assumes "rs_reach f qrs out pend S E fn"
  shows "out = map f [0..<length out] \<and>
    (\<exists>a. ossl_quic_rstream_available qrs = (a, fn \<and> length out + a = E) \<and> (\<forall>k < a. length out + k \<in> S) \<and> length out + a \<notin> S
      \<and> length out + a \<le> E \<and> fst (ossl_quic_rstream_peek qrs sz) = Some (map f [length out..<length out + min sz a], fn \<and> length out + min sz a = E))"
  by (rule rs_reach_reads [OF assms])


theorem rstream_reassembles_witness:
  "\<exists>qrs. rs_reach of_nat qrs [0, 1, 2] [] {0..<5} 5 True \<and> ossl_quic_rstream_available qrs = (2, True)
     \<and> fst (ossl_quic_rstream_peek qrs 1) = Some ([3], False)"
proof -
  let ?malloc = "\<lambda>k. Some (replicate k 0)"
  let ?new = "ossl_quic_rstream_new True ?malloc (\<lambda>_. 0) None None 4"
  define q0 where "q0 = the (the ?new)"
  define q1 where "q1 = snd (ossl_quic_rstream_queue_data True q0 None 2 (Some [2, 3, 4]) 3 True)"
  define q2 where "q2 = snd (ossl_quic_rstream_queue_data True q1 None 0 (Some [0, 1, 2, 3]) 4 False)"
  define q3 where "q3 = snd (read_internal q2 3 True)"
  have "case ?new of Some (Some q) \<Rightarrow> True | _ \<Rightarrow> False" by code_simp
  then have "?new = Some (Some q0)" unfolding q0_def by (auto split: option.splits)
  then have "rs_reach of_nat q0 [] [] {} 0 False" by (rule rs_new) simp_all
  moreover have "\<forall>k < 3. [2, 3, 4 :: u8] ! k = of_nat (2 + k)" "\<forall>k < 4. [0, 1, 2, 3 :: u8] ! k = of_nat k" by (simp_all add: numeral_eq_Suc All_less_Suc)
  then have "carries of_nat 2 (Some [2, 3, 4]) 3" "carries of_nat 0 (Some [0, 1, 2, 3]) 4" by (simp_all add: carries_def)
  moreover have "fst (ossl_quic_rstream_queue_data True q0 None 2 (Some [2, 3, 4]) 3 True)" unfolding q0_def by code_simp
  then have "ossl_quic_rstream_queue_data True q0 None 2 (Some [2, 3, 4]) 3 True = (True, q1)" by (simp add: q1_def prod_eq_iff)
  moreover have "fst (ossl_quic_rstream_queue_data True q1 None 0 (Some [0, 1, 2, 3]) 4 False)" unfolding q1_def q0_def by code_simp
  then have "ossl_quic_rstream_queue_data True q1 None 0 (Some [0, 1, 2, 3]) 4 False = (True, q2)" by (simp add: q2_def prod_eq_iff)
  ultimately have 2: "rs_reach of_nat q2 [] [] ({} \<union> {2..<5} \<union> {0..<4}) 5 True"
    using rs_queue [OF rs_queue, of of_nat q0 "[]" "[]" "{}" 0 False 2 "Some [2, 3, 4]" 3 True None True q1 0 "Some [0, 1, 2, 3]" 4 True None False q2] by simp
  have "fst (read_internal q2 3 True) = Some ([0, 1, 2], False)" "rs_rxfc q3 = None" unfolding q3_def q2_def q1_def q0_def by code_simp+
  then have "read_internal q2 3 True = (Some ([0, 1, 2], False), q3)" "rs_rxfc q3 = None" by (simp_all add: q3_def prod_eq_iff)
  then have "ossl_quic_rstream_read now h q2 3 = (Some ([0, 1, 2], False), q3, h, now)" for now h by (simp add: ossl_quic_rstream_read_def Let_def)
  moreover have "{} \<union> {2..<5} \<union> {0..<4} = {0..<5 :: nat}" by auto
  ultimately have r: "rs_reach of_nat q3 [0, 1, 2] [] {0..<5} 5 True" using rs_used [OF 2 rs_read] by fastforce
  obtain a where a: "ossl_quic_rstream_available q3 = (a, 3 + a = 5)" "\<forall>k < a. 3 + k \<in> {0..<5 :: nat}" "3 + a \<notin> {0..<5}"
    "fst (ossl_quic_rstream_peek q3 1) = Some (map of_nat [3..<3 + min 1 a], 3 + min 1 a = 5)"
    using rstream_reassembles [OF r, of 1] by auto
  moreover have "a = 2" using a(2) [rule_format, of 2] a(3) by (cases "2 < a") auto
  ultimately show ?thesis using r by (intro exI [of _ q3]) simp
qed

lemma rxfc_on_retire_ok:
  "fst (ossl_quic_rxfc_on_retire now h p n rtt) \<longleftrightarrow> (rx_parent (h p) \<noteq> None \<or> standalone (h p)) \<and> (n = 0 \<or> rx_rwm (h p) + n \<le> rx_swm (h p))"
  by (auto simp: ossl_quic_rxfc_on_retire_def Let_def split_beta)

lemma pending_contiguous:
  assumes "rs_inv f qrs" "rs_pending f qrs pend" "head_locked (rs_fl qrs)"
  shows "rend (rs_head_range qrs) \<le> contig_end (fl_offset (rs_fl qrs)) (frames (rs_fl qrs))"
proof -
  have "fl_inv (rs_fl qrs)" using assms(1) by (simp add: rs_inv_def)
  then show ?thesis using contig_end_received(2,3) [of "rs_fl qrs"] assms(2,3) by (force simp: rs_pending_def not_le [symmetric])
qed

text \<open>C25: a record released in place is charged to flow control by its end offset instead of its length. Where the stream has a flow
  controller, releasing the record just obtained succeeds only if as many more bytes as the stream had up to the end of the record were received than
  retired, while reading the same bytes by copying succeeds as soon as they were received. So where all that was received before the record
  has been read, the release fails for every record that is not the first.
\<close>

theorem release_record_retires_offset:
  assumes "rs_reach f qrs out pend S E fn" "head_locked (rs_fl qrs)" "rs_rxfc qrs = Some p" "rx_parent (h p) \<noteq> None \<or> standalone (h p)" "0 < length pend"
  shows "(fst (ossl_quic_rstream_release_record now h qrs (length pend)) \<longleftrightarrow> rx_rwm (h p) + of_nat (length out + length pend) \<le> rx_swm (h p))
    \<and> (fst (ossl_quic_rstream_read now h qrs (length pend)) \<noteq> None \<longleftrightarrow> rx_rwm (h p) + of_nat (length pend) \<le> rx_swm (h p))"
proof -
  let ?fl = "rs_fl qrs" and ?hr = "rs_head_range qrs"
  have st: "rs_inv f qrs" "rs_pending f qrs pend" "out = map f [0..<unat (fl_offset ?fl)]" using rs_reach_state [OF assms(1)] by (simp_all add: rs_state_def)
  have p: "rstart ?hr = fl_offset ?fl" "fl_offset ?fl \<le> rend ?hr" "length pend = unat (rend ?hr) - unat (fl_offset ?fl)"
    using st(2) assms(2) by (auto simp: rs_pending_def)
  have le: "unat (fl_offset ?fl) + length pend = unat (rend ?hr)" using p(2,3) by (simp add: word_le_nat_alt)
  have len: "unat (rend ?hr - fl_offset ?fl) = length pend" using p(2,3) by (simp add: unat_sub_exact)
  have e: "fl_offset ?fl + of_nat (length pend) = rend ?hr" by (simp flip: len)
  have "of_nat (unat (rend ?hr)) = rend ?hr" by simp
  then have o: "of_nat (length out + length pend) = rend ?hr" by (simp only: st(3) length_map length_upt diff_zero le)
  have w: "of_nat (length pend) = rend ?hr - fl_offset ?fl" by (simp flip: len)
  have nz: "rend ?hr \<noteq> 0" "of_nat (length pend) \<noteq> (0 :: u64)" unfolding w using assms(5) le len by auto
  from advance_correct [OF st(1) p(2) pending_end [OF st(1,2) assms(2)]] obtain fl' where d: "ossl_sframe_list_drop_frames ?fl (rend ?hr) = (True, fl')" by metis
  have "fst (ossl_quic_rstream_release_record now h qrs (length pend)) \<longleftrightarrow> rx_rwm (h p) + rend ?hr \<le> rx_swm (h p)"
    using assms(2,3,4) nz(1) rxfc_on_retire_ok [of now h p "rend ?hr"]
    by (auto simp: ossl_quic_rstream_release_record_def ossl_sframe_list_is_head_locked_def p(1) len e d Let_def split_beta word_gt_0)
  moreover have "length pend \<le> unat (contig_end (fl_offset ?fl) (frames ?fl)) - unat (fl_offset ?fl)"
    using pending_contiguous [OF st(1,2) assms(2)] p(3) by (simp add: word_le_nat_alt)
  then have n: "min (length pend) (unat (contig_end (fl_offset ?fl) (frames ?fl)) - unat (fl_offset ?fl)) = length pend" by simp
  obtain buf fin q where rd: "read_internal qrs (length pend) True = (Some (buf, fin), q)" "length buf = length pend" "rs_rxfc q = Some p"
    using read_internal_correct [OF st(1) refl refl, of "length pend" True] assms(3) unfolding n by auto
  have "fst (ossl_quic_rstream_read now h qrs (length pend)) \<noteq> None \<longleftrightarrow> rx_rwm (h p) + of_nat (length pend) \<le> rx_swm (h p)"
    using assms(4) nz(2) rxfc_on_retire_ok [of now h p "of_nat (length pend)" "get_rtt qrs"] rd
    by (auto simp: ossl_quic_rstream_read_def Let_def split_beta)
  ultimately show ?thesis unfolding o by blast
qed


theorem release_record_retires_offset_witness:
  "\<exists>qrs h. rs_reach of_nat qrs [0, 1, 2] [3, 4] {0..<5} 5 False \<and> rs_rxfc qrs = Some 0 \<and> rx_rwm (h 0) = 3 \<and> rx_swm (h 0) = 5
     \<and> \<not> fst (ossl_quic_rstream_release_record (sconst 0) h qrs 2) \<and> fst (ossl_quic_rstream_read (sconst 0) h qrs 2) \<noteq> None"
proof -
  let ?new = "ossl_quic_rstream_new True (\<lambda>k. Some (replicate k 0)) (\<lambda>_. 0) (Some 0) None 4"
  let ?h = "\<lambda>_ :: nat. \<lparr>rx_cwm = 9, rx_swm = 5, rx_rwm = 0, rx_esrwm = 0, rx_hwm = 5, cur_window_size = 9, max_window_size = 9,
    epoch_start = 0, rx_parent = None, error_code = 0, has_cwm_changed = False, rx_is_fin = False, standalone = True\<rparr> :: rxfc"
  define q0 where "q0 = the (the ?new)"
  define q1 where "q1 = snd (ossl_quic_rstream_queue_data True q0 None 0 (Some [0, 1, 2, 3, 4]) 5 False)"
  define q2 where "q2 = snd (read_internal q1 3 True)"
  define q3 where "q3 = snd (ossl_quic_rstream_get_record q2)"
  have "case ?new of Some (Some q) \<Rightarrow> True | _ \<Rightarrow> False" by code_simp
  then have "?new = Some (Some q0)" unfolding q0_def by (auto split: option.splits)
  then have "rs_reach of_nat q0 [] [] {} 0 False" by (rule rs_new) simp_all
  moreover have "\<forall>k < 5. [0, 1, 2, 3, 4 :: u8] ! k = of_nat k" by (simp add: numeral_eq_Suc All_less_Suc)
  then have "carries of_nat 0 (Some [0, 1, 2, 3, 4]) 5" by (simp add: carries_def)
  moreover have "fst (ossl_quic_rstream_queue_data True q0 None 0 (Some [0, 1, 2, 3, 4]) 5 False)" unfolding q0_def by code_simp
  then have "ossl_quic_rstream_queue_data True q0 None 0 (Some [0, 1, 2, 3, 4]) 5 False = (True, q1)" by (simp add: q1_def prod_eq_iff)
  ultimately have 1: "rs_reach of_nat q1 [] [] {0..<5} 5 False"
    using rs_queue [of of_nat q0 "[]" "[]" "{}" 0 False 0 "Some [0, 1, 2, 3, 4]" 5 True None False q1] by simp
  have "fst (read_internal q1 3 True) = Some ([0, 1, 2], False)" "rs_rxfc q2 = Some 0" unfolding q2_def q1_def q0_def by code_simp+
  then have r: "read_internal q1 3 True = (Some ([0, 1, 2], False), q2)" "rs_rxfc q2 = Some 0" by (simp_all add: q2_def prod_eq_iff)
  obtain ok h' now' where o: "ossl_quic_rxfc_on_retire (sconst 0) ?h 0 3 (get_rtt q1) = (ok, h', now')" by (metis prod.exhaust)
  then have "ok" using rxfc_on_retire_ok [of "sconst 0" ?h 0 3 "get_rtt q1"] by simp
  then have "ossl_quic_rstream_read (sconst 0) ?h q1 3 = (Some ([0, 1, 2], False), q2, h', now')" using r o by (simp add: ossl_quic_rstream_read_def)
  from rs_used [OF 1 rs_read [OF this]] have 2: "rs_reach of_nat q2 [0, 1, 2] [] {0..<5} 5 False" by simp
  have g: "fst (ossl_quic_rstream_get_record q2) = Some (Some [3, 4], 2, Some False)" "head_locked (rs_fl q3)" "rs_rxfc q3 = Some 0"
    unfolding q3_def q2_def q1_def q0_def by code_simp+
  then have "ossl_quic_rstream_get_record q2 = (Some (Some [3, 4], 2, Some False), q3)" by (simp add: q3_def prod_eq_iff)
  from rs_used [OF 2 rs_get [OF this]] have 3: "rs_reach of_nat q3 [0, 1, 2] [3, 4] {0..<5} 5 False" by simp
  have "length [3, 4 :: u8] = 2" "length [0, 1, 2 :: u8] = 3" by simp_all
  note b = release_record_retires_offset [OF 3 g(2,3), where h = "\<lambda>p. ?h p\<lparr>rx_rwm := 3\<rparr>" and now = "sconst 0", unfolded this]
  show ?thesis using 3 g(3) b by (intro exI [of _ q3] exI [of _ "\<lambda>p. ?h p\<lparr>rx_rwm := 3\<rparr>"]) simp
qed

text \<open>C26: when a record that is handed out in place is not all that can be read, its end of stream flag is that of the data as a whole. At
  any time, if \<open>get_record\<close> returns a record shorter than the available data, it reports the end of the stream exactly if the end
  is known and the available data is one frame, of which the ring buffer can give only the first part because the rest has wrapped
  around; a peek of the same length never reports the end.
\<close>

theorem get_record_ends_early:
  assumes "rs_reach f qrs out pend S E fn" "ossl_quic_rstream_get_record qrs = (Some (Some d, n, Some fin), qrs')"
    "n < fst (ossl_quic_rstream_available qrs)"
  shows "(fin \<longleftrightarrow> snd (ossl_quic_rstream_available qrs) \<and> length (frames (rs_fl qrs)) = 1)
    \<and> fst (ossl_quic_rstream_peek qrs n) = Some (map f [length out..<length out + n], False)"
proof -
  let ?fl = "rs_fl qrs" and ?pk = "ossl_sframe_list_peek (rs_fl qrs) None"
  have inv: "rs_inv f qrs" using rs_reach_state [OF assms(1)] by (simp add: rs_state_def)
  then have i: "fl_inv ?fl" by (simp add: rs_inv_def)
  have pk: "pk_ok ?pk" "fin = pk_fin ?pk"
    using assms(2) by (auto simp: ossl_quic_rstream_get_record_def ossl_sframe_list_lock_head_def Let_def split: if_splits option.splits prod.splits)
  then obtain sf fs where fr: "frames ?fl = sf # fs" using peek_end [of ?fl None] by (cases "frames ?fl") auto
  have lt: "fl_offset ?fl < sf_end sf" using i fr by (simp add: fl_inv_def)
  note peek = peek_frame [of ?fl None sf fs, unfolded cursor_None, OF fr lt]
  have st: "\<not> fl_offset ?fl < sf_start sf" "fin \<longleftrightarrow> fs = [] \<and> fl_fin ?fl" using pk peek by (auto split: if_splits)
  have "contig_end (fl_offset ?fl) (frames ?fl) = fl_end ?fl" if "fs = []" using that fr st(1) lt by (auto simp: fl_end_def max_def not_less)
  then have fin: "fin \<longleftrightarrow> snd (ossl_quic_rstream_available qrs) \<and> length (frames ?fl) = 1" using st(2) fr available_correct [OF inv] by auto
  from rs_reach_reads [OF assms(1), of n] obtain a where "ossl_quic_rstream_available qrs = (a, fn \<and> length out + a = E)" "length out + a \<le> E"
    "fst (ossl_quic_rstream_peek qrs n) = Some (map f [length out..<length out + min n a], fn \<and> length out + min n a = E)" by auto
  then show ?thesis using fin assms(3) by auto
qed


theorem get_record_ends_early_witness:
  "\<exists>qrs d qrs'. rs_reach of_nat qrs [0, 1] [] {0..<5} 5 True \<and> ossl_quic_rstream_get_record qrs = (Some (Some d, 2, Some True), qrs')
     \<and> ossl_quic_rstream_available qrs = (3, True) \<and> fst (ossl_quic_rstream_peek qrs 2) = Some ([2, 3], False)"
proof -
  let ?new = "ossl_quic_rstream_new True (\<lambda>k. Some (replicate k 0)) (\<lambda>_. 0) None None 4"
  define q0 where "q0 = the (the ?new)"
  define q1 where "q1 = snd (ossl_quic_rstream_queue_data True q0 None 0 (Some [0, 1, 2, 3]) 4 False)"
  define q2 where "q2 = snd (ossl_quic_rstream_move_to_rbuf q1)"
  define q3 where "q3 = snd (read_internal q2 2 True)"
  define q4 where "q4 = snd (ossl_quic_rstream_queue_data True q3 None 4 (Some [4]) 1 True)"
  define q5 where "q5 = snd (ossl_quic_rstream_move_to_rbuf q4)"
  note defs = q5_def q4_def q3_def q2_def q1_def q0_def
  have "case ?new of Some (Some q) \<Rightarrow> True | _ \<Rightarrow> False" by code_simp
  then have "?new = Some (Some q0)" unfolding q0_def by (auto split: option.splits)
  then have 0: "rs_reach of_nat q0 [] [] {} 0 False" by (rule rs_new) simp_all
  have "fst (ossl_quic_rstream_queue_data True q0 None 0 (Some [0, 1, 2, 3]) 4 False)" unfolding defs by code_simp
  then have "ossl_quic_rstream_queue_data True q0 None 0 (Some [0, 1, 2, 3]) 4 False = (True, q1)" by (simp add: q1_def prod_eq_iff)
  moreover have "\<forall>k < 4. [0, 1, 2, 3 :: u8] ! k = of_nat k" by (simp add: numeral_eq_Suc All_less_Suc)
  then have "carries of_nat 0 (Some [0, 1, 2, 3]) 4" by (simp add: carries_def)
  ultimately have 1: "rs_reach of_nat q1 [] [] {0..<4} 4 False" using rs_queue [OF 0, of 0 "Some [0, 1, 2, 3]" 4] by simp
  have 2: "rs_reach of_nat q2 [] [] {0..<4} 4 False" by (rule rs_used [OF 1 rs_move]) (simp add: q2_def prod_eq_iff)
  have "fst (read_internal q2 2 True) = Some ([0, 1], False)" "rs_rxfc q3 = None" unfolding defs by code_simp+
  then have "read_internal q2 2 True = (Some ([0, 1], False), q3)" "rs_rxfc q3 = None" by (simp_all add: q3_def prod_eq_iff)
  then have "ossl_quic_rstream_read (sconst 0) (\<lambda>_. undefined) q2 2 = (Some ([0, 1], False), q3, (\<lambda>_. undefined), sconst 0)"
    by (simp add: ossl_quic_rstream_read_def)
  from rs_used [OF 2 rs_read [OF this]] have 3: "rs_reach of_nat q3 [0, 1] [] {0..<4} 4 False" by simp
  have "fst (ossl_quic_rstream_queue_data True q3 None 4 (Some [4]) 1 True)" unfolding defs by code_simp
  then have "ossl_quic_rstream_queue_data True q3 None 4 (Some [4]) 1 True = (True, q4)" by (simp add: q4_def prod_eq_iff)
  moreover have "carries of_nat 4 (Some [4]) 1" by (simp add: carries_def)
  moreover have "{0..<4} \<union> {4..<5} = {0..<5 :: nat}" by auto
  ultimately have 4: "rs_reach of_nat q4 [0, 1] [] {0..<5} 5 True" using rs_queue [OF 3, of 4 "Some [4]" 1] by simp
  have 5: "rs_reach of_nat q5 [0, 1] [] {0..<5} 5 True" by (rule rs_used [OF 4 rs_move]) (simp add: q5_def prod_eq_iff)
  have g: "fst (ossl_quic_rstream_get_record q5) = Some (Some [2, 3], 2, Some True)" "ossl_quic_rstream_available q5 = (3, True)"
    unfolding defs by code_simp+
  then have r: "ossl_quic_rstream_get_record q5 = (Some (Some [2, 3], 2, Some True), snd (ossl_quic_rstream_get_record q5))" by (simp add: prod_eq_iff)
  have "[2..<4] = [2, 3 :: nat]" by (simp add: numeral_eq_Suc)
  then show ?thesis using get_record_ends_early [OF 5 r] 5 r g(2) by (intro exI [of _ q5] exI [of _ "[2, 3]"] exI [of _ "snd (ossl_quic_rstream_get_record q5)"]) simp
qed

end
