(* ===== verification/SStream.thy ===== *)
theory SStream
  imports RingBuf UintSet QuicTypes
begin

text \<open>
  The sending part of a stream, \<^verbatim>\<open>ssl/quic/quic_sstream.c\<close>: the application appends bytes, the packetiser
  takes frames of bytes to send, and marks ranges as transmitted, lost or acknowledged. The bytes stay in a ring buffer
  until they are acknowledged. An argument \<open>alloc\<close> is the outcome of the allocation an operation may make, and \<open>None\<close>
  where an output is written stands for a return of 0; where the state is wrapped, for a call that does not return.
\<close>

section \<open>Model\<close>

record QUIC_SSTREAM =
  ss_ring_buf :: ring_buf
  new_set :: uint_set
  acked_set :: uint_set
  have_final_size :: bool
  sent_final_size :: bool
  acked_final_size :: bool
  ss_cleanse :: bool

definition ossl_quic_sstream_new :: "bool \<Rightarrow> (nat \<Rightarrow> u8 list option) \<Rightarrow> nat \<Rightarrow> QUIC_SSTREAM option option" where
  "ossl_quic_sstream_new alloc malloc init_buf_size =
     (if \<not> alloc then Some None
      else
        case ring_buf_resize malloc ring_buf_init init_buf_size of
          None \<Rightarrow> None
        | Some (ok, r) \<Rightarrow>
            Some (if \<not> ok then None
                  else Some \<lparr>ss_ring_buf = r, new_set = ossl_uint_set_init, acked_set = ossl_uint_set_init, have_final_size = False,
                             sent_final_size = False, acked_final_size = False, ss_cleanse = False\<rparr>))"

text \<open>
  The loop that gathers the parts of a range from the ring buffer, as pairs of a buffer and a length. \<open>None\<close> where the function returns 0
  or the assertion on the number of parts fails.
\<close>

function frame_loop :: "ring_buf \<Rightarrow> u64 \<Rightarrow> u64 \<Rightarrow> nat \<Rightarrow> (u8 list \<times> nat) list \<Rightarrow> (nat \<times> (u8 list \<times> nat) list) option" where
  "frame_loop r start max_len total_len iov =
     (if total_len \<ge> unat max_len then Some (total_len, iov)
      else
        case ring_buf_get_buf_at r (start + of_nat total_len) of
          None \<Rightarrow> None
        | Some (src, src_len) \<Rightarrow>
            if src_len = 0 then Some (total_len, iov)
            else if \<not> length iov < 2 then None
            else
              let src_len = (if total_len + src_len > unat max_len then unat max_len - total_len else src_len)
              in frame_loop r start max_len (total_len + src_len) (iov @ [(case src of None \<Rightarrow> [] | Some b \<Rightarrow> b, src_len)]))"
  by pat_completeness auto

termination
  by (relation "measure (\<lambda>(r, start, max_len, total_len, iov). unat max_len - total_len)") (auto split: if_splits)

declare frame_loop.simps [simp del]

definition ossl_quic_sstream_get_stream_frame ::
  "QUIC_SSTREAM \<Rightarrow> nat \<Rightarrow> OSSL_QUIC_FRAME_STREAM \<Rightarrow> nat \<Rightarrow> (OSSL_QUIC_FRAME_STREAM \<times> (u8 list \<times> nat) list) option" where
  "ossl_quic_sstream_get_stream_frame qss skip hdr num_iov =
     (if num_iov < 2 then None
      else if skip \<ge> length (new_set qss) then
        if length (new_set qss) < skip then None
        else if \<not> have_final_size qss \<or> sent_final_size qss then None
        else Some (hdr\<lparr>st_offset := head_offset (ss_ring_buf qss), st_len := 0, st_is_fin := True\<rparr>, [])
      else
        let rng = new_set qss ! skip; max_len = rend rng - rstart rng + 1
        in case frame_loop (ss_ring_buf qss) (rstart rng) max_len 0 [] of
             None \<Rightarrow> None
           | Some (total_len, iov) \<Rightarrow>
               Some (hdr\<lparr>st_offset := rstart rng, st_len := of_nat total_len,
                         st_is_fin := have_final_size qss \<and> rstart rng + of_nat total_len = head_offset (ss_ring_buf qss)\<rparr>, iov))"

definition ossl_quic_sstream_has_pending :: "QUIC_SSTREAM \<Rightarrow> OSSL_QUIC_FRAME_STREAM \<Rightarrow> bool" where
  "ossl_quic_sstream_has_pending qss shdr = (ossl_quic_sstream_get_stream_frame qss 0 shdr 2 \<noteq> None)"

definition ossl_quic_sstream_get_cur_size :: "QUIC_SSTREAM \<Rightarrow> u64" where
  "ossl_quic_sstream_get_cur_size qss = head_offset (ss_ring_buf qss)"

definition ossl_quic_sstream_mark_transmitted :: "bool \<Rightarrow> QUIC_SSTREAM \<Rightarrow> u64 \<Rightarrow> u64 \<Rightarrow> (bool \<times> QUIC_SSTREAM) option" where
  "ossl_quic_sstream_mark_transmitted alloc qss start end =
     (case ossl_uint_set_remove alloc (new_set qss) \<lparr>rstart = start, rend = end\<rparr> of
        None \<Rightarrow> None
      | Some (ok, s) \<Rightarrow> Some (ok, qss\<lparr>new_set := s\<rparr>))"

definition ossl_quic_sstream_mark_transmitted_fin :: "QUIC_SSTREAM \<Rightarrow> u64 \<Rightarrow> bool \<times> QUIC_SSTREAM" where
  "ossl_quic_sstream_mark_transmitted_fin qss final_size =
     (if \<not> have_final_size qss \<or> final_size \<noteq> head_offset (ss_ring_buf qss) then (False, qss)
      else (True, qss\<lparr>sent_final_size := True\<rparr>))"

definition ossl_quic_sstream_mark_lost :: "bool \<Rightarrow> QUIC_SSTREAM \<Rightarrow> u64 \<Rightarrow> u64 \<Rightarrow> bool \<times> QUIC_SSTREAM" where
  "ossl_quic_sstream_mark_lost alloc qss start end =
     (let (ok, s) = ossl_uint_set_insert alloc (new_set qss) \<lparr>rstart = start, rend = end\<rparr>
      in (ok, qss\<lparr>new_set := s\<rparr>))"

definition ossl_quic_sstream_mark_lost_fin :: "QUIC_SSTREAM \<Rightarrow> bool \<times> QUIC_SSTREAM" where
  "ossl_quic_sstream_mark_lost_fin qss =
     (if acked_final_size qss then (False, qss) else (True, qss\<lparr>sent_final_size := False\<rparr>))"

definition qss_cull :: "QUIC_SSTREAM \<Rightarrow> QUIC_SSTREAM" where
  "qss_cull qss =
     (case acked_set qss of
        [] \<Rightarrow> qss
      | h # _ \<Rightarrow> qss\<lparr>ss_ring_buf := ring_buf_cpop_range (ss_ring_buf qss) (rstart h) (rend h) (ss_cleanse qss)\<rparr>)"

definition ossl_quic_sstream_mark_acked :: "bool \<Rightarrow> QUIC_SSTREAM \<Rightarrow> u64 \<Rightarrow> u64 \<Rightarrow> bool \<times> QUIC_SSTREAM" where
  "ossl_quic_sstream_mark_acked alloc qss start end =
     (let (ok, s) = ossl_uint_set_insert alloc (acked_set qss) \<lparr>rstart = start, rend = end\<rparr>;
          qss = qss\<lparr>acked_set := s\<rparr>
      in if \<not> ok then (False, qss) else (True, qss_cull qss))"

definition ossl_quic_sstream_mark_acked_fin :: "QUIC_SSTREAM \<Rightarrow> bool \<times> QUIC_SSTREAM" where
  "ossl_quic_sstream_mark_acked_fin qss =
     (if \<not> have_final_size qss then (False, qss) else (True, qss\<lparr>acked_final_size := True\<rparr>))"

definition ossl_quic_sstream_fin :: "QUIC_SSTREAM \<Rightarrow> QUIC_SSTREAM" where
  "ossl_quic_sstream_fin qss = (if have_final_size qss then qss else qss\<lparr>have_final_size := True\<rparr>)"

definition ossl_quic_sstream_get_final_size :: "QUIC_SSTREAM \<Rightarrow> u64 option" where
  "ossl_quic_sstream_get_final_size qss = (if \<not> have_final_size qss then None else Some (head_offset (ss_ring_buf qss)))"

function append_loop :: "ring_buf \<Rightarrow> u8 list \<Rightarrow> nat \<Rightarrow> nat \<Rightarrow> ring_buf \<times> nat" where
  "append_loop r buf buf_len consumed =
     (if buf_len = 0 then (r, consumed)
      else
        let (l, r) = ring_buf_push r buf buf_len
        in if l = 0 then (r, consumed) else append_loop r (drop l buf) (buf_len - l) (consumed + l))"
  by pat_completeness auto

termination
  by (relation "measure (\<lambda>(r, buf, buf_len, consumed). buf_len)") auto

declare append_loop.simps [simp del]

text \<open>
  Restoring the ring buffer after a failure copies the structure, not the memory, so the bytes pushed stay beyond the head.
\<close>

definition ossl_quic_sstream_append :: "bool \<Rightarrow> QUIC_SSTREAM \<Rightarrow> u8 list \<Rightarrow> nat \<Rightarrow> bool \<times> nat \<times> QUIC_SSTREAM" where
  "ossl_quic_sstream_append alloc qss buf buf_len =
     (let old_ring_buf = ss_ring_buf qss
      in if have_final_size qss then (False, 0, qss)
         else
           let (r, consumed) = append_loop old_ring_buf buf buf_len 0;
               qss = qss\<lparr>ss_ring_buf := r\<rparr>
           in if consumed > 0 then
                let start = head_offset old_ring_buf;
                    (ok, s) = ossl_uint_set_insert alloc (new_set qss) \<lparr>rstart = start, rend = start + of_nat consumed - 1\<rparr>;
                    qss = qss\<lparr>new_set := s\<rparr>
                in if \<not> ok then (False, 0, qss\<lparr>ss_ring_buf := old_ring_buf\<lparr>rb_start := rb_start r\<rparr>\<rparr>)
                   else (True, consumed, qss)
              else (True, consumed, qss))"

definition ossl_quic_sstream_set_buffer_size :: "(nat \<Rightarrow> u8 list option) \<Rightarrow> QUIC_SSTREAM \<Rightarrow> nat \<Rightarrow> (bool \<times> QUIC_SSTREAM) option" where
  "ossl_quic_sstream_set_buffer_size malloc qss num_bytes =
     map_option (\<lambda>(ok, r). (ok, qss\<lparr>ss_ring_buf := r\<rparr>)) (ring_buf_resize malloc (ss_ring_buf qss) num_bytes)"

definition ossl_quic_sstream_get_buffer_size :: "QUIC_SSTREAM \<Rightarrow> nat" where
  "ossl_quic_sstream_get_buffer_size qss = rb_alloc (ss_ring_buf qss)"

definition ossl_quic_sstream_get_buffer_used :: "QUIC_SSTREAM \<Rightarrow> nat" where
  "ossl_quic_sstream_get_buffer_used qss = ring_buf_used (ss_ring_buf qss)"

definition ossl_quic_sstream_get_buffer_avail :: "QUIC_SSTREAM \<Rightarrow> nat" where
  "ossl_quic_sstream_get_buffer_avail qss = ring_buf_avail (ss_ring_buf qss)"

definition ossl_quic_sstream_is_totally_acked :: "QUIC_SSTREAM \<Rightarrow> bool" where
  "ossl_quic_sstream_is_totally_acked qss =
     (if have_final_size qss \<and> \<not> acked_final_size qss then False
      else if ossl_quic_sstream_get_cur_size qss = 0 then True
      else if length (acked_set qss) \<noteq> 1 then False
      else
        let r = hd (acked_set qss); cur_size = head_offset (ss_ring_buf qss)
        in rstart r = 0 \<and> rend r + 1 = cur_size)"

fun adjust_loop :: "nat \<Rightarrow> nat \<Rightarrow> (u8 list \<times> nat) list \<Rightarrow> (u8 list \<times> nat) list" where
  "adjust_loop len running [] = []"
| "adjust_loop len running ((buf, iovlen) # iov) =
     (buf, if running \<ge> len then 0 else if running + iovlen > len then len - running else iovlen) # adjust_loop len (running + iovlen) iov"

definition ossl_quic_sstream_adjust_iov :: "nat \<Rightarrow> (u8 list \<times> nat) list \<Rightarrow> (u8 list \<times> nat) list" where
  "ossl_quic_sstream_adjust_iov len iov = adjust_loop len 0 iov"

definition ossl_quic_sstream_set_cleanse :: "QUIC_SSTREAM \<Rightarrow> bool \<Rightarrow> QUIC_SSTREAM" where
  "ossl_quic_sstream_set_cleanse qss cleanse = qss\<lparr>ss_cleanse := cleanse\<rparr>"

definition ossl_quic_sstream_free :: "QUIC_SSTREAM \<Rightarrow> QUIC_SSTREAM" where
  "ossl_quic_sstream_free qss = qss\<lparr>new_set := [], acked_set := [], ss_ring_buf := ring_buf_destroy (ss_ring_buf qss)\<rparr>"


section \<open>Ranges of a set only grow by insertion\<close>

definition covers :: "uint_set \<Rightarrow> uint_range \<Rightarrow> bool" where
  "covers s x \<longleftrightarrow> (\<exists>y \<in> set s. rstart y \<le> rstart x \<and> rend x \<le> rend y)"

lemma covers_member: "x \<in> set s \<Longrightarrow> covers s x"
  by (auto simp: covers_def)

lemma covers_merge:
  assumes "uset_inv (rev bs @ x # after)" "uint_set_merge_adjacent bs x = (bs', x')" "covers (rev bs @ x # after) y"
  shows "covers (rev bs' @ x' # after) y"
proof (cases bs)
  case (Cons p ps)
  then have "rend p < rstart x" "rstart x \<le> rend x" "rstart p \<le> rend p" using assms(1) by auto
  then have "rend p \<le> rend x" "rstart p \<le> rstart x" by order+
  then show ?thesis using assms(2,3) Cons by (auto simp: covers_def split: if_splits intro: order.trans)
qed (use assms in auto)

lemma insert_walk_covers:
  assumes "uset_inv (rev zs @ after)" "rstart r \<le> rend r" "x \<in> set zs \<union> set after"
  shows "covers (snd (insert_walk True r zs after)) x"
  using assms
proof (induction zs arbitrary: after)
  case Nil
  then show ?case by (simp add: covers_member insert_walk.simps)
next
  case (Cons z bs)
  note inv = Cons.prems(1)
  consider "rstart z \<le> rstart r \<and> rend z \<ge> rend r"
    | "\<not> (rstart z \<le> rstart r \<and> rend z \<ge> rend r)" "uint_range_overlaps z r"
    | "\<not> (rstart z \<le> rstart r \<and> rend z \<ge> rend r)" "\<not> uint_range_overlaps z r" by blast
  then show ?case
  proof cases
    case 1
    then show ?thesis using Cons.prems(3) by (auto simp: insert_walk.simps intro: covers_member)
  next
    case 2
    obtain e bs' where e: "earliest_overlap r z bs = (e, bs')" by fastforce
    from earliest_overlap_split [OF e 2(2)] obtain ov where ov: "bs = ov @ bs'" "e = last (z # ov)" by blast
    have inv: "uset_inv (rev (z # ov))" using Cons.prems(1) ov(1) by auto
    let ?o = "\<lparr>rstart = min (rstart r) (rstart e), rend = max (rend r) (rend z)\<rparr>"
    have w: "insert_walk True r (z # bs) after = (True, rev bs' @ ?o # after)" 
      unfolding insert_walk.simps if_not_P [OF 2(1)] if_P [OF 2(2)] using e by (simp add: Let_def)
    show ?thesis
    proof (cases "x \<in> set (z # ov)")
      case True
      then have "rstart e \<le> rstart x" "rend x \<le> rend z" using overlap_bounds [OF inv True] ov(2) by simp_all
      then show ?thesis unfolding w by (auto simp: covers_def min_le_iff_disj le_max_iff_disj)
    next
      case False
      then show ?thesis using Cons.prems(3) ov(1) unfolding w by (auto intro: covers_member)
    qed
  next
    case 3
    show ?thesis
    proof (cases "rend r < rstart z \<and> (case bs of [] \<Rightarrow> True | p # _ \<Rightarrow> rstart r > rend p)")
      case False
      then have "insert_walk True r (z # bs) after = insert_walk True r bs (z # after)" using 3 by (auto simp: insert_walk.simps)
      then show ?thesis using Cons.IH [of "z # after"] Cons.prems by auto
    next
      case gap: True
      have z: "rstart z \<le> rend z" "\<forall>p \<in> set bs. rend p < rstart z" "\<forall>p \<in> set bs. rstart p \<le> rend p" using Cons.prems(1) by (auto simp: uset_inv_def sorted_wrt_append)
      have x: "covers (rev bs @ z # after) x" using Cons.prems(3) by (auto intro: covers_member)
      show ?thesis
      proof (cases "rstart z = rend r + 1")
        case True
        let ?z = "z\<lparr>rstart := rstart r\<rparr>"
        obtain bs' z' where m: "uint_set_merge_adjacent bs ?z = (bs', z')" by fastforce
        have le: "rstart r \<le> rstart z" using conjunct1 [OF gap] assms(2) by order
        have lt: "\<forall>p \<in> set bs. rend p < rstart r"
        proof (cases bs)
          case (Cons p ps)
          then have p: "\<forall>q \<in> set ps. rend q < rstart p" "rend p < rstart r" "rstart p \<le> rend p" using inv gap by auto
          have "rend q < rstart r" if "q \<in> set ps" for q using bspec [OF p(1) that] p(2,3) by order
          then show ?thesis using Cons p(2) by auto
        qed simp
        have "uset_inv (rev bs @ ?z # after)" using Cons.prems(1) lt le z(1) by (auto intro: order.trans)
        moreover have "covers (rev bs @ ?z # after) x" using x le by (auto simp: covers_def intro: order.trans)
        ultimately have "covers (rev bs' @ z' # after) x" using covers_merge [OF _ m] by blast
        moreover have "insert_walk True r (z # bs) after = (True, rev bs' @ z' # after)" 
          unfolding insert_walk.simps if_not_P [OF 3(1)] if_not_P [OF 3(2)] if_P [OF gap] if_P [OF True] using m by simp
        ultimately show ?thesis by simp
      next
        case False
        show ?thesis
        proof (cases "\<exists>p ps. bs = p # ps \<and> rend p + 1 = rstart r")
          case True
          then obtain p ps where p: "bs = p # ps" "rend p + 1 = rstart r" by blast
          let ?p = "p\<lparr>rend := rend r\<rparr>"
          obtain bs' z' where m: "uint_set_merge_adjacent (?p # ps) z = (bs', z')" by fastforce
          have le: "rend p < rend r" "rend r < rstart z" "rstart p \<le> rend r" using gap p(1) assms(2) z(3) by auto
          have "uset_inv (rev (?p # ps) @ z # after)" using Cons.prems(1) le p(1) by (auto intro: order.strict_trans)
          moreover have "covers (rev (?p # ps) @ z # after) x" using x le(1) p(1) by (auto simp: covers_def intro: order.trans less_imp_le)
          ultimately have "covers (rev bs' @ z' # after) x" using covers_merge [OF _ m] by blast
          moreover have "insert_walk True r (z # bs) after = (True, rev bs' @ z' # after)" 
            unfolding insert_walk.simps if_not_P [OF 3(1)] if_not_P [OF 3(2)] if_P [OF gap] if_not_P [OF False] using p m by simp
          ultimately show ?thesis by simp
        next
          case F: False
          have "insert_walk True r (z # bs) after = (True, rev bs @ \<lparr>rstart = rstart r, rend = rend r\<rparr> # z # after)"
            unfolding insert_walk.simps if_not_P [OF 3(1)] if_not_P [OF 3(2)] if_P [OF gap] if_not_P [OF False] using F by (cases bs) simp_all
          then show ?thesis using Cons.prems(3) by (auto intro: covers_member)
        qed
      qed
    qed
  qed
qed


lemma insert_covers:
  assumes inv: "uset_inv s" and r: "rstart r \<le> rend r" and x: "x \<in> set s"
  shows "covers (snd (ossl_uint_set_insert True s r)) x"
proof -
  have ne: "s \<noteq> []" using x by auto
  have hl: "rstart (hd s) \<le> rstart x" "rend x \<le> rend (last s)" using hd_last_bounds [OF inv x] by simp_all
  consider "rend (last s) < rstart r" "rend (last s) + 1 = rstart r" | "rend (last s) < rstart r" "rend (last s) + 1 \<noteq> rstart r"
    | "rstart r \<le> rend (last s)" "rstart r \<le> rstart (hd s) \<and> rend (last s) \<le> rend r"
    | "rstart r \<le> rend (last s)" "\<not> (rstart r \<le> rstart (hd s) \<and> rend (last s) \<le> rend r)" "rend r < rstart (hd s)"
    | "rstart r \<le> rend (last s)" "\<not> (rstart r \<le> rstart (hd s) \<and> rend (last s) \<le> rend r)" "\<not> rend r < rstart (hd s)" by force
  then show ?thesis
  proof cases
    case 1
    have le: "rend (last s) \<le> rend r" using 1(1) r by order
    have "x \<in> set (butlast s) \<or> x = last s" using x ne by (metis append_butlast_last_id in_set_conv_decomp_last set_ConsD rotate1.simps(2) set_rotate1)
    then show ?thesis unfolding insert_branches(1) [OF ne r 1] using le by (auto simp: covers_def)
  next
    case 2
    then show ?thesis unfolding insert_branches(2) [OF ne r 2] using x by (auto intro: covers_member)
  next
    case 3
    have "rstart r \<le> rstart x" "rend x \<le> rend r" using hl 3(2) order.trans by blast+
    then show ?thesis unfolding insert_branches(3) [OF ne r 3] by (simp add: covers_def)
  next
    case 4
    have "x \<in> set [hd s] \<union> set (tl s)" "uset_inv (rev [hd s] @ tl s)" using x inv ne by (cases s; simp)+
    then show ?thesis unfolding insert_branches(4) [OF ne r 4] by (intro insert_walk_covers [OF _ r])
  next
    case 5
    then show ?thesis unfolding insert_branches(5) [OF ne r 5] using x inv by (intro insert_walk_covers [OF _ r]) auto
  qed
qed

lemma insert_any:
  assumes "uset_inv s" "ossl_uint_set_insert alloc s r = (ok, s')"
  shows "uset_inv s'" "\<not> ok \<Longrightarrow> s' = s" "ok \<Longrightarrow> rstart r \<le> rend r \<and> uset s' = uset s \<union> range_set r" "x \<in> set s \<Longrightarrow> covers s' x"
proof -
  have "uset_inv s' \<and> (\<not> ok \<longrightarrow> s' = s) \<and> (ok \<longrightarrow> rstart r \<le> rend r \<and> uset s' = uset s \<union> range_set r) \<and> (\<forall>x \<in> set s. covers s' x)"
  proof (cases "rstart r \<le> rend r \<and> (alloc \<or> ossl_uint_set_insert alloc s r = ossl_uint_set_insert True s r)")
    case True
    then have e: "ossl_uint_set_insert True s r = (ok, s')" using assms(2) by (cases alloc) simp_all
    then show ?thesis using insert_correct [OF assms(1), of r] insert_covers [OF assms(1), of r] True by auto
  next
    case False
    then have "(ok, s') = (False, s)" using assms(2) insert_alloc_failure [of s r] insert_empty_range [of r alloc s] by (cases alloc) auto
    then show ?thesis using assms(1) by (auto intro: covers_member)
  qed
  then show "uset_inv s'" "\<not> ok \<Longrightarrow> s' = s" "ok \<Longrightarrow> rstart r \<le> rend r \<and> uset s' = uset s \<union> range_set r" "x \<in> set s \<Longrightarrow> covers s' x" by blast+
qed

lemma insert_head_grows:
  assumes "uset_inv s" "ossl_uint_set_insert alloc s r = (ok, s')" "s \<noteq> []" "rstart (hd s) = 0"
  shows "s' \<noteq> [] \<and> rstart (hd s') = 0 \<and> rend (hd s) \<le> rend (hd s')"
proof -
  note i = insert_any [OF assms(1,2)]
  from i(4) [of "hd s"] obtain y where y: "y \<in> set s'" "rstart y = 0" "rend (hd s) \<le> rend y" using assms(3,4) by (auto simp: covers_def)
  obtain h t where s': "s' = h # t" using y(1) by (cases s') auto
  have "\<not> rend h < rstart y" using y(2) by simp
  then have "y = h" using y(1) i(1) s' by auto
  then show ?thesis using y s' by simp
qed

lemma remove_walk_alloc: "remove_walk False r zs after = None \<or> remove_walk False r zs after = remove_walk True r zs after"
  by (induction zs arbitrary: after) (auto simp: remove_walk.simps)

lemma remove_any:
  assumes "uset_inv s" "ossl_uint_set_remove alloc s r = Some (ok, s')"
  shows "uset_inv s'" "uset s' = uset s - (if ok then range_set r else {})"
proof -
  have "uset_inv s' \<and> uset s' = uset s - (if ok then range_set r else {})"
  proof (cases "rstart r \<le> rend r")
    case True
    have "ossl_uint_set_remove True s r = Some (ok, s')"
      using assms(2) remove_walk_alloc [of r "rev s" "[]"] True by (cases alloc) (auto simp: ossl_uint_set_remove_def)
    then show ?thesis using remove_correct [OF assms(1) True] assms(2) True by (auto simp: ossl_uint_set_remove_def)
  next
    case False
    then show ?thesis using remove_empty_range [OF False, of alloc s] assms by simp
  qed
  then show "uset_inv s'" "uset s' = uset s - (if ok then range_set r else {})" by blast+
qed



section \<open>Frames\<close>

definition iov_bytes :: "(u8 list \<times> nat) list \<Rightarrow> u8 list" where
  "iov_bytes iov = concat (map (\<lambda>(buf, len). take len buf) iov)"

lemma iov_bytes_simps [simp]: "iov_bytes [] = []" "iov_bytes (iov @ [(buf, len)]) = iov_bytes iov @ take len buf"
  "iov_bytes ((buf, len) # iov) = take len buf @ iov_bytes iov"
  by (simp_all add: iov_bytes_def)

text \<open>One round of the loop, on a byte that the ring buffer holds.\<close>

lemma frame_loop_step:
  assumes inv: "rb_inv r" and t: "t < unat max_len" "unat start + unat max_len \<le> unat (head_offset r)" "unat (ctail_offset r) \<le> unat start"
    and iov: "length iov < 2" and f: "\<forall>j. unat (ctail_offset r) \<le> j \<longrightarrow> j < unat (head_offset r) \<longrightarrow> rb_view r j = Some (f j)"
  shows "\<exists>buf l. frame_loop r start max_len t iov = frame_loop r start max_len (t + l) (iov @ [(buf, l)]) \<and> 0 < l \<and> t + l \<le> unat max_len
    \<and> l \<le> length buf \<and> take l buf = map f [unat start + t..<unat start + t + l] \<and> (t + l < unat max_len \<longrightarrow> (unat start + t + l) mod rb_alloc r = 0)"
proof -
  note w = rb_inv_window [OF inv]
  let ?off = "start + of_nat t"
  have u: "unat ?off = unat start + t" using t w(3) by (intro unat_offset) simp
  have "ring_buf_get_buf_at r ?off \<noteq> None" using get_buf_at_correct(1) [OF inv, of ?off] t unfolding u by auto
  then obtain src len where g: "ring_buf_get_buf_at r ?off = Some (src, len)" by auto
  note c = get_buf_at_correct(2) [OF inv g, unfolded u]
  have "?off \<noteq> head_offset r" using t(1,2) u by auto
  then have len: "0 < len" "src \<noteq> None" "len \<le> length (the src)" "\<forall>k < len. rb_view r (unat start + t + k) = Some (the src ! k)"
    "unat start + t + len \<le> unat (head_offset r)" "unat start + t + len < unat (head_offset r) \<longrightarrow> (unat start + t + len) mod rb_alloc r = 0" using c by auto
  obtain b where b: "src = Some b" using len(2) by auto
  define l where "l = (if t + len > unat max_len then unat max_len - t else len)"
  have l: "0 < l" "l \<le> len" "t + l \<le> unat max_len" "t + l < unat max_len \<Longrightarrow> l = len" using len(1) t(1) by (auto simp: l_def split: if_splits)
  have "frame_loop r start max_len t iov = frame_loop r start max_len (t + l) (iov @ [(b, l)])"
    using t(1) g len(1) iov b by (subst frame_loop.simps) (simp add: Let_def l_def)
  moreover have "b ! k = f (unat start + t + k)" if "k < l" for k
    using that l(2) len(4,5) f [rule_format, of "unat start + t + k"] t(3) b by auto
  then have "take l b = map f [unat start + t..<unat start + t + l]" using len(3) l(2) b by (intro nth_equalityI) auto
  moreover have "(unat start + t + l) mod rb_alloc r = 0" if "t + l < unat max_len" using l(4) [OF that] len(6) t(2) that by auto
  ultimately show ?thesis using l len(3) b by (intro exI [of _ b] exI [of _ l]) auto
qed

lemma frame_loop_correct:
  assumes inv: "rb_inv r" and m: "0 < unat max_len" "unat start + unat max_len \<le> unat (head_offset r)" "unat (ctail_offset r) \<le> unat start"
    and f: "\<forall>j. unat (ctail_offset r) \<le> j \<longrightarrow> j < unat (head_offset r) \<longrightarrow> rb_view r j = Some (f j)"
  shows "\<exists>iov. frame_loop r start max_len 0 [] = Some (unat max_len, iov) \<and> iov_bytes iov = map f [unat start..<unat start + unat max_len]
    \<and> length iov \<le> 2 \<and> sum_list (map snd iov) = unat max_len \<and> (\<forall>(buf, len) \<in> set iov. len \<le> length buf)"
proof -
  note w = rb_inv_window [OF inv]
  have fin: "frame_loop r start max_len (unat max_len) iov = Some (unat max_len, iov)" for iov by (subst frame_loop.simps) simp
  from frame_loop_step [OF inv m(1,2,3) _ f, of "[]"] obtain b1 l1 where s1:
    "frame_loop r start max_len 0 [] = frame_loop r start max_len l1 [(b1, l1)]" "0 < l1" "l1 \<le> unat max_len" "l1 \<le> length b1"
    "take l1 b1 = map f [unat start..<unat start + l1]" "l1 < unat max_len \<longrightarrow> (unat start + l1) mod rb_alloc r = 0" by auto
  show ?thesis
  proof (cases "l1 = unat max_len")
    case True
    then show ?thesis using s1 fin by auto
  next
    case False
    then have lt: "l1 < unat max_len" using s1(3) by simp
    from frame_loop_step [OF inv lt m(2,3) _ f, of "[(b1, l1)]"] obtain b2 l2 where s2:
      "frame_loop r start max_len l1 [(b1, l1)] = frame_loop r start max_len (l1 + l2) [(b1, l1), (b2, l2)]" "0 < l2" "l1 + l2 \<le> unat max_len" "l2 \<le> length b2"
      "take l2 b2 = map f [unat start + l1..<unat start + l1 + l2]" "l1 + l2 < unat max_len \<longrightarrow> (unat start + l1 + l2) mod rb_alloc r = 0" by auto
    have "l1 + l2 = unat max_len"
    proof (rule ccontr)
      assume "l1 + l2 \<noteq> unat max_len"
      then have "(unat start + l1 + l2) mod rb_alloc r = (unat start + l1) mod rb_alloc r" using s2(3,6) s1(6) lt by simp
      moreover have "unat start + l1 + l2 < unat start + l1 + rb_alloc r" using s2(3) s1(2) m w(2) lt by linarith
      ultimately show False using mod_window [of "unat start + l1" "unat start + l1 + l2" "rb_alloc r"] s2(2) by simp
    qed
    moreover from this have "map f [unat start..<unat start + l1] @ map f [unat start + l1..<unat start + l1 + l2] = map f [unat start..<unat start + unat max_len]"
      using upt_add_eq_append [of "unat start" "unat start + l1" l2] by (metis add.assoc le_add1 map_append)
    ultimately show ?thesis using s1 s2 fin by (auto intro!: exI [of _ "[(b1, l1), (b2, l2)]"])
  qed
qed

text \<open>Shortening the parts keeps the first bytes.\<close>

lemma adjust_loop_correct:
  "\<forall>(buf, len) \<in> set iov. len \<le> length buf \<Longrightarrow> iov_bytes (adjust_loop len running iov) = take (len - running) (iov_bytes iov)
    \<and> sum_list (map snd (adjust_loop len running iov)) = min (len - running) (sum_list (map snd iov)) \<and> length (adjust_loop len running iov) = length iov"
proof (induction len running iov rule: adjust_loop.induct)
  case (2 len running buf iovlen iov)
  then have len: "length (take iovlen buf) = iovlen" and IH: "iov_bytes (adjust_loop len (running + iovlen) iov) = take (len - (running + iovlen)) (iov_bytes iov)"
    "sum_list (map snd (adjust_loop len (running + iovlen) iov)) = min (len - (running + iovlen)) (sum_list (map snd iov))"
    "length (adjust_loop len (running + iovlen) iov) = length iov" by simp_all
  consider "running \<ge> len" | "running < len" "running + iovlen > len" | "running < len" "running + iovlen \<le> len" by linarith
  then show ?case
  proof cases
    case 3
    have "take (len - running) (take iovlen buf @ iov_bytes iov) = take iovlen buf @ take (len - (running + iovlen)) (iov_bytes iov)"
      using 3 len by (simp del: take_take add: take_append diff_diff_add)
    then show ?thesis using IH 3 by simp
  qed (use len in \<open>simp_all add: IH take_append\<close>)
qed simp



section \<open>Invariant\<close>

definition acked_prefix :: "uint_set \<Rightarrow> u64" where
  "acked_prefix s = (case s of [] \<Rightarrow> 0 | h # _ \<Rightarrow> if rstart h = 0 then rend h + 1 else 0)"

text \<open>
  The stream written is \<open>f\<close>. Its bytes are in the ring buffer from the end of the first acknowledged range on, the sets hold
  only offsets that were written, and no offset is both to be sent and acknowledged.
\<close>

definition ss_inv :: "(nat \<Rightarrow> u8) \<Rightarrow> QUIC_SSTREAM \<Rightarrow> bool" where
  "ss_inv f qss \<longleftrightarrow> rb_inv (ss_ring_buf qss) \<and> uset_inv (new_set qss) \<and> uset_inv (acked_set qss)
     \<and> (\<forall>j. unat (ctail_offset (ss_ring_buf qss)) \<le> j \<longrightarrow> j < unat (head_offset (ss_ring_buf qss)) \<longrightarrow> rb_view (ss_ring_buf qss) j = Some (f j))
     \<and> uset (new_set qss) \<subseteq> {..<head_offset (ss_ring_buf qss)} \<and> uset (acked_set qss) \<subseteq> {..<head_offset (ss_ring_buf qss)}
     \<and> uset (new_set qss) \<inter> uset (acked_set qss) = {} \<and> ctail_offset (ss_ring_buf qss) = acked_prefix (acked_set qss)"

lemma range_below:
  assumes "uset_inv s" "uset s \<subseteq> {..<v}" "x \<in> set s"
  shows "rstart x \<le> rend x" "rend x < v" "unat (rend x + 1) = unat (rend x) + 1"
proof -
  show "rstart x \<le> rend x" using assms(1,3) by (simp add: uset_inv_def)
  then have "rend x \<in> uset s" using assms(3) by (auto simp: uset_def)
  then show "rend x < v" using assms(2) by auto
  then show "unat (rend x + 1) = unat (rend x) + 1" by (simp add: unat_Suc_less)
qed

text \<open>What waits to be sent is in the ring buffer.\<close>

lemma new_in_buffer:
  assumes inv: "ss_inv f qss" and x: "x \<in> set (new_set qss)"
  shows "rstart x \<le> rend x" "unat (ctail_offset (ss_ring_buf qss)) \<le> unat (rstart x)" "unat (rend x) < unat (head_offset (ss_ring_buf qss))"
proof -
  have i: "uset_inv (new_set qss)" "uset_inv (acked_set qss)" "uset (new_set qss) \<subseteq> {..<head_offset (ss_ring_buf qss)}"
    "uset (acked_set qss) \<subseteq> {..<head_offset (ss_ring_buf qss)}" "uset (new_set qss) \<inter> uset (acked_set qss) = {}"
    "ctail_offset (ss_ring_buf qss) = acked_prefix (acked_set qss)" using inv by (simp_all add: ss_inv_def)
  note b = range_below [OF i(1,3) x]
  show "rstart x \<le> rend x" "unat (rend x) < unat (head_offset (ss_ring_buf qss))" using b by (simp_all add: word_less_nat_alt)
  have "rstart x \<in> uset (new_set qss)" using x b(1) by (auto simp: uset_def)
  then have na: "rstart x \<notin> uset (acked_set qss)" using i(5) by blast
  show "unat (ctail_offset (ss_ring_buf qss)) \<le> unat (rstart x)"
  proof (cases "acked_set qss")
    case (Cons h t)
    note hb = range_below [OF i(2,4), of h]
    show ?thesis
    proof (cases "rstart h = 0")
      case True
      then have "\<not> rstart x \<le> rend h" using na Cons by auto
      then show ?thesis using True i(6) Cons hb(3) by (simp add: acked_prefix_def word_le_nat_alt)
    qed (use i(6) Cons in \<open>simp add: acked_prefix_def\<close>)
  qed (use i(6) in \<open>simp add: acked_prefix_def\<close>)
qed

lemma get_stream_frame_correct:
  assumes inv: "ss_inv f qss" and skip: "skip < length (new_set qss)" and rng: "rng = new_set qss ! skip"
  shows "\<exists>iov. ossl_quic_sstream_get_stream_frame qss skip hdr 2 =
      Some (hdr\<lparr>st_offset := rstart rng, st_len := rend rng - rstart rng + 1,
                st_is_fin := have_final_size qss \<and> rend rng + 1 = head_offset (ss_ring_buf qss)\<rparr>, iov)
    \<and> iov_bytes iov = map f [unat (rstart rng)..<unat (rend rng) + 1] \<and> length iov \<le> 2
    \<and> sum_list (map snd iov) = unat (rend rng) + 1 - unat (rstart rng) \<and> (\<forall>(buf, len) \<in> set iov. len \<le> length buf)"
proof -
  let ?r = "ss_ring_buf qss" and ?m = "rend rng - rstart rng + 1"
  have i: "rb_inv ?r" "\<forall>j. unat (ctail_offset ?r) \<le> j \<longrightarrow> j < unat (head_offset ?r) \<longrightarrow> rb_view ?r j = Some (f j)" using inv by (simp_all add: ss_inv_def)
  note n = new_in_buffer [OF inv, of rng]
  have mem: "rng \<in> set (new_set qss)" using skip rng by simp
  have d: "unat (rend rng - rstart rng) = unat (rend rng) - unat (rstart rng)" using n(1) [OF mem] by (simp add: unat_sub_exact)
  have "unat ?m = unat (rend rng - rstart rng) + 1"
    using n(3) [OF mem] rb_inv_window(3) [OF i(1)] d by (subst unat_add_exact) simp_all
  then have m: "unat ?m = unat (rend rng) + 1 - unat (rstart rng)" "0 < unat ?m" "unat (rstart rng) + unat ?m = unat (rend rng) + 1"
    using d n(1) [OF mem] by (simp_all add: word_le_nat_alt)
  have b: "unat (rstart rng) + unat ?m \<le> unat (head_offset ?r)" using m(3) n(3) [OF mem] by simp
  from frame_loop_correct [OF i(1) m(2) b n(2) [OF mem] i(2)] obtain iov where
    l: "frame_loop ?r (rstart rng) ?m 0 [] = Some (unat ?m, iov)" "iov_bytes iov = map f [unat (rstart rng)..<unat (rstart rng) + unat ?m]"
      "length iov \<le> 2" "sum_list (map snd iov) = unat ?m" "\<forall>(buf, len) \<in> set iov. len \<le> length buf" by blast
  have "ossl_quic_sstream_get_stream_frame qss skip hdr 2 =
      Some (hdr\<lparr>st_offset := rstart rng, st_len := ?m, st_is_fin := have_final_size qss \<and> rend rng + 1 = head_offset ?r\<rparr>, iov)"
    using skip l(1) unfolding ossl_quic_sstream_get_stream_frame_def by (simp add: rng [symmetric] Let_def)
  then show ?thesis using l(2-5) m by auto
qed

lemma push_view:
  assumes "rb_inv r" "n \<le> length buf" "ring_buf_push r buf n = (k, r')"
  shows "k = min n (min (rb_alloc r - (unat (head_offset r) - unat (ctail_offset r))) (4611686018427387904 - unat (head_offset r)))"
    "rb_inv r'" "rb_alloc r' = rb_alloc r" "ctail_offset r' = ctail_offset r" "unat (head_offset r') = unat (head_offset r) + k"
    "rb_view r' j = (if unat (head_offset r) \<le> j \<and> j < unat (head_offset r) + k then Some (buf ! (j - unat (head_offset r))) else rb_view r j)"
proof -
  note p = push_correct [OF assms]
  show "k = min n (min (rb_alloc r - (unat (head_offset r) - unat (ctail_offset r))) (4611686018427387904 - unat (head_offset r)))" using p by blast
  show i: "rb_inv r'" "rb_alloc r' = rb_alloc r" and v: "ctail_offset r' = ctail_offset r" "unat (head_offset r') = unat (head_offset r) + k" using p by blast+
  have le: "unat (head_offset r) + k \<le> unat (ctail_offset r) + rb_alloc r" using rb_inv_window(2) [OF i(1)] i(2) v by simp
  have b: "rb_byte r' j = (if unat (head_offset r) \<le> j \<and> j < unat (head_offset r) + k then buf ! (j - unat (head_offset r)) else rb_byte r j)"
    if "unat (ctail_offset r) \<le> j" "j < unat (ctail_offset r) + rb_alloc r" using p that by blast
  show "rb_view r' j = (if unat (head_offset r) \<le> j \<and> j < unat (head_offset r) + k then Some (buf ! (j - unat (head_offset r))) else rb_view r j)"
  proof (cases "unat (ctail_offset r) \<le> j \<and> j < unat (head_offset r) + k")
    case True
    then show ?thesis using v le b by (auto simp: rb_view_def)
  next
    case False
    then show ?thesis using v rb_inv_window(1) [OF assms(1)] by (auto simp: rb_view_def)
  qed
qed

lemma append_loop_correct:
  assumes inv: "rb_inv r" and n: "n \<le> length buf" and a: "append_loop r buf n c = (r', c')"
    and k: "k = min n (min (rb_alloc r - (unat (head_offset r) - unat (ctail_offset r))) (4611686018427387904 - unat (head_offset r)))"
  shows "c' = c + k" "rb_inv r'" "rb_alloc r' = rb_alloc r" "ctail_offset r' = ctail_offset r" "unat (head_offset r') = unat (head_offset r) + k"
    "rb_view r' j = (if unat (head_offset r) \<le> j \<and> j < unat (head_offset r) + k then Some (buf ! (j - unat (head_offset r))) else rb_view r j)"
proof -
  obtain l r1 where p: "ring_buf_push r buf n = (l, r1)" by (rule prod.exhaust)
  note v = push_view [OF inv n p]
  have lk: "l = k" using v(1) unfolding k [symmetric] .
  have "c' = c + k \<and> rb_inv r' \<and> rb_alloc r' = rb_alloc r \<and> ctail_offset r' = ctail_offset r \<and> unat (head_offset r') = unat (head_offset r) + k
    \<and> (\<forall>j. rb_view r' j = (if unat (head_offset r) \<le> j \<and> j < unat (head_offset r) + k then Some (buf ! (j - unat (head_offset r))) else rb_view r j))"
  proof (cases "n = 0")
    case True
    then have "append_loop r buf n c = (r, c)" by (subst append_loop.simps) simp
    then show ?thesis using a inv k True by auto
  next
    case n0: False
    show ?thesis
    proof (cases "l = 0 \<or> n = l")
      case True
      have "append_loop r1 (drop l buf) 0 (c + l) = (r1, c + l)" by (subst append_loop.simps) simp
      moreover have "append_loop r buf n c = (if l = 0 then (r1, c) else append_loop r1 (drop l buf) (n - l) (c + l))"
        using p n0 by (subst append_loop.simps) simp
      ultimately have "(r', c') = (r1, c + k)" using a lk True by (auto split: if_splits)
      then show ?thesis using v(2-6) lk by blast
    next
      case False
      obtain l2 r2 where p2: "ring_buf_push r1 (drop l buf) (n - l) = (l2, r2)" by (rule prod.exhaust)
      have "n - l \<le> length (drop l buf)" using n by simp
      note v2 = push_view [OF v(2) this p2]
      define A where "A = rb_alloc r - (unat (head_offset r) - unat (ctail_offset r))"
      define B where "B = 4611686018427387904 - unat (head_offset r)"
      have l: "l = min n (min A B)" using v(1) unfolding A_def B_def .
      then have ln: "l < n" "l = A \<or> l = B" using False by (auto simp: min_def split: if_splits)
      have "l2 = min (n - l) (min (rb_alloc r - (unat (head_offset r) + l - unat (ctail_offset r))) (4611686018427387904 - (unat (head_offset r) + l)))"
        using v2(1) unfolding v(3,4,5) .
      moreover have "rb_alloc r - (unat (head_offset r) + l - unat (ctail_offset r)) = A - l" "4611686018427387904 - (unat (head_offset r) + l) = B - l"
        using rb_inv_window(1) [OF inv] by (simp_all add: A_def B_def)
      ultimately have z: "l2 = 0" using ln(2) by auto
      have "append_loop r buf n c = append_loop r1 (drop l buf) (n - l) (c + l)" using p False n0 by (subst append_loop.simps) simp
      also have "\<dots> = (r2, c + l)" using p2 z ln(1) by (subst append_loop.simps) simp
      finally have "(r', c') = (r2, c + k)" using a lk by simp
      then show ?thesis using v(3-6) v2(2-6) z lk by simp
    qed
  qed
  then show "c' = c + k" "rb_inv r'" "rb_alloc r' = rb_alloc r" "ctail_offset r' = ctail_offset r" "unat (head_offset r') = unat (head_offset r) + k"
    "rb_view r' j = (if unat (head_offset r) \<le> j \<and> j < unat (head_offset r) + k then Some (buf ! (j - unat (head_offset r))) else rb_view r j)" by blast+
qed



section \<open>The operations keep the invariant\<close>

lemma resized:
  assumes "rb_inv r" "\<forall>k mem. malloc k = Some mem \<longrightarrow> length mem = k" "n \<le> SIZE_MAX"
  obtains ok r' where "ring_buf_resize malloc r n = Some (ok, r')" "rb_inv r'" "rb_view r' = rb_view r" "head_offset r' = head_offset r" "ctail_offset r' = ctail_offset r"
  using resize_correct [OF assms(1) _ assms(3), of malloc] assms(2) by blast

lemma sstream_new_correct:
  assumes "ossl_quic_sstream_new alloc malloc n = Some (Some qss)" "\<forall>k mem. malloc k = Some mem \<longrightarrow> length mem = k" "n \<le> SIZE_MAX"
  shows "ss_inv f qss" "head_offset (ss_ring_buf qss) = 0" "new_set qss = []" "acked_set qss = []" "\<not> have_final_size qss" "\<not> sent_final_size qss" "\<not> acked_final_size qss"
proof -
  have "rb_inv ring_buf_init" by (simp add: rb_inv_def ring_buf_init_def)
  from resized [OF this assms(2,3)] obtain ok r where r: "ring_buf_resize malloc ring_buf_init n = Some (ok, r)" "rb_inv r"
    "head_offset r = 0" "ctail_offset r = 0" by (metis ring_buf.select_convs(3,4) ring_buf_init_def)
  then have q: "qss = \<lparr>ss_ring_buf = r, new_set = ossl_uint_set_init, acked_set = ossl_uint_set_init, have_final_size = False,
      sent_final_size = False, acked_final_size = False, ss_cleanse = False\<rparr>"
    using assms(1) by (simp add: ossl_quic_sstream_new_def split: if_splits)
  show "ss_inv f qss" "head_offset (ss_ring_buf qss) = 0" "new_set qss = []" "acked_set qss = []" "\<not> have_final_size qss" "\<not> sent_final_size qss" "\<not> acked_final_size qss"
    using r by (simp_all add: q ss_inv_def ossl_uint_set_init_def acked_prefix_def)
qed

lemma append_correct:
  assumes inv: "ss_inv f qss" and n: "n \<le> length buf"
    and f: "\<forall>k < consumed. buf ! k = f (unat (head_offset (ss_ring_buf qss)) + k)"
    and a: "ossl_quic_sstream_append alloc qss buf n = (ok, consumed, qss')"
  shows "ss_inv f qss'" "unat (head_offset (ss_ring_buf qss')) = unat (head_offset (ss_ring_buf qss)) + consumed" "consumed \<le> n"
    "acked_set qss' = acked_set qss" "have_final_size qss' = have_final_size qss" "sent_final_size qss' = sent_final_size qss" "acked_final_size qss' = acked_final_size qss"
    "uset (new_set qss') = uset (new_set qss) \<union> {head_offset (ss_ring_buf qss)..<head_offset (ss_ring_buf qss')}"
    "have_final_size qss \<Longrightarrow> \<not> ok" "\<not> have_final_size qss \<Longrightarrow> alloc \<Longrightarrow> ok" "\<not> ok \<Longrightarrow> consumed = 0"
    "ok \<Longrightarrow> consumed = min n (min (ring_buf_avail (ss_ring_buf qss)) (4611686018427387904 - unat (head_offset (ss_ring_buf qss))))"
proof -
  let ?r = "ss_ring_buf qss"
  have i: "rb_inv ?r" "uset_inv (new_set qss)" "uset_inv (acked_set qss)"
    "\<forall>j. unat (ctail_offset ?r) \<le> j \<longrightarrow> j < unat (head_offset ?r) \<longrightarrow> rb_view ?r j = Some (f j)"
    "uset (new_set qss) \<subseteq> {..<head_offset ?r}" "uset (acked_set qss) \<subseteq> {..<head_offset ?r}"
    "uset (new_set qss) \<inter> uset (acked_set qss) = {}" "ctail_offset ?r = acked_prefix (acked_set qss)" using inv by (simp_all add: ss_inv_def)
  have av: "ring_buf_avail ?r = rb_alloc ?r - (unat (head_offset ?r) - unat (ctail_offset ?r))" by (simp add: ring_buf_avail_def ring_buf_used_eq [OF i(1)])
  define k where "k = min n (min (rb_alloc ?r - (unat (head_offset ?r) - unat (ctail_offset ?r))) (4611686018427387904 - unat (head_offset ?r)))"
  have kn: "k \<le> n" by (simp add: k_def)
  obtain r c where l: "append_loop ?r buf n 0 = (r, c)" by (rule prod.exhaust)
  note p = append_loop_correct [OF i(1) n l k_def]
  have view: "rb_view r j = Some (f j)" if "consumed = k" "unat (ctail_offset ?r) \<le> j" "j < unat (head_offset ?r) + k" for j
    using p(6) [of j] that i(4) f [rule_format, of "j - unat (head_offset ?r)"] kn by auto
  have h: "unat (head_offset r) = unat (head_offset ?r) + k" by (rule p(5))
  have mono: "head_offset ?r \<le> head_offset r" using h by (simp add: word_le_nat_alt)
  have "ss_inv f qss' \<and> unat (head_offset (ss_ring_buf qss')) = unat (head_offset ?r) + consumed \<and> consumed \<le> n
    \<and> acked_set qss' = acked_set qss \<and> have_final_size qss' = have_final_size qss \<and> sent_final_size qss' = sent_final_size qss \<and> acked_final_size qss' = acked_final_size qss
    \<and> uset (new_set qss') = uset (new_set qss) \<union> {head_offset ?r..<head_offset (ss_ring_buf qss')}
    \<and> (have_final_size qss \<longrightarrow> \<not> ok) \<and> (\<not> have_final_size qss \<longrightarrow> alloc \<longrightarrow> ok) \<and> (\<not> ok \<longrightarrow> consumed = 0) \<and> (ok \<longrightarrow> consumed = k)"
  proof (cases "have_final_size qss")
    case True
    then show ?thesis using a inv by (auto simp: ossl_quic_sstream_append_def)
  next
    case nofin: False
    show ?thesis
    proof (cases "k = 0")
      case True
      then have q: "ok" "consumed = 0" "qss' = qss\<lparr>ss_ring_buf := r\<rparr>" using a nofin l p(1) by (auto simp: ossl_quic_sstream_append_def)
      have "head_offset r = head_offset ?r" using h True by (simp add: word_unat_eq_iff)
      then show ?thesis using q i p(2,4) view True nofin by (simp add: ss_inv_def)
    next
      case False
      let ?rng = "\<lparr>rstart = head_offset ?r, rend = head_offset ?r + of_nat k - 1\<rparr>"
      obtain okk s where ins: "ossl_uint_set_insert alloc (new_set qss) ?rng = (okk, s)" by (rule prod.exhaust)
      note in_s = insert_any [OF i(2) ins]
      have e: "head_offset ?r + of_nat k = head_offset r"
        using h rb_inv_window(3) [OF p(2)] by (simp add: word_unat_eq_iff unat_offset)
      have lt: "head_offset ?r < head_offset r" using h False by (simp add: word_less_nat_alt)
      then have rs: "range_set ?rng = {head_offset ?r..<head_offset r}"
        unfolding range_set_def e by (auto simp: word_le_nat_alt word_less_nat_alt unat_pred_pos)
      have q: "ok = okk" "consumed = (if okk then k else 0)"
          "qss' = qss\<lparr>new_set := s, ss_ring_buf := if okk then r else ?r\<lparr>rb_start := rb_start r\<rparr>\<rparr>"
        using a nofin l p(1) ins False by (auto simp: ossl_quic_sstream_append_def Let_def split: if_splits)
      show ?thesis
      proof (cases okk)
        case True
        have "uset s = uset (new_set qss) \<union> {head_offset ?r..<head_offset r}" using in_s(3) True rs by simp
        moreover have "uset s \<subseteq> {..<head_offset r}" "uset (acked_set qss) \<subseteq> {..<head_offset r}"
          using calculation i(5,6) mono by (auto intro: order.strict_trans2)
        moreover have "uset s \<inter> uset (acked_set qss) = {}" using calculation(1) i(6,7) by (force simp: not_less [symmetric])
        ultimately show ?thesis using q True in_s(1) i(3,8) p(2,4) view h kn nofin by (simp add: ss_inv_def)
      next
        case F: False
        let ?old = "?r\<lparr>rb_start := rb_start r\<rparr>"
        have "rb_inv ?old" using i(1) rb_inv_window(4) [OF p(2)] p(3) by (simp add: rb_inv_def)
        moreover have "rb_view ?old j = rb_view ?r j" for j
        proof (cases "unat (ctail_offset ?r) \<le> j \<and> j < unat (head_offset ?r)")
          case True
          then have "rb_view r j = rb_view ?r j" using p(6) [of j] by simp
          then show ?thesis using True p(3,4) h by (simp add: rb_view_def rb_byte_def)
        qed (auto simp: rb_view_def)
        moreover have "head_offset ?r \<in> range_set ?rng" unfolding rs using lt by simp
        then have "rstart ?rng \<le> rend ?rng" by simp
        then have "\<not> alloc" using insert_correct [OF i(2), of ?rng] ins F by auto
        ultimately show ?thesis using q F in_s(2) inv nofin by (simp add: ss_inv_def)
      qed
    qed
  qed
  then show "ss_inv f qss'" "unat (head_offset (ss_ring_buf qss')) = unat (head_offset ?r) + consumed" "consumed \<le> n"
    "acked_set qss' = acked_set qss" "have_final_size qss' = have_final_size qss" "sent_final_size qss' = sent_final_size qss" "acked_final_size qss' = acked_final_size qss"
    "uset (new_set qss') = uset (new_set qss) \<union> {head_offset ?r..<head_offset (ss_ring_buf qss')}"
    "have_final_size qss \<Longrightarrow> \<not> ok" "\<not> have_final_size qss \<Longrightarrow> alloc \<Longrightarrow> ok" "\<not> ok \<Longrightarrow> consumed = 0"
    "ok \<Longrightarrow> consumed = min n (min (ring_buf_avail ?r) (4611686018427387904 - unat (head_offset ?r)))"
    by (simp_all add: k_def av)
qed


text \<open>An acknowledgement frees the buffer up to the end of the first acknowledged range.\<close>

lemma cull_correct:
  assumes r: "rb_inv r" and old: "uset_inv s" "ctail_offset r = acked_prefix s" and ins: "ossl_uint_set_insert alloc s rng = (ok, s')"
    and top: "uset s' \<subseteq> {..<head_offset r}" and s': "s' = h # t"
    and r'_def: "r' = ring_buf_cpop_range r (rstart h) (rend h) c"
  shows "rb_inv r'" "head_offset r' = head_offset r" "ctail_offset r' = acked_prefix s'"
    "unat (ctail_offset r') \<le> j \<Longrightarrow> rb_view r' j = rb_view r j" "unat (ctail_offset r) \<le> unat (ctail_offset r')"
proof -
  note w = rb_inv_window [OF r]
  have inv': "uset_inv s'" by (rule insert_any(1) [OF old(1) ins])
  note h = range_below [OF inv' top, of h]
  have hb: "unat (rend h) < unat (head_offset r)" using h(2) s' by (simp add: word_less_nat_alt)
  have grows: "rstart h = 0 \<and> rend (hd s) \<le> rend h" if "s \<noteq> []" "rstart (hd s) = 0"
    using insert_head_grows [OF old(1) ins that] s' by simp
  have "rb_inv r' \<and> head_offset r' = head_offset r \<and> ctail_offset r' = acked_prefix s'
    \<and> (\<forall>j. unat (ctail_offset r') \<le> j \<longrightarrow> rb_view r' j = rb_view r j) \<and> unat (ctail_offset r) \<le> unat (ctail_offset r')"
  proof (cases "rstart h = 0")
    case True
    have "unat (ctail_offset r) \<le> unat (rend h) + 1"
    proof (cases "s \<noteq> [] \<and> rstart (hd s) = 0")
      case True
      then have le: "rend (hd s) \<le> rend h" using grows by simp
      then have "unat (rend (hd s) + 1) = unat (rend (hd s)) + 1" using hb w(3) by (subst unat_add_exact) (simp_all add: word_le_nat_alt)
      then show ?thesis using True old(2) le by (cases s) (simp_all add: acked_prefix_def word_le_nat_alt)
    next
      case False
      then show ?thesis using old(2) by (cases s) (simp_all add: acked_prefix_def)
    qed
    moreover have "rstart h \<le> ctail_offset r" "unat (rend h) < 2 ^ 62" using True hb w(3) by simp_all
    ultimately have p: "rb_inv r'" "unat (ctail_offset r') = unat (rend h) + 1" "unat (head_offset r') = max (unat (head_offset r)) (unat (rend h) + 1)"
        "rb_view r' j = (if unat (rend h) < j then rb_view r j else None)" "unat (ctail_offset r) \<le> unat (rend h) + 1" for j
      unfolding r'_def by (simp_all only: cpop_correct [OF r])
    have "head_offset r' = head_offset r" using p(3) hb by (simp add: word_unat_eq_iff)
    moreover have "ctail_offset r' = rend h + 1" using p(2) h(3) s' by (simp add: word_unat_eq_iff)
    ultimately show ?thesis using p True s' by (auto simp: acked_prefix_def)
  next
    case False
    then have z: "ctail_offset r = 0" using old(2) grows by (cases s) (auto simp: acked_prefix_def)
    then have "r' = r" using False by (simp add: r'_def ring_buf_cpop_range_def word_gt_0)
    then show ?thesis using r z False s' by (simp add: acked_prefix_def)
  qed
  then show "rb_inv r'" "head_offset r' = head_offset r" "ctail_offset r' = acked_prefix s'"
    "unat (ctail_offset r') \<le> j \<Longrightarrow> rb_view r' j = rb_view r j" "unat (ctail_offset r) \<le> unat (ctail_offset r')" by blast+
qed

lemma mark_acked_correct:
  assumes inv: "ss_inv f qss" and rng: "{start..end} \<subseteq> {..<head_offset (ss_ring_buf qss)} - uset (new_set qss)"
    and m: "ossl_quic_sstream_mark_acked alloc qss start end = (ok, qss')"
  shows "ss_inv f qss'" "head_offset (ss_ring_buf qss') = head_offset (ss_ring_buf qss)" "new_set qss' = new_set qss"
    "uset (acked_set qss') = uset (acked_set qss) \<union> (if ok then {start..end} else {})" "have_final_size qss' = have_final_size qss"
    "sent_final_size qss' = sent_final_size qss" "acked_final_size qss' = acked_final_size qss"
proof -
  let ?r = "ss_ring_buf qss" and ?rng = "\<lparr>rstart = start, rend = end\<rparr>"
  have i: "rb_inv ?r" "uset_inv (new_set qss)" "uset_inv (acked_set qss)"
    "\<forall>j. unat (ctail_offset ?r) \<le> j \<longrightarrow> j < unat (head_offset ?r) \<longrightarrow> rb_view ?r j = Some (f j)"
    "uset (new_set qss) \<subseteq> {..<head_offset ?r}" "uset (acked_set qss) \<subseteq> {..<head_offset ?r}"
    "uset (new_set qss) \<inter> uset (acked_set qss) = {}" "ctail_offset ?r = acked_prefix (acked_set qss)" using inv by (simp_all add: ss_inv_def)
  obtain okk s where ins: "ossl_uint_set_insert alloc (acked_set qss) ?rng = (okk, s)" by (rule prod.exhaust)
  note n = insert_any [OF i(3) ins]
  have q: "ok = okk" "qss' = (if okk then qss_cull (qss\<lparr>acked_set := s\<rparr>) else qss\<lparr>acked_set := s\<rparr>)"
    using m ins by (auto simp: ossl_quic_sstream_mark_acked_def Let_def split: if_splits)
  have "ss_inv f qss' \<and> head_offset (ss_ring_buf qss') = head_offset ?r \<and> new_set qss' = new_set qss
    \<and> uset (acked_set qss') = uset (acked_set qss) \<union> (if ok then {start..end} else {}) \<and> have_final_size qss' = have_final_size qss
    \<and> sent_final_size qss' = sent_final_size qss \<and> acked_final_size qss' = acked_final_size qss"
  proof (cases okk)
    case False
    then show ?thesis using q n(2) inv by (simp add: ss_inv_def)
  next
    case True
    then have u: "start \<le> end" "uset s = uset (acked_set qss) \<union> {start..end}" using n(3) by (simp_all add: range_set_def)
    have top: "uset s \<subseteq> {..<head_offset ?r}" using u(2) i(6) rng by blast
    have dis: "uset (new_set qss) \<inter> uset s = {}" using u(2) i(7) rng by blast
    have "start \<in> uset s" using u by simp
    then obtain h t where s: "s = h # t" by (cases s) auto
    note c = cull_correct [OF i(1,3,8) ins top s refl, where c = "ss_cleanse qss"]
    have "qss' = qss\<lparr>acked_set := s, ss_ring_buf := ring_buf_cpop_range ?r (rstart h) (rend h) (ss_cleanse qss)\<rparr>"
      using q True s by (simp add: qss_cull_def)
    then show ?thesis using c i(2,4,5) n(1) top dis u(2) True q(1) by (simp add: ss_inv_def)
  qed
  then show "ss_inv f qss'" "head_offset (ss_ring_buf qss') = head_offset (ss_ring_buf qss)" "new_set qss' = new_set qss"
    "uset (acked_set qss') = uset (acked_set qss) \<union> (if ok then {start..end} else {})" "have_final_size qss' = have_final_size qss"
    "sent_final_size qss' = sent_final_size qss" "acked_final_size qss' = acked_final_size qss" by blast+
qed

lemma mark_transmitted_correct:
  assumes inv: "ss_inv f qss" and m: "ossl_quic_sstream_mark_transmitted alloc qss start end = Some (ok, qss')"
  shows "ss_inv f qss'" "qss' = qss\<lparr>new_set := new_set qss'\<rparr>" "uset (new_set qss') = uset (new_set qss) - (if ok then {start..end} else {})"
proof -
  obtain s where s: "ossl_uint_set_remove alloc (new_set qss) \<lparr>rstart = start, rend = end\<rparr> = Some (ok, s)" "qss' = qss\<lparr>new_set := s\<rparr>"
    using m by (auto simp: ossl_quic_sstream_mark_transmitted_def split: option.splits)
  have "uset_inv (new_set qss)" using inv by (simp add: ss_inv_def)
  note r = remove_any [OF this s(1)]
  show "ss_inv f qss'" using inv r s(2) by (auto simp: ss_inv_def)
  show "qss' = qss\<lparr>new_set := new_set qss'\<rparr>" "uset (new_set qss') = uset (new_set qss) - (if ok then {start..end} else {})"
    using r s(2) by (simp_all add: range_set_def)
qed

lemma mark_lost_correct:
  assumes inv: "ss_inv f qss" and rng: "{start..end} \<subseteq> {..<head_offset (ss_ring_buf qss)} - uset (acked_set qss)"
    and m: "ossl_quic_sstream_mark_lost alloc qss start end = (ok, qss')"
  shows "ss_inv f qss'" "qss' = qss\<lparr>new_set := new_set qss'\<rparr>" "uset (new_set qss') = uset (new_set qss) \<union> (if ok then {start..end} else {})"
proof -
  obtain s where s: "ossl_uint_set_insert alloc (new_set qss) \<lparr>rstart = start, rend = end\<rparr> = (ok, s)" "qss' = qss\<lparr>new_set := s\<rparr>"
    using m by (auto simp: ossl_quic_sstream_mark_lost_def split: prod.splits)
  have i: "uset_inv (new_set qss)" using inv by (simp add: ss_inv_def)
  note n = insert_any [OF i s(1)]
  have u: "uset s = uset (new_set qss) \<union> (if ok then {start..end} else {})" using n(2,3) by (cases ok) (simp_all add: range_set_def)
  then show "uset (new_set qss') = uset (new_set qss) \<union> (if ok then {start..end} else {})" "qss' = qss\<lparr>new_set := new_set qss'\<rparr>" using s(2) by simp_all
  have "uset s \<subseteq> {..<head_offset (ss_ring_buf qss)} \<and> uset s \<inter> uset (acked_set qss) = {}"
    using u inv rng by (auto simp: ss_inv_def split: if_splits)
  then show "ss_inv f qss'" using inv n(1) s(2) by (simp add: ss_inv_def)
qed



section \<open>Every use of a send stream\<close>

text \<open>
  The calls of a send stream, where the bytes the application writes are those of the stream \<open>f\<close>. As the interface
  demands, only written bytes are reported lost or acknowledged, a byte is not lost once it is acknowledged, nor acknowledged while it waits to be sent.
\<close>

inductive ss_step :: "(nat \<Rightarrow> u8) \<Rightarrow> QUIC_SSTREAM \<Rightarrow> QUIC_SSTREAM \<Rightarrow> bool" for f where
  ss_append: "n \<le> length buf \<Longrightarrow> \<forall>k < consumed. buf ! k = f (unat (ossl_quic_sstream_get_cur_size qss) + k) \<Longrightarrow>
    ossl_quic_sstream_append alloc qss buf n = (ok, consumed, qss') \<Longrightarrow> ss_step f qss qss'"
| ss_transmitted: "ossl_quic_sstream_mark_transmitted alloc qss start end = Some (ok, qss') \<Longrightarrow> ss_step f qss qss'"
| ss_transmitted_fin: "ossl_quic_sstream_mark_transmitted_fin qss final_size = (ok, qss') \<Longrightarrow> ss_step f qss qss'"
| ss_lost: "{start..end} \<subseteq> {..<ossl_quic_sstream_get_cur_size qss} - uset (acked_set qss) \<Longrightarrow>
    ossl_quic_sstream_mark_lost alloc qss start end = (ok, qss') \<Longrightarrow> ss_step f qss qss'"
| ss_lost_fin: "ossl_quic_sstream_mark_lost_fin qss = (ok, qss') \<Longrightarrow> ss_step f qss qss'"
| ss_acked: "{start..end} \<subseteq> {..<ossl_quic_sstream_get_cur_size qss} - uset (new_set qss) \<Longrightarrow>
    ossl_quic_sstream_mark_acked alloc qss start end = (ok, qss') \<Longrightarrow> ss_step f qss qss'"
| ss_acked_fin: "ossl_quic_sstream_mark_acked_fin qss = (ok, qss') \<Longrightarrow> ss_step f qss qss'"
| ss_fin: "ss_step f qss (ossl_quic_sstream_fin qss)"
| ss_resize: "\<forall>k mem. malloc k = Some mem \<longrightarrow> length mem = k \<Longrightarrow> n \<le> SIZE_MAX \<Longrightarrow>
    ossl_quic_sstream_set_buffer_size malloc qss n = Some (ok, qss') \<Longrightarrow> ss_step f qss qss'"
| ss_cleanse: "ss_step f qss (ossl_quic_sstream_set_cleanse qss c)"

inductive ss_reach :: "(nat \<Rightarrow> u8) \<Rightarrow> QUIC_SSTREAM \<Rightarrow> bool" for f where
  ss_new: "ossl_quic_sstream_new alloc malloc n = Some (Some qss) \<Longrightarrow> \<forall>k mem. malloc k = Some mem \<longrightarrow> length mem = k \<Longrightarrow> n \<le> SIZE_MAX \<Longrightarrow> ss_reach f qss"
| ss_next: "ss_reach f qss \<Longrightarrow> ss_step f qss qss' \<Longrightarrow> ss_reach f qss'"

lemma ss_step_inv: "ss_step f qss qss' \<Longrightarrow> ss_inv f qss \<Longrightarrow> ss_inv f qss'"
proof (induction rule: ss_step.induct)
  case (ss_append n buf consumed qss alloc ok qss')
  then show ?case using append_correct(1) by (metis ossl_quic_sstream_get_cur_size_def)
next
  case (ss_transmitted alloc qss start "end" ok qss')
  then show ?case using mark_transmitted_correct(1) by blast
next
  case (ss_transmitted_fin qss final_size ok qss')
  then show ?case by (auto simp: ossl_quic_sstream_mark_transmitted_fin_def ss_inv_def split: if_splits)
next
  case (ss_lost start "end" qss alloc ok qss')
  then show ?case using mark_lost_correct(1) by (metis ossl_quic_sstream_get_cur_size_def)
next
  case (ss_lost_fin qss ok qss')
  then show ?case by (auto simp: ossl_quic_sstream_mark_lost_fin_def ss_inv_def split: if_splits)
next
  case (ss_acked start "end" qss alloc ok qss')
  then show ?case using mark_acked_correct(1) by (metis ossl_quic_sstream_get_cur_size_def)
next
  case (ss_acked_fin qss ok qss')
  then show ?case by (auto simp: ossl_quic_sstream_mark_acked_fin_def ss_inv_def split: if_splits)
next
  case (ss_fin qss)
  then show ?case by (simp add: ossl_quic_sstream_fin_def ss_inv_def)
next
  case (ss_resize malloc n qss ok qss')
  have rb: "rb_inv (ss_ring_buf qss)" using ss_resize.prems by (simp add: ss_inv_def)
  obtain okk r where "ring_buf_resize malloc (ss_ring_buf qss) n = Some (okk, r)" "rb_inv r" "rb_view r = rb_view (ss_ring_buf qss)"
    "head_offset r = head_offset (ss_ring_buf qss)" "ctail_offset r = ctail_offset (ss_ring_buf qss)" by (rule resized [OF rb ss_resize.hyps(1,2)])
  then show ?case using ss_resize.prems ss_resize.hyps(3) by (auto simp: ossl_quic_sstream_set_buffer_size_def ss_inv_def)
next
  case (ss_cleanse qss c)
  then show ?case by (simp add: ossl_quic_sstream_set_cleanse_def ss_inv_def)
qed

lemma ss_reach_inv: "ss_reach f qss \<Longrightarrow> ss_inv f qss"
  by (induction rule: ss_reach.induct) (blast intro: sstream_new_correct(1) ss_step_inv)+

text \<open>A stream only grows, and not any more once it is finished.\<close>

lemma ss_step_grows:
  assumes "ss_step f qss qss'" "ss_inv f qss"
  shows "unat (ossl_quic_sstream_get_cur_size qss) \<le> unat (ossl_quic_sstream_get_cur_size qss') \<and>
    (have_final_size qss \<longrightarrow> have_final_size qss' \<and> ossl_quic_sstream_get_cur_size qss' = ossl_quic_sstream_get_cur_size qss)"
  using assms
proof (cases rule: ss_step.cases)
  case (ss_append n buf consumed alloc ok)
  note a = append_correct [OF assms(2) ss_append(1) _ ss_append(3), unfolded ossl_quic_sstream_get_cur_size_def [symmetric], OF ss_append(2)]
  have "consumed = 0" if "have_final_size qss" using a(9,11) that by blast
  then show ?thesis using a(2,5) by (auto simp: word_unat_eq_iff)
next
  case (ss_transmitted alloc start "end" ok)
  then show ?thesis using mark_transmitted_correct(2) [OF assms(2)]
    by (metis QUIC_SSTREAM.select_convs(1,4) QUIC_SSTREAM.surjective QUIC_SSTREAM.update_convs(2) order.refl ossl_quic_sstream_get_cur_size_def)
next
  case (ss_lost start "end" alloc ok)
  then show ?thesis by (auto simp: ossl_quic_sstream_mark_lost_def ossl_quic_sstream_get_cur_size_def split: prod.splits)
next
  case (ss_acked start "end" alloc ok)
  then show ?thesis using mark_acked_correct(2,5) [OF assms(2) _ ss_acked(2)] by (simp add: ossl_quic_sstream_get_cur_size_def)
next
  case (ss_resize malloc n ok)
  have rb: "rb_inv (ss_ring_buf qss)" using assms(2) by (simp add: ss_inv_def)
  obtain okk r where "ring_buf_resize malloc (ss_ring_buf qss) n = Some (okk, r)" "head_offset r = head_offset (ss_ring_buf qss)"
    by (rule resized [OF rb ss_resize(1,2)])
  then show ?thesis using ss_resize(3) by (auto simp: ossl_quic_sstream_set_buffer_size_def ossl_quic_sstream_get_cur_size_def)
qed (auto simp: ossl_quic_sstream_get_cur_size_def ossl_quic_sstream_mark_transmitted_fin_def ossl_quic_sstream_mark_lost_fin_def
    ossl_quic_sstream_mark_acked_fin_def ossl_quic_sstream_fin_def ossl_quic_sstream_set_cleanse_def split: if_splits)

text \<open>A frame taken from a stream, as the packetiser sees it.\<close>

lemma sent_frame:
  assumes inv: "ss_inv f qss" and g: "ossl_quic_sstream_get_stream_frame qss skip hdr 2 = Some (h, iov)"
  shows "iov_bytes iov = map f [unat (st_offset h)..<unat (st_offset h) + unat (st_len h)]"
    "unat (st_offset h) + unat (st_len h) \<le> unat (ossl_quic_sstream_get_cur_size qss)" "{st_offset h..<st_offset h + st_len h} \<subseteq> uset (new_set qss)"
    "st_is_fin h \<longleftrightarrow> have_final_size qss \<and> st_offset h + st_len h = ossl_quic_sstream_get_cur_size qss"
    "st_len h = 0 \<Longrightarrow> st_is_fin h" "length iov \<le> 2" "sum_list (map snd iov) = unat (st_len h)" "st_stream_id h = st_stream_id hdr"
    "has_explicit_len h = has_explicit_len hdr" "\<forall>(buf, len) \<in> set iov. len \<le> length buf"
proof -
  have "iov_bytes iov = map f [unat (st_offset h)..<unat (st_offset h) + unat (st_len h)]
    \<and> unat (st_offset h) + unat (st_len h) \<le> unat (ossl_quic_sstream_get_cur_size qss) \<and> {st_offset h..<st_offset h + st_len h} \<subseteq> uset (new_set qss)
    \<and> (st_is_fin h \<longleftrightarrow> have_final_size qss \<and> st_offset h + st_len h = ossl_quic_sstream_get_cur_size qss)
    \<and> (st_len h = 0 \<longrightarrow> st_is_fin h) \<and> length iov \<le> 2 \<and> sum_list (map snd iov) = unat (st_len h) \<and> st_stream_id h = st_stream_id hdr
    \<and> has_explicit_len h = has_explicit_len hdr \<and> (\<forall>(buf, len) \<in> set iov. len \<le> length buf)"
  proof (cases "skip < length (new_set qss)")
    case False
    then show ?thesis using g by (auto simp: ossl_quic_sstream_get_stream_frame_def ossl_quic_sstream_get_cur_size_def split: if_splits)
  next
    case True
    let ?x = "new_set qss ! skip"
    have mem: "?x \<in> set (new_set qss)" using True by simp
    note n = new_in_buffer [OF inv mem]
    have e: "rstart ?x + (rend ?x - rstart ?x + 1) = rend ?x + 1" by simp
    have u: "unat (rend ?x + 1) = unat (rend ?x) + 1" using n(3) by (simp add: unat_Suc_less word_less_nat_alt)
    have l: "unat (rend ?x - rstart ?x + 1) = unat (rend ?x) + 1 - unat (rstart ?x)"
      using n(1,3) unat_u64_bound [of "head_offset (ss_ring_buf qss)"] by (subst unat_add_exact) (simp_all add: unat_sub_exact word_le_nat_alt)
    have d: "unat (rstart ?x) + (unat (rend ?x) + 1 - unat (rstart ?x)) = unat (rend ?x) + 1" using n(1) by (simp add: word_le_nat_alt)
    have "{rstart ?x..<rend ?x + 1} \<subseteq> range_set ?x" using u by (auto simp: word_less_nat_alt word_le_nat_alt)
    then have sub: "{rstart ?x..<rend ?x + 1} \<subseteq> uset (new_set qss)" using mem by (auto simp: uset_def)
    have nz: "rend ?x - rstart ?x + 1 \<noteq> 0" 
    proof
      assume "rend ?x - rstart ?x + 1 = 0"
      then show False using l n(1) by (simp add: word_le_nat_alt)
    qed
    show ?thesis using get_stream_frame_correct [OF inv True refl, of hdr] g sub nz n(3) l d u by (auto simp: e ossl_quic_sstream_get_cur_size_def)
  qed
  then show "iov_bytes iov = map f [unat (st_offset h)..<unat (st_offset h) + unat (st_len h)]"
    "unat (st_offset h) + unat (st_len h) \<le> unat (ossl_quic_sstream_get_cur_size qss)" "{st_offset h..<st_offset h + st_len h} \<subseteq> uset (new_set qss)"
    "st_is_fin h \<longleftrightarrow> have_final_size qss \<and> st_offset h + st_len h = ossl_quic_sstream_get_cur_size qss"
    "st_len h = 0 \<Longrightarrow> st_is_fin h" "length iov \<le> 2" "sum_list (map snd iov) = unat (st_len h)" "st_stream_id h = st_stream_id hdr"
    "has_explicit_len h = has_explicit_len hdr" "\<forall>(buf, len) \<in> set iov. len \<le> length buf" by blast+
qed

lemma no_frame:
  assumes inv: "ss_inv f qss"
  shows "ossl_quic_sstream_get_stream_frame qss skip hdr 2 = None \<longleftrightarrow>
    length (new_set qss) < skip \<or> length (new_set qss) = skip \<and> \<not> (have_final_size qss \<and> \<not> sent_final_size qss)"
  using get_stream_frame_correct [OF inv _ refl, of skip hdr]
  by (cases "skip < length (new_set qss)") (auto simp: ossl_quic_sstream_get_stream_frame_def)

lemma uset_empty: "uset_inv s \<Longrightarrow> uset s = {} \<longleftrightarrow> s = []"
  by (cases s) auto


text \<open>C4: the frames of a send stream. At any time, whatever was written, transmitted, lost and acknowledged before, there is a frame to send exactly if
  bytes wait to be sent or the end of the stream has not been sent; a frame carries the bytes the application wrote at its offset,
  in at most two parts whose lengths add up to its length; its bytes all wait to be sent and none of them is acknowledged; and it has the end
  mark exactly if it reaches the end of a finished stream.
\<close>

theorem sstream_frames:
  assumes "ss_reach f qss"
  shows "(ossl_quic_sstream_has_pending qss hdr \<longleftrightarrow> uset (new_set qss) \<noteq> {} \<or> have_final_size qss \<and> \<not> sent_final_size qss) \<and>
    (case ossl_quic_sstream_get_stream_frame qss skip hdr 2 of
       None \<Rightarrow> length (new_set qss) < skip \<or> length (new_set qss) = skip \<and> \<not> (have_final_size qss \<and> \<not> sent_final_size qss)
     | Some (h, iov) \<Rightarrow> iov_bytes iov = map f [unat (st_offset h)..<unat (st_offset h) + unat (st_len h)]
         \<and> length iov \<le> 2 \<and> sum_list (map snd iov) = unat (st_len h)
         \<and> unat (st_offset h) + unat (st_len h) \<le> unat (ossl_quic_sstream_get_cur_size qss)
         \<and> {st_offset h..<st_offset h + st_len h} \<subseteq> uset (new_set qss) - uset (acked_set qss)
         \<and> (st_is_fin h \<longleftrightarrow> have_final_size qss \<and> st_offset h + st_len h = ossl_quic_sstream_get_cur_size qss))"
proof -
  have inv: "ss_inv f qss" by (rule ss_reach_inv [OF assms])
  then have i: "uset_inv (new_set qss)" "uset (new_set qss) \<inter> uset (acked_set qss) = {}" by (simp_all add: ss_inv_def)
  have "ossl_quic_sstream_has_pending qss hdr \<longleftrightarrow> uset (new_set qss) \<noteq> {} \<or> have_final_size qss \<and> \<not> sent_final_size qss"
    using no_frame [OF inv, of 0 hdr] uset_empty [OF i(1)] by (auto simp: ossl_quic_sstream_has_pending_def)
  moreover have "{st_offset h..<st_offset h + st_len h} \<subseteq> uset (new_set qss) - uset (acked_set qss)"
    if "ossl_quic_sstream_get_stream_frame qss skip hdr 2 = Some (h, iov)" for h iov using sent_frame(3) [OF inv that] i(2) by blast
  ultimately show ?thesis using no_frame [OF inv, of skip hdr] sent_frame(1,2,4,6,7) [OF inv, of skip hdr] by (auto split: option.splits)
qed

theorem sstream_frames_witness:
  "\<exists>qss h iov. ss_reach of_nat qss \<and> ossl_quic_sstream_get_cur_size qss = 4
     \<and> ossl_quic_sstream_get_stream_frame qss 0 \<lparr>st_stream_id = 0, st_offset = 0, st_len = 0, st_data = None, has_explicit_len = True, st_is_fin = False\<rparr> 2 = Some (h, iov)
     \<and> iov_bytes iov = map of_nat [unat (st_offset h)..<unat (st_offset h) + unat (st_len h)] \<and> \<not> st_is_fin h"
proof -
  let ?hdr = "\<lparr>st_stream_id = 0, st_offset = 0, st_len = 0, st_data = None, has_explicit_len = True, st_is_fin = False\<rparr> :: OSSL_QUIC_FRAME_STREAM"
  let ?new = "ossl_quic_sstream_new True (\<lambda>k. Some (replicate k 0)) 4" and ?buf = "map of_nat [0..<6] :: u8 list"
  define q0 where "q0 = the (the ?new)"
  have "case ?new of Some (Some q) \<Rightarrow> True | _ \<Rightarrow> False" by code_simp
  then have new: "?new = Some (Some q0)" unfolding q0_def by (auto split: option.splits)
  then have 0: "ss_reach of_nat q0" by (rule ss_new) simp_all
  have q: "ss_inv f q0" "head_offset (ss_ring_buf q0) = 0" "\<not> have_final_size q0" for f using sstream_new_correct(1,2,5) [OF new] by simp_all
  have av: "ring_buf_avail (ss_ring_buf q0) = 4" unfolding q0_def by code_simp
  obtain ok consumed q1 where a: "ossl_quic_sstream_append True q0 ?buf 6 = (ok, consumed, q1)" by (metis prod.exhaust)
  note p = append_correct [OF q(1) _ _ a, of "\<lambda>j. ?buf ! j"]
  have c: "consumed = 4" using p(10,12) q(2,3) av by simp
  then have h: "head_offset (ss_ring_buf q1) = 4" "\<not> have_final_size q1" using p(2,5) q(2,3) by (simp_all add: word_unat_eq_iff)
  have "4 \<noteq> (0 :: u64)" by simp
  then have n: "uset (new_set q1) \<noteq> {}" using p(8) h(1) q(2) by (auto simp: word_gt_0)
  have "ss_reach of_nat q1" using 0 c q(2) a by (intro ss_next [OF 0 ss_append [OF _ _ a]]) (simp_all add: ossl_quic_sstream_get_cur_size_def)
  note w = this sstream_frames [OF this, of ?hdr 0]
  obtain h iov where g: "ossl_quic_sstream_get_stream_frame q1 0 ?hdr 2 = Some (h, iov)"
    using w(2) n by (auto simp: ossl_quic_sstream_has_pending_def)
  then show ?thesis using w h by (intro exI [of _ q1] exI [of _ h] exI [of _ iov]) (simp add: ossl_quic_sstream_get_cur_size_def)
qed

lemma no_offsets [simp]: "{..<v :: u64} = {} \<longleftrightarrow> v = 0" "{} = {..<v :: u64} \<longleftrightarrow> v = 0"
proof -
  have "0 \<in> {..<v}" if "v \<noteq> 0" using that by (simp add: word_gt_0)
  then show "{..<v} = {} \<longleftrightarrow> v = 0" "{} = {..<v} \<longleftrightarrow> v = 0" by auto
qed

lemma totally_acked_iff:
  assumes "ss_inv f qss"
  shows "ossl_quic_sstream_is_totally_acked qss \<longleftrightarrow> uset (acked_set qss) = {..<ossl_quic_sstream_get_cur_size qss}
    \<and> length (acked_set qss) \<le> 1 \<and> (have_final_size qss \<longrightarrow> acked_final_size qss)"
proof -
  let ?n = "ossl_quic_sstream_get_cur_size qss" and ?s = "acked_set qss"
  have i: "uset ?s \<subseteq> {..<?n}" "uset_inv ?s" using assms by (simp_all add: ss_inv_def ossl_quic_sstream_get_cur_size_def)
  consider "?n = 0" | "?n \<noteq> 0" "length ?s \<noteq> 1" | x where "?n \<noteq> 0" "?s = [x]" by (metis One_nat_def length_0_conv length_Suc_conv)
  then show ?thesis
  proof cases
    case 1
    then have "?s = []" using i uset_empty [OF i(2)] by auto
    then show ?thesis using 1 by (simp add: ossl_quic_sstream_is_totally_acked_def)
  next
    case 2
    then have "uset ?s \<noteq> {..<?n}" if "length ?s \<le> 1" using that by (cases ?s) simp_all
    then show ?thesis using 2 by (auto simp: ossl_quic_sstream_is_totally_acked_def)
  next
    case 3
    have x: "rend x < ?n" "rstart x \<le> rend x" "unat (rend x + 1) = unat (rend x) + 1" using range_below [OF i(2,1)] 3(2) by simp_all
    have "range_set x = {..<?n} \<longleftrightarrow> rstart x = 0 \<and> rend x + 1 = ?n"
    proof
      assume *: "range_set x = {..<?n}"
      then have "0 \<in> range_set x" using 3(1) by (simp add: word_gt_0 del: range_set_iff)
      moreover have "rend x + 1 \<notin> {..<?n}" using x(3) by (simp add: word_le_nat_alt flip: *)
      ultimately show "rstart x = 0 \<and> rend x + 1 = ?n" using x by (simp add: word_le_nat_alt word_less_nat_alt word_unat_eq_iff)
    next
      assume "rstart x = 0 \<and> rend x + 1 = ?n"
      then show "range_set x = {..<?n}" using x(3) by (auto simp: word_less_nat_alt word_le_nat_alt)
    qed
    then show ?thesis using 3 by (auto simp: ossl_quic_sstream_is_totally_acked_def ossl_quic_sstream_get_cur_size_def Let_def)
  qed
qed

lemma ack_step:
  assumes "ss_reach f p" "new_set p = []" "y < ossl_quic_sstream_get_cur_size p" "q = snd (ossl_quic_sstream_mark_acked True p x y)"
  shows "ss_reach f q" "acked_set q = snd (ossl_uint_set_insert True (acked_set p) \<lparr>rstart = x, rend = y\<rparr>)" "new_set q = []"
    "ossl_quic_sstream_get_cur_size q = ossl_quic_sstream_get_cur_size p" "have_final_size q = have_final_size p" "acked_final_size q = acked_final_size p"
proof -
  obtain ok where m: "ossl_quic_sstream_mark_acked True p x y = (ok, q)" using assms(4) by (metis prod.collapse)
  have rng: "{x..y} \<subseteq> {..<ossl_quic_sstream_get_cur_size p} - uset (new_set p)" using assms(2,3) by auto
  show "ss_reach f q" by (rule ss_next [OF assms(1) ss_acked [OF rng m]])
  show "acked_set q = snd (ossl_uint_set_insert True (acked_set p) \<lparr>rstart = x, rend = y\<rparr>)"
    unfolding assms(4) by (auto simp: ossl_quic_sstream_mark_acked_def qss_cull_def Let_def split: prod.splits list.splits)
  show "new_set q = []" "ossl_quic_sstream_get_cur_size q = ossl_quic_sstream_get_cur_size p" "have_final_size q = have_final_size p"
    "acked_final_size q = acked_final_size p"
    using mark_acked_correct [OF ss_reach_inv [OF assms(1)] _ m] rng assms(2) by (simp_all add: ossl_quic_sstream_get_cur_size_def)
qed

text \<open>A stream of three bytes, all sent.\<close>

lemma demo_sent:
  "\<exists>qss. ss_reach (\<lambda>_. 0) qss \<and> new_set qss = [] \<and> acked_set qss = [] \<and> ossl_quic_sstream_get_cur_size qss = 3 \<and> \<not> have_final_size qss"
proof -
  let ?new = "ossl_quic_sstream_new True (\<lambda>k. Some (replicate k 0)) 4" and ?f = "\<lambda>_ :: nat. 0 :: u8"
  define q0 where "q0 = the (the ?new)"
  have "case ?new of Some (Some q) \<Rightarrow> True | _ \<Rightarrow> False" by code_simp
  then have new: "?new = Some (Some q0)" unfolding q0_def by (auto split: option.splits)
  then have 0: "ss_reach ?f q0" by (rule ss_new) simp_all
  have q: "ss_inv f q0" "head_offset (ss_ring_buf q0) = 0" "new_set q0 = []" "acked_set q0 = []" "\<not> have_final_size q0" for f
    using sstream_new_correct(1-5) [OF new] by simp_all
  have av: "ring_buf_avail (ss_ring_buf q0) = 4" unfolding q0_def by code_simp
  let ?buf = "replicate 3 0 :: u8 list"
  obtain ok consumed q1 where a: "ossl_quic_sstream_append True q0 ?buf 3 = (ok, consumed, q1)" by (metis prod.exhaust)
  note p = append_correct [OF q(1) _ _ a, of "\<lambda>j. ?buf ! j"]
  have c: "consumed = 3" using p(10,12) q(2,5) av by simp
  have h3: "head_offset (ss_ring_buf q1) = 3" using p(2) q(2) c by (simp add: word_unat_eq_iff)
  then have h: "head_offset (ss_ring_buf q1) = 3" "\<not> have_final_size q1" "acked_set q1 = []" "uset (new_set q1) = {0..<3}" "uset_inv (new_set q1)"
    using p(1,4,5,8) q(2-5) c by (simp_all add: ss_inv_def)
  have 1: "ss_reach ?f q1" using c q(2) by (intro ss_next [OF 0 ss_append [OF _ _ a]]) (simp_all add: ossl_quic_sstream_get_cur_size_def)
  obtain s where s: "ossl_uint_set_remove True (new_set q1) \<lparr>rstart = 0, rend = 2\<rparr> = Some (True, s)" "uset s = {0..<3} - {0..2}" "uset_inv s"
    using remove_correct [OF h(5), of "\<lparr>rstart = 0, rend = 2\<rparr>"] h(4) by (auto simp: range_set_def)
  let ?q2 = "q1\<lparr>new_set := s\<rparr>"
  have le: "x < 3 \<longleftrightarrow> x \<le> 2" for x :: u64 by (auto simp: word_le_nat_alt word_less_nat_alt)
  then have "uset s = {}" using s(2) by auto
  then have s0: "s = []" using uset_empty [OF s(3)] by simp
  have 2: "ss_reach ?f ?q2" using s(1) by (intro ss_next [OF 1 ss_transmitted, of True 0 2 True]) (simp add: ossl_quic_sstream_mark_transmitted_def)
  show ?thesis using 2 s0 h by (intro exI [of _ ?q2]) (simp add: ossl_quic_sstream_get_cur_size_def)
qed

lemma bordering_acks:
  assumes "a < c" "a + 1 < c" "c \<le> b" "b \<le> m"
  shows "snd (ossl_uint_set_insert True (snd (ossl_uint_set_insert True (snd (ossl_uint_set_insert True [] \<lparr>rstart = 0, rend = a\<rparr>))
      \<lparr>rstart = c, rend = m\<rparr>)) \<lparr>rstart = a + 1, rend = b\<rparr>) = [\<lparr>rstart = 0, rend = a\<rparr>, \<lparr>rstart = a + 1, rend = m\<rparr>]"
proof -
  have a1: "0 < a + 1" "a < a + 1" using unat_Suc_less [OF assms(1)] by (simp_all add: word_less_nat_alt)
  have "snd (ossl_uint_set_insert True [] \<lparr>rstart = 0, rend = a\<rparr>) = [\<lparr>rstart = 0, rend = a\<rparr>]" by (simp add: ossl_uint_set_insert_def)
  moreover have "snd (ossl_uint_set_insert True [\<lparr>rstart = 0, rend = a\<rparr>] \<lparr>rstart = c, rend = m\<rparr>) = [\<lparr>rstart = 0, rend = a\<rparr>, \<lparr>rstart = c, rend = m\<rparr>]"
    using assms order_trans [OF assms(3,4)] by (auto simp: ossl_uint_set_insert_def Let_def)
  moreover have "\<not> uint_range_overlaps \<lparr>rstart = 0, rend = a\<rparr> \<lparr>rstart = a + 1, rend = b\<rparr>" using a1 by (auto simp: overlaps_iff)
  moreover have "uint_range_overlaps \<lparr>rstart = c, rend = m\<rparr> \<lparr>rstart = a + 1, rend = b\<rparr>" using assms by (auto simp: overlaps_iff)
  moreover have "\<not> a + 1 \<le> 0" "\<not> c \<le> a + 1" "\<not> b < 0" "a + 1 \<le> b" "\<not> m < a + 1" "min (a + 1) c = a + 1" "max b m = m" using a1 assms by auto
  ultimately show ?thesis by (simp add: ossl_uint_set_insert_def insert_walk.simps Let_def)
qed

text \<open>C23: what a send stream means when it reports that everything is acknowledged. At any time it reports this exactly if every byte
  written is acknowledged, in a single range, and the end of a finished stream as well. Then the buffer is empty and
  no byte waits to be sent; all that can still be sent is an end that was marked as lost before it was acknowledged.
\<close>

theorem sstream_totally_acked_exact:
  assumes "ss_reach f qss"
  shows "(ossl_quic_sstream_is_totally_acked qss \<longleftrightarrow> uset (acked_set qss) = {..<ossl_quic_sstream_get_cur_size qss}
      \<and> length (acked_set qss) \<le> 1 \<and> (have_final_size qss \<longrightarrow> acked_final_size qss))
    \<and> (ossl_quic_sstream_is_totally_acked qss \<longrightarrow> ossl_quic_sstream_get_buffer_used qss = 0 \<and> uset (new_set qss) = {}
      \<and> (ossl_quic_sstream_has_pending qss hdr \<longleftrightarrow> have_final_size qss \<and> \<not> sent_final_size qss))"
proof -
  let ?r = "ss_ring_buf qss"
  have inv: "ss_inv f qss" by (rule ss_reach_inv [OF assms])
  then have i: "rb_inv ?r" "uset (new_set qss) \<subseteq> {..<head_offset ?r}" "uset_inv (acked_set qss)" "uset_inv (new_set qss)"
    "uset (new_set qss) \<inter> uset (acked_set qss) = {}" "ctail_offset ?r = acked_prefix (acked_set qss)" by (simp_all add: ss_inv_def)
  note iff = totally_acked_iff [OF inv]
  have "ossl_quic_sstream_get_buffer_used qss = 0 \<and> uset (new_set qss) = {}
      \<and> (ossl_quic_sstream_has_pending qss hdr \<longleftrightarrow> have_final_size qss \<and> \<not> sent_final_size qss)" if t: "ossl_quic_sstream_is_totally_acked qss"
  proof -
    have u: "uset (acked_set qss) = {..<head_offset ?r}" using t iff by (simp add: ossl_quic_sstream_get_cur_size_def)
    then have n: "uset (new_set qss) = {}" using i(2,5) by auto
    have "acked_prefix (acked_set qss) = head_offset ?r"
    proof (cases "acked_set qss")
      case Nil
      then have "head_offset ?r = 0" using u by simp
      then show ?thesis using Nil by (simp add: acked_prefix_def)
    next
      case (Cons x xs)
      then have "rstart x = 0 \<and> rend x + 1 = head_offset ?r" using t iff u range_below(2) [OF i(3), of "head_offset ?r" x]
        by (auto simp: ossl_quic_sstream_is_totally_acked_def ossl_quic_sstream_get_cur_size_def Let_def split: if_splits)
      then show ?thesis using Cons by (simp add: acked_prefix_def)
    qed
    then have "ossl_quic_sstream_get_buffer_used qss = 0"
      using i(6) by (simp add: ossl_quic_sstream_get_buffer_used_def ring_buf_used_def)
    moreover have "ossl_quic_sstream_has_pending qss hdr \<longleftrightarrow> have_final_size qss \<and> \<not> sent_final_size qss"
      using no_frame [OF inv, of 0 hdr] uset_empty [OF i(4)] n by (auto simp: ossl_quic_sstream_has_pending_def)
    ultimately show ?thesis using n by simp
  qed
  then show ?thesis using iff by blast
qed

theorem sstream_totally_acked_exact_witness:
  "\<exists>qss. ss_reach (\<lambda>_. 0) qss \<and> ossl_quic_sstream_get_cur_size qss = 3 \<and> ossl_quic_sstream_is_totally_acked qss
     \<and> ossl_quic_sstream_get_buffer_used qss = 0 \<and> \<not> ossl_quic_sstream_has_pending qss undefined"
proof -
  obtain q where q: "ss_reach (\<lambda>_. 0) q" "new_set q = []" "acked_set q = []" "ossl_quic_sstream_get_cur_size q = 3" "\<not> have_final_size q"
    using demo_sent by blast
  have "2 < ossl_quic_sstream_get_cur_size q" by (simp add: q(4))
  note s = ack_step [OF q(1,2) this refl, of 0]
  have "acked_set (snd (ossl_quic_sstream_mark_acked True q 0 2)) = [\<lparr>rstart = 0, rend = 2\<rparr>]" using s(2) q(3) by (simp add: ossl_uint_set_insert_def)
  moreover have "range_set \<lparr>rstart = 0, rend = 2\<rparr> = {..<3}" by (auto simp: word_le_nat_alt word_less_nat_alt)
  ultimately show ?thesis using sstream_totally_acked_exact [OF s(1), of undefined] s q by (intro exI [of _ "snd (ossl_quic_sstream_mark_acked True q 0 2)"]) simp
qed

text \<open>C24: a send stream may not report that everything is acknowledged though it is. The report asks for a single acknowledged range, but the set of
  ranges does not always join ranges that border each other: in any stream that was sent completely, once the bytes from 0 to \<open>a\<close>, the
  bytes from some \<open>c\<close> behind a gap to the last one, and then a range that starts right behind \<open>a\<close> and reaches into the second one are acknowledged,
  all bytes are, in two ranges. The stream does not report it, and its buffer keeps all bytes behind \<open>a\<close>.
\<close>

theorem sstream_totally_acked_missed:
  assumes "ss_reach f qss" "new_set qss = []" "acked_set qss = []" "n = ossl_quic_sstream_get_cur_size qss"
    "a < c" "a + 1 < c" "c \<le> b" "b < n"
    and q: "q = snd (ossl_quic_sstream_mark_acked True (snd (ossl_quic_sstream_mark_acked True (snd (ossl_quic_sstream_mark_acked True qss 0 a)) c (n - 1))) (a + 1) b)"
  shows "ss_reach f q \<and> uset (acked_set q) = {..<n} \<and> ossl_quic_sstream_get_cur_size q = n
    \<and> have_final_size q = have_final_size qss \<and> acked_final_size q = acked_final_size qss
    \<and> \<not> ossl_quic_sstream_is_totally_acked q \<and> ossl_quic_sstream_get_buffer_used q = unat n - unat a - 1"
proof -
  define q1 where "q1 = snd (ossl_quic_sstream_mark_acked True qss 0 a)"
  define q2 where "q2 = snd (ossl_quic_sstream_mark_acked True q1 c (n - 1))"
  have m: "b \<le> n - 1" "n - 1 < n" "unat (n - 1) + 1 = unat n"
    using word_le_minus1_iff [OF assms(8), of b] unat_pred_pos [OF assms(8)] assms(8) by (simp_all add: word_less_nat_alt)
  have a1: "unat (a + 1) = unat a + 1" by (simp add: unat_Suc_less [OF assms(5)])
  have an: "a < n" using assms(5-8) by simp
  note f1 = ack_step [OF assms(1,2) an [unfolded assms(4)] q1_def]
  have "n - 1 < ossl_quic_sstream_get_cur_size q1" using m(2) f1(4) assms(4) by simp
  note f2 = ack_step [OF f1(1,3) this q2_def]
  have "b < ossl_quic_sstream_get_cur_size q2" using assms(4,8) f1(4) f2(4) by simp
  note f3 = ack_step [OF f2(1,3) this q [folded q1_def, folded q2_def]]
  have s: "acked_set q = [\<lparr>rstart = 0, rend = a\<rparr>, \<lparr>rstart = a + 1, rend = n - 1\<rparr>]"
    unfolding f3(2) f2(2) f1(2) assms(3) by (rule bordering_acks [OF assms(5-7) m(1)])
  have cur: "ossl_quic_sstream_get_cur_size q = n" using f1(4) f2(4) f3(4) assms(4) by simp
  have "uset (acked_set q) = {..<n}" using m(3) a1 an unfolding s by (auto simp: word_le_nat_alt word_less_nat_alt)
  moreover have "\<not> ossl_quic_sstream_is_totally_acked q" using totally_acked_iff [OF ss_reach_inv [OF f3(1)]] s by simp
  moreover have "ctail_offset (ss_ring_buf q) = a + 1" using ss_reach_inv [OF f3(1)] s by (simp add: ss_inv_def acked_prefix_def)
  then have "ossl_quic_sstream_get_buffer_used q = unat n - unat a - 1"
    using cur a1 an by (simp add: ossl_quic_sstream_get_buffer_used_def ring_buf_used_def ossl_quic_sstream_get_cur_size_def unat_sub word_le_nat_alt word_less_nat_alt)
  ultimately show ?thesis using cur f1 f2 f3 by simp
qed

theorem sstream_totally_acked_missed_witness:
  "\<exists>q. ss_reach (\<lambda>_. 0) q \<and> ossl_quic_sstream_get_cur_size q = 3 \<and> uset (acked_set q) = {..<3} \<and> \<not> have_final_size q
     \<and> \<not> ossl_quic_sstream_is_totally_acked q \<and> ossl_quic_sstream_get_buffer_used q = 2"
proof -
  obtain q where q: "ss_reach (\<lambda>_. 0) q" "new_set q = []" "acked_set q = []" "ossl_quic_sstream_get_cur_size q = 3" "\<not> have_final_size q"
    using demo_sent by blast
  show ?thesis using sstream_totally_acked_missed [OF q(1-3) q(4) [symmetric], of 0 2 2, OF _ _ _ _ refl] q(5) by auto
qed

end
