(* ===== verification/Spec2Isabelle.thy ===== *)
theory Spec2Isabelle
  imports WirePktBytes RStream SStream
begin

text \<open>
  This library verifies the QUIC transport of OpenSSL 3.4.0, which the repository vendors under
  \<^verbatim>\<open>src/openssl-3.4.0\<close>, from the checked arithmetic at the bottom to the delivery of
  a stream between two ends of a connection. File names below are relative to that directory.

  \<^bold>\<open>The program and how its parts interact.\<close> An application writes bytes to a send stream
  (\<^verbatim>\<open>ssl/quic/quic_sstream.c\<close>), which keeps them in a ring buffer
  (\<^verbatim>\<open>include/internal/ring_buf.h\<close>) and remembers in two sets of integers
  (\<^verbatim>\<open>ssl/quic/uint_set.c\<close>) what has to be sent and what was acknowledged. A packetiser
  takes frames from it within the credit of the send flow controllers (\<^verbatim>\<open>ssl/quic/quic_fc.c\<close>) and writes them
  with the frame encoders (\<^verbatim>\<open>ssl/quic/quic_wire.c\<close>) over the packet writer
  (\<^verbatim>\<open>crypto/packet.c\<close>) and the variable-length integers (\<^verbatim>\<open>crypto/quic_vlint.c\<close>). A
  packet gets a header, which is then protected (\<^verbatim>\<open>ssl/quic/quic_wire_pkt.c\<close>). The other
  end removes the protection, decodes header and frames over the packet reader
  (\<^verbatim>\<open>include/internal/packet.h\<close>), checks each stream frame against the receive flow controllers, and
  queues it in a receive stream (\<^verbatim>\<open>ssl/quic/quic_rstream.c\<close>), which reassembles the data in a list
  of frames (\<^verbatim>\<open>ssl/quic/quic_sf_list.c\<close>) and a ring buffer; what the application has read
  opens the windows again at a pace that depends on the round trip time (\<^verbatim>\<open>ssl/quic/quic_statm.c\<close>).

  \<^bold>\<open>The theories, from the bottom up.\<close> Definitions keep the names of the C functions and types they
  translate; a loop of a function is a definition of its own beside it.
    \<^item> \<open>Prelude\<close>: machine types, shared facts on words, intervals and lists.
    \<^item> \<open>SafeMath\<close>: \<^verbatim>\<open>include/internal/safe_math.h\<close> (\<open>safe_add\<close>, \<open>safe_muldiv\<close>, \<dots>) in both
      preprocessor variants, shown equal and exact where no overflow is flagged, and the saturating times of
      \<^verbatim>\<open>include/internal/time.h\<close>.
    \<^item> \<open>UintSet\<close>: the sets of integers. The linked list of ranges is a list. Insertion, removal and query refine the
      operations on mathematical sets (locale \<open>integer_set\<close>, interpreted as \<open>us\<close>), whatever the order of calls; what
      a failed allocation does is shown too.
    \<^item> \<open>Vlint\<close>, \<open>Packet\<close>, \<open>WPacket\<close>: variable-length integers, the reader and the writer. Readers never leave
      their packet, sub-packets are exact, and what a sequence of writer calls appends is read back. The locale
      \<open>packet_codec\<close> lifts the round trip of one item to sequences; it is interpreted for integers (\<open>vlint\<close>) and
      for whole frames (\<open>frames\<close>).
    \<^item> \<open>QuicTypes\<close>, \<open>WireEnc\<close>, \<open>WireDec\<close>, \<open>WireFrames\<close>: frame types, every encoder and decoder of frames and
      transport parameters. No decoder leaves its packet, any sequence of frames is read back, and which ACK frames are accepted is
      characterised, with the ranges they give.
    \<^item> \<open>WirePkt\<close>, \<open>WirePktProt\<close>, \<open>WirePktHdr\<close>, \<open>WirePktCodec\<close>, \<open>WirePktProps\<close>, \<open>WirePktWf\<close>, \<open>WirePktBytes\<close>:
      packet headers, header protection, packet numbers and the integrity tag of Retry packets: headers are read
      back, also through protection, packet numbers are recovered from their shortened form, and every decoded header
      is well formed.
    \<^item> \<open>FlowControl\<close>: the send and receive controllers of streams and their connection, in a store of controllers.
      Reachable senders stay within their limits (locale \<open>credit_account\<close>, interpreted as \<open>txa\<close>), what a sender
      is granted the receiver accepts, and errors are raised exactly where the limits call for them.
    \<^item> \<open>RingBuf\<close>, \<open>SfList\<close>, \<open>StatM\<close>, \<open>RStream\<close>: the ring buffer, the list of stream frames, the round trip time
      estimator and the receive stream. The frame list promises its side storage only the contract of the locale
      \<open>side_storage\<close>, which \<open>RStream\<close> interprets on the ring buffer (\<open>ring\<close>). Whatever the order, overlap and
      storage of frames, the application reads the stream from its start. When a locked head loses its packet and when a record claims too early
      to be the last is characterised as well.
    \<^item> \<open>SStream\<close>: the send stream: what its frames carry, exactly when it reports that everything is acknowledged, and when it misses that.
    \<^item> This theory: a send stream and a receive stream with the wire format and a network between them; bytes arrive as they were written.

  \<^bold>\<open>Conventions.\<close> Machine integers are words of their width, with C's wrap-around. Counts of bytes of an object in memory
  (\<^verbatim>\<open>size_t\<close>) are natural numbers, with the guards of the code. A pointer to bytes is the memory from there
  on. A function that returns 0 and leaves its outputs alone gives \<open>None\<close>; one that changes its
  state before it fails returns a truth value and the state. The outcomes of the
  allocator, the readings of the clock, the ciphers and the AEAD are parameters.

  \<^bold>\<open>Termination and bounds.\<close> Loops are structurally recursive where the code walks a list. The two loops
  of the ring buffer that split a write at the end of the memory need at most two rounds, the bound \<open>write_at_loop\<close> is
  given. The loop of \<open>ring_buf_resize\<close> is a partial function with \<open>None\<close> for a call that does not return, and
  is shown to return. Stream offsets are below \<open>2 ^ 62\<close>, the limit of the code (\<open>MAX_OFFSET\<close>) and of variable-length integers.

  \<^bold>\<open>Not modelled.\<close>
    \<^item> The objects that own connections, packets in flight and keys (channel, port, engine, demultiplexer, record
      layer, packetiser, depacketiser, ACK manager, stream map, connection identifier managers): they are graphs
      of mutable objects that call each other, the TLS handshake, timers and the network through function pointers. The depacketiser's choice of a decoder
      for a frame type is part of \<open>WireFrames\<close>; the reference counts of received packets are part of \<open>SfList\<close>.
    \<^item> TLS, DTLS and their record layers, \<^verbatim>\<open>libcrypto\<close>, the providers, the command line tools and the
      tests of OpenSSL, none of which QUIC's transport calls except for ciphers and memory, which are parameters.
    \<^item> The signed variants of the checked arithmetic, which the transport does not use.
    \<^item> The Ruby gateway beside the vendored library (\<^verbatim>\<open>src/server.rb\<close>, \<^verbatim>\<open>src/app\<close>): handlers of a web server that pass
      messages between devices, Redis and an application through third-party gems.
    \<^item> Log output, the clearing of the mask in builds for fuzzing, and the overwriting of memory before it is released. No function modelled here
      reads such memory again; an application that still uses a record whose frame was released would.
\<close>

section \<open>Delivery of a stream\<close>

text \<open>
  A send stream and a receive stream with a network between them. The sender writes the stream \<open>f\<close> and takes frames to send, which
  it may shorten; a frame becomes the encoded header followed by the parts of the data, as the packetiser does it. The network keeps everything that was ever
  sent in \<open>M\<close>, together with the mark whether the frame has a length field, and delivers what it likes, as often and in the order it likes.
  A frame that is delivered is decoded and queued as the frame handler does it; one without a length field ends the packet. The limits of flow
  control, which are variable-length integers, keep the frames below \<open>2 ^ 62\<close>.
\<close>

definition frame_sent :: "OSSL_QUIC_FRAME_STREAM \<Rightarrow> u64 \<Rightarrow> bool \<Rightarrow> nat \<Rightarrow> OSSL_QUIC_FRAME_STREAM" where
  "frame_sent h sid ex n = h\<lparr>st_stream_id := sid, has_explicit_len := ex, st_len := of_nat n, st_is_fin := st_is_fin h \<and> n = unat (st_len h)\<rparr>"

inductive delivery ::
  "(nat \<Rightarrow> u8) \<Rightarrow> QUIC_SSTREAM \<Rightarrow> (u8 list \<times> bool) set \<Rightarrow> QUIC_RSTREAM \<Rightarrow> u8 list \<Rightarrow> u8 list \<Rightarrow> nat set \<Rightarrow> nat \<Rightarrow> bool \<Rightarrow> bool" for f where
  start: "ossl_quic_sstream_new alloc malloc n = Some (Some qss) \<Longrightarrow> \<forall>k mem. malloc k = Some mem \<longrightarrow> length mem = k \<Longrightarrow> n \<le> SIZE_MAX \<Longrightarrow>
    ossl_quic_rstream_new alloc' malloc' refs rxfc statm n' = Some (Some qrs) \<Longrightarrow> \<forall>k mem. malloc' k = Some mem \<longrightarrow> length mem = k \<Longrightarrow> n' \<le> SIZE_MAX \<Longrightarrow>
    delivery f qss {} qrs [] [] {} 0 False"
| sender: "delivery f qss M qrs out pend S E fn \<Longrightarrow> ss_step f qss qss' \<Longrightarrow> delivery f qss' M qrs out pend S E fn"
| send: "delivery f qss M qrs out pend S E fn \<Longrightarrow> ossl_quic_sstream_get_stream_frame qss skip hdr 2 = Some (h, iov) \<Longrightarrow>
    n \<le> unat (st_len h) \<Longrightarrow> unat (st_offset h) + n < 2 ^ 62 \<Longrightarrow> vl_ok sid \<Longrightarrow> w_inv w \<Longrightarrow> w_out w = [] \<Longrightarrow>
    ossl_quic_wire_encode_frame_stream_hdr w (frame_sent h sid ex n) = (True, w') \<Longrightarrow>
    delivery f qss (insert (w_out w' @ iov_bytes (ossl_quic_sstream_adjust_iov n iov), ex) M) qrs out pend S E fn"
| receive: "delivery f qss M qrs out pend S E fn \<Longrightarrow> (bytes, ex) \<in> M \<Longrightarrow> packet_wf p \<Longrightarrow> pdata p = bytes @ rest \<Longrightarrow> ex \<or> rest = [] \<Longrightarrow>
    ossl_quic_wire_decode_frame_stream p False = Some (g, p') \<Longrightarrow>
    ossl_quic_rstream_queue_data alloc qrs pkt (st_offset g) (st_data g) (st_len g) (st_is_fin g) = (ok, qrs') \<Longrightarrow>
    delivery f qss M qrs' out pend (if ok then S \<union> {unat (st_offset g)..<unat (st_offset g) + unat (st_len g)} else S)
      (if ok then max E (unat (st_offset g) + unat (st_len g)) else E) (fn \<or> ok \<and> st_is_fin g)"
| receiver: "delivery f qss M qrs out pend S E fn \<Longrightarrow> rs_use qrs out pend qrs' out' pend' \<Longrightarrow> delivery f qss M qrs' out' pend' S E fn"

text \<open>What is on the network at any time is a frame of the stream.\<close>

definition stream_frame_of :: "(nat \<Rightarrow> u8) \<Rightarrow> QUIC_SSTREAM \<Rightarrow> OSSL_QUIC_FRAME_STREAM \<Rightarrow> u8 list \<Rightarrow> bool" where
  "stream_frame_of f qss g d \<longleftrightarrow> stream_hdr_ok g \<and> unat (st_offset g) + unat (st_len g) < 2 ^ 62
     \<and> d = map f [unat (st_offset g)..<unat (st_offset g) + unat (st_len g)] \<and> unat (st_offset g) + unat (st_len g) \<le> unat (ossl_quic_sstream_get_cur_size qss)
     \<and> (st_is_fin g \<longrightarrow> have_final_size qss \<and> unat (st_offset g) + unat (st_len g) = unat (ossl_quic_sstream_get_cur_size qss))"

lemma stream_frame_grows: "ss_step f qss qss' \<Longrightarrow> ss_inv f qss \<Longrightarrow> stream_frame_of f qss g d \<Longrightarrow> stream_frame_of f qss' g d"
  using ss_step_grows [of f qss qss'] by (auto simp: stream_frame_of_def)

lemma frame_sent_ok:
  assumes inv: "ss_inv f qss" and g: "ossl_quic_sstream_get_stream_frame qss skip hdr 2 = Some (h, iov)"
    and n: "n \<le> unat (st_len h)" "unat (st_offset h) + n < 2 ^ 62" "vl_ok sid"
  shows "stream_frame_of f qss (frame_sent h sid ex n) (iov_bytes (ossl_quic_sstream_adjust_iov n iov))"
proof -
  note s = sent_frame [OF inv g]
  let ?o = "unat (st_offset h)"
  have u: "unat (of_nat n :: u64) = n" using n(2) by (simp add: unat_of_nat_u64)
  have "iov_bytes (ossl_quic_sstream_adjust_iov n iov) = take n (map f [?o..<?o + unat (st_len h)])"
    using adjust_loop_correct [OF s(10), of n 0] s(1) by (simp add: ossl_quic_sstream_adjust_iov_def)
  also have "\<dots> = map f [?o..<?o + n]" using n(1) by (simp add: take_map)
  finally have b: "iov_bytes (ossl_quic_sstream_adjust_iov n iov) = map f [?o..<?o + n]" .
  have "unat (st_offset h + st_len h) = ?o + unat (st_len h)" using s(2) unat_u64_bound [of "ossl_quic_sstream_get_cur_size qss"] by (simp add: unat_add_exact)
  then have "?o + unat (st_len h) = unat (ossl_quic_sstream_get_cur_size qss)" if "st_is_fin h" using s(4) that by simp
  then show ?thesis using b u s(2,4) n by (auto simp: stream_frame_of_def frame_sent_def stream_hdr_ok_def)
qed

lemma frame_received_ok:
  assumes f: "stream_frame_of f qss g d" and p: "packet_wf p" "pdata p = stream_hdr g @ d @ rest" "has_explicit_len g \<or> rest = []"
    and r: "ossl_quic_wire_decode_frame_stream p False = Some (g', p')"
  shows "st_offset g' = st_offset g" "st_len g' = st_len g" "st_is_fin g' = st_is_fin g" "carries f (st_offset g') (st_data g') (st_len g')"
    "st_data g' \<noteq> None"
proof -
  have len: "length d = unat (st_len g)" using f by (simp add: stream_frame_of_def)
  let ?g = "g\<lparr>st_data := Some d\<rparr>"
  have h: "stream_hdr_ok ?g" "stream_hdr ?g = stream_hdr g" "unat (st_offset ?g) + unat (st_len ?g) < 2 ^ 62"
    using f by (simp_all add: stream_frame_of_def stream_hdr_ok_def stream_hdr_def stream_type_def)
  have "\<exists>q. seen stream_view (\<lambda>p. ossl_quic_wire_decode_frame_stream p False) p = Some (?g, q)"
  proof (cases "has_explicit_len g")
    case True
    then show ?thesis using readsD [OF reads_stream [OF h(1) _ h(3), of d] p(1), of rest] p(2) len h(2) by simp
  next
    case False
    then show ?thesis using decode_stream_rest [OF p(1) h(1) _ h(3), of d] p(2,3) len h(2) by simp
  qed
  then have v: "stream_view g' = ?g" using r by (auto simp: seen_def)
  have e: "st_offset g' = st_offset g" "st_len g' = st_len g" "st_is_fin g' = st_is_fin g"
    using arg_cong [OF v, of st_offset] arg_cong [OF v, of st_len] arg_cong [OF v, of st_is_fin] by (simp_all add: stream_view_def)
  have e4: "map_option (take (unat (st_len g))) (st_data g') = Some d" using arg_cong [OF v, of st_data] e(2) by (simp add: stream_view_def)
  show "st_offset g' = st_offset g" "st_len g' = st_len g" "st_is_fin g' = st_is_fin g" by (rule e)+
  show "st_data g' \<noteq> None" using e4 by auto
  obtain b where b: "st_data g' = Some b" "take (unat (st_len g)) b = d" using e4 by auto
  have dk: "d ! k = f (unat (st_offset g) + k)" if "k < unat (st_len g)" for k using f that by (simp add: stream_frame_of_def)
  have "unat (st_len g) \<le> length b" using arg_cong [OF b(2), of length] len by simp
  moreover have "b ! k = f (unat (st_offset g) + k)" if "k < unat (st_len g)" for k
    using dk [OF that] nth_take [OF that, of b] b(2) by simp
  ultimately show "carries f (st_offset g') (st_data g') (st_len g')" using b(1) e f by (simp add: carries_def stream_frame_of_def)
qed

lemma delivery_invariant:
  "delivery f qss M qrs out pend S E fn \<Longrightarrow> ss_reach f qss \<and> rs_reach f qrs out pend S E fn
    \<and> (\<forall>(bytes, ex) \<in> M. \<exists>g d. stream_frame_of f qss g d \<and> bytes = stream_hdr g @ d \<and> has_explicit_len g = ex)
    \<and> S \<subseteq> {..<unat (ossl_quic_sstream_get_cur_size qss)} \<and> E \<le> unat (ossl_quic_sstream_get_cur_size qss)
    \<and> (fn \<longrightarrow> have_final_size qss \<and> E = unat (ossl_quic_sstream_get_cur_size qss))"
proof (induction rule: delivery.induct)
  case (start alloc malloc n qss alloc' malloc' refs rxfc statm n' qrs)
  then show ?case using ss_new [of alloc malloc n qss f] rs_new [of alloc' malloc' refs rxfc statm n' qrs f] by auto
next
  case (sender qss M qrs out pend S E fn qss')
  have inv: "ss_inv f qss" using sender.IH ss_reach_inv by blast
  note g = ss_step_grows [OF sender.hyps(2) inv]
  have "ss_reach f qss'" using sender.IH ss_next [OF _ sender.hyps(2)] by blast
  moreover have "\<forall>(bytes, ex) \<in> M. \<exists>g d. stream_frame_of f qss' g d \<and> bytes = stream_hdr g @ d \<and> has_explicit_len g = ex"
    using sender.IH stream_frame_grows [OF sender.hyps(2) inv] by fastforce
  ultimately show ?case using sender.IH g by auto
next
  case (send qss M qrs out pend S E fn skip hdr h iov n sid w ex w')
  have inv: "ss_inv f qss" using send.IH ss_reach_inv by blast
  let ?g = "frame_sent h sid ex n" and ?d = "iov_bytes (ossl_quic_sstream_adjust_iov n iov)"
  have f: "stream_frame_of f qss ?g ?d" by (rule frame_sent_ok [OF inv send.hyps(2-5)])
  then have "stream_hdr_ok ?g" by (simp add: stream_frame_of_def)
  then have "w_out w' = stream_hdr ?g" using appendsD(2) [OF appends_stream_hdr send.hyps(6,8)] send.hyps(7) by simp
  moreover have "has_explicit_len ?g = ex" by (simp add: frame_sent_def)
  ultimately show ?case using send.IH f by blast
next
  case (receive qss M qrs out pend S E fn bytes ex p rest g' p' alloc pkt ok qrs')
  obtain g d where f: "stream_frame_of f qss g d" "bytes = stream_hdr g @ d" "has_explicit_len g = ex" using receive.IH receive.hyps(2) by blast
  note r = frame_received_ok [OF f(1) receive.hyps(3) _ _ receive.hyps(6), of rest]
  have e: "st_offset g' = st_offset g" "st_len g' = st_len g" "st_is_fin g' = st_is_fin g" "carries f (st_offset g') (st_data g') (st_len g')"
    using r receive.hyps(4,5) f(2,3) by simp_all
  let ?e = "unat (st_offset g) + unat (st_len g)" and ?cur = "unat (ossl_quic_sstream_get_cur_size qss)"
  have b: "?e \<le> ?cur" "st_is_fin g \<longrightarrow> have_final_size qss \<and> ?e = ?cur" using f(1) by (simp_all add: stream_frame_of_def)
  have rr: "rs_reach f qrs out pend S E fn" using receive.IH by blast
  show ?case
  proof (cases ok)
    case True
    then show ?thesis using rs_queue [OF rr e(4), of alloc pkt "st_is_fin g'" qrs'] receive.hyps(7) receive.IH b e(1-3) by auto
  next
    case False
    then show ?thesis using rs_queue_failed [OF rr e(4), of alloc pkt "st_is_fin g'" qrs'] receive.hyps(7) receive.IH by simp
  qed
next
  case (receiver qss M qrs out pend S E fn qrs' out' pend')
  then show ?case using rs_used by blast
qed

text \<open>C1: delivery of a stream. Whatever the application writes, the packetiser does and the network loses, duplicates or reorders,
  the bytes the receiving application gets are a prefix of those that were written; what it can read next is the run of received bytes that
  follows; it is told that the stream has ended only when the sender has finished it and every byte written has been read or
  can be; and once every byte of a finished stream and the end mark have been received, all the rest can be read and the end is reported.
\<close>

theorem stream_delivery:
  assumes "delivery f qss M qrs out pend S E fn"
  shows "out = map f [0..<length out] \<and> length out \<le> unat (ossl_quic_sstream_get_cur_size qss) \<and>
    (\<exists>a fin. ossl_quic_rstream_available qrs = (a, fin) \<and> (\<forall>k < a. length out + k \<in> S)
      \<and> fst (ossl_quic_rstream_peek qrs sz) = Some (map f [length out..<length out + min sz a], fin \<and> a \<le> sz)
      \<and> (fin \<longrightarrow> map_option unat (ossl_quic_sstream_get_final_size qss) = Some (length out + a))
      \<and> ({..<unat (ossl_quic_sstream_get_cur_size qss)} \<subseteq> S \<longrightarrow> length out + a = unat (ossl_quic_sstream_get_cur_size qss) \<and> fin = fn))"
proof -
  let ?cur = "unat (ossl_quic_sstream_get_cur_size qss)"
  have d: "rs_reach f qrs out pend S E fn" "S \<subseteq> {..<?cur}" "E \<le> ?cur" "fn \<longrightarrow> have_final_size qss \<and> E = ?cur"
    using delivery_invariant [OF assms] by blast+
  obtain a where a: "out = map f [0..<length out]" "ossl_quic_rstream_available qrs = (a, fn \<and> length out + a = E)"
      "\<forall>k < a. length out + k \<in> S" "length out + a \<notin> S" "length out + a \<le> E"
      "fst (ossl_quic_rstream_peek qrs sz) = Some (map f [length out..<length out + min sz a], fn \<and> length out + min sz a = E)"
    using rs_reach_reads [OF d(1)] by blast
  have "map_option unat (ossl_quic_sstream_get_final_size qss) = Some (length out + a)" if "fn \<and> length out + a = E"
    using d(4) that by (simp add: ossl_quic_sstream_get_final_size_def ossl_quic_sstream_get_cur_size_def)
  moreover have p: "(fn \<and> length out + min sz a = E) = ((fn \<and> length out + a = E) \<and> a \<le> sz)" using a(5) by (auto simp: min_def)
  moreover have "length out + a = ?cur \<and> E = ?cur" if "{..<?cur} \<subseteq> S"
  proof -
    have "\<not> length out + a < ?cur" using that a(4) by auto
    then show ?thesis using a(5) d(3) by linarith
  qed
  moreover have "length out \<le> ?cur" using a(5) d(3) by linarith
  ultimately show ?thesis
    using a(1-3) a(6) [unfolded p] by (intro conjI exI [of _ a] exI [of _ "fn \<and> length out + a = E"]) simp_all
qed


lemma demo_sender:
  assumes qrs: "ossl_quic_rstream_new True (\<lambda>k. Some (replicate k 0)) (\<lambda>_. 0) None None 4 = Some (Some qrs)"
  obtains qss where "delivery (\<lambda>_. 7) qss {} qrs [] [] {} 0 False" "new_set qss = [\<lparr>rstart = 0, rend = 1\<rparr>]" "have_final_size qss"
      "head_offset (ss_ring_buf qss) = 2"
proof -
  let ?new = "ossl_quic_sstream_new True (\<lambda>k. Some (replicate k 0)) 4" and ?f = "\<lambda>_ :: nat. 7 :: u8"
  define q0 where "q0 = the (the ?new)"
  have "case ?new of Some (Some q) \<Rightarrow> True | _ \<Rightarrow> False" by code_simp
  then have new: "?new = Some (Some q0)" unfolding q0_def by (auto split: option.splits)
  note q = sstream_new_correct [OF new]
  have 0: "delivery ?f q0 {} qrs [] [] {} 0 False" by (rule start [OF new _ _ qrs]) simp_all
  have i: "ss_inv ?f q0" "rb_inv (ss_ring_buf q0)" using q(1) [of ?f] by (simp_all add: ss_inv_def)
  have "ring_buf_avail (ss_ring_buf q0) = 4" unfolding q0_def by code_simp
  then have av: "rb_alloc (ss_ring_buf q0) - (unat (head_offset (ss_ring_buf q0)) - unat (ctail_offset (ss_ring_buf q0))) = 4"
    by (simp add: ring_buf_avail_def ring_buf_used_eq [OF i(2)])
  obtain r c where l: "append_loop (ss_ring_buf q0) [7, 7] 2 0 = (r, c)" by (rule prod.exhaust)
  have c: "c = 2" using append_loop_correct(1) [OF i(2) _ l refl] av q(2) by simp
  let ?q1 = "q0\<lparr>ss_ring_buf := r, new_set := [\<lparr>rstart = 0, rend = 1\<rparr>]\<rparr>"
  have a: "ossl_quic_sstream_append True q0 [7, 7] 2 = (True, 2, ?q1)"
    using l c q by (simp add: ossl_quic_sstream_append_def ossl_uint_set_insert_def)
  have h: "head_offset r = 2" using append_loop_correct(5) [OF i(2) _ l refl] av q(2) by (simp add: word_unat_eq_iff)
  have "\<forall>k < 2. [7, 7 :: u8] ! k = 7" by (simp add: numeral_eq_Suc All_less_Suc)
  then have "ss_step ?f q0 ?q1" by (intro ss_append [OF _ _ a]) simp_all
  from sender [OF sender [OF 0 this] ss_fin] show thesis using that [of "ossl_quic_sstream_fin ?q1"] qrs h q(5) by (simp add: ossl_quic_sstream_fin_def)
qed

theorem stream_delivery_witness:
  "\<exists>qss M qrs. delivery (\<lambda>_. 7) qss M qrs [] [] {0..<2} 2 True \<and> ossl_quic_rstream_available qrs = (2, True)
     \<and> fst (ossl_quic_rstream_peek qrs 5) = Some ([7, 7], True)"
proof -
  let ?new = "ossl_quic_rstream_new True (\<lambda>k. Some (replicate k 0)) (\<lambda>_. 0) None None 4" and ?f = "\<lambda>_ :: nat. 7 :: u8"
  define qrs where "qrs = the (the ?new)"
  have "case ?new of Some (Some q) \<Rightarrow> True | _ \<Rightarrow> False" by code_simp
  then have new: "?new = Some (Some qrs)" unfolding qrs_def by (auto split: option.splits)
  obtain qss where 1: "delivery ?f qss {} qrs [] [] {} 0 False" and q: "new_set qss = [\<lparr>rstart = 0, rend = 1\<rparr>]" "have_final_size qss"
    "head_offset (ss_ring_buf qss) = 2" by (rule demo_sender [OF new])
  have inv: "ss_inv ?f qss" using delivery_invariant [OF 1] ss_reach_inv by blast
  let ?hdr = "\<lparr>st_stream_id = 0, st_offset = 0, st_len = 0, st_data = None, has_explicit_len = True, st_is_fin = False\<rparr> :: OSSL_QUIC_FRAME_STREAM"
  let ?h = "?hdr\<lparr>st_offset := 0, st_len := 2, st_is_fin := True\<rparr>" and ?g = "?hdr\<lparr>st_stream_id := 4, st_len := 2, st_is_fin := True\<rparr>"
  obtain iov where g: "ossl_quic_sstream_get_stream_frame qss 0 ?hdr 2 = Some (?h, iov)"
  proof -
    have n: "0 < length (new_set qss)" "\<lparr>rstart = 0, rend = 1\<rparr> = new_set qss ! 0" unfolding q(1) by simp_all
    have "1 - 0 + 1 = (2 :: u64)" "1 + 1 = (2 :: u64)" by simp_all
    then show thesis using get_stream_frame_correct [OF inv n, of ?hdr] that unfolding q(3) by (simp add: q(2)) blast
  qed
  have sent: "frame_sent ?h 4 True 2 = ?g" by (simp add: frame_sent_def)
  let ?d = "iov_bytes (ossl_quic_sstream_adjust_iov 2 iov)"
  have f: "stream_frame_of ?f qss ?g ?d" using frame_sent_ok [OF inv g, of 2 4 True] unfolding sent by simp
  then have ok: "stream_hdr_ok ?g" by (simp add: stream_frame_of_def)
  have "length (stream_hdr ?g) \<le> 16" by (simp add: stream_hdr_def stream_type_def length_vl vlint_encode_len_cases)
  then have "fst (ossl_quic_wire_encode_frame_stream_hdr w_demo ?g)" using appendsD(4) [OF appends_stream_hdr [OF ok] w_demo(1)] w_demo(3) by blast
  then obtain w' where w': "ossl_quic_wire_encode_frame_stream_hdr w_demo ?g = (True, w')" by (metis prod.collapse)
  let ?bytes = "w_out w' @ ?d"
  have 2: "delivery ?f qss {(?bytes, True)} qrs [] [] {} 0 False"
    using send [OF 1 g, of 2 4 w_demo True w'] w' w_demo(1,2) unfolding sent by simp
  have out: "w_out w' = stream_hdr ?g" using appendsD(2) [OF appends_stream_hdr [OF ok] w_demo(1) w'] w_demo(2) by simp
  let ?p = "\<lparr>p_curr = ?bytes, p_remaining = length ?bytes\<rparr>"
  have p: "packet_wf ?p" "pdata ?p = ?bytes @ []" by (simp_all add: packet_wf_def pdata_def)
  have d: "length ?d = 2" using f by (simp add: stream_frame_of_def)
  have "seen stream_view (\<lambda>p. ossl_quic_wire_decode_frame_stream p False) ?p \<noteq> None"
    using readsD [OF reads_stream [of "?g\<lparr>st_data := Some ?d\<rparr>" ?d] p(1), of "[]"] ok d out p(2)
    by (simp add: stream_hdr_ok_def stream_hdr_def stream_type_def)
  then obtain g' p' where r: "ossl_quic_wire_decode_frame_stream ?p False = Some (g', p')" by (auto simp: seen_def)
  have e: "st_offset g' = 0" "st_len g' = 2" "st_is_fin g'" "st_data g' \<noteq> None"
    using frame_received_ok [OF f p(1) _ _ r, of "[]"] p(2) out by simp_all
  have z: "frames (rs_fl qrs) = []" "fl_offset (rs_fl qrs) = 0" using new_correct(2) [OF new] by (simp_all add: ossl_sframe_list_init_def)
  obtain qrs' where qd: "ossl_quic_rstream_queue_data True qrs None (st_offset g') (st_data g') (st_len g') (st_is_fin g') = (True, qrs')"
    using e z by (simp add: ossl_quic_rstream_queue_data_def ossl_sframe_list_insert_def stream_frame_new_def insert_end_def)
  have 3: "delivery ?f qss {(?bytes, True)} qrs' [] [] {0..<2} 2 True"
  proof -
    have "unat (st_offset g') + unat (st_len g') = 2" "unat (st_offset g') = 0" using e(1,2) by simp_all
    then show ?thesis using receive [OF 2 singletonI p(1,2) _ r qd] e(3) by (simp only: if_True simp_thms Un_empty_left max_0L)
  qed
  have "map ?f [0..<2] = [7, 7]" by (simp add: numeral_eq_Suc)
  moreover have "ossl_quic_sstream_get_cur_size qss = 2" by (simp add: ossl_quic_sstream_get_cur_size_def q(3))
  moreover have "{..<2} \<subseteq> {0..<2 :: nat}" by auto
  ultimately show ?thesis using 3 stream_delivery [OF 3, of 5] by (intro exI [of _ qss] exI [of _ "{(?bytes, True)}"] exI [of _ qrs']) auto
qed

end
